(* ===== verification/Ebus_Prelude.thy ===== *)
theory Ebus_Prelude
  imports Main "HOL-Library.Word"
begin

text \<open>
  Shared vocabulary of the development: the machine integers of the C++ sources
  (\<open>uint8_t\<close>, \<open>uint16_t\<close>, \<open>uint32_t\<close>, \<open>uint64_t\<close>), the collections of rewrite rules
  the component theories fill, and the generic facts on words, lists and options that
  several components use.
\<close>

unbundle bit_operations_syntax

type_synonym u8 = "8 word"
type_synonym u16 = "16 word"
type_synonym u32 = "32 word"
type_synonym u64 = "64 word"
type_synonym bytes = "u8 list"

text \<open>
  \<open>wire_simps\<close> collects what is known of byte stuffing and of the checksum,
  \<open>handler_simps\<close> the equations of the protocol engine's small helpers.
\<close>

named_theorems wire_simps
named_theorems handler_simps

section \<open>Exhaustive reasoning over bytes\<close>

text \<open>
  A property of all 256 byte values can be checked by evaluation: \<open>all_u8\<close> runs through
  them as a list.
\<close>

definition all_u8 :: "(u8 \<Rightarrow> bool) \<Rightarrow> bool" where
  "all_u8 P \<longleftrightarrow> list_all (\<lambda>i. P (word_of_int i)) [0..255]"

lemma all_u8D:
  assumes "all_u8 P"
  shows "P x"
proof -
  have "uint x \<in> set [0..255]"
    using uint_lt2p [of x] by simp
  then have "P (word_of_int (uint x))"
    using assms unfolding all_u8_def list_all_iff by (rule bspec [rotated])
  then show ?thesis by simp
qed

section \<open>Lists\<close>

lemma take_Suc_nth: "n < length xs \<Longrightarrow> take (Suc n) xs = take n xs @ [xs ! n]"
  by (rule take_Suc_conv_app_nth)

lemma last_Suc_take: "n < length xs \<Longrightarrow> last (take (Suc n) xs) = xs ! n"
  by (simp add: take_Suc_conv_app_nth)

lemma length_filter_take_Suc:
  "n < length xs \<Longrightarrow>
    length (filter P (take (Suc n) xs)) = length (filter P (take n xs)) + (if P (xs ! n) then 1 else 0)"
  by (simp add: take_Suc_conv_app_nth)

text \<open>The last two elements of a list that is long enough.\<close>

lemma snoc2_exhaust:
  assumes "2 \<le> length xs"
  obtains ys p q where "xs = ys @ [p, q]"
proof -
  from assms obtain zs q where zs: "xs = zs @ [q]"
    by (cases xs rule: rev_cases) auto
  with assms obtain ys p where "zs = ys @ [p]"
    by (cases zs rule: rev_cases) auto
  with zs show thesis by (auto intro: that)
qed

end
