(* ===== verification/Ebus_Types.thy ===== *)
theory Ebus_Types
  imports Ebus_Prelude
begin

text \<open>
  The enumerations and symbols every other component speaks in: the reserved bytes and
  the addressing rules of \<open>include/ebus/address.hpp\<close>, the state and result
  enumerations of \<open>include/ebus/types.hpp\<close>, their names
  (\<open>src/ebus/core/types.cpp\<close>) and the protocol limits of
  \<open>include/ebus/detail/protocol_limits.hpp\<close>. An enumerator keeps its C++ name; one that
  would collide with a HOL constant carries its enumeration as a prefix.
\<close>

section \<open>Enumerations\<close>

datatype TelegramType = type_undefined | broadcast | master_master | master_slave

datatype LogLevel = level_none | level_error | level_info | level_debug

datatype MessageType = message_undefined | message_active | message_passive | message_reactive

datatype SequenceState =
    seq_empty
  | seq_ok
  | err_seq_too_short
  | err_seq_too_long
  | err_source_address
  | err_target_address
  | err_data_byte
  | err_crc_invalid
  | err_ack_invalid
  | err_ack_missing
  | err_ack_negative

datatype HandlerState =
    passive_receive_master
  | passive_receive_master_acknowledge
  | passive_receive_slave
  | passive_receive_slave_acknowledge
  | reactive_send_master_positive_acknowledge
  | reactive_send_master_negative_acknowledge
  | reactive_send_slave
  | reactive_receive_slave_acknowledge
  | request_bus
  | active_send_master
  | active_receive_master_acknowledge
  | active_receive_slave
  | active_send_slave_positive_acknowledge
  | active_send_slave_negative_acknowledge
  | release_bus

datatype RequestState = observe | first | retry | second

datatype RequestResult =
    observe_syn
  | observe_data
  | first_syn
  | first_won
  | first_retry
  | first_lost
  | first_error
  | retry_syn
  | retry_error
  | second_won
  | second_lost
  | second_error

datatype ProtocolError =
    no_protocol_error
  | error_passive_master
  | error_passive_master_ack
  | error_passive_slave
  | error_passive_slave_ack
  | error_reactive_master
  | error_reactive_master_ack
  | error_reactive_slave
  | error_reactive_slave_ack
  | error_active_master_echo
  | error_active_master
  | error_active_master_ack
  | error_active_slave
  | error_active_slave_ack
  | check_passive_buffers
  | check_active_buffers
  | illegal_fsm_transition
  | handler_busy
  | invalid_message
  | fsm_timeout
  | arbitration_lost
  | total_transfer_timeout

datatype ClientType = client_read_only | client_regular | client_enhanced

datatype SessionState = session_idle | session_request | session_response | session_transmit

text \<open>
  The numeric value of an enumerator of the two state machines, which the transition
  matrices use as a bit position.
\<close>

fun handler_index :: "HandlerState \<Rightarrow> nat" where
  "handler_index passive_receive_master = 0"
| "handler_index passive_receive_master_acknowledge = 1"
| "handler_index passive_receive_slave = 2"
| "handler_index passive_receive_slave_acknowledge = 3"
| "handler_index reactive_send_master_positive_acknowledge = 4"
| "handler_index reactive_send_master_negative_acknowledge = 5"
| "handler_index reactive_send_slave = 6"
| "handler_index reactive_receive_slave_acknowledge = 7"
| "handler_index request_bus = 8"
| "handler_index active_send_master = 9"
| "handler_index active_receive_master_acknowledge = 10"
| "handler_index active_receive_slave = 11"
| "handler_index active_send_slave_positive_acknowledge = 12"
| "handler_index active_send_slave_negative_acknowledge = 13"
| "handler_index release_bus = 14"

fun request_index :: "RequestState \<Rightarrow> nat" where
  "request_index observe = 0"
| "request_index first = 1"
| "request_index retry = 2"
| "request_index second = 3"

section \<open>Names of the enumerators\<close>

text \<open>
  The \<open>toString\<close> overloads of \<open>src/ebus/core/types.cpp\<close>. The \<open>default\<close>
  branch of each switch catches what the switch does not list (for \<open>TelegramType\<close> and
  \<open>MessageType\<close> the undefined value) and values outside the enumeration, which the
  datatypes do not have.
\<close>

fun toString_TelegramType :: "TelegramType \<Rightarrow> string" where
  "toString_TelegramType broadcast = ''broadcast''"
| "toString_TelegramType master_master = ''master_master''"
| "toString_TelegramType master_slave = ''master_slave''"
| "toString_TelegramType type_undefined = ''unknown type''"

fun toString_LogLevel :: "LogLevel \<Rightarrow> string" where
  "toString_LogLevel level_none = ''none''"
| "toString_LogLevel level_error = ''error''"
| "toString_LogLevel level_info = ''info''"
| "toString_LogLevel level_debug = ''debug''"

fun toString_MessageType :: "MessageType \<Rightarrow> string" where
  "toString_MessageType message_active = ''active''"
| "toString_MessageType message_passive = ''passive''"
| "toString_MessageType message_reactive = ''reactive''"
| "toString_MessageType message_undefined = ''unknown type''"

fun toString_SequenceState :: "SequenceState \<Rightarrow> string" where
  "toString_SequenceState seq_empty = ''sequence is empty''"
| "toString_SequenceState seq_ok = ''sequence is ok''"
| "toString_SequenceState err_seq_too_short = ''sequence is too short''"
| "toString_SequenceState err_seq_too_long = ''sequence is too long''"
| "toString_SequenceState err_source_address = ''source address is invalid''"
| "toString_SequenceState err_target_address = ''target address is invalid''"
| "toString_SequenceState err_data_byte = ''data byte is invalid''"
| "toString_SequenceState err_crc_invalid = ''CRC byte is invalid''"
| "toString_SequenceState err_ack_invalid = ''acknowledge byte is invalid''"
| "toString_SequenceState err_ack_missing = ''acknowledge byte is missing''"
| "toString_SequenceState err_ack_negative = ''acknowledge byte is negative''"

fun toString_HandlerState :: "HandlerState \<Rightarrow> string" where
  "toString_HandlerState passive_receive_master = ''passive_receive_master''"
| "toString_HandlerState passive_receive_master_acknowledge = ''passive_receive_master_acknowledge''"
| "toString_HandlerState passive_receive_slave = ''passive_receive_slave''"
| "toString_HandlerState passive_receive_slave_acknowledge = ''passive_receive_slave_acknowledge''"
| "toString_HandlerState reactive_send_master_positive_acknowledge = ''reactive_send_master_positive_acknowledge''"
| "toString_HandlerState reactive_send_master_negative_acknowledge = ''reactive_send_master_negative_acknowledge''"
| "toString_HandlerState reactive_send_slave = ''reactive_send_slave''"
| "toString_HandlerState reactive_receive_slave_acknowledge = ''reactive_receive_slave_acknowledge''"
| "toString_HandlerState request_bus = ''request_bus''"
| "toString_HandlerState active_send_master = ''active_send_master''"
| "toString_HandlerState active_receive_master_acknowledge = ''active_receive_master_acknowledge''"
| "toString_HandlerState active_receive_slave = ''active_receive_slave''"
| "toString_HandlerState active_send_slave_positive_acknowledge = ''active_send_slave_positive_acknowledge''"
| "toString_HandlerState active_send_slave_negative_acknowledge = ''active_send_slave_negative_acknowledge''"
| "toString_HandlerState release_bus = ''release_bus''"

fun toString_RequestState :: "RequestState \<Rightarrow> string" where
  "toString_RequestState observe = ''observe''"
| "toString_RequestState first = ''first''"
| "toString_RequestState retry = ''retry''"
| "toString_RequestState second = ''second''"

fun toString_RequestResult :: "RequestResult \<Rightarrow> string" where
  "toString_RequestResult observe_syn = ''observe_syn''"
| "toString_RequestResult observe_data = ''observe_data''"
| "toString_RequestResult first_syn = ''first_syn''"
| "toString_RequestResult first_won = ''first_won''"
| "toString_RequestResult first_retry = ''first_retry''"
| "toString_RequestResult first_lost = ''first_lost''"
| "toString_RequestResult first_error = ''first_error''"
| "toString_RequestResult retry_syn = ''retry_syn''"
| "toString_RequestResult retry_error = ''retry_error''"
| "toString_RequestResult second_won = ''second_won''"
| "toString_RequestResult second_lost = ''second_lost''"
| "toString_RequestResult second_error = ''second_error''"

fun toString_ProtocolError :: "ProtocolError \<Rightarrow> string" where
  "toString_ProtocolError no_protocol_error = ''none''"
| "toString_ProtocolError error_passive_master = ''Passive master error''"
| "toString_ProtocolError error_passive_master_ack = ''Passive master ACK error''"
| "toString_ProtocolError error_passive_slave = ''Passive slave error''"
| "toString_ProtocolError error_passive_slave_ack = ''Passive slave ACK error''"
| "toString_ProtocolError error_reactive_master = ''Reactive master error''"
| "toString_ProtocolError error_reactive_master_ack = ''Reactive master ACK error''"
| "toString_ProtocolError error_reactive_slave = ''Reactive slave error''"
| "toString_ProtocolError error_reactive_slave_ack = ''Reactive slave ACK error''"
| "toString_ProtocolError error_active_master_echo = ''Active master echo error''"
| "toString_ProtocolError error_active_master = ''Active master error''"
| "toString_ProtocolError error_active_master_ack = ''Active master ACK error''"
| "toString_ProtocolError error_active_slave = ''Active slave error''"
| "toString_ProtocolError error_active_slave_ack = ''Active slave ACK error''"
| "toString_ProtocolError check_passive_buffers = ''Passive buffers check failed''"
| "toString_ProtocolError check_active_buffers = ''Active buffers check failed''"
| "toString_ProtocolError illegal_fsm_transition = ''Illegal FSM Transition''"
| "toString_ProtocolError handler_busy = ''Handler busy''"
| "toString_ProtocolError invalid_message = ''Invalid message''"
| "toString_ProtocolError fsm_timeout = ''FSM timeout''"
| "toString_ProtocolError arbitration_lost = ''Arbitration lost''"
| "toString_ProtocolError total_transfer_timeout = ''Total transfer timeout''"

fun toString_ClientType :: "ClientType \<Rightarrow> string" where
  "toString_ClientType client_read_only = ''read_only''"
| "toString_ClientType client_regular = ''regular''"
| "toString_ClientType client_enhanced = ''enhanced''"

fun toString_SessionState :: "SessionState \<Rightarrow> string" where
  "toString_SessionState session_idle = ''idle''"
| "toString_SessionState session_request = ''request''"
| "toString_SessionState session_response = ''response''"
| "toString_SessionState session_transmit = ''transmit''"

section \<open>Limits\<close>

text \<open>The constants of \<open>detail/protocol_limits.hpp\<close> the modelled code depends on.\<close>

definition default_capacity :: nat where "default_capacity = 64"
definition model_capacity :: nat where "model_capacity = 24"
definition max_data_bytes :: u8 where "max_data_bytes = 16"
definition lock_counter_limit :: u8 where "lock_counter_limit = 25"
definition collision_byte_count :: u32 where "collision_byte_count = 1"
definition scheduler_max_items :: nat where "scheduler_max_items = 8"
definition jitter_threshold_us :: int where "jitter_threshold_us = 2000"
definition top_error_addresses_count :: nat where "top_error_addresses_count = 3"
definition handler_history_size :: nat where "handler_history_size = 10"
definition request_history_size :: nat where "request_history_size = 10"

section \<open>Symbols and addressing\<close>

definition sym_zero :: u8 where "sym_zero = 0x00"
definition syn :: u8 where "syn = 0xaa"
definition ext :: u8 where "ext = 0xa9"
definition syn_ext :: u8 where "syn_ext = 0x01"
definition ext_ext :: u8 where "ext_ext = 0x00"
definition ack :: u8 where "ack = 0x00"
definition nak :: u8 where "nak = 0xff"
definition broad :: u8 where "broad = 0xfe"

lemmas symbol_defs = sym_zero_def syn_def ext_def syn_ext_def ext_ext_def ack_def nak_def broad_def

definition needsEscape :: "u8 \<Rightarrow> bool" where
  "needsEscape byte \<longleftrightarrow> byte = syn \<or> byte = ext"

text \<open>\<open>Symbols::escape\<close> fills a two-byte array: the escape byte, then the escaped value.\<close>

definition escape :: "u8 \<Rightarrow> u8 \<times> u8" where
  "escape byte = (ext, if byte = syn then syn_ext else ext_ext)"

text \<open>\<open>Symbols::unescape\<close> returns false (here \<open>None\<close>) or stores the byte in \<open>out\<close>.\<close>

definition unescape :: "u8 \<Rightarrow> u8 \<Rightarrow> u8 option" where
  "unescape b1 b2 =
     (if b1 \<noteq> ext then None
      else if b2 = syn_ext then Some syn
      else if b2 = ext_ext then Some ext
      else None)"

text \<open>
  \<open>isMaster\<close>: both nibbles must be of the form \<open>2^k - 1\<close>. C++ computes the sums
  in \<open>int\<close>, so nothing wraps; a nibble plus one fits a byte as well.
\<close>

definition isMaster :: "u8 \<Rightarrow> bool" where
  "isMaster byte \<longleftrightarrow>
     ((drop_bit 4 byte AND 0x0f) + 1) AND (drop_bit 4 byte AND 0x0f) = 0 \<and>
     ((byte AND 0x0f) + 1) AND (byte AND 0x0f) = 0"

definition isSlave :: "u8 \<Rightarrow> bool" where
  "isSlave byte \<longleftrightarrow> \<not> isMaster byte \<and> byte \<noteq> syn \<and> byte \<noteq> ext \<and> byte \<noteq> broad"

definition isTarget :: "u8 \<Rightarrow> bool" where
  "isTarget byte \<longleftrightarrow> byte \<noteq> syn \<and> byte \<noteq> ext"

definition masterOf :: "u8 \<Rightarrow> u8" where
  "masterOf byte =
     (if byte = 0x04 then 0xff
      else if byte < 5 then byte
      else (let potential = byte - 5 in if isMaster potential then potential else byte))"

definition slaveOf :: "u8 \<Rightarrow> u8" where
  "slaveOf byte =
     (if byte = 0xff then 0x04
      else if \<not> isMaster byte then byte
      else (let result = byte + 5 in if isSlave result then result else byte))"

definition typeOf :: "u8 \<Rightarrow> TelegramType" where
  "typeOf byte =
     (if byte = broad then broadcast
      else if isMaster byte then master_master
      else master_slave)"

section \<open>Properties of the addressing rules\<close>

text \<open>The 25 master addresses, by priority class (low nibble).\<close>

definition master_addresses :: "u8 list" where
  "master_addresses =
     [0x00, 0x10, 0x30, 0x70, 0xf0, 0x01, 0x11, 0x31, 0x71, 0xf1, 0x03, 0x13, 0x33, 0x73, 0xf3,
      0x07, 0x17, 0x37, 0x77, 0xf7, 0x0f, 0x1f, 0x3f, 0x7f, 0xff]"

lemma isMaster_iff: "isMaster x \<longleftrightarrow> x \<in> set master_addresses"
proof -
  have "all_u8 (\<lambda>x. isMaster x \<longleftrightarrow> x \<in> set master_addresses)"
    by code_simp
  then show ?thesis by (rule all_u8D)
qed

lemma needsEscape_simps [simp]: "needsEscape syn" "needsEscape ext"
  by (simp_all add: needsEscape_def)

lemma unescape_escape [wire_simps]:
  "needsEscape b \<Longrightarrow> unescape (fst (escape b)) (snd (escape b)) = Some b"
  by (auto simp: needsEscape_def escape_def unescape_def symbol_defs)

lemma unescape_None [wire_simps]: "b1 \<noteq> ext \<Longrightarrow> unescape b1 b2 = None"
  by (simp add: unescape_def)

lemma isMaster_not_reserved: "isMaster x \<Longrightarrow> x \<noteq> syn \<and> x \<noteq> ext \<and> x \<noteq> broad"
  by (auto simp: isMaster_iff master_addresses_def symbol_defs)

lemma toString_HandlerState_inj: "toString_HandlerState s = toString_HandlerState t \<Longrightarrow> s = t"
  by (cases s; cases t) simp_all

lemma handler_index_less: "handler_index s < 15"
  by (cases s) simp_all

lemma handler_index_inj: "handler_index s = handler_index t \<Longrightarrow> s = t"
  by (cases s; cases t) simp_all

lemma request_index_inj: "request_index s = request_index t \<Longrightarrow> s = t"
  by (cases s; cases t) simp_all

end
