(* ===== verification/Small_Byte_Vector.thy ===== *)
theory Small_Byte_Vector
  imports Ebus_Types
begin

text \<open>
  \<open>detail::SmallByteVector\<close> of \<open>include/ebus/sequence.hpp\<close>: a growable byte array
  that lives in a 64-byte inline buffer until it has to move to the heap. The model keeps
  both buffers with their stale contents, the size and the capacity. The C allocator is a
  parameter: \<open>malloc n\<close> is \<open>None\<close> when the allocation fails and otherwise the initial
  (unspecified) contents of the block. The lemmas show that with an allocator that does
  not fail the vector behaves as a list of bytes, the view every other component takes of
  it, and what each operation does when the allocation fails.
\<close>

section \<open>Definitions\<close>

record svec =
  heap_data :: "bytes option"
  stack_buffer :: bytes
  sv_size :: nat
  sv_capacity :: nat

definition sv_init :: svec where
  "sv_init = \<lparr>heap_data = None, stack_buffer = replicate default_capacity 0, sv_size = 0,
     sv_capacity = default_capacity\<rparr>"

definition sv_data :: "svec \<Rightarrow> bytes" where
  "sv_data v = (case heap_data v of None \<Rightarrow> stack_buffer v | Some d \<Rightarrow> d)"

definition sv_store :: "bytes \<Rightarrow> svec \<Rightarrow> svec" where
  "sv_store d v =
     (case heap_data v of None \<Rightarrow> v\<lparr>stack_buffer := d\<rparr> | Some _ \<Rightarrow> v\<lparr>heap_data := Some d\<rparr>)"

definition grow :: "(nat \<Rightarrow> bytes option) \<Rightarrow> nat \<Rightarrow> svec \<Rightarrow> svec" where
  "grow malloc min_cap v =
     (let new_cap = max min_cap (sv_capacity v * 2) in
      case heap_data v of
        None \<Rightarrow>
          (case malloc new_cap of
             None \<Rightarrow> v
           | Some block \<Rightarrow>
               v\<lparr>heap_data := Some (take (sv_size v) (stack_buffer v) @ drop (sv_size v) block),
                 sv_capacity := new_cap\<rparr>)
      | Some old \<Rightarrow>
          (case malloc new_cap of
             None \<Rightarrow> v
           | Some block \<Rightarrow>
               v\<lparr>heap_data := Some (old @ drop (length old) block), sv_capacity := new_cap\<rparr>))"

definition sv_push_back :: "(nat \<Rightarrow> bytes option) \<Rightarrow> u8 \<Rightarrow> svec \<Rightarrow> svec" where
  "sv_push_back malloc b v =
     (let v1 = (if sv_size v \<ge> sv_capacity v then grow malloc (sv_size v + 1) v else v) in
      if sv_size v1 \<ge> sv_capacity v1 then v1
      else (sv_store ((sv_data v1)[sv_size v1 := b]) v1)\<lparr>sv_size := sv_size v1 + 1\<rparr>)"

definition sv_clear :: "svec \<Rightarrow> svec" where
  "sv_clear v = v\<lparr>sv_size := 0\<rparr>"

definition sv_at :: "svec \<Rightarrow> nat \<Rightarrow> u8" where
  "sv_at v i = sv_data v ! i"

definition sv_reserve :: "(nat \<Rightarrow> bytes option) \<Rightarrow> nat \<Rightarrow> svec \<Rightarrow> svec" where
  "sv_reserve malloc n v = (if n > sv_capacity v then grow malloc n v else v)"

definition sv_resize :: "(nat \<Rightarrow> bytes option) \<Rightarrow> nat \<Rightarrow> svec \<Rightarrow> svec" where
  "sv_resize malloc n v =
     (if n > sv_capacity v
      then (let v1 = grow malloc n v in v1\<lparr>sv_size := min n (sv_capacity v1)\<rparr>)
      else v\<lparr>sv_size := n\<rparr>)"

text \<open>
  \<open>assign\<close> copies the range without looking whether \<open>grow\<close> succeeded: \<open>None\<close> is the
  write past the end of the buffer.
\<close>

definition sv_assign :: "(nat \<Rightarrow> bytes option) \<Rightarrow> bytes \<Rightarrow> svec \<Rightarrow> svec option" where
  "sv_assign malloc xs v =
     (let n = length xs; v1 = (if n > sv_capacity v then grow malloc n v else v) in
      if n > sv_capacity v1 then None
      else Some ((sv_store (xs @ drop n (sv_data v1)) v1)\<lparr>sv_size := n\<rparr>))"

definition sv_insert :: "(nat \<Rightarrow> bytes option) \<Rightarrow> nat \<Rightarrow> bytes \<Rightarrow> svec \<Rightarrow> svec" where
  "sv_insert malloc offset xs v =
     (let n = length xs;
          v1 = (if sv_size v + n > sv_capacity v then grow malloc (sv_size v + n) v else v) in
      if sv_size v1 + n > sv_capacity v1 then v1
      else (let d = sv_data v1; s = sv_size v1 in
        (sv_store (take offset d @ xs @ take (s - offset) (drop offset d) @ drop (s + n) d) v1)
          \<lparr>sv_size := s + n\<rparr>))"

text \<open>\<open>moveFrom\<close> leaves the moved-from vector empty; both results are returned.\<close>

definition sv_moveFrom :: "svec \<Rightarrow> svec \<Rightarrow> svec \<times> svec" where
  "sv_moveFrom v other =
     (case heap_data other of
        None \<Rightarrow>
          (v\<lparr>heap_data := None,
             stack_buffer := take (sv_size other) (stack_buffer other)
                             @ drop (sv_size other) (stack_buffer v),
             sv_capacity := default_capacity, sv_size := sv_size other\<rparr>,
           other\<lparr>sv_size := 0\<rparr>)
      | Some d \<Rightarrow>
          (v\<lparr>heap_data := Some d, sv_capacity := sv_capacity other, sv_size := sv_size other\<rparr>,
           other\<lparr>heap_data := None, sv_capacity := default_capacity, sv_size := 0\<rparr>))"

text \<open>The view of the vector as a list, and its representation invariant.\<close>

definition sv_list :: "svec \<Rightarrow> bytes" where
  "sv_list v = take (sv_size v) (sv_data v)"

definition sv_inv :: "svec \<Rightarrow> bool" where
  "sv_inv v \<longleftrightarrow>
     length (stack_buffer v) = default_capacity \<and>
     length (sv_data v) = sv_capacity v \<and>
     default_capacity \<le> sv_capacity v \<and>
     sv_size v \<le> sv_capacity v"

definition sv_eq :: "svec \<Rightarrow> svec \<Rightarrow> bool" where
  "sv_eq v w \<longleftrightarrow>
     sv_size v = sv_size w \<and>
     (sv_size v = 0 \<or> take (sv_size v) (sv_data v) = take (sv_size v) (sv_data w))"

section \<open>The interface of a byte vector\<close>

text \<open>
  What the sequence layer relies on: the operations act on the list of stored bytes, and
  a slice of the vector's own prefix can be assigned to the vector itself without losing
  the byte behind it (the telegram parser reads the checksum there after the slice).
\<close>

locale byte_vector =
  fixes push :: "u8 \<Rightarrow> 'v \<Rightarrow> 'v"
    and clear :: "'v \<Rightarrow> 'v"
    and assign :: "bytes \<Rightarrow> 'v \<Rightarrow> 'v option"
    and resize :: "nat \<Rightarrow> 'v \<Rightarrow> 'v"
    and "at" :: "'v \<Rightarrow> nat \<Rightarrow> u8"
    and list :: "'v \<Rightarrow> bytes"
    and inv :: "'v \<Rightarrow> bool"
  assumes list_push: "inv v \<Longrightarrow> list (push b v) = list v @ [b]"
    and list_clear: "inv v \<Longrightarrow> list (clear v) = []"
    and assign_total: "inv v \<Longrightarrow> \<exists>w. assign xs v = Some w"
    and list_assign: "inv v \<Longrightarrow> assign xs v = Some w \<Longrightarrow> list w = xs"
    and list_resize_shrink: "inv v \<Longrightarrow> n \<le> length (list v) \<Longrightarrow> list (resize n v) = take n (list v)"
    and length_resize: "inv v \<Longrightarrow> length (list (resize n v)) = n"
    and list_at: "inv v \<Longrightarrow> i < length (list v) \<Longrightarrow> at v i = list v ! i"
    and assign_prefix_at: "inv v \<Longrightarrow> n < length (list v) \<Longrightarrow>
      assign (take n (list v)) v = Some w \<Longrightarrow> at w n = list v ! n"
    and inv_push: "inv v \<Longrightarrow> inv (push b v)"
    and inv_clear: "inv v \<Longrightarrow> inv (clear v)"
    and inv_assign: "inv v \<Longrightarrow> assign xs v = Some w \<Longrightarrow> inv w"
    and inv_resize: "inv v \<Longrightarrow> inv (resize n v)"
begin

text \<open>What a client needs of each call: the new list, and that it can go on.\<close>

lemma pushed: "inv v \<Longrightarrow> list (push b v) = list v @ [b] \<and> inv (push b v)"
  by (simp add: list_push inv_push)

lemma cleared: "inv v \<Longrightarrow> list (clear v) = [] \<and> inv (clear v)"
  by (simp add: list_clear inv_clear)

lemma shrunk: "inv v \<Longrightarrow> n \<le> length (list v) \<Longrightarrow> list (resize n v) = take n (list v) \<and> inv (resize n v)"
  by (simp add: list_resize_shrink inv_resize)

lemma assigned: "inv v \<Longrightarrow> \<exists>w. assign xs v = Some w \<and> list w = xs \<and> inv w"
  using assign_total list_assign inv_assign by blast

end

section \<open>Allocators that do not fail\<close>

text \<open>What is documented of \<open>malloc\<close> and \<open>realloc\<close>: a block has the requested size.\<close>

locale allocator =
  fixes malloc :: "nat \<Rightarrow> bytes option"
  assumes malloc_total: "\<exists>block. malloc n = Some block"
    and malloc_size: "malloc n = Some block \<Longrightarrow> length block = n"
begin

lemma grow_props:
  assumes inv: "sv_inv v"
  shows "sv_inv (grow malloc n v)"
    and "sv_list (grow malloc n v) = sv_list v"
    and "sv_size (grow malloc n v) = sv_size v"
    and "n \<le> sv_capacity (grow malloc n v)"
proof -
  define c where "c = max n (sv_capacity v * 2)"
  obtain block where block: "malloc c = Some block" "length block = c"
    using malloc_total malloc_size by blast
  have c: "n \<le> c" "sv_capacity v \<le> c"
    using inv by (auto simp: c_def)
  note defs = grow_def sv_inv_def sv_list_def sv_data_def c_def [symmetric] block
  show "sv_inv (grow malloc n v)" "sv_list (grow malloc n v) = sv_list v"
    "sv_size (grow malloc n v) = sv_size v" "n \<le> sv_capacity (grow malloc n v)"
    using inv c by (auto simp: defs Let_def split: option.splits)
qed

text \<open>Every mutator first makes room; afterwards the requested size fits.\<close>

lemma ensure_props:
  fixes v :: svec and n :: nat
  assumes "sv_inv v"
  defines "w \<equiv> (if n > sv_capacity v then grow malloc n v else v)"
  shows "sv_inv w" "sv_list w = sv_list v" "sv_size w = sv_size v" "n \<le> sv_capacity w"
  using assms grow_props [of v n] by (auto simp: w_def)

lemma push_props:
  assumes inv: "sv_inv v"
  shows "sv_list (sv_push_back malloc b v) = sv_list v @ [b]" "sv_inv (sv_push_back malloc b v)"
proof -
  define w where "w = (if sv_size v + 1 > sv_capacity v then grow malloc (sv_size v + 1) v else v)"
  note w = ensure_props [OF inv, of "sv_size v + 1", folded w_def]
  have push: "sv_push_back malloc b v
      = (sv_store ((sv_data w)[sv_size w := b]) w)\<lparr>sv_size := sv_size w + 1\<rparr>"
    using w(3,4) unfolding sv_push_back_def w_def Let_def by (auto simp: Suc_le_eq not_less)
  have room: "sv_size w < length (sv_data w)"
    using w by (simp add: sv_inv_def)
  have data: "sv_data (sv_store d w) = d" for d
    by (simp add: sv_store_def sv_data_def split: option.splits)
  show "sv_list (sv_push_back malloc b v) = sv_list v @ [b]"
    using room w(2) data [of "(sv_data w)[sv_size w := b]"]
    by (simp add: push sv_list_def sv_data_def sv_store_def take_Suc_conv_app_nth split: option.splits)
  show "sv_inv (sv_push_back malloc b v)"
    using w room by (auto simp: push sv_inv_def sv_data_def sv_store_def split: option.splits)
qed

lemma assign_props:
  assumes inv: "sv_inv v"
  obtains w where "sv_assign malloc xs v = Some w" "sv_list w = xs" "sv_inv w"
    "n < length (sv_list v) \<Longrightarrow> xs = take n (sv_list v) \<Longrightarrow> sv_at w n = sv_list v ! n"
proof -
  define u where "u = (if length xs > sv_capacity v then grow malloc (length xs) v else v)"
  note u = ensure_props [OF inv, of "length xs", folded u_def]
  define w where "w = (sv_store (xs @ drop (length xs) (sv_data u)) u)\<lparr>sv_size := length xs\<rparr>"
  have data: "sv_data w = xs @ drop (length xs) (sv_data u)"
    by (simp add: w_def sv_store_def sv_data_def split: option.splits)
  have len: "length (sv_data u) = sv_capacity u" "length (stack_buffer u) = default_capacity"
    using u(1) by (simp_all add: sv_inv_def)
  have "sv_assign malloc xs v = Some w"
    using u(4) by (simp add: sv_assign_def u_def [symmetric] w_def Let_def)
  moreover have "sv_list w = xs"
    by (simp add: sv_list_def data) (simp add: w_def)
  moreover have "sv_inv w"
    using u len by (auto simp: sv_inv_def sv_data_def w_def sv_store_def split: option.splits)
  moreover have "sv_at w n = sv_list v ! n" if n: "n < length (sv_list v)" "xs = take n (sv_list v)"
  proof -
    have "length xs = n" using n by simp
    moreover have "sv_list v ! n = sv_data u ! n"
      using n u(2) by (metis nth_take length_take min_less_iff_conj sv_list_def)
    moreover have "n < length (sv_data u)"
      using n u(2) by (metis length_take min_less_iff_conj sv_list_def)
    ultimately show ?thesis by (simp add: sv_at_def data nth_append)
  qed
  ultimately show thesis by (rule that)
qed

lemma resize_props:
  assumes inv: "sv_inv v"
  shows "sv_inv (sv_resize malloc n v)" "length (sv_list (sv_resize malloc n v)) = n"
    "n \<le> length (sv_list v) \<Longrightarrow> sv_list (sv_resize malloc n v) = take n (sv_list v)"
proof -
  define u where "u = (if n > sv_capacity v then grow malloc n v else v)"
  note u = ensure_props [OF inv, of n, folded u_def]
  have eq: "sv_resize malloc n v = u\<lparr>sv_size := n\<rparr>"
    using u(4) by (auto simp: sv_resize_def u_def Let_def min_def)
  have data: "sv_data (u\<lparr>sv_size := k\<rparr>) = sv_data u" for k
    by (simp add: sv_data_def split: option.splits)
  show "sv_inv (sv_resize malloc n v)" "length (sv_list (sv_resize malloc n v)) = n"
    using u(1,4) by (auto simp: eq sv_inv_def sv_list_def data)
  show "sv_list (sv_resize malloc n v) = take n (sv_list v)" if "n \<le> length (sv_list v)"
    using that u(2,3) by (simp add: eq sv_list_def data) (metis min.absorb1 take_take)
qed

lemma insert_props:
  assumes inv: "sv_inv v" and off: "off \<le> sv_size v"
  shows "sv_inv (sv_insert malloc off xs v)"
    and "sv_list (sv_insert malloc off xs v) = take off (sv_list v) @ xs @ drop off (sv_list v)"
proof -
  let ?n = "sv_size v + length xs"
  define u where "u = (if ?n > sv_capacity v then grow malloc ?n v else v)"
  note u = ensure_props [OF inv, of ?n, folded u_def]
  let ?d = "take off (sv_data u) @ xs @ take (sv_size v - off) (drop off (sv_data u)) @ drop ?n (sv_data u)"
  have eq: "sv_insert malloc off xs v = (sv_store ?d u)\<lparr>sv_size := ?n\<rparr>"
    using u(3,4) by (simp add: sv_insert_def u_def [symmetric] Let_def)
  have len: "length (sv_data u) = sv_capacity u" "length (stack_buffer u) = default_capacity" "default_capacity \<le> sv_capacity u"
    using u(1) by (simp_all add: sv_inv_def)
  have ld: "length ?d = sv_capacity u" using len(1) u(4) off by simp
  have data: "sv_data ((sv_store ?d u)\<lparr>sv_size := k\<rparr>) = ?d" for k
    by (simp add: sv_store_def sv_data_def split: option.splits)
  have size: "sv_size ((sv_store ?d u)\<lparr>sv_size := ?n\<rparr>) = ?n" by simp
  show "sv_inv (sv_insert malloc off xs v)"
    using len ld u(4) unfolding sv_inv_def eq data by (simp add: sv_store_def sv_data_def split: option.splits)
  have "sv_list v = take (sv_size v) (sv_data u)" using u(2,3) by (simp add: sv_list_def)
  then have "take off (sv_list v) = take off (sv_data u)" "drop off (sv_list v) = take (sv_size v - off) (drop off (sv_data u))"
    using off by (simp_all add: drop_take min_def)
  moreover have "take ?n ?d = take off (sv_data u) @ xs @ take (sv_size v - off) (drop off (sv_data u))"
    using len(1) u(4) off by simp
  ultimately show "sv_list (sv_insert malloc off xs v) = take off (sv_list v) @ xs @ drop off (sv_list v)"
    unfolding eq sv_list_def [of "(sv_store ?d u)\<lparr>sv_size := ?n\<rparr>"] data size by (simp only: )
qed

lemma reserve_props:
  assumes "sv_inv v"
  shows "sv_inv (sv_reserve malloc n v)" "sv_list (sv_reserve malloc n v) = sv_list v"
  using ensure_props [OF assms, of n] by (simp_all add: sv_reserve_def)

end

sublocale allocator \<subseteq> sv: byte_vector "sv_push_back malloc" sv_clear "sv_assign malloc"
  "sv_resize malloc" sv_at sv_list sv_inv
proof (unfold_locales, goal_cases)
  case (1 v b) then show ?case by (rule push_props)
next
  case (2 v) then show ?case by (simp add: sv_clear_def sv_list_def)
next
  case (3 v xs) then show ?case by (metis assign_props)
next
  case (4 v xs w) then show ?case by (metis assign_props option.inject)
next
  case (5 v n) then show ?case by (simp add: resize_props)
next
  case (6 v n) then show ?case by (simp add: resize_props)
next
  case (7 v i) then show ?case by (simp add: sv_at_def sv_list_def)
next
  case (8 v n w) then show ?case by (metis assign_props option.inject)
next
  case (9 v b) then show ?case by (rule push_props)
next
  case (10 v) then show ?case by (simp add: sv_inv_def sv_clear_def sv_data_def split: option.splits)
next
  case (11 v xs w) then show ?case by (metis assign_props option.inject)
next
  case (12 v n) then show ?case by (simp add: resize_props)
qed

section \<open>Within the inline buffer, and when the allocation fails\<close>

lemma sv_inv_init: "sv_inv sv_init" "sv_list sv_init = []"
  by (simp_all add: sv_inv_def sv_init_def sv_data_def sv_list_def default_capacity_def)

text \<open>Below 64 bytes no operation asks the allocator for memory.\<close>

lemma push_back_no_alloc:
  assumes "sv_inv v" "sv_size v < default_capacity"
  shows "sv_push_back m b v = sv_push_back m' b v"
  using assms by (auto simp: sv_push_back_def sv_inv_def)

lemma assign_no_alloc:
  assumes "sv_inv v" "length xs \<le> default_capacity"
  shows "sv_assign m xs v = sv_assign m' xs v"
  using assms by (auto simp: sv_assign_def sv_inv_def Let_def)

lemma grow_failed: "sv_inv v \<Longrightarrow> grow (\<lambda>_. None) n v = v"
  by (simp add: grow_def Let_def split: option.splits)

lemma push_back_failed:
  assumes "sv_inv v" "sv_size v = sv_capacity v"
  shows "sv_push_back (\<lambda>_. None) b v = v"
  using assms by (simp add: sv_push_back_def grow_failed)

lemma resize_failed:
  assumes "sv_inv v" "sv_capacity v < n"
  shows "sv_size (sv_resize (\<lambda>_. None) n v) = sv_capacity v"
  using assms by (simp add: sv_resize_def grow_failed)

lemma moveFrom_list:
  assumes "sv_inv v" "sv_inv w" "sv_moveFrom v w = (v', w')"
  shows "sv_list v' = sv_list w" "sv_list w' = []" "sv_inv v'" "sv_inv w'"
  using assms
  by (auto simp: sv_moveFrom_def sv_list_def sv_inv_def sv_data_def split: option.splits)

section \<open>Sequences of calls\<close>

text \<open>
  The calls of a vector, and the same calls of a list. \<open>insert\<close> takes a position inside the
  vector, \<open>resize\<close> does not lengthen it (the bytes it would add are unspecified).
\<close>

datatype vector_call = Push_back u8 | Clear_all | Reserve nat | Resize nat | Assign bytes | Insert nat bytes

fun call_vector :: "(nat \<Rightarrow> bytes option) \<Rightarrow> vector_call \<Rightarrow> svec \<Rightarrow> svec option" where
  "call_vector malloc (Push_back b) v = Some (sv_push_back malloc b v)"
| "call_vector malloc Clear_all v = Some (sv_clear v)"
| "call_vector malloc (Reserve n) v = Some (sv_reserve malloc n v)"
| "call_vector malloc (Resize n) v = Some (sv_resize malloc n v)"
| "call_vector malloc (Assign xs) v = sv_assign malloc xs v"
| "call_vector malloc (Insert off xs) v = Some (sv_insert malloc off xs v)"

fun list_call :: "vector_call \<Rightarrow> bytes \<Rightarrow> bytes option" where
  "list_call (Push_back b) l = Some (l @ [b])"
| "list_call Clear_all l = Some []"
| "list_call (Reserve n) l = Some l"
| "list_call (Resize n) l = (if n \<le> length l then Some (take n l) else None)"
| "list_call (Assign xs) l = Some xs"
| "list_call (Insert off xs) l = (if off \<le> length l then Some (take off l @ xs @ drop off l) else None)"

text \<open>Every call comes with what the allocator does during it.\<close>

fun vector_calls :: "((nat \<Rightarrow> bytes option) \<times> vector_call) list \<Rightarrow> svec \<Rightarrow> svec option" where
  "vector_calls [] v = Some v"
| "vector_calls ((malloc, c) # cs) v = (case call_vector malloc c v of None \<Rightarrow> None | Some v \<Rightarrow> vector_calls cs v)"

fun list_calls :: "vector_call list \<Rightarrow> bytes \<Rightarrow> bytes option" where
  "list_calls [] l = Some l"
| "list_calls (c # cs) l = (case list_call c l of None \<Rightarrow> None | Some l \<Rightarrow> list_calls cs l)"

lemma sv_size_list: "sv_inv v \<Longrightarrow> length (sv_list v) = sv_size v"
  by (simp add: sv_inv_def sv_list_def)

context allocator
begin

lemma vector_call_list:
  assumes "sv_inv v" "list_call c (sv_list v) = Some l"
  shows "\<exists>w. call_vector malloc c v = Some w \<and> sv_list w = l \<and> sv_inv w"
proof (cases c)
  case (Push_back b)
  then show ?thesis using assms(2) sv.pushed [OF assms(1)] by simp
next
  case Clear_all
  then show ?thesis using assms(2) sv.cleared [OF assms(1)] by simp
next
  case (Reserve n)
  then show ?thesis using assms reserve_props [OF assms(1)] by simp
next
  case (Resize n)
  then show ?thesis using assms(2) sv.shrunk [OF assms(1), of n] by (auto split: if_splits)
next
  case (Assign xs)
  then show ?thesis using assms(2) sv.assigned [OF assms(1), of xs] by auto
next
  case (Insert off xs)
  then show ?thesis
    using assms insert_props [OF assms(1), of off xs] sv_size_list [OF assms(1)] by (auto split: if_splits)
qed

end

lemma vector_calls_list:
  assumes "\<forall>c \<in> set cs. allocator (fst c)" "sv_inv v" "list_calls (map snd cs) (sv_list v) = Some l"
  shows "\<exists>w. vector_calls cs v = Some w \<and> sv_list w = l \<and> sv_inv w"
  using assms
proof (induction cs arbitrary: v)
  case (Cons c cs)
  obtain malloc o' where c: "c = (malloc, o')" by (cases c)
  then obtain l' where l': "list_call o' (sv_list v) = Some l'" "list_calls (map snd cs) l' = Some l"
    using Cons.prems(3) by (auto split: option.splits)
  have "allocator malloc" using Cons.prems(1) c by simp
  from allocator.vector_call_list [OF this Cons.prems(2) l'(1)]
  obtain w where "call_vector malloc o' v = Some w" "sv_list w = l'" "sv_inv w" by blast
  then show ?case using Cons.IH [of w] Cons.prems(1) l'(2) c by simp
qed simp

section \<open>Properties\<close>

text \<open>
  C34: The vector is a list of bytes as long as the allocations succeed. Let any sequence of
  pushes, clears, reserves, assignments, insertions at a position inside and resizes to at most the length be called
  on a new vector, where every allocation during the calls succeeds and returns a block of the size asked
  for, with any contents, different from call to call: then no call writes past the end of a
  buffer, and in the end the vector holds, and reads by index, exactly the bytes that the same calls leave in
  a list, however often it has moved from the inline buffer to the heap.
\<close>

theorem byte_vector_refines_list:
  assumes "\<forall>c \<in> set cs. \<forall>n. \<exists>block. fst c n = Some block \<and> length block = n"
    and "list_calls (map snd cs) [] = Some l"
  shows "\<exists>v. vector_calls cs sv_init = Some v \<and> sv_list v = l \<and> sv_size v = length l \<and> (\<forall>i < length l. sv_at v i = l ! i)"
proof -
  have "\<forall>c \<in> set cs. allocator (fst c)"
    unfolding allocator_def using assms(1) by (metis option.inject)
  then obtain v where "vector_calls cs sv_init = Some v" "sv_list v = l" "sv_inv v"
    using vector_calls_list [OF _ sv_inv_init(1)] assms(2) sv_inv_init(2) by metis
  then show ?thesis using sv_size_list by (auto simp: sv_at_def sv_list_def)
qed

text \<open>An allocator that hands out blocks filled with a byte: from the inline buffer to the heap and on.\<close>

definition filled :: "u8 \<Rightarrow> nat \<Rightarrow> bytes option" where
  "filled b n = Some (replicate n b)"

interpretation blocks: allocator "filled b"
  by unfold_locales (auto simp: filled_def)

definition sample_calls :: "((nat \<Rightarrow> bytes option) \<times> vector_call) list" where
  "sample_calls = [(filled 0, Assign (replicate 64 0x11)), (filled 0xaa, Push_back 0x12), (filled 0xbb, Insert 1 (replicate 100 0x13)),
     (filled 0xcc, Resize 102), (filled 0xdd, Reserve 1000)]"

theorem byte_vector_refines_list_witness:
  "\<exists>v. vector_calls sample_calls sv_init = Some v
    \<and> sv_list v = 0x11 # replicate 100 0x13 @ [0x11] \<and> sv_at v 101 = 0x11"
proof -
  let ?l = "0x11 # replicate 100 0x13 @ [0x11] :: bytes"
  have "list_calls (map snd sample_calls) [] = Some ?l" by (simp add: sample_calls_def)
  then show ?thesis
    using byte_vector_refines_list [of sample_calls ?l] by (auto simp: sample_calls_def filled_def nth_append)
qed

text \<open>
  When the allocation fails, \<open>push_back\<close> leaves a full vector as it is and \<open>resize\<close> stops
  at the capacity, but \<open>assign\<close> of a longer range writes past the end of the buffer
  (\<open>None\<close>).
\<close>

theorem failed_allocation:
  assumes "sv_inv v" "sv_size v = sv_capacity v" "sv_capacity v < length xs"
  shows "sv_push_back (\<lambda>_. None) b v = v \<and> sv_size (sv_resize (\<lambda>_. None) (length xs) v) = sv_capacity v
    \<and> sv_assign (\<lambda>_. None) xs v = None"
  using assms push_back_failed [OF assms(1,2)] resize_failed [OF assms(1,3)]
  by (simp add: sv_assign_def grow_failed Let_def)

theorem failed_allocation_witness:
  "(let v = sv_init\<lparr>sv_size := default_capacity\<rparr>; xs = replicate 65 0 in
    sv_inv v \<and> sv_push_back (\<lambda>_. None) 7 v = v \<and> sv_assign (\<lambda>_. None) xs v = None)"
proof -
  let ?v = "sv_init\<lparr>sv_size := default_capacity\<rparr>"
  have "sv_inv ?v" "sv_size ?v = sv_capacity ?v" "sv_capacity ?v < length (replicate 65 (0 :: u8))"
    by (simp_all add: sv_inv_def sv_init_def sv_data_def default_capacity_def)
  from this(1) failed_allocation [OF this, of 7] show ?thesis by (simp add: Let_def)
qed

end
