(* ===== verification/Containers.thy ===== *)
theory Containers
  imports Ebus_Types
begin

text \<open>
  The two fixed-capacity containers: \<open>CircularBuffer\<close>
  (\<open>src/ebus/utils/circular_buffer.hpp\<close>), which the diagnostics use for histories, and
  \<open>StaticVector\<close> (\<open>include/ebus/static_vector.hpp\<close>), which holds the scheduler's
  queue. Both are related to lists: the ring holds the most recent entries in order, the
  vector refuses what does not fit.
\<close>

section \<open>Circular buffer\<close>

record 'a cbuf =
  cb_buffer :: "'a list"
  cb_head :: nat
  cb_size :: nat

text \<open>The capacity \<open>Cap\<close> is the length of the array; its slots start with the default value.\<close>

definition cb_new :: "nat \<Rightarrow> 'a \<Rightarrow> 'a cbuf" where
  "cb_new cap dflt = \<lparr>cb_buffer = replicate cap dflt, cb_head = 0, cb_size = 0\<rparr>"

definition cb_cap :: "'a cbuf \<Rightarrow> nat" where
  "cb_cap b = length (cb_buffer b)"

definition cb_push_back :: "'a \<Rightarrow> 'a cbuf \<Rightarrow> bool \<times> 'a cbuf" where
  "cb_push_back item b =
     (if cb_size b = cb_cap b
      then (True, b\<lparr>cb_buffer := (cb_buffer b)[cb_head b := item],
                    cb_head := (cb_head b + 1) mod cb_cap b\<rparr>)
      else (False, b\<lparr>cb_buffer := (cb_buffer b)[(cb_head b + cb_size b) mod cb_cap b := item],
                     cb_size := cb_size b + 1\<rparr>))"

definition cb_tryPop :: "'a cbuf \<Rightarrow> ('a \<times> 'a cbuf) option" where
  "cb_tryPop b =
     (if cb_size b = 0 then None
      else Some (cb_buffer b ! cb_head b,
                 b\<lparr>cb_head := (cb_head b + 1) mod cb_cap b, cb_size := cb_size b - 1\<rparr>))"

definition cb_clear :: "'a cbuf \<Rightarrow> 'a cbuf" where
  "cb_clear b = b\<lparr>cb_size := 0, cb_head := 0\<rparr>"

text \<open>The items \<open>forEach\<close> hands to its callback, in that order.\<close>

definition cb_forEach :: "'a cbuf \<Rightarrow> 'a list" where
  "cb_forEach b = map (\<lambda>i. cb_buffer b ! ((cb_head b + i) mod cb_cap b)) [0..<cb_size b]"

definition cb_at :: "'a \<Rightarrow> 'a cbuf \<Rightarrow> nat \<Rightarrow> 'a" where
  "cb_at dflt b index =
     (if index \<ge> cb_size b then dflt else cb_buffer b ! ((cb_head b + index) mod cb_cap b))"

definition cb_inv :: "'a cbuf \<Rightarrow> bool" where
  "cb_inv b \<longleftrightarrow> 0 < cb_cap b \<and> cb_head b < cb_cap b \<and> cb_size b \<le> cb_cap b"

section \<open>The interface of a history\<close>

text \<open>What is left of a list when only its last \<open>n\<close> elements are kept.\<close>

definition latest :: "nat \<Rightarrow> 'a list \<Rightarrow> 'a list" where
  "latest n xs = drop (length xs - n) xs"

lemma latest_snoc:
  assumes "0 < n"
  shows "latest n (xs @ [x]) = (if length (latest n xs) = n then tl (latest n xs) else latest n xs) @ [x]"
  using assms by (auto simp: latest_def tl_drop drop_Suc Suc_diff_le)

locale history_buffer =
  fixes push :: "'a \<Rightarrow> 'b \<Rightarrow> bool \<times> 'b"
    and pop :: "'b \<Rightarrow> ('a \<times> 'b) option"
    and entries :: "'b \<Rightarrow> 'a list"
    and cap :: "'b \<Rightarrow> nat"
    and inv :: "'b \<Rightarrow> bool"
  assumes entries_push: "inv b \<Longrightarrow> push x b = (ow, b') \<Longrightarrow>
      entries b' = (if length (entries b) = cap b then tl (entries b) else entries b) @ [x]"
    and push_overwrites: "inv b \<Longrightarrow> push x b = (ow, b') \<Longrightarrow> ow \<longleftrightarrow> length (entries b) = cap b"
    and cap_push: "inv b \<Longrightarrow> push x b = (ow, b') \<Longrightarrow> cap b' = cap b"
    and inv_push: "inv b \<Longrightarrow> push x b = (ow, b') \<Longrightarrow> inv b'"
    and entries_pop_None: "inv b \<Longrightarrow> pop b = None \<longleftrightarrow> entries b = []"
    and entries_pop: "inv b \<Longrightarrow> pop b = Some (x, b') \<Longrightarrow> entries b = x # entries b'"
    and inv_pop: "inv b \<Longrightarrow> pop b = Some (x, b') \<Longrightarrow> inv b'"
    and cap_pos: "inv b \<Longrightarrow> 0 < cap b"
    and entries_le_cap: "inv b \<Longrightarrow> length (entries b) \<le> cap b"
begin

lemma entries_push_all:
  assumes "inv b"
  shows "entries (fold (\<lambda>x b. snd (push x b)) xs b) = latest (cap b) (entries b @ xs)
    \<and> inv (fold (\<lambda>x b. snd (push x b)) xs b) \<and> cap (fold (\<lambda>x b. snd (push x b)) xs b) = cap b"
proof (induction xs rule: rev_induct)
  case Nil
  then show ?case using entries_le_cap [OF assms] assms by (simp add: latest_def)
next
  case (snoc x xs)
  define c where "c = fold (\<lambda>x b. snd (push x b)) xs b"
  obtain ow c' where push: "push x c = (ow, c')" by fastforce
  have c: "entries c = latest (cap b) (entries b @ xs)" "inv c" "cap c = cap b"
    using snoc by (simp_all add: c_def)
  have "entries c' = latest (cap b) ((entries b @ xs) @ [x])"
    unfolding latest_snoc [OF cap_pos [OF assms]] using entries_push [OF c(2) push] c by simp
  then show ?case
    using push c inv_push [OF c(2) push] cap_push [OF c(2) push] by (simp add: c_def [symmetric])
qed

end

section \<open>The circular buffer implements it\<close>

lemma cb_forEach_length [simp]: "length (cb_forEach b) = cb_size b"
  by (simp add: cb_forEach_def)

lemma cb_forEach_nth: "i < cb_size b \<Longrightarrow> cb_forEach b ! i = cb_buffer b ! ((cb_head b + i) mod cb_cap b)"
  by (simp add: cb_forEach_def)

lemma cb_slot: "h < c \<Longrightarrow> i \<le> c \<Longrightarrow> (h + i) mod c = (if h + i < c then h + i else h + i - (c :: nat))"
  by (auto simp: mod_if)

lemma cb_slot_inj: "h < c \<Longrightarrow> i < c \<Longrightarrow> j < c \<Longrightarrow> (h + i) mod c = (h + j) mod c \<longleftrightarrow> i = (j :: nat)"
  by (auto simp: cb_slot)

lemma cb_slot_Suc: "((h + 1) mod c + i) mod c = (h + (i + 1)) mod (c :: nat)"
  unfolding mod_add_left_eq by (simp add: ac_simps)

lemma cb_push_entries:
  assumes inv: "cb_inv b" and push: "cb_push_back x b = (ow, b')"
  shows "cb_forEach b' = (if length (cb_forEach b) = cb_cap b then tl (cb_forEach b) else cb_forEach b) @ [x]"
proof (rule nth_equalityI)
  from inv have hd: "cb_head b < cb_cap b" and sz: "cb_size b \<le> cb_cap b" by (simp_all add: cb_inv_def)
  have cap: "cb_cap b' = cb_cap b" and size: "cb_size b' = (if cb_size b = cb_cap b then cb_size b else cb_size b + 1)"
    using push by (auto simp: cb_push_back_def cb_cap_def split: if_splits)
  show "length (cb_forEach b') =
      length ((if length (cb_forEach b) = cb_cap b then tl (cb_forEach b) else cb_forEach b) @ [x])"
    using hd by (simp add: size)
  fix i assume "i < length (cb_forEach b')"
  then have i: "i < cb_size b'" by simp
  show "cb_forEach b' ! i =
      ((if length (cb_forEach b) = cb_cap b then tl (cb_forEach b) else cb_forEach b) @ [x]) ! i"
  proof (cases "cb_size b = cb_cap b")
    case True
    then have b': "cb_buffer b' = (cb_buffer b)[cb_head b := x]" "cb_head b' = (cb_head b + 1) mod cb_cap b"
      using push by (auto simp: cb_push_back_def)
    have at: "cb_forEach b' ! i = (cb_buffer b)[cb_head b := x] ! ((cb_head b + (i + 1)) mod cb_cap b)"
      using i True size cb_slot_Suc [of "cb_head b" "cb_cap b" i] by (simp add: cb_forEach_nth cap b')
    show ?thesis
    proof (cases "i + 1 = cb_cap b")
      case True
      then have "i = cb_size b - 1" "cb_forEach b' ! i = x"
        using at hd \<open>cb_size b = cb_cap b\<close> by (simp_all add: cb_cap_def)
      then show ?thesis using \<open>cb_size b = cb_cap b\<close> by (simp add: nth_append)
    next
      case False
      then have less: "i + 1 < cb_cap b" using i True size by simp
      then have "(cb_head b + (i + 1)) mod cb_cap b \<noteq> cb_head b"
        using cb_slot_inj [OF hd, of "i + 1" 0] hd by simp
      moreover have "i < cb_cap b - 1" using less by simp
      ultimately show ?thesis
        using at less True by (simp add: nth_append nth_tl cb_forEach_nth)
    qed
  next
    case False
    then have b': "cb_buffer b' = (cb_buffer b)[(cb_head b + cb_size b) mod cb_cap b := x]" "cb_head b' = cb_head b"
      using push by (auto simp: cb_push_back_def)
    have less: "cb_size b < cb_cap b" using False sz by simp
    have slot: "(cb_head b + cb_size b) mod cb_cap b < length (cb_buffer b)"
      using hd unfolding cb_cap_def by (intro mod_less_divisor) linarith
    show ?thesis
    proof (cases "i = cb_size b")
      case True
      then show ?thesis using i False slot by (simp add: cb_forEach_nth cap b' nth_append)
    next
      case False
      then have "i < cb_size b" using i size \<open>cb_size b \<noteq> cb_cap b\<close> by simp
      then show ?thesis
        using i less cb_slot_inj [OF hd, of "cb_size b" i] \<open>cb_size b \<noteq> cb_cap b\<close>
        by (simp add: cb_forEach_nth cap b' nth_append)
    qed
  qed
qed

lemma cb_pop_entries:
  assumes inv: "cb_inv b" and pop: "cb_tryPop b = Some (x, b')"
  shows "cb_forEach b = x # cb_forEach b'"
proof (rule nth_equalityI)
  from inv have hd: "cb_head b < cb_cap b" and sz: "cb_size b \<le> cb_cap b" by (simp_all add: cb_inv_def)
  have b': "cb_size b = Suc (cb_size b')" "cb_cap b' = cb_cap b" "cb_buffer b' = cb_buffer b"
    "cb_head b' = (cb_head b + 1) mod cb_cap b" "x = cb_buffer b ! cb_head b"
    using pop by (auto simp: cb_tryPop_def cb_cap_def split: if_splits)
  then show "length (cb_forEach b) = length (x # cb_forEach b')" by simp
  fix i assume "i < length (cb_forEach b)"
  then show "cb_forEach b ! i = (x # cb_forEach b') ! i"
    using b' hd sz cb_slot_Suc [of "cb_head b" "cb_cap b" "i - 1"] by (cases i) (simp_all add: cb_forEach_nth)
qed

interpretation ring: history_buffer cb_push_back cb_tryPop cb_forEach cb_cap cb_inv
proof (unfold_locales, goal_cases)
  case (1 b x ow b') then show ?case by (rule cb_push_entries)
next
  case (2 b x ow b') then show ?case by (auto simp: cb_push_back_def split: if_splits)
next
  case (3 b x ow b') then show ?case by (auto simp: cb_push_back_def cb_cap_def split: if_splits)
next
  case (4 b x ow b') then show ?case by (auto simp: cb_push_back_def cb_cap_def cb_inv_def split: if_splits)
next
  case (5 b) then show ?case by (simp add: cb_tryPop_def cb_forEach_def)
next
  case (6 b x b') then show ?case by (rule cb_pop_entries)
next
  case (7 b x b') then show ?case by (auto simp: cb_tryPop_def cb_cap_def cb_inv_def split: if_splits)
next
  case (8 b) then show ?case by (simp add: cb_inv_def)
next
  case (9 b) then show ?case by (simp add: cb_inv_def)
qed

lemma cb_inv_new: "0 < cap \<Longrightarrow> cb_inv (cb_new cap d) \<and> cb_cap (cb_new cap d) = cap \<and> cb_forEach (cb_new cap d) = []"
  by (simp add: cb_inv_def cb_new_def cb_cap_def cb_forEach_def)

lemma cb_at_eq: "cb_inv b \<Longrightarrow> cb_at d b i = (if i < length (cb_forEach b) then cb_forEach b ! i else d)"
  by (simp add: cb_at_def cb_forEach_nth)

section \<open>Static vector\<close>

text \<open>
  A vector of capacity \<open>cap\<close> as the list of its constructed elements. \<open>push_back\<close> and
  \<open>emplace_back\<close> report whether there was room, \<open>erase\<close> of an index out of range
  leaves the vector alone.
\<close>

definition vec_push_back :: "nat \<Rightarrow> 'a \<Rightarrow> 'a list \<Rightarrow> bool \<times> 'a list" where
  "vec_push_back cap x xs = (if length xs \<ge> cap then (False, xs) else (True, xs @ [x]))"

definition vec_pop_back :: "'a list \<Rightarrow> 'a list" where
  "vec_pop_back xs = (if length xs > 0 then butlast xs else xs)"

definition vec_erase :: "nat \<Rightarrow> 'a list \<Rightarrow> 'a list" where
  "vec_erase pos xs = (if pos \<ge> length xs then xs else take pos xs @ drop (pos + 1) xs)"

definition vec_erase_range :: "nat \<Rightarrow> nat \<Rightarrow> 'a list \<Rightarrow> 'a list" where
  "vec_erase_range start stop xs =
     (if start = stop then xs
      else if stop > length xs \<or> start > stop then xs
      else take start xs @ drop stop xs)"

function vec_clear :: "'a list \<Rightarrow> 'a list" where
  "vec_clear xs = (if length xs > 0 then vec_clear (vec_pop_back xs) else xs)"
  by pat_completeness auto
termination by (relation "measure length") (auto simp: vec_pop_back_def)

declare vec_clear.simps [simp del]

lemma vec_clear_eq: "vec_clear xs = []"
proof (induction xs rule: vec_clear.induct)
  case (1 xs)
  then show ?case by (subst vec_clear.simps) (cases xs, auto)
qed

lemma vec_push_back_bounded: "length xs \<le> cap \<Longrightarrow> length (snd (vec_push_back cap x xs)) \<le> cap"
  by (simp add: vec_push_back_def)

section \<open>Properties\<close>

text \<open>
  After any number of pushes a history buffer holds the latest entries, at most its
  capacity, in the order they came.
\<close>

theorem history_keeps_latest:
  assumes "0 < cap"
  shows "cb_forEach (fold (\<lambda>x b. snd (cb_push_back x b)) xs (cb_new cap d)) = latest cap xs"
  using ring.entries_push_all [of "cb_new cap d" xs] cb_inv_new [OF assms, of d] by simp

theorem history_keeps_latest_witness:
  "0 < (2 :: nat) \<and> cb_forEach (fold (\<lambda>x b. snd (cb_push_back x b)) [1, 2, 3 :: nat] (cb_new 2 0)) = [2, 3]"
  using history_keeps_latest [of 2 "[1, 2, 3 :: nat]" 0] by (simp add: latest_def)

end
