(* ===== verification/Bus_Monitor.thy ===== *)
theory Bus_Monitor
  imports Containers
begin

text \<open>
  \<open>BusMonitor\<close> (\<open>src/ebus/core/bus_monitor.hpp\<close>, \<open>.cpp\<close>), the metrics structures of
  \<open>include/ebus/metrics.hpp\<close> and \<open>TimingStats\<close> of \<open>src/ebus/utils/timing_stats.hpp\<close>.
  The counters keep their machine width. The record \<open>env\<close> is what the protocol classes
  share: the optional monitor they all point to, and the clocks. A clock is a function
  from the number of the reading to the value read, so every \<open>Clock::now()\<close> may return
  something else. The records of the protocol classes extend \<open>env\<close>.
  What is computed in floating point (the bus utilisation, its history and the congestion
  flag derived from it) is not modelled; \<open>BusMetrics\<close> has no \<open>utilization\<close> field and the
  monitor no \<open>utilization_history_\<close>.
\<close>

section \<open>Timing statistics\<close>

record TimingStats =
  ts_last :: u32
  ts_max :: u32
  ts_sum :: u64
  ts_count :: u64
  ts_marked :: bool
  ts_begin :: u64

definition ts_init :: TimingStats where
  "ts_init = \<lparr>ts_last = 0, ts_max = 0, ts_sum = 0, ts_count = 0, ts_marked = False, ts_begin = 0\<rparr>"

definition addSample :: "u32 \<Rightarrow> TimingStats \<Rightarrow> TimingStats" where
  "addSample value t =
     t\<lparr>ts_last := value, ts_sum := ts_sum t + ucast value,
       ts_max := (if value > ts_max t then value else ts_max t), ts_count := ts_count t + 1\<rparr>"

definition ts_reset :: "TimingStats \<Rightarrow> TimingStats" where
  "ts_reset t = t\<lparr>ts_last := 0, ts_max := 0, ts_sum := 0, ts_count := 0, ts_marked := False\<rparr>"

definition markBegin :: "int \<Rightarrow> TimingStats \<Rightarrow> TimingStats" where
  "markBegin begin_us t = t\<lparr>ts_begin := of_int begin_us, ts_marked := True\<rparr>"

definition markEnd :: "int \<Rightarrow> TimingStats \<Rightarrow> TimingStats" where
  "markEnd end_us t =
     (if ts_marked t
      then (addSample (ucast (of_int end_us - ts_begin t)) t)\<lparr>ts_marked := False\<rparr>
      else t)"

definition addDurationWithTime :: "int \<Rightarrow> int \<Rightarrow> TimingStats \<Rightarrow> TimingStats" where
  "addDurationWithTime begin_us end_us t = addSample (of_int (end_us - begin_us)) t"

section \<open>Metrics\<close>

record MetricValues =
  last_us :: u32
  max_us :: u32
  sum_us :: u64
  mv_count :: u64

definition MetricValues_init :: MetricValues where
  "MetricValues_init = \<lparr>last_us = 0, max_us = 0, sum_us = 0, mv_count = 0\<rparr>"

definition getValues :: "TimingStats \<Rightarrow> MetricValues" where
  "getValues t = \<lparr>last_us = ts_last t, max_us = ts_max t, sum_us = ts_sum t, mv_count = ts_count t\<rparr>"

record ErrorAddressStats =
  ea_address :: u8
  ea_count :: u32
  ea_last_seen_us :: u64

definition ea_default :: ErrorAddressStats where
  "ea_default = \<lparr>ea_address = 0xff, ea_count = 0, ea_last_seen_us = 0\<rparr>"

record HandlerMetrics =
  messages_passive :: u32
  messages_reactive :: u32
  messages_active :: u32
  error_passive :: u32
  error_reactive :: u32
  error_active :: u32
  resets_passive :: u32
  resets_active :: u32
  total_attempts :: u32
  total_sent_data_bytes :: u64
  total_sent_protocol_bytes :: u64
  total_observed_data_bytes :: u64
  total_observed_protocol_bytes :: u64
  invalid_bytes :: u32
  last_error_address :: u8
  last_success_address :: u8
  last_passive_reset_us :: u64
  last_active_reset_us :: u64
  top_errors :: "ErrorAddressStats list"
  hm_sync :: MetricValues
  hm_write :: MetricValues
  hm_passive_first :: MetricValues
  hm_passive_data :: MetricValues
  hm_active_first :: MetricValues
  hm_active_data :: MetricValues

definition HandlerMetrics_reset :: "HandlerMetrics \<Rightarrow> HandlerMetrics" where
  "HandlerMetrics_reset m =
     m\<lparr>messages_passive := 0, messages_reactive := 0, messages_active := 0, error_passive := 0,
       error_reactive := 0, error_active := 0, resets_passive := 0, resets_active := 0,
       total_attempts := 0, total_sent_data_bytes := 0, total_sent_protocol_bytes := 0,
       total_observed_data_bytes := 0, total_observed_protocol_bytes := 0,
       invalid_bytes := 0, last_error_address := 0xff, last_success_address := 0xff,
       last_passive_reset_us := 0, last_active_reset_us := 0,
       top_errors := replicate top_error_addresses_count ea_default,
       hm_sync := MetricValues_init, hm_write := MetricValues_init, hm_passive_first := MetricValues_init,
       hm_passive_data := MetricValues_init, hm_active_first := MetricValues_init, hm_active_data := MetricValues_init\<rparr>"

definition HandlerMetrics_init :: HandlerMetrics where
  "HandlerMetrics_init =
     \<lparr>messages_passive = 0, messages_reactive = 0, messages_active = 0, error_passive = 0,
      error_reactive = 0, error_active = 0, resets_passive = 0, resets_active = 0,
      total_attempts = 0, total_sent_data_bytes = 0, total_sent_protocol_bytes = 0,
      total_observed_data_bytes = 0, total_observed_protocol_bytes = 0,
      invalid_bytes = 0, last_error_address = 0xff, last_success_address = 0xff,
      last_passive_reset_us = 0, last_active_reset_us = 0,
      top_errors = replicate top_error_addresses_count ea_default,
      hm_sync = MetricValues_init, hm_write = MetricValues_init, hm_passive_first = MetricValues_init,
      hm_passive_data = MetricValues_init, hm_active_first = MetricValues_init, hm_active_data = MetricValues_init\<rparr>"

record RequestMetrics =
  won_total :: u32
  lost_total :: u32
  collisions :: u32
  arbitration_errors :: u32
  first_syn_total :: u32
  bus_request_blocked :: u32
  lock_counter_reset :: u32
  session_timeouts :: u32

definition RequestMetrics_init :: RequestMetrics where
  "RequestMetrics_init =
     \<lparr>won_total = 0, lost_total = 0, collisions = 0, arbitration_errors = 0, first_syn_total = 0,
      bus_request_blocked = 0, lock_counter_reset = 0, session_timeouts = 0\<rparr>"

definition RequestMetrics_reset :: "RequestMetrics \<Rightarrow> RequestMetrics" where
  "RequestMetrics_reset m =
     m\<lparr>won_total := 0, lost_total := 0, collisions := 0, arbitration_errors := 0,
       first_syn_total := 0, bus_request_blocked := 0, lock_counter_reset := 0, session_timeouts := 0\<rparr>"

record BusMetrics =
  start_bit_errors :: u32
  syn_postponed_count :: u32
  congestion :: bool
  high_jitter :: bool
  last_error_us :: u64
  uptime_us :: u64
  bm_delay :: MetricValues
  bm_window :: MetricValues
  bm_transmit :: MetricValues
  bm_syn_postpone :: MetricValues

definition BusMetrics_init :: BusMetrics where
  "BusMetrics_init =
     \<lparr>start_bit_errors = 0, syn_postponed_count = 0, congestion = False, high_jitter = False,
      last_error_us = 0, uptime_us = 0, bm_delay = MetricValues_init, bm_window = MetricValues_init,
      bm_transmit = MetricValues_init, bm_syn_postpone = MetricValues_init\<rparr>"

definition BusMetrics_reset :: "BusMetrics \<Rightarrow> BusMetrics" where
  "BusMetrics_reset m =
     m\<lparr>start_bit_errors := 0, syn_postponed_count := 0, congestion := False, high_jitter := False,
       last_error_us := 0, uptime_us := 0, bm_delay := MetricValues_init, bm_window := MetricValues_init,
       bm_transmit := MetricValues_init, bm_syn_postpone := MetricValues_init\<rparr>"

record DeviceMetrics =
  unknown_devices :: u32
  identified_devices :: u32

definition DeviceMetrics_reset :: "DeviceMetrics \<Rightarrow> DeviceMetrics" where
  "DeviceMetrics_reset m = m\<lparr>unknown_devices := 0, identified_devices := 0\<rparr>"

record ReactorMetrics =
  max_signal_queue_size :: u32
  signal_queue_dropped :: u32
  max_protocol_queue_size :: u32
  protocol_queue_dropped :: u32
  max_bus_queue_size :: u32
  bus_queue_dropped :: u32
  max_loop_cycle_us :: u32

definition ReactorMetrics_reset :: "ReactorMetrics \<Rightarrow> ReactorMetrics" where
  "ReactorMetrics_reset m =
     m\<lparr>max_signal_queue_size := 0, signal_queue_dropped := 0, max_protocol_queue_size := 0,
       protocol_queue_dropped := 0, max_bus_queue_size := 0, bus_queue_dropped := 0,
       max_loop_cycle_us := 0\<rparr>"

section \<open>The monitor\<close>

record 'st transition =
  tr_from :: 'st
  tr_to :: 'st
  tr_timestamp :: u64

record monitor =
  handler_acc :: HandlerMetrics
  request_acc :: RequestMetrics
  bus_acc :: BusMetrics
  device_acc :: DeviceMetrics
  reactor_acc :: ReactorMetrics
  ts_sync :: TimingStats
  ts_write :: TimingStats
  ts_passive_first :: TimingStats
  ts_passive_data :: TimingStats
  ts_active_first :: TimingStats
  ts_active_data :: TimingStats
  ts_delay :: TimingStats
  ts_window :: TimingStats
  ts_transmit :: TimingStats
  ts_syn_postpone :: TimingStats
  uptime_start :: int
  total_low_bits :: u64
  last_history_low_bits :: u64
  last_history_uptime_us :: u64
  handler_history :: "HandlerState transition cbuf"
  request_history :: "RequestState transition cbuf"

definition monitor_init :: "int \<Rightarrow> monitor" where
  "monitor_init start =
     \<lparr>handler_acc = HandlerMetrics_init, request_acc = RequestMetrics_init, bus_acc = BusMetrics_init,
      device_acc = \<lparr>unknown_devices = 0, identified_devices = 0\<rparr>,
      reactor_acc = \<lparr>max_signal_queue_size = 0, signal_queue_dropped = 0, max_protocol_queue_size = 0,
        protocol_queue_dropped = 0, max_bus_queue_size = 0, bus_queue_dropped = 0, max_loop_cycle_us = 0\<rparr>,
      ts_sync = ts_init, ts_write = ts_init, ts_passive_first = ts_init, ts_passive_data = ts_init,
      ts_active_first = ts_init, ts_active_data = ts_init, ts_delay = ts_init, ts_window = ts_init,
      ts_transmit = ts_init, ts_syn_postpone = ts_init, uptime_start = start, total_low_bits = 0,
      last_history_low_bits = 0, last_history_uptime_us = 0,
      handler_history = cb_new handler_history_size
        \<lparr>tr_from = passive_receive_master, tr_to = passive_receive_master, tr_timestamp = 0\<rparr>,
      request_history = cb_new request_history_size
        \<lparr>tr_from = observe, tr_to = observe, tr_timestamp = 0\<rparr>\<rparr>"

record env =
  clk :: "nat \<Rightarrow> int"
  clk_reads :: nat
  wall :: "nat \<Rightarrow> u64"
  wall_reads :: nat
  mon :: "monitor option"

text \<open>
  Every operation below is guarded by \<open>if (monitor_)\<close> at its call sites: without a
  monitor neither it nor the clock is touched.
\<close>

definition now :: "'a env_scheme \<Rightarrow> int" where
  "now s = clk s (clk_reads s)"

definition mon_reads :: "'a env_scheme \<Rightarrow> nat" where
  "mon_reads s = (case mon s of None \<Rightarrow> 0 | Some _ \<Rightarrow> 1)"

definition update_mon :: "(monitor \<Rightarrow> monitor) \<Rightarrow> 'a env_scheme \<Rightarrow> 'a env_scheme" where
  "update_mon f s = s\<lparr>mon := map_option f (mon s)\<rparr>"

definition update_mon_clk :: "(int \<Rightarrow> monitor \<Rightarrow> monitor) \<Rightarrow> 'a env_scheme \<Rightarrow> 'a env_scheme" where
  "update_mon_clk f s =
     s\<lparr>mon := map_option (f (now s)) (mon s), clk_reads := clk_reads s + mon_reads s\<rparr>"

definition update_mon_wall :: "(u64 \<Rightarrow> monitor \<Rightarrow> monitor) \<Rightarrow> 'a env_scheme \<Rightarrow> 'a env_scheme" where
  "update_mon_wall f s =
     s\<lparr>mon := map_option (f (wall s (wall_reads s))) (mon s), wall_reads := wall_reads s + mon_reads s\<rparr>"

definition updateHandler :: "(HandlerMetrics \<Rightarrow> HandlerMetrics) \<Rightarrow> 'a env_scheme \<Rightarrow> 'a env_scheme" where
  "updateHandler f = update_mon (\<lambda>m. m\<lparr>handler_acc := f (handler_acc m)\<rparr>)"

definition updateRequest :: "(RequestMetrics \<Rightarrow> RequestMetrics) \<Rightarrow> 'a env_scheme \<Rightarrow> 'a env_scheme" where
  "updateRequest f = update_mon (\<lambda>m. m\<lparr>request_acc := f (request_acc m)\<rparr>)"

definition updateBus :: "(BusMetrics \<Rightarrow> BusMetrics) \<Rightarrow> 'a env_scheme \<Rightarrow> 'a env_scheme" where
  "updateBus f = update_mon (\<lambda>m. m\<lparr>bus_acc := f (bus_acc m)\<rparr>)"

definition updateDevice :: "(DeviceMetrics \<Rightarrow> DeviceMetrics) \<Rightarrow> 'a env_scheme \<Rightarrow> 'a env_scheme" where
  "updateDevice f = update_mon (\<lambda>m. m\<lparr>device_acc := f (device_acc m)\<rparr>)"

definition updateReactor :: "(ReactorMetrics \<Rightarrow> ReactorMetrics) \<Rightarrow> 'a env_scheme \<Rightarrow> 'a env_scheme" where
  "updateReactor f = update_mon (\<lambda>m. m\<lparr>reactor_acc := f (reactor_acc m)\<rparr>)"

definition resetLoopCycle :: "'a env_scheme \<Rightarrow> 'a env_scheme" where
  "resetLoopCycle = updateReactor (\<lambda>m. m\<lparr>max_loop_cycle_us := 0\<rparr>)"

definition resetMaxSignalQueueSize :: "nat \<Rightarrow> 'a env_scheme \<Rightarrow> 'a env_scheme" where
  "resetMaxSignalQueueSize current = updateReactor (\<lambda>m. m\<lparr>max_signal_queue_size := of_nat current\<rparr>)"

definition resetMaxProtocolQueueSize :: "nat \<Rightarrow> 'a env_scheme \<Rightarrow> 'a env_scheme" where
  "resetMaxProtocolQueueSize current = updateReactor (\<lambda>m. m\<lparr>max_protocol_queue_size := of_nat current\<rparr>)"

definition resetMaxBusQueueSize :: "nat \<Rightarrow> 'a env_scheme \<Rightarrow> 'a env_scheme" where
  "resetMaxBusQueueSize current = updateReactor (\<lambda>m. m\<lparr>max_bus_queue_size := of_nat current\<rparr>)"

definition resetMetrics :: "'a env_scheme \<Rightarrow> 'a env_scheme" where
  "resetMetrics = update_mon_clk (\<lambda>t m.
     m\<lparr>handler_acc := HandlerMetrics_reset (handler_acc m),
       request_acc := RequestMetrics_reset (request_acc m),
       bus_acc := BusMetrics_reset (bus_acc m),
       reactor_acc := ReactorMetrics_reset (reactor_acc m),
       device_acc := DeviceMetrics_reset (device_acc m),
       ts_sync := ts_reset (ts_sync m), ts_write := ts_reset (ts_write m),
       ts_passive_first := ts_reset (ts_passive_first m),
       ts_passive_data := ts_reset (ts_passive_data m),
       ts_active_first := ts_reset (ts_active_first m),
       ts_active_data := ts_reset (ts_active_data m),
       ts_syn_postpone := ts_reset (ts_syn_postpone m),
       ts_delay := ts_reset (ts_delay m), ts_window := ts_reset (ts_window m),
       ts_transmit := ts_reset (ts_transmit m), uptime_start := t, total_low_bits := 0,
       last_history_low_bits := 0, last_history_uptime_us := 0,
       handler_history := cb_clear (handler_history m),
       request_history := cb_clear (request_history m)\<rparr>)"

definition recordBusError :: "'a env_scheme \<Rightarrow> 'a env_scheme" where
  "recordBusError = update_mon_clk (\<lambda>t m.
     m\<lparr>bus_acc := (bus_acc m)\<lparr>last_error_us := of_int (t - uptime_start m)\<rparr>\<rparr>)"

definition recordLowBits :: "u32 \<Rightarrow> 'a env_scheme \<Rightarrow> 'a env_scheme" where
  "recordLowBits bits = update_mon (\<lambda>m. m\<lparr>total_low_bits := total_low_bits m + ucast bits\<rparr>)"

text \<open>
  The loop of \<open>recordHandlerError\<close> over the table: it stops at the first entry with the
  address, and until then keeps the index of the smallest count.
\<close>

function find_error :: "u8 \<Rightarrow> ErrorAddressStats list \<Rightarrow> nat \<Rightarrow> nat \<Rightarrow> nat option \<times> nat" where
  "find_error a tab i min_idx =
     (if i < length tab
      then (if ea_address (tab ! i) = a then (Some i, min_idx)
            else find_error a tab (i + 1)
                   (if ea_count (tab ! i) < ea_count (tab ! min_idx) then i else min_idx))
      else (None, min_idx))"
  by pat_completeness auto
termination by (relation "measure (\<lambda>(a, tab, i, min_idx). length tab - i)") auto

declare find_error.simps [simp del]

definition err_before :: "ErrorAddressStats \<Rightarrow> ErrorAddressStats \<Rightarrow> bool" where
  "err_before a b =
     (if ea_count a \<noteq> ea_count b then ea_count a > ea_count b
      else ea_last_seen_us a > ea_last_seen_us b)"

text \<open>\<open>std::sort\<close>: an insertion sort that keeps the order of equivalent entries.\<close>

fun err_insert :: "ErrorAddressStats \<Rightarrow> ErrorAddressStats list \<Rightarrow> ErrorAddressStats list" where
  "err_insert x [] = [x]"
| "err_insert x (y # ys) = (if err_before y x then y # err_insert x ys else x # y # ys)"

definition err_sort :: "ErrorAddressStats list \<Rightarrow> ErrorAddressStats list" where
  "err_sort xs = foldr err_insert xs []"

definition note_error :: "u8 \<Rightarrow> u64 \<Rightarrow> ErrorAddressStats list \<Rightarrow> ErrorAddressStats list" where
  "note_error address now_us tab =
     err_sort
       (case find_error address tab 0 0 of
          (Some i, _) \<Rightarrow>
            tab[i := (tab ! i)\<lparr>ea_count := ea_count (tab ! i) + 1, ea_last_seen_us := now_us\<rparr>]
        | (None, min_idx) \<Rightarrow>
            tab[min_idx := \<lparr>ea_address = address, ea_count = 1, ea_last_seen_us = now_us\<rparr>])"

definition recordHandlerError :: "u8 \<Rightarrow> 'a env_scheme \<Rightarrow> 'a env_scheme" where
  "recordHandlerError address = update_mon_clk (\<lambda>t m.
     m\<lparr>handler_acc := (handler_acc m)
         \<lparr>last_error_address := address,
          top_errors := note_error address (of_int (t - uptime_start m)) (top_errors (handler_acc m))\<rparr>\<rparr>)"

definition recordHandlerSuccess :: "u8 \<Rightarrow> 'a env_scheme \<Rightarrow> 'a env_scheme" where
  "recordHandlerSuccess address = updateHandler (\<lambda>m. m\<lparr>last_success_address := address\<rparr>)"

definition recordIsrStartBitError :: "'a env_scheme \<Rightarrow> 'a env_scheme" where
  "recordIsrStartBitError = update_mon (\<lambda>m.
     m\<lparr>bus_acc := (bus_acc m)\<lparr>start_bit_errors := start_bit_errors (bus_acc m) + 1\<rparr>\<rparr>)"

definition recordIsrSynPostponed :: "u32 \<Rightarrow> 'a env_scheme \<Rightarrow> 'a env_scheme" where
  "recordIsrSynPostponed count = update_mon (\<lambda>m.
     m\<lparr>bus_acc := (bus_acc m)\<lparr>syn_postponed_count := syn_postponed_count (bus_acc m) + count\<rparr>\<rparr>)"

definition logPassiveReset :: "'a env_scheme \<Rightarrow> 'a env_scheme" where
  "logPassiveReset = update_mon_clk (\<lambda>t m.
     m\<lparr>handler_acc := (handler_acc m)
         \<lparr>last_passive_reset_us := of_int (t - uptime_start m),
          resets_passive := resets_passive (handler_acc m) + 1\<rparr>\<rparr>)"

definition logActiveReset :: "'a env_scheme \<Rightarrow> 'a env_scheme" where
  "logActiveReset = update_mon_clk (\<lambda>t m.
     m\<lparr>handler_acc := (handler_acc m)
         \<lparr>last_active_reset_us := of_int (t - uptime_start m),
          resets_active := resets_active (handler_acc m) + 1\<rparr>\<rparr>)"

definition clearHistory :: "'a env_scheme \<Rightarrow> 'a env_scheme" where
  "clearHistory = update_mon_clk (\<lambda>t m.
     m\<lparr>handler_history := cb_clear (handler_history m), request_history := cb_clear (request_history m),
       last_history_low_bits := total_low_bits m, last_history_uptime_us := of_int (t - uptime_start m)\<rparr>)"

definition logHandlerTransition :: "HandlerState \<Rightarrow> HandlerState \<Rightarrow> 'a env_scheme \<Rightarrow> 'a env_scheme" where
  "logHandlerTransition old new = update_mon_wall (\<lambda>ts m.
     m\<lparr>handler_history :=
         snd (cb_push_back \<lparr>tr_from = old, tr_to = new, tr_timestamp = ts\<rparr> (handler_history m))\<rparr>)"

definition logRequestTransition :: "RequestState \<Rightarrow> RequestState \<Rightarrow> 'a env_scheme \<Rightarrow> 'a env_scheme" where
  "logRequestTransition old new = update_mon_wall (\<lambda>ts m.
     m\<lparr>request_history :=
         snd (cb_push_back \<lparr>tr_from = old, tr_to = new, tr_timestamp = ts\<rparr> (request_history m))\<rparr>)"

text \<open>
  All of them are updates of the environment fields only: unfolding them lets the record
  simplifier see that no field of an extension is touched.
\<close>

lemmas monitor_ops =
  update_mon_def update_mon_clk_def update_mon_wall_def updateHandler_def updateRequest_def
  resetMetrics_def recordBusError_def recordLowBits_def recordHandlerError_def
  recordHandlerSuccess_def recordIsrStartBitError_def recordIsrSynPostponed_def
  logPassiveReset_def logActiveReset_def logHandlerTransition_def logRequestTransition_def

section \<open>Timing statistics over a run of samples\<close>

lemma addSample_all:
  "ts_count (fold addSample vs t) = ts_count t + of_nat (length vs)"
  "ts_sum (fold addSample vs t) = ts_sum t + sum_list (map ucast vs)"
  "ts_max (fold addSample vs t) = fold max vs (ts_max t)"
  by (induction vs arbitrary: t) (auto simp: addSample_def max_def algebra_simps not_less not_le)

lemma markEnd_once: "\<not> ts_marked (markEnd e t)"
  by (simp add: markEnd_def)

lemma ucast_of_int_diff: "(ucast (of_int e - of_int b :: u64) :: u32) = of_int (e - b)"
proof -
  have "(of_int e - of_int b :: u64) = of_int (e - b)" by simp
  then show ?thesis by (simp only:) (rule bit_word_eqI, simp add: bit_simps del: of_int_diff)
qed

lemma mark_pair:
  "ts_last (markEnd e (markBegin b t)) = of_int (e - b)"
  "ts_count (markEnd e (markBegin b t)) = ts_count t + 1"
  unfolding markEnd_def markBegin_def addSample_def
  by (simp_all add: ucast_of_int_diff del: of_int_diff)

section \<open>The table of the most frequent error addresses\<close>

lemma err_before_order:
  "\<not> err_before a a"
  "err_before a b \<Longrightarrow> \<not> err_before b a"
  "\<not> err_before b a \<Longrightarrow> \<not> err_before c b \<Longrightarrow> \<not> err_before c a"
  by (auto simp: err_before_def split: if_splits)

lemma set_err_insert: "set (err_insert x xs) = insert x (set xs)"
  by (induction xs) auto

lemma sorted_err_insert:
  "sorted_wrt (\<lambda>a b. \<not> err_before b a) xs \<Longrightarrow> sorted_wrt (\<lambda>a b. \<not> err_before b a) (err_insert x xs)"
  by (induction xs) (auto simp: set_err_insert dest: err_before_order(2,3))

lemma err_sort_props:
  "sorted_wrt (\<lambda>a b. \<not> err_before b a) (err_sort xs)" "set (err_sort xs) = set xs"
  "length (err_sort xs) = length xs"
proof -
  have len: "length (err_insert x ys) = Suc (length ys)" for x ys by (induction ys) auto
  show "sorted_wrt (\<lambda>a b. \<not> err_before b a) (err_sort xs)"
    by (induction xs) (simp_all add: err_sort_def sorted_err_insert)
  show "set (err_sort xs) = set xs" by (induction xs) (simp_all add: err_sort_def set_err_insert)
  show "length (err_sort xs) = length xs" by (induction xs) (simp_all add: err_sort_def len)
qed

lemma find_error_props:
  assumes "find_error a tab i mn = (r, mn')" "mn < length tab"
  shows "mn' < length tab"
    and "r = Some k \<Longrightarrow> k < length tab \<and> ea_address (tab ! k) = a"
    and "r = None \<Longrightarrow> \<forall>j. i \<le> j \<and> j < length tab \<longrightarrow> ea_address (tab ! j) \<noteq> a"
  using assms
proof (induction a tab i mn arbitrary: r mn' rule: find_error.induct)
  case (1 a tab i mn)
  {
    case 1 then show ?case
      using "1.IH"(1) by (subst (asm) find_error.simps) (auto split: if_splits)
  next
    case 2 then show ?case
      using "1.IH"(2) by (subst (asm) find_error.simps) (auto split: if_splits)
  next
    case 3 then show ?case
      using "1.IH"(3) by (subst (asm) find_error.simps)
        (auto split: if_splits, (metis Suc_leI le_neq_implies_less)+)
  }
qed

section \<open>Properties\<close>

lemma note_error_present:
  assumes "tab \<noteq> []"
  shows "\<exists>e \<in> set (note_error a t tab). ea_address e = a \<and> ea_last_seen_us e = t"
proof -
  obtain r mn where f: "find_error a tab 0 0 = (r, mn)" by (cases "find_error a tab 0 0")
  have "0 < length tab" using assms by simp
  note p = find_error_props [OF f this]
  have mem: "x \<in> set (tab[k := x])" if "k < length tab" for k x
    using that by (simp add: set_update_memI)
  show ?thesis
  proof (cases r)
    case None
    then show ?thesis
      using mem [OF p(1), of "\<lparr>ea_address = a, ea_count = 1, ea_last_seen_us = t\<rparr>"]
      by (intro bexI [of _ "\<lparr>ea_address = a, ea_count = 1, ea_last_seen_us = t\<rparr>"])
        (simp_all add: note_error_def f err_sort_props(2))
  next
    case (Some k)
    then have k: "k < length tab" "ea_address (tab ! k) = a" using p(2) by auto
    then show ?thesis
      using Some mem [OF k(1), of "(tab ! k)\<lparr>ea_count := ea_count (tab ! k) + 1, ea_last_seen_us := t\<rparr>"]
      by (intro bexI [of _ "(tab ! k)\<lparr>ea_count := ea_count (tab ! k) + 1, ea_last_seen_us := t\<rparr>"])
        (simp_all add: note_error_def f err_sort_props(2))
  qed
qed

text \<open>
  Recording an error keeps the table of error addresses at its size and ordered by count
  and recency, and the address is in the table afterwards with the current time.
\<close>

theorem error_table:
  assumes "tab \<noteq> []"
  shows "length (note_error a t tab) = length tab
    \<and> sorted_wrt (\<lambda>x y. \<not> err_before y x) (note_error a t tab)
    \<and> (\<exists>e \<in> set (note_error a t tab). ea_address e = a \<and> ea_last_seen_us e = t)"
  using note_error_present [OF assms, of a t]
  by (simp add: note_error_def err_sort_props split: prod.split option.split)

theorem error_table_witness:
  "note_error 0x10 7 (replicate 3 ea_default) \<noteq> []
   \<and> (\<exists>e \<in> set (note_error 0x10 7 (replicate 3 ea_default)). ea_address e = 0x10)"
proof -
  have "replicate 3 ea_default \<noteq> []" by (simp add: numeral_3_eq_3)
  note p = error_table [OF this, of "0x10" 7]
  then have "note_error 0x10 7 (replicate 3 ea_default) \<noteq> []" by auto
  with p show ?thesis by blast
qed

end
