(* ===== verification/Arbitration.thy ===== *)
theory Arbitration
  imports Bus_Monitor
begin

text \<open>
  \<open>Request\<close> (\<open>src/ebus/core/request.hpp\<close>, \<open>.cpp\<close>): the arbitration state machine of
  one bus participant. Its record extends the shared environment. The two callbacks a
  completed request may fire are parameters of the operation that fires them. The lemmas
  give the legal moves of the machine, the bounds of the lock counter, and what happens
  when several participants arbitrate on one wire: the wire carries the bitwise AND of
  the addresses sent, and after at most two rounds exactly one of them has won.
\<close>

section \<open>Definitions\<close>

record request = env +
  lock_counter_max :: u8
  lock_counter :: u8
  bytes_since_syn :: u32
  request_address :: u8
  bus_request :: bool
  external_bus_request :: bool
  rq_state :: RequestState
  rq_result :: RequestResult

text \<open>A freshly constructed \<open>Request\<close>; the default lock counter of \<open>RuntimeConfig\<close> is 3.\<close>

definition request_new :: "env \<Rightarrow> request" where
  "request_new e = env.extend e (request.fields 3 3 0 0 False False observe observe_syn)"

definition request_mask :: "RequestState list \<Rightarrow> u8" where
  "request_mask states = foldr (\<lambda>st m. push_bit (request_index st) 1 OR m) states 0"

definition request_transition_masks :: "u8 list" where
  "request_transition_masks =
     [request_mask [observe, first],
      request_mask [observe, first, retry],
      request_mask [observe, second],
      request_mask [observe]]"

definition request_allowed :: "RequestState \<Rightarrow> RequestState \<Rightarrow> bool" where
  "request_allowed old new \<longleftrightarrow>
     (push_bit (request_index new) 1 :: u8) AND request_transition_masks ! request_index old \<noteq> 0"

definition rq_transitionTo :: "RequestState \<Rightarrow> 'a request_scheme \<Rightarrow> 'a request_scheme" where
  "rq_transitionTo next s =
     (if next = rq_state s then s
      else (let old_state = rq_state s;
                next' = (if \<not> request_allowed old_state next then observe else next)
            in logRequestTransition old_state next' (s\<lparr>rq_state := next'\<rparr>)))"

definition request_reset :: "'a request_scheme \<Rightarrow> 'a request_scheme" where
  "request_reset s =
     rq_transitionTo observe
       ((updateRequest (\<lambda>m. m\<lparr>lock_counter_reset := lock_counter_reset m + 1\<rparr>)
          (s\<lparr>lock_counter := lock_counter_max s, bytes_since_syn := 0\<rparr>))\<lparr>bus_request := False\<rparr>)"

definition setLockCounter :: "u8 \<Rightarrow> 'a request_scheme \<Rightarrow> 'a request_scheme" where
  "setLockCounter n s =
     (let m = min n lock_counter_limit in
      s\<lparr>lock_counter_max := m, lock_counter := (if lock_counter s > m then m else lock_counter s)\<rparr>)"

definition busAvailable :: "'a request_scheme \<Rightarrow> bool" where
  "busAvailable s \<longleftrightarrow> rq_result s = observe_syn \<and> lock_counter s = 0 \<and> \<not> bus_request s"

definition requestBus :: "u8 \<Rightarrow> bool \<Rightarrow> 'a request_scheme \<Rightarrow> bool \<times> 'a request_scheme" where
  "requestBus address external s =
     (let s' = (if busAvailable s
                then s\<lparr>request_address := address, external_bus_request := external, bus_request := True\<rparr>
                else updateRequest (\<lambda>m. m\<lparr>bus_request_blocked := bus_request_blocked m + 1\<rparr>) s)
      in (bus_request s', s'))"

text \<open>The callbacks are \<open>None\<close> when unset (a null delegate).\<close>

definition busRequestCompleted ::
  "('a request_scheme \<Rightarrow> 'a request_scheme) option \<Rightarrow> ('a request_scheme \<Rightarrow> 'a request_scheme) option
    \<Rightarrow> 'a request_scheme \<Rightarrow> 'a request_scheme" where
  "busRequestCompleted handler_cb external_cb s =
     (let s1 = s\<lparr>bus_request := False\<rparr>;
          s2 = (if rq_state s1 = observe then rq_transitionTo first s1 else s1)
      in if external_bus_request s2
         then (case external_cb of None \<Rightarrow> s2 | Some f \<Rightarrow> f s2)
         else (case handler_cb of None \<Rightarrow> s2 | Some f \<Rightarrow> f s2))"

definition startBit :: "('a request_scheme \<Rightarrow> 'a request_scheme) option \<Rightarrow> 'a request_scheme \<Rightarrow> 'a request_scheme" where
  "startBit start_bit_cb s =
     (let s1 = (rq_transitionTo observe (s\<lparr>bus_request := False\<rparr>))\<lparr>rq_result := observe_syn\<rparr>
      in case start_bit_cb of None \<Rightarrow> s1 | Some f \<Rightarrow> f s1)"

definition rq_observe :: "u8 \<Rightarrow> 'a request_scheme \<Rightarrow> 'a request_scheme" where
  "rq_observe byte s =
     (if byte = syn
      then s\<lparr>lock_counter :=
               (if bytes_since_syn s \<noteq> collision_byte_count \<and> lock_counter s > 0
                then lock_counter s - 1 else lock_counter s),
             rq_result := observe_syn, bytes_since_syn := 0\<rparr>
      else s\<lparr>rq_result := observe_data, bytes_since_syn := bytes_since_syn s + 1\<rparr>)"

definition rq_first :: "u8 \<Rightarrow> 'a request_scheme \<Rightarrow> 'a request_scheme" where
  "rq_first byte s =
     (if byte = syn
      then (rq_transitionTo first
              (updateRequest (\<lambda>m. m\<lparr>first_syn_total := first_syn_total m + 1\<rparr>) s))
             \<lparr>rq_result := first_syn, bytes_since_syn := 0\<rparr>
      else if byte = request_address s
      then (rq_transitionTo observe
              ((updateRequest (\<lambda>m. m\<lparr>won_total := won_total m + 1\<rparr>) s)\<lparr>lock_counter := lock_counter_max s\<rparr>))
             \<lparr>rq_result := first_won, bytes_since_syn := 0\<rparr>
      else if isMaster byte
      then
        (if byte AND 0x0f = request_address s AND 0x0f
         then (rq_transitionTo retry
                 (updateRequest (\<lambda>m. m\<lparr>collisions := collisions m + 1\<rparr>) s))
                \<lparr>bus_request := True, rq_result := first_retry, bytes_since_syn := collision_byte_count\<rparr>
         else (rq_transitionTo observe
                 (updateRequest (\<lambda>m. m\<lparr>lost_total := lost_total m + 1\<rparr>) s))
                \<lparr>rq_result := first_lost, bytes_since_syn := collision_byte_count\<rparr>)
      else (rq_transitionTo observe
              (updateRequest (\<lambda>m. m\<lparr>arbitration_errors := arbitration_errors m + 1\<rparr>) s))
             \<lparr>rq_result := first_error, bytes_since_syn := collision_byte_count\<rparr>)"

definition rq_retry :: "u8 \<Rightarrow> 'a request_scheme \<Rightarrow> 'a request_scheme" where
  "rq_retry byte s =
     (if byte = syn
      then (rq_transitionTo second s)\<lparr>rq_result := retry_syn, bytes_since_syn := 0\<rparr>
      else (rq_transitionTo observe
              (updateRequest (\<lambda>m. m\<lparr>arbitration_errors := arbitration_errors m + 1\<rparr>) s))
             \<lparr>rq_result := retry_error, bytes_since_syn := collision_byte_count\<rparr>)"

definition rq_second :: "u8 \<Rightarrow> 'a request_scheme \<Rightarrow> 'a request_scheme" where
  "rq_second byte s =
     (if byte = request_address s
      then (rq_transitionTo observe
              ((updateRequest (\<lambda>m. m\<lparr>won_total := won_total m + 1\<rparr>) s)\<lparr>lock_counter := lock_counter_max s\<rparr>))
             \<lparr>rq_result := second_won, bytes_since_syn := 0\<rparr>
      else if isMaster byte
      then (rq_transitionTo observe
              (updateRequest (\<lambda>m. m\<lparr>lost_total := lost_total m + 1\<rparr>) s))
             \<lparr>rq_result := second_lost, bytes_since_syn := collision_byte_count\<rparr>
      else (rq_transitionTo observe
              (updateRequest (\<lambda>m. m\<lparr>arbitration_errors := arbitration_errors m + 1\<rparr>) s))
             \<lparr>rq_result := second_error, bytes_since_syn := collision_byte_count\<rparr>)"

definition request_run :: "u8 \<Rightarrow> 'a request_scheme \<Rightarrow> RequestResult \<times> 'a request_scheme" where
  "request_run byte s =
     (let s' = (case rq_state s of
                  observe \<Rightarrow> rq_observe byte s
                | first \<Rightarrow> rq_first byte s
                | retry \<Rightarrow> rq_retry byte s
                | second \<Rightarrow> rq_second byte s)
      in (rq_result s', s'))"

section \<open>The transition matrix\<close>

fun request_successors :: "RequestState \<Rightarrow> RequestState list" where
  "request_successors observe = [observe, first]"
| "request_successors first = [observe, first, retry]"
| "request_successors retry = [observe, second]"
| "request_successors second = [observe]"

lemma request_allowed_iff: "request_allowed old new \<longleftrightarrow> new \<in> set (request_successors old)"
  by (cases old; cases new) (simp_all add: request_allowed_def request_transition_masks_def request_mask_def)

lemma rq_transitionTo_state:
  "rq_state (rq_transitionTo next s) =
     (if next = rq_state s \<or> request_allowed (rq_state s) next then next else observe)"
  by (auto simp: rq_transitionTo_def monitor_ops Let_def)

lemma rq_transitionTo_frame [simp]:
  "lock_counter_max (rq_transitionTo next s) = lock_counter_max s"
  "lock_counter (rq_transitionTo next s) = lock_counter s"
  "bytes_since_syn (rq_transitionTo next s) = bytes_since_syn s"
  "request_address (rq_transitionTo next s) = request_address s"
  "bus_request (rq_transitionTo next s) = bus_request s"
  "external_bus_request (rq_transitionTo next s) = external_bus_request s"
  "rq_result (rq_transitionTo next s) = rq_result s"
  "request.more (rq_transitionTo next s) = request.more s"
  by (simp_all add: rq_transitionTo_def monitor_ops Let_def)

lemma updateRequest_frame [simp]:
  "lock_counter_max (updateRequest f s) = lock_counter_max s"
  "lock_counter (updateRequest f s) = lock_counter s"
  "bytes_since_syn (updateRequest f s) = bytes_since_syn s"
  "request_address (updateRequest f s) = request_address s"
  "bus_request (updateRequest f s) = bus_request s"
  "external_bus_request (updateRequest f s) = external_bus_request s"
  "rq_state (updateRequest f s) = rq_state s"
  "rq_result (updateRequest f s) = rq_result s"
  "request.more (updateRequest f s) = request.more s"
  by (simp_all add: monitor_ops)

lemmas request_step_defs =
  request_run_def rq_observe_def rq_first_def rq_retry_def rq_second_def

text \<open>
  Every move the state functions ask for is in the matrix: the recovery branch of
  \<open>transitionTo\<close> is dead code.
\<close>

lemma request_run_state:
  "rq_state (snd (request_run byte s)) =
     (case rq_state s of
        observe \<Rightarrow> observe
      | first \<Rightarrow>
          (if byte = syn then first
           else if byte \<noteq> request_address s \<and> isMaster byte \<and> byte AND 0x0f = request_address s AND 0x0f
           then retry else observe)
      | retry \<Rightarrow> (if byte = syn then second else observe)
      | second \<Rightarrow> observe)"
  by (cases "rq_state s")
    (simp_all add: request_step_defs rq_transitionTo_state request_allowed_iff Let_def)

lemma request_run_result:
  "fst (request_run byte s) =
     (case rq_state s of
        observe \<Rightarrow> (if byte = syn then observe_syn else observe_data)
      | first \<Rightarrow>
          (if byte = syn then first_syn
           else if byte = request_address s then first_won
           else if isMaster byte
             then (if byte AND 0x0f = request_address s AND 0x0f then first_retry else first_lost)
           else first_error)
      | retry \<Rightarrow> (if byte = syn then retry_syn else retry_error)
      | second \<Rightarrow>
          (if byte = request_address s then second_won
           else if isMaster byte then second_lost else second_error))"
  by (cases "rq_state s") (simp_all add: request_step_defs Let_def)

lemma request_run_result_field: "rq_result (snd (request_run byte s)) = fst (request_run byte s)"
  by (simp add: request_run_def Let_def)

lemma request_run_frame [simp]:
  "request.more (snd (request_run byte s)) = request.more s"
  "request_address (snd (request_run byte s)) = request_address s"
  "external_bus_request (snd (request_run byte s)) = external_bus_request s"
  "lock_counter_max (snd (request_run byte s)) = lock_counter_max s"
  by (cases "rq_state s"; simp add: request_step_defs Let_def)+

section \<open>The lock counter\<close>

definition request_inv :: "'a request_scheme \<Rightarrow> bool" where
  "request_inv s \<longleftrightarrow> lock_counter s \<le> lock_counter_max s \<and> lock_counter_max s \<le> lock_counter_limit"

lemma word_dec_le: "(x :: u8) \<le> y \<Longrightarrow> 0 < x \<Longrightarrow> x - 1 \<le> y"
  by unat_arith

lemma request_run_lock:
  "lock_counter (snd (request_run byte s)) =
     (if rq_state s = observe \<and> byte = syn \<and> bytes_since_syn s \<noteq> collision_byte_count \<and> 0 < lock_counter s
      then lock_counter s - 1
      else if rq_state s \<in> {first, second} \<and> byte = request_address s \<and> (rq_state s = first \<longrightarrow> byte \<noteq> syn)
      then lock_counter_max s
      else lock_counter s)"
  by (cases "rq_state s") (auto simp: request_step_defs Let_def)

lemma request_run_inv: "request_inv s \<Longrightarrow> request_inv (snd (request_run byte s))"
  by (auto simp: request_inv_def request_run_lock intro: word_dec_le)

lemma setLockCounter_inv: "request_inv (setLockCounter n s)"
  by (auto simp: request_inv_def setLockCounter_def Let_def min_def)

lemma request_reset_inv: "request_inv s \<Longrightarrow> request_inv (request_reset s)"
  by (simp add: request_inv_def request_reset_def)

lemma requestBus_inv: "request_inv s \<Longrightarrow> request_inv (snd (requestBus a e s))"
  by (auto simp: request_inv_def requestBus_def Let_def)

text \<open>A run of SYN symbols, as an idle bus produces them.\<close>

fun request_idle :: "nat \<Rightarrow> 'a request_scheme \<Rightarrow> 'a request_scheme" where
  "request_idle 0 s = s"
| "request_idle (Suc n) s = request_idle n (snd (request_run syn s))"

lemma idle_step:
  assumes "rq_state s = observe"
  shows "rq_state (snd (request_run syn s)) = observe"
    and "bytes_since_syn (snd (request_run syn s)) = 0"
    and "bus_request (snd (request_run syn s)) = bus_request s"
    and "rq_result (snd (request_run syn s)) = observe_syn"
  using assms by (simp_all add: request_step_defs Let_def)

lemma request_idle_lock:
  assumes "rq_state s = observe" "bytes_since_syn s = 0"
  shows "unat (lock_counter (request_idle n s)) = unat (lock_counter s) - n
    \<and> rq_state (request_idle n s) = observe \<and> bus_request (request_idle n s) = bus_request s
    \<and> (0 < n \<longrightarrow> rq_result (request_idle n s) = observe_syn)"
  using assms
proof (induction n arbitrary: s)
  case (Suc n)
  define s' where "s' = snd (request_run syn s)"
  have s': "rq_state s' = observe" "bytes_since_syn s' = 0" "bus_request s' = bus_request s"
    "rq_result s' = observe_syn"
    using idle_step [OF Suc.prems(1)] by (simp_all add: s'_def)
  have "unat (lock_counter s') = unat (lock_counter s) - 1"
    using Suc.prems by (auto simp: s'_def request_run_lock collision_byte_count_def unat_minus_one word_greater_zero_iff)
  with Suc.IH [OF s'(1,2)] s' show ?case
    by (cases n) (simp_all add: s'_def [symmetric])
qed simp

section \<open>Several participants on one wire\<close>

text \<open>Master addresses as pairs of nibbles: the five values \<open>0, 1, 3, 7, 15\<close> form a chain.\<close>

definition low_nibble :: "u8 \<Rightarrow> u8" where "low_nibble x = x AND 0x0f"
definition high_nibble :: "u8 \<Rightarrow> u8" where "high_nibble x = drop_bit 4 x AND 0x0f"

definition chain :: "u8 set" where "chain = {0, 1, 3, 7, 15}"

lemma isMaster_nibbles: "isMaster x \<longleftrightarrow> high_nibble x \<in> chain \<and> low_nibble x \<in> chain"
proof -
  have "all_u8 (\<lambda>n. ((n AND 0x0f) + 1) AND (n AND 0x0f) = 0 \<longleftrightarrow> n AND 0x0f \<in> {0, 1, 3, 7, 15})"
    by code_simp
  then have "((n AND 0x0f) + 1) AND (n AND 0x0f) = 0 \<longleftrightarrow> n AND 0x0f \<in> chain" for n :: u8
    unfolding chain_def by (rule all_u8D)
  then show ?thesis by (simp add: isMaster_def high_nibble_def low_nibble_def)
qed

lemma nibble_and:
  "low_nibble (x AND y) = low_nibble x AND low_nibble y"
  "high_nibble (x AND y) = high_nibble x AND high_nibble y"
  by (simp_all add: low_nibble_def high_nibble_def bit_eq_iff bit_and_iff bit_drop_bit_eq) blast+

lemma nibbles_join: "push_bit 4 (high_nibble x) OR low_nibble x = x"
proof -
  have "all_u8 (\<lambda>x. push_bit 4 (drop_bit 4 x AND 0x0f) OR (x AND 0x0f) = x)" by code_simp
  then show ?thesis unfolding high_nibble_def low_nibble_def by (rule all_u8D)
qed

lemma nibbles_inj: "low_nibble x = low_nibble y \<Longrightarrow> high_nibble x = high_nibble y \<Longrightarrow> x = y"
  by (metis nibbles_join)

lemma chain_and: "x \<in> chain \<Longrightarrow> y \<in> chain \<Longrightarrow> x AND y = x \<or> x AND y = y"
  by (auto simp: chain_def)

text \<open>The byte on the wire when several participants send at the same time.\<close>

definition wired_and :: "u8 list \<Rightarrow> u8" where
  "wired_and xs = foldr (AND) xs (-1)"

lemma wired_and_simps: "wired_and [x] = x" "wired_and (x # y # xs) = x AND wired_and (y # xs)"
  by (simp_all add: wired_and_def)

lemma chain_wired:
  assumes f: "\<And>x y. f (x AND y) = f x AND f y"
  shows "xs \<noteq> [] \<Longrightarrow> \<forall>x \<in> set xs. f x \<in> chain \<Longrightarrow> \<exists>x \<in> set xs. f (wired_and xs) = f x"
proof (induction xs rule: list_nonempty_induct)
  case (cons x xs)
  then obtain y where y: "y \<in> set xs" "f (wired_and xs) = f y" by auto
  have "f (wired_and (x # xs)) = f x AND f y"
    using cons.hyps y by (cases xs) (simp_all add: wired_and_simps f)
  moreover have "f x \<in> chain" "f y \<in> chain" using cons.prems y by auto
  ultimately show ?case using chain_and y by fastforce
qed (simp add: wired_and_simps)

text \<open>The wire shows a master address again: its nibbles are the smallest ones sent.\<close>

lemma wired_and_nibbles:
  assumes "ms \<noteq> []" "\<forall>m \<in> set ms. isMaster m"
  shows "isMaster (wired_and ms)"
    and "\<exists>m \<in> set ms. low_nibble (wired_and ms) = low_nibble m"
    and "\<exists>m \<in> set ms. high_nibble (wired_and ms) = high_nibble m"
proof -
  show lo: "\<exists>m \<in> set ms. low_nibble (wired_and ms) = low_nibble m"
    using assms by (intro chain_wired) (auto simp: nibble_and isMaster_nibbles)
  show hi: "\<exists>m \<in> set ms. high_nibble (wired_and ms) = high_nibble m"
    using assms by (intro chain_wired) (auto simp: nibble_and isMaster_nibbles)
  show "isMaster (wired_and ms)"
    using lo hi assms(2) by (auto simp: isMaster_nibbles)
qed

text \<open>The participants that may try again: same priority class as the byte on the wire.\<close>

definition retriers :: "u8 list \<Rightarrow> u8 list" where
  "retriers ms = filter (\<lambda>m. m \<noteq> wired_and ms \<and> low_nibble m = low_nibble (wired_and ms)) ms"

lemma retriers_winner:
  assumes ms: "ms \<noteq> []" "\<forall>m \<in> set ms. isMaster m" and none: "wired_and ms \<notin> set ms"
  shows "retriers ms \<noteq> [] \<and> wired_and (retriers ms) \<in> set (retriers ms)"
proof -
  obtain m where m: "m \<in> set ms" "low_nibble (wired_and ms) = low_nibble m"
    using wired_and_nibbles(2) [OF ms] by blast
  have "m \<noteq> wired_and ms" using m(1) none by blast
  with m have "m \<in> set (retriers ms)" by (simp add: retriers_def)
  then have ne: "retriers ms \<noteq> []" by auto
  have rs: "\<forall>r \<in> set (retriers ms). isMaster r"
    using ms(2) by (simp add: retriers_def)
  obtain lo where lo: "lo \<in> set (retriers ms)" "low_nibble (wired_and (retriers ms)) = low_nibble lo"
    using wired_and_nibbles(2) [OF ne rs] by blast
  obtain hi where hi: "hi \<in> set (retriers ms)" "high_nibble (wired_and (retriers ms)) = high_nibble hi"
    using wired_and_nibbles(3) [OF ne rs] by blast
  have "low_nibble lo = low_nibble hi" using lo(1) hi(1) by (simp add: retriers_def)
  then have "wired_and (retriers ms) = hi" using lo(2) hi(2) by (simp add: nibbles_inj [of _ hi])
  with hi ne show ?thesis by simp
qed

lemma first_round_result:
  assumes "ms \<noteq> []" "\<forall>m \<in> set ms. isMaster m" "rq_state s = first" "request_address s \<in> set ms"
  shows "fst (request_run (wired_and ms) s) =
    (if request_address s = wired_and ms then first_won
     else if request_address s \<in> set (retriers ms) then first_retry
     else first_lost)"
proof -
  have "isMaster (wired_and ms)" using assms(1,2) by (rule wired_and_nibbles)
  moreover from this have "wired_and ms \<noteq> syn" by (auto dest: isMaster_not_reserved)
  ultimately show ?thesis
    using assms(3,4) by (auto simp: request_run_result retriers_def low_nibble_def)
qed

lemma second_round_result:
  assumes "ms \<noteq> []" "\<forall>m \<in> set ms. isMaster m" "rq_state s = second"
  shows "fst (request_run (wired_and ms) s) =
    (if request_address s = wired_and ms then second_won else second_lost)"
  using assms wired_and_nibbles(1) [OF assms(1,2)] by (auto simp: request_run_result)

section \<open>Properties\<close>

text \<open>
  One byte moves the arbitration machine exactly as the protocol prescribes: own address
  read back wins, a foreign master address of the same priority class allows one retry at
  the next SYN, anything else ends the attempt.
\<close>

theorem arbitration_step:
  "(rq_state (snd (request_run byte s)), fst (request_run byte s)) =
     (case rq_state s of
        observe \<Rightarrow> (observe, if byte = syn then observe_syn else observe_data)
      | first \<Rightarrow>
          (if byte = syn then (first, first_syn)
           else if byte = request_address s then (observe, first_won)
           else if isMaster byte
             then (if low_nibble byte = low_nibble (request_address s) then (retry, first_retry)
                   else (observe, first_lost))
           else (observe, first_error))
      | retry \<Rightarrow> (if byte = syn then (second, retry_syn) else (observe, retry_error))
      | second \<Rightarrow>
          (observe, if byte = request_address s then second_won
           else if isMaster byte then second_lost else second_error))"
  by (cases "rq_state s") (auto simp: request_run_state request_run_result low_nibble_def)

text \<open>
  The lock counter never exceeds its configured maximum, and that never exceeds 25, under
  every operation of the arbitration.
\<close>

theorem lock_counter_bounded:
  assumes "request_inv s"
  shows "request_inv (snd (request_run byte s)) \<and> request_inv (setLockCounter n s)
    \<and> request_inv (request_reset s) \<and> request_inv (snd (requestBus a e s))
    \<and> request_inv (startBit None s) \<and> request_inv (busRequestCompleted None None s)"
proof -
  have "request_inv (startBit None s)" "request_inv (busRequestCompleted None None s)"
    using assms by (simp_all add: startBit_def busRequestCompleted_def request_inv_def Let_def)
  then show ?thesis
    using assms by (simp add: request_run_inv setLockCounter_inv request_reset_inv requestBus_inv)
qed

theorem lock_counter_bounded_witness:
  "request_inv (request_new \<lparr>clk = \<lambda>_. 0, clk_reads = 0, wall = \<lambda>_. 0, wall_reads = 0, mon = None\<rparr>)
   \<and> request_inv (setLockCounter 200
       (request_new \<lparr>clk = \<lambda>_. 0, clk_reads = 0, wall = \<lambda>_. 0, wall_reads = 0, mon = None\<rparr>))"
proof -
  have "request_inv (request_new \<lparr>clk = \<lambda>_. 0, clk_reads = 0, wall = \<lambda>_. 0, wall_reads = 0, mon = None\<rparr>)"
    by (simp add: request_inv_def request_new_def env.defs request.defs lock_counter_limit_def)
  then show ?thesis using lock_counter_bounded by blast
qed

text \<open>
  On an idle bus the lock counter runs down, one per SYN, and the bus becomes available: a
  participant that waits is never locked out.
\<close>

theorem idle_bus_unlocks:
  assumes "rq_state s = observe" "bytes_since_syn s = 0" "\<not> bus_request s"
    "unat (lock_counter s) \<le> n" "0 < n"
  shows "busAvailable (request_idle n s)"
proof -
  have "unat (lock_counter (request_idle n s)) = 0"
    using request_idle_lock [OF assms(1,2), of n] assms(4) by simp
  then have "lock_counter (request_idle n s) = 0" by (simp add: unat_eq_0)
  then show ?thesis
    using request_idle_lock [OF assms(1,2), of n] assms(3,5) by (simp add: busAvailable_def)
qed

theorem idle_bus_unlocks_witness:
  "busAvailable (request_idle 3
     (request_new \<lparr>clk = \<lambda>_. 0, clk_reads = 0, wall = \<lambda>_. 0, wall_reads = 0, mon = None\<rparr>))"
  by (rule idle_bus_unlocks) (simp_all add: request_new_def env.defs request.defs)

text \<open>
  C9: When several masters start at the same time, the bytes they read back single out one of
  them: either one wins the first round, or the members of the winning priority class go
  into the second round and exactly one of them wins there. Nobody else wins.
\<close>

theorem arbitration_has_one_winner:
  assumes "ms \<noteq> []" "\<forall>m \<in> set ms. isMaster m"
  shows "(\<exists>w \<in> set ms. \<forall>s :: request. rq_state s = first \<and> request_address s \<in> set ms \<longrightarrow>
      (fst (request_run (wired_and ms) s) = first_won \<longleftrightarrow> request_address s = w))
    \<or> (\<exists>w \<in> set (retriers ms). \<forall>s :: request. rq_state s = first \<and> request_address s \<in> set ms \<longrightarrow>
      fst (request_run (wired_and ms) s) \<noteq> first_won \<and>
      (fst (request_run (wired_and ms) s) = first_retry \<longleftrightarrow> request_address s \<in> set (retriers ms)) \<and>
      (\<forall>t :: request. rq_state t = second \<and> request_address t = request_address s \<longrightarrow>
        (fst (request_run (wired_and (retriers ms)) t) = second_won \<longleftrightarrow> request_address s = w)))"
proof (cases "wired_and ms \<in> set ms")
  case True
  have "fst (request_run (wired_and ms) s) = first_won \<longleftrightarrow> request_address s = wired_and ms"
    if "rq_state s = first" "request_address s \<in> set ms" for s :: request
    using first_round_result [OF assms that] by simp
  with True show ?thesis by blast
next
  case False
  note r = retriers_winner [OF assms False]
  have masters: "\<forall>m \<in> set (retriers ms). isMaster m" using assms(2) by (simp add: retriers_def)
  have first: "fst (request_run (wired_and ms) s) = (if request_address s \<in> set (retriers ms) then first_retry else first_lost)"
    if "rq_state s = first" "request_address s \<in> set ms" for s :: request
    using first_round_result [OF assms that] False that(2) by auto
  have second: "fst (request_run (wired_and (retriers ms)) t) =
      (if request_address t = wired_and (retriers ms) then second_won else second_lost)"
    if "rq_state t = second" for t :: request
    using second_round_result [OF _ masters that] r by auto
  show ?thesis
    using r by (intro disjI2 bexI [of _ "wired_and (retriers ms)"] allI impI) (simp_all add: first second)
qed

theorem arbitration_has_one_winner_witness:
  "wired_and [0x13, 0x31] = 0x11 \<and> (let ms = [0x13, 0x31 :: u8] in
     (\<exists>w \<in> set ms. \<forall>s :: request. rq_state s = first \<and> request_address s \<in> set ms \<longrightarrow>
      (fst (request_run (wired_and ms) s) = first_won \<longleftrightarrow> request_address s = w))
    \<or> (\<exists>w \<in> set (retriers ms). \<forall>s :: request. rq_state s = first \<and> request_address s \<in> set ms \<longrightarrow>
      fst (request_run (wired_and ms) s) \<noteq> first_won \<and>
      (fst (request_run (wired_and ms) s) = first_retry \<longleftrightarrow> request_address s \<in> set (retriers ms)) \<and>
      (\<forall>t :: request. rq_state t = second \<and> request_address t = request_address s \<longrightarrow>
        (fst (request_run (wired_and (retriers ms)) t) = second_won \<longleftrightarrow> request_address s = w))))"
proof -
  have "isMaster 0x13" "isMaster 0x31" by code_simp+
  then have "[0x13, 0x31] \<noteq> ([] :: u8 list)" "\<forall>m \<in> set [0x13, 0x31]. isMaster m" by simp_all
  from arbitration_has_one_winner [OF this] show ?thesis
    unfolding Let_def by (intro conjI) (simp_all only:, simp add: wired_and_def)
qed

end
