(* ===== verification/Protocol_Math.thy ===== *)
theory Protocol_Math
  imports Ebus_Types
begin

text \<open>
  \<open>include/ebus/protocol_math.hpp\<close>: the checksum of the protocol, a CRC-8 over the
  polynomial \<open>0x9b\<close> driven by a table computed at compile time, and the bit helpers.
  The lemmas show that the table is the linear, injective step of a polynomial division,
  which gives the error detection the protocol relies on: a change of a single byte, and
  any change of an odd number of bits, changes the checksum.
\<close>

section \<open>Definitions\<close>

definition pop_count :: "u8 \<Rightarrow> nat" where
  "pop_count byte = length (filter (bit byte) [0..<8])"

definition countZeroBits :: "u8 \<Rightarrow> u8" where
  "countZeroBits byte = of_nat (8 - pop_count byte)"

definition swapEndian16 :: "u16 \<Rightarrow> u16" where
  "swapEndian16 val = drop_bit 8 val OR push_bit 8 val"

definition swapEndian32 :: "u32 \<Rightarrow> u32" where
  "swapEndian32 val =
     (drop_bit 24 val AND 0xff) OR (drop_bit 8 val AND 0xff00) OR
     (push_bit 8 val AND 0xff0000) OR (push_bit 24 val AND 0xff000000)"

text \<open>One round of the loop of \<open>calculateCrcEntry\<close>, and the loop of eight rounds.\<close>

definition crc_step :: "u8 \<Rightarrow> u8" where
  "crc_step crc = (if crc AND 0x80 \<noteq> 0 then push_bit 1 crc XOR 0x9b else push_bit 1 crc)"

fun crc_loop :: "nat \<Rightarrow> u8 \<Rightarrow> u8" where
  "crc_loop 0 crc = crc"
| "crc_loop (Suc i) crc = crc_loop i (crc_step crc)"

definition calculateCrcEntry :: "u8 \<Rightarrow> u8" where
  "calculateCrcEntry index = crc_loop 8 index"

definition generateCrcTable :: "u8 list" where
  "generateCrcTable = map (\<lambda>i. calculateCrcEntry (of_nat i)) [0..<256]"

definition crc_table :: "u8 list" where
  "crc_table = generateCrcTable"

definition calcCRC :: "u8 \<Rightarrow> u8 \<Rightarrow> u8" where
  "calcCRC byte init = crc_table ! unat init XOR byte"

section \<open>The table\<close>

lemma crc_table_nth: "crc_table ! unat i = calculateCrcEntry i"
proof -
  have "unat i < 256" using unsigned_less [of i, where 'a = nat] by simp
  then show ?thesis by (simp add: crc_table_def generateCrcTable_def)
qed

lemma calcCRC_eq: "calcCRC byte init = calculateCrcEntry init XOR byte"
  by (simp add: calcCRC_def crc_table_nth)

section \<open>Linearity and injectivity\<close>

lemma and_0x80_iff: "(x :: u8) AND 0x80 \<noteq> 0 \<longleftrightarrow> bit x 7"
  by (simp add: bit_iff_and_push_bit_not_eq_0)

lemma crc_step_alt: "crc_step x = push_bit 1 x XOR (if bit x 7 then 0x9b else 0)"
  unfolding crc_step_def and_0x80_iff by simp

lemma bit_push_bit_1: "bit (push_bit 1 (x :: u8)) n \<longleftrightarrow> n \<noteq> 0 \<and> n < 8 \<and> bit x (n - 1)"
  unfolding bit_push_bit_iff by (auto simp: possible_bit_def dest: bit_imp_le_length)

lemma crc_step_xor: "crc_step (x XOR y) = crc_step x XOR crc_step y"
  by (simp add: crc_step_alt bit_xor_iff ac_simps)

lemma crc_step_zero_iff: "crc_step x = 0 \<longleftrightarrow> x = 0"
proof
  assume step: "crc_step x = 0"
  have "bit (crc_step x) 0 \<longleftrightarrow> bit x 7"
    unfolding crc_step_alt bit_xor_iff bit_push_bit_1 by simp
  with step have top: "\<not> bit x 7" by simp
  with step have shifted: "push_bit 1 x = 0" unfolding crc_step_alt by simp
  have low: "\<not> bit x n" if "n < 7" for n
    using that bit_push_bit_1 [of x "Suc n"] unfolding shifted by simp
  have "\<not> bit x n" for n
  proof (cases "n < 7")
    case False
    then show ?thesis using top bit_imp_le_length [of x n] by (cases "n = 7") auto
  qed (rule low)
  then show "x = 0" by (simp add: bit_eq_iff)
qed (simp add: crc_step_alt)

lemma crc_loop_xor: "crc_loop n (x XOR y) = crc_loop n x XOR crc_loop n y"
  by (induction n arbitrary: x y) (simp_all add: crc_step_xor)

lemma crc_loop_zero_iff: "crc_loop n x = 0 \<longleftrightarrow> x = 0"
  by (induction n arbitrary: x) (simp_all add: crc_step_zero_iff)

lemma calculateCrcEntry_xor:
  "calculateCrcEntry (x XOR y) = calculateCrcEntry x XOR calculateCrcEntry y"
  by (simp add: calculateCrcEntry_def crc_loop_xor)

lemma calculateCrcEntry_zero_iff: "calculateCrcEntry x = 0 \<longleftrightarrow> x = 0"
  by (simp add: calculateCrcEntry_def crc_loop_zero_iff)

lemma xor_eq_zero_iff: "(x :: u8) XOR y = 0 \<longleftrightarrow> x = y"
  by (auto simp: bit_eq_iff bit_xor_iff)

lemma xor_absorb_iff: "(x :: u8) = x XOR y \<longleftrightarrow> y = 0"
  by (auto simp: bit_eq_iff bit_xor_iff)

lemma xor_left_cancel_iff: "(x :: u8) XOR y = x XOR z \<longleftrightarrow> y = z"
  by (auto simp: bit_eq_iff bit_xor_iff)

lemma calculateCrcEntry_inj: "calculateCrcEntry x = calculateCrcEntry y \<longleftrightarrow> x = y"
proof -
  have "calculateCrcEntry x = calculateCrcEntry y \<longleftrightarrow> calculateCrcEntry (x XOR y) = 0"
    by (simp add: calculateCrcEntry_xor xor_eq_zero_iff)
  then show ?thesis by (simp add: calculateCrcEntry_zero_iff xor_eq_zero_iff)
qed

section \<open>Parity\<close>

definition odd_parity :: "u8 \<Rightarrow> bool" where
  "odd_parity x \<longleftrightarrow> odd (pop_count x)"

lemma odd_parity_bits:
  "odd_parity x \<longleftrightarrow>
     (bit x 0 \<noteq> (bit x 1 \<noteq> (bit x 2 \<noteq> (bit x 3 \<noteq> (bit x 4 \<noteq> (bit x 5 \<noteq> (bit x 6 \<noteq> bit x 7)))))))"
proof -
  have upt8: "[0..<8] = [0, 1, 2, 3, 4, 5, 6, 7 :: nat]"
    by (simp add: upt_rec)
  have odd_filter: "odd (length (filter P (y # ys))) \<longleftrightarrow> P y \<noteq> odd (length (filter P ys))"
    for P and y :: nat and ys by simp
  show ?thesis
    unfolding odd_parity_def pop_count_def upt8 odd_filter by simp
qed

lemma odd_parity_xor: "odd_parity (x XOR y) \<longleftrightarrow> odd_parity x \<noteq> odd_parity y"
  unfolding odd_parity_bits bit_xor_iff by argo

lemma odd_parity_crc_step: "odd_parity (crc_step x) \<longleftrightarrow> odd_parity x"
proof -
  have shift: "odd_parity (push_bit 1 x) \<longleftrightarrow> odd_parity x \<noteq> bit x 7"
    unfolding odd_parity_bits bit_push_bit_1 by simp argo
  have poly: "odd_parity 0x9b" and zero: "\<not> odd_parity 0"
    by (simp_all add: odd_parity_bits)
  show ?thesis
    unfolding crc_step_alt odd_parity_xor shift by (simp add: poly zero)
qed

lemma odd_parity_crc_loop: "odd_parity (crc_loop n x) \<longleftrightarrow> odd_parity x"
  by (induction n arbitrary: x) (simp_all add: odd_parity_crc_step)

lemma odd_parity_calcCRC: "odd_parity (calcCRC byte init) \<longleftrightarrow> odd_parity byte \<noteq> odd_parity init"
  by (auto simp: calcCRC_eq odd_parity_xor calculateCrcEntry_def odd_parity_crc_loop)

section \<open>Byte order\<close>

lemma swapEndian16_involution: "swapEndian16 (swapEndian16 x) = x"
proof (rule bit_word_eqI)
  fix n assume "n < LENGTH(16)"
  then show "bit (swapEndian16 (swapEndian16 x)) n \<longleftrightarrow> bit x n"
    by (cases "n < 8")
      (auto simp: swapEndian16_def bit_or_iff bit_push_bit_iff bit_drop_bit_eq dest: bit_imp_le_length)
qed

section \<open>Properties\<close>

text \<open>
  One step of the table-driven checksum is the eight-fold shift of the generator
  polynomial, combined with the byte, for every byte and every running value.
\<close>

theorem table_driven_checksum:
  "calcCRC byte init = crc_loop 8 init XOR byte"
  by (simp add: calcCRC_eq calculateCrcEntry_def)

end
