(* ===== verification/Byte_Sequence.thy ===== *)
theory Byte_Sequence
  imports Protocol_Math Small_Byte_Vector
begin

text \<open>
  \<open>SequenceImpl\<close> of \<open>include/ebus/sequence.hpp\<close>: a byte string together with the flag
  that tells its wire form (extended: \<open>0xAA\<close> and \<open>0xA9\<close> are stuffed) from its logical
  form (reduced). The bytes are the list view of \<open>Small_Byte_Vector\<close>; the two in-place
  loops \<open>extend\<close> and \<open>reduce\<close> are modelled index by index. The lemmas relate them to
  the functional specification of byte stuffing, show that they invert each other and
  that the checksum does not depend on the form, and derive the error detection of the
  checksum over whole sequences.
\<close>

section \<open>Definitions\<close>

record sequence =
  sq_bytes :: bytes
  sq_extended :: bool

definition seq_nil :: sequence where
  "seq_nil = \<lparr>sq_bytes = [], sq_extended = False\<rparr>"

definition seq_of :: "bytes \<Rightarrow> bool \<Rightarrow> sequence" where
  "seq_of xs e = \<lparr>sq_bytes = xs, sq_extended = e\<rparr>"

definition inquiryOfExistence :: sequence where
  "inquiryOfExistence = seq_of [broad, 0x07, 0xfe, 0x00] False"

definition signOfLife :: sequence where
  "signOfLife = seq_of [broad, 0x07, 0xff, 0x00] False"

definition seq_size :: "sequence \<Rightarrow> nat" where
  "seq_size s = length (sq_bytes s)"

text \<open>The slicing constructor and \<open>assignSlice\<close> cut the same range.\<close>

definition seq_slice :: "sequence \<Rightarrow> nat \<Rightarrow> nat \<Rightarrow> sequence" where
  "seq_slice s index len =
     (if index \<ge> seq_size s then seq_of [] (sq_extended s)
      else (let n = (if len = 0 \<or> index + len > seq_size s then seq_size s - index else len)
            in seq_of (take n (drop index (sq_bytes s))) (sq_extended s)))"

definition assignSlice :: "sequence \<Rightarrow> sequence \<Rightarrow> nat \<Rightarrow> nat \<Rightarrow> sequence" where
  "assignSlice s other index len =
     (if index \<ge> seq_size other then s\<lparr>sq_bytes := [], sq_extended := sq_extended other\<rparr>
      else (let n = (if len = 0 \<or> index + len > seq_size other then seq_size other - index else len)
            in s\<lparr>sq_bytes := take n (drop index (sq_bytes other)), sq_extended := sq_extended other\<rparr>))"

definition seq_assign :: "sequence \<Rightarrow> bytes \<Rightarrow> bool \<Rightarrow> sequence" where
  "seq_assign s data extended = s\<lparr>sq_bytes := data, sq_extended := extended\<rparr>"

definition makeSequence :: "bytes \<Rightarrow> bool \<Rightarrow> sequence" where
  "makeSequence data extended = seq_assign seq_nil data extended"

definition seq_push_back :: "u8 \<Rightarrow> bool \<Rightarrow> sequence \<Rightarrow> sequence" where
  "seq_push_back byte extended s = s\<lparr>sq_bytes := sq_bytes s @ [byte], sq_extended := extended\<rparr>"

definition seq_clear :: "sequence \<Rightarrow> sequence" where
  "seq_clear s = s\<lparr>sq_bytes := [], sq_extended := False\<rparr>"

definition needsExtension :: "sequence \<Rightarrow> bool" where
  "needsExtension s \<longleftrightarrow> list_ex needsEscape (sq_bytes s)"

definition needsReduction :: "sequence \<Rightarrow> bool" where
  "needsReduction s \<longleftrightarrow> sq_extended s \<and> list_ex (\<lambda>b. b = ext) (sq_bytes s)"

text \<open>
  The loop of \<open>extend\<close>, from the last byte down: \<open>i\<close> bytes are still to be moved and
  \<open>w\<close> is \<open>write_idx\<close>. Below index 0 the C++ \<open>size_t\<close> wraps, but no byte is left to
  be written then.
\<close>

fun extend_loop :: "nat \<Rightarrow> nat \<Rightarrow> bytes \<Rightarrow> bytes" where
  "extend_loop 0 w xs = xs"
| "extend_loop (Suc i) w xs =
     (let b = xs ! i in
      if needsEscape b
      then extend_loop i (w - 2) (xs[w := snd (escape b), w - 1 := fst (escape b)])
      else extend_loop i (w - 1) (xs[w := b]))"

text \<open>The bytes a \<open>resize\<close> uncovers are stale; \<open>stale\<close> stands for them.\<close>

definition extend_with :: "u8 \<Rightarrow> sequence \<Rightarrow> sequence" where
  "extend_with stale s =
     (if sq_extended s then s
      else (let extra = length (filter needsEscape (sq_bytes s)) in
        if extra = 0 then s\<lparr>sq_extended := True\<rparr>
        else (let old_size = length (sq_bytes s);
                  new_size = old_size + extra;
                  resized = sq_bytes s @ replicate extra stale
              in s\<lparr>sq_bytes := extend_loop old_size (new_size - 1) resized, sq_extended := True\<rparr>)))"

definition extend :: "sequence \<Rightarrow> sequence" where
  "extend s = extend_with 0 s"

text \<open>The loop of \<open>reduce\<close>: it returns the buffer and the final \<open>write_idx\<close>.\<close>

function reduce_loop :: "nat \<Rightarrow> nat \<Rightarrow> bytes \<Rightarrow> bytes \<times> nat" where
  "reduce_loop r w xs =
     (if r < length xs
      then (case (if r + 1 < length xs then unescape (xs ! r) (xs ! (r + 1)) else None) of
              Some c \<Rightarrow> reduce_loop (r + 2) (w + 1) (xs[w := c])
            | None \<Rightarrow> reduce_loop (r + 1) (w + 1) (xs[w := xs ! r]))
      else (xs, w))"
  by pat_completeness auto
termination by (relation "measure (\<lambda>(r, w, xs). length xs - r)") auto

declare reduce_loop.simps [simp del]

definition reduce :: "sequence \<Rightarrow> sequence" where
  "reduce s =
     (if \<not> sq_extended s then s
      else if \<not> needsReduction s then s\<lparr>sq_extended := False\<rparr>
      else (let (ys, w) = reduce_loop 0 0 (sq_bytes s)
            in s\<lparr>sq_bytes := take w ys, sq_extended := False\<rparr>))"

definition logicallyEquals :: "sequence \<Rightarrow> sequence \<Rightarrow> bool" where
  "logicallyEquals s other =
     (if sq_extended s = sq_extended other then sq_bytes s = sq_bytes other
      else sq_bytes (reduce s) = sq_bytes (reduce other))"

definition seq_append :: "sequence \<Rightarrow> sequence \<Rightarrow> sequence" where
  "seq_append s other =
     (let temp = (if sq_extended s then extend other else reduce other)
      in s\<lparr>sq_bytes := sq_bytes s @ sq_bytes temp\<rparr>)"

text \<open>\<open>calculateCRC\<close>: for a reduced buffer the stuffed bytes are simulated.\<close>

definition crc_byte :: "bool \<Rightarrow> u8 \<Rightarrow> u8 \<Rightarrow> u8" where
  "crc_byte extended byte current_crc =
     (if \<not> extended \<and> needsEscape byte
      then calcCRC (snd (escape byte)) (calcCRC (fst (escape byte)) current_crc)
      else calcCRC byte current_crc)"

definition calculateCRC :: "bytes \<Rightarrow> bool \<Rightarrow> u8" where
  "calculateCRC data extended = fold (crc_byte extended) data sym_zero"

definition seq_crc :: "sequence \<Rightarrow> u8" where
  "seq_crc s = calculateCRC (sq_bytes s) (sq_extended s)"

definition seq_range :: "sequence \<Rightarrow> nat \<Rightarrow> nat \<Rightarrow> bytes" where
  "seq_range s index len =
     (if index \<ge> seq_size s then []
      else take (min len (seq_size s - index)) (drop index (sq_bytes s)))"

section \<open>Specification of byte stuffing\<close>

definition stuff_byte :: "u8 \<Rightarrow> bytes" where
  "stuff_byte b = (if needsEscape b then [fst (escape b), snd (escape b)] else [b])"

definition stuff :: "bytes \<Rightarrow> bytes" where
  "stuff xs = concat (map stuff_byte xs)"

fun unstuff :: "bytes \<Rightarrow> bytes" where
  "unstuff (b1 # b2 # bs) =
     (case unescape b1 b2 of Some c \<Rightarrow> c # unstuff bs | None \<Rightarrow> b1 # unstuff (b2 # bs))"
| "unstuff bs = bs"

lemma stuff_simps [simp]:
  "stuff [] = []" "stuff (b # bs) = stuff_byte b @ stuff bs" "stuff (xs @ ys) = stuff xs @ stuff ys"
  by (simp_all add: stuff_def)

lemma length_stuff: "length (stuff xs) = length xs + length (filter needsEscape xs)"
  by (induction xs) (auto simp: stuff_byte_def)

lemma stuff_no_escape: "filter needsEscape xs = [] \<Longrightarrow> stuff xs = xs"
  by (induction xs) (auto simp: stuff_byte_def split: if_splits)

lemma stuff_byte_cases: "stuff_byte b = [b] \<and> b \<noteq> ext \<and> b \<noteq> syn
    \<or> (\<exists>c. stuff_byte b = [ext, c] \<and> unescape ext c = Some b \<and> c \<noteq> syn \<and> c \<noteq> ext)"
  by (auto simp: stuff_byte_def needsEscape_def escape_def unescape_def symbol_defs)

lemma unstuff_stuff_byte: "unstuff (stuff_byte b @ ys) = b # unstuff ys"
  using stuff_byte_cases [of b]
proof
  assume b: "stuff_byte b = [b] \<and> b \<noteq> ext \<and> b \<noteq> syn"
  then show ?thesis by (cases ys) (auto simp: unescape_def)
qed auto

lemma unstuff_stuff: "unstuff (stuff xs) = xs"
  by (induction xs) (simp_all add: unstuff_stuff_byte)

lemma stuff_inj: "stuff xs = stuff ys \<longleftrightarrow> xs = ys"
  by (metis unstuff_stuff)

lemma stuff_no_syn: "syn \<notin> set (stuff xs)"
proof (induction xs)
  case (Cons b xs)
  then show ?case
    using stuff_byte_cases [of b] by (auto simp: symbol_defs)
qed simp

lemma unstuff_no_ext: "ext \<notin> set xs \<Longrightarrow> unstuff xs = xs"
  by (induction xs rule: unstuff.induct) (auto simp: unescape_def)

section \<open>The in-place loops\<close>

lemma extend_loop_correct:
  assumes "length (ys @ gap) = length (stuff ys)"
  shows "extend_loop (length ys) (length (stuff ys) - 1) (ys @ gap @ zs) = stuff ys @ zs"
  using assms
proof (induction ys arbitrary: gap zs rule: rev_induct)
  case (snoc b ys)
  have b_at: "(ys @ b # gap @ zs) ! length ys = b" by simp
  have len: "length (stuff ys) + length (stuff_byte b) = length ys + length (b # gap)"
    using snoc.prems by simp
  show ?case
  proof (cases "needsEscape b")
    case True
    then have sb: "stuff_byte b = [fst (escape b), snd (escape b)]" by (simp add: stuff_byte_def)
    with len have "2 \<le> length (b # gap)"
      using length_stuff [of ys] by simp
    then obtain mid p q where buf: "b # gap = mid @ [p, q]"
      by (rule snoc2_exhaust)
    have mid: "length (ys @ mid) = length (stuff ys)"
      using len sb arg_cong [OF buf, of length] by simp
    have whole: "(ys @ b # gap @ zs) = (ys @ mid) @ p # q # zs"
      using buf by (metis append.assoc append_Cons append_Nil)
    have "(ys @ b # gap @ zs)[length (ys @ mid) + 1 := e1, length (ys @ mid) := e0]
        = ys @ mid @ e0 # e1 # zs" for e0 e1
      unfolding whole by (simp add: list_update_append)
    then have "extend_loop (Suc (length ys)) (Suc (length (stuff ys))) (ys @ b # gap @ zs)
        = extend_loop (length ys) (length (stuff ys) - 1)
            (ys @ mid @ fst (escape b) # snd (escape b) # zs)"
      using b_at True unfolding mid by (simp add: Let_def)
    with snoc.IH [OF mid] show ?thesis by (simp add: sb)
  next
    case False
    then have sb: "stuff_byte b = [b]" by (simp add: stuff_byte_def)
    obtain mid p where buf: "b # gap = mid @ [p]"
      by (metis rev_exhaust list.distinct(1))
    have mid: "length (ys @ mid) = length (stuff ys)"
      using len sb arg_cong [OF buf, of length] by simp
    have whole: "(ys @ b # gap @ zs) = (ys @ mid) @ p # zs"
      using buf by (metis append.assoc append_Cons append_Nil)
    have "(ys @ b # gap @ zs)[length (ys @ mid) := b] = ys @ mid @ b # zs"
      unfolding whole by (simp add: list_update_append)
    then have "extend_loop (Suc (length ys)) (length (stuff ys)) (ys @ b # gap @ zs)
        = extend_loop (length ys) (length (stuff ys) - 1) (ys @ mid @ b # zs)"
      using b_at False unfolding mid by (simp add: Let_def)
    with snoc.IH [OF mid] show ?thesis by (simp add: sb)
  qed
qed simp

lemma extend_with_eq:
  "extend_with stale s = (if sq_extended s then s else s\<lparr>sq_bytes := stuff (sq_bytes s), sq_extended := True\<rparr>)"
proof (cases "sq_extended s \<or> filter needsEscape (sq_bytes s) = []")
  case True
  then show ?thesis by (auto simp: extend_with_def stuff_no_escape)
next
  case False
  let ?xs = "sq_bytes s" and ?extra = "length (filter needsEscape (sq_bytes s))"
  have "extend_loop (length ?xs) (length (stuff ?xs) - 1) (?xs @ replicate ?extra stale @ []) = stuff ?xs @ []"
    by (rule extend_loop_correct) (simp add: length_stuff)
  then show ?thesis
    using False by (simp add: extend_with_def Let_def length_stuff)
qed

lemma extend_eq [wire_simps]:
  "extend s = (if sq_extended s then s else s\<lparr>sq_bytes := stuff (sq_bytes s), sq_extended := True\<rparr>)"
  by (simp add: extend_def extend_with_eq)

lemma reduce_loop_correct:
  assumes "w \<le> r" "r \<le> length xs" "reduce_loop r w xs = (ys, w')"
  shows "take w' ys = take w xs @ unstuff (drop r xs)"
  using assms
proof (induction r w xs arbitrary: ys w' rule: reduce_loop.induct)
  case (1 r w xs)
  show ?case
  proof (cases "r < length xs")
    case False
    then have "reduce_loop r w xs = (xs, w)" by (simp add: reduce_loop.simps [of r w xs])
    with "1.prems" False show ?thesis by simp
  next
    case True
    define e where "e = (if r + 1 < length xs then unescape (xs ! r) (xs ! (r + 1)) else None)"
    have w: "w < length xs" using "1.prems" True by simp
    have tk: "take (Suc w) (xs[w := c]) = take w xs @ [c]" for c
      using w by (simp add: take_Suc_conv_app_nth)
    have dr: "drop r xs = xs ! r # drop (r + 1) xs"
      using True by (simp add: Cons_nth_drop_Suc)
    show ?thesis
    proof (cases e)
      case None
      then have "reduce_loop (r + 1) (w + 1) (xs[w := xs ! r]) = (ys, w')"
        using "1.prems" True by (simp add: reduce_loop.simps [of r w xs] e_def)
      then have "take w' ys = take (w + 1) (xs[w := xs ! r]) @ unstuff (drop (r + 1) (xs[w := xs ! r]))"
        using "1.IH"(1) [OF True None [unfolded e_def]] True "1.prems"(1) by simp
      moreover have "unstuff (drop r xs) = xs ! r # unstuff (drop (r + 1) xs)"
      proof (cases "r + 1 < length xs")
        case True
        then have "drop (r + 1) xs = xs ! (r + 1) # drop (r + 2) xs"
          by (simp add: Cons_nth_drop_Suc)
        with None True show ?thesis unfolding dr e_def by simp
      qed (simp add: dr)
      ultimately show ?thesis
        using "1.prems"(1) by (simp add: tk)
    next
      case (Some c)
      then have more: "r + 1 < length xs" and esc: "unescape (xs ! r) (xs ! (r + 1)) = Some c"
        by (auto simp: e_def split: if_splits)
      then have "reduce_loop (r + 2) (w + 1) (xs[w := c]) = (ys, w')"
        using "1.prems" by (simp add: reduce_loop.simps [of r w xs])
      then have "take w' ys = take (w + 1) (xs[w := c]) @ unstuff (drop (r + 2) (xs[w := c]))"
        using "1.IH"(2) [OF True Some [unfolded e_def]] more "1.prems"(1) by simp
      moreover have "drop r xs = xs ! r # xs ! (r + 1) # drop (r + 2) xs"
        using more dr by (simp add: Cons_nth_drop_Suc)
      ultimately show ?thesis
        using "1.prems"(1) esc by (simp add: tk)
    qed
  qed
qed

lemma reduce_eq [wire_simps]:
  "reduce s = (if sq_extended s then s\<lparr>sq_bytes := unstuff (sq_bytes s), sq_extended := False\<rparr> else s)"
proof (cases "needsReduction s")
  case True
  obtain ys w where "reduce_loop 0 0 (sq_bytes s) = (ys, w)" by fastforce
  moreover from reduce_loop_correct [OF _ _ this] have "take w ys = unstuff (sq_bytes s)" by simp
  ultimately show ?thesis using True by (simp add: reduce_def needsReduction_def)
next
  case False
  then show ?thesis
    by (auto simp: reduce_def needsReduction_def list_ex_iff unstuff_no_ext)
qed

section \<open>Sequence level results\<close>

lemma reduce_extend: "\<not> sq_extended s \<Longrightarrow> reduce (extend s) = s"
  by (simp add: wire_simps unstuff_stuff)

lemma extend_reduce: "sq_extended s \<Longrightarrow> sq_bytes s = stuff xs \<Longrightarrow> extend (reduce s) = s"
  by (simp add: wire_simps unstuff_stuff)

text \<open>The logical content of a sequence, whatever its form.\<close>

definition seq_logical :: "sequence \<Rightarrow> bytes" where
  "seq_logical s = (if sq_extended s then unstuff (sq_bytes s) else sq_bytes s)"

lemma reduce_logical: "sq_bytes (reduce s) = seq_logical s"
  by (simp add: reduce_eq seq_logical_def)

lemma append_logical:
  assumes "\<not> sq_extended s"
  shows "seq_logical (seq_append s other) = seq_logical s @ seq_logical other"
  using assms by (simp add: seq_append_def seq_logical_def reduce_eq)

lemma assignSlice_prefix:
  assumes "0 < n" "n \<le> seq_size other"
  shows "assignSlice s other 0 n = s\<lparr>sq_bytes := take n (sq_bytes other), sq_extended := sq_extended other\<rparr>"
  using assms by (simp add: assignSlice_def seq_size_def Let_def)

lemma assignSlice_all:
  assumes "0 < seq_size other"
  shows "assignSlice s other 0 0 = s\<lparr>sq_bytes := sq_bytes other, sq_extended := sq_extended other\<rparr>"
  using assms by (simp add: assignSlice_def seq_size_def Let_def)

section \<open>The checksum of a sequence\<close>

text \<open>The checksum does not see whether the escapes are simulated or really there.\<close>

lemma crc_fold_stuff: "fold (crc_byte True) (stuff xs) c = fold (crc_byte False) xs c"
  by (induction xs arbitrary: c) (auto simp: stuff_byte_def crc_byte_def)

lemma crc_stuff [wire_simps]: "calculateCRC (stuff xs) True = calculateCRC xs False"
  by (simp add: calculateCRC_def crc_fold_stuff)

lemma crc_byte_wire: "crc_byte True b c = calculateCrcEntry c XOR b"
  by (simp add: crc_byte_def calcCRC_eq)

text \<open>On the wire the checksum is linear in the bytes and in the initial value.\<close>

lemma crc_wire_xor_init:
  "fold (crc_byte True) bs (c XOR d) = fold (crc_byte True) bs c XOR fold (crc_byte True) (map (\<lambda>_. 0) bs) d"
proof (induction bs arbitrary: c d)
  case (Cons b bs)
  have "calculateCrcEntry (c XOR d) XOR b = (calculateCrcEntry c XOR b) XOR calculateCrcEntry d"
    by (simp add: calculateCrcEntry_xor ac_simps)
  then show ?case
    by (simp add: crc_byte_wire [of b "c XOR d"] crc_byte_wire [of b c] crc_byte_wire [of 0 d] Cons.IH)
qed simp

lemma crc_wire_zeros_inj: "fold (crc_byte True) (map (\<lambda>_. 0) bs) d = 0 \<longleftrightarrow> d = 0"
  by (induction bs arbitrary: d) (simp_all add: crc_byte_wire calculateCrcEntry_zero_iff)

lemma crc_wire_init_inj: "fold (crc_byte True) bs c = fold (crc_byte True) bs d \<longleftrightarrow> c = d"
proof -
  have "fold (crc_byte True) bs d
      = fold (crc_byte True) bs c XOR fold (crc_byte True) (map (\<lambda>_. 0) bs) (c XOR d)"
    using crc_wire_xor_init [of bs c "c XOR d"] by (simp flip: xor.assoc)
  then have "fold (crc_byte True) bs c = fold (crc_byte True) bs d
      \<longleftrightarrow> fold (crc_byte True) (map (\<lambda>_. 0) bs) (c XOR d) = 0"
    by (simp only: xor_absorb_iff)
  then show ?thesis by (simp add: crc_wire_zeros_inj xor_eq_zero_iff)
qed

lemma crc_single_byte:
  assumes "calculateCRC (xs @ b # ys) True = calculateCRC (xs @ c # ys) True"
  shows "b = c"
proof -
  define a where "a = fold (crc_byte True) xs sym_zero"
  have "calculateCrcEntry a XOR b = calculateCrcEntry a XOR c"
    using assms by (simp add: calculateCRC_def a_def crc_wire_init_inj crc_byte_wire)
  then show ?thesis by (simp only: xor_left_cancel_iff)
qed

text \<open>Parity of the number of one bits in a byte string.\<close>

definition odd_bits :: "bytes \<Rightarrow> bool" where
  "odd_bits xs \<longleftrightarrow> odd (sum_list (map pop_count xs))"

lemma odd_bits_simps [simp]: "\<not> odd_bits []" "odd_bits (b # bs) \<longleftrightarrow> odd_parity b \<noteq> odd_bits bs"
  by (auto simp: odd_bits_def odd_parity_def)

lemma odd_parity_crc_wire: "odd_parity (fold (crc_byte True) xs c) \<longleftrightarrow> odd_parity c \<noteq> odd_bits xs"
  by (induction xs arbitrary: c) (auto simp: crc_byte_def odd_parity_calcCRC)

lemma odd_parity_crc: "odd_parity (calculateCRC xs True) \<longleftrightarrow> odd_bits xs"
proof -
  have "\<not> odd_parity sym_zero" by (simp add: odd_parity_bits sym_zero_def)
  then show ?thesis by (simp add: calculateCRC_def odd_parity_crc_wire)
qed

section \<open>Properties\<close>

text \<open>
  C10: \<open>extend\<close> followed by \<open>reduce\<close> gives the sequence back, and the extended form, the one
  that goes to the wire, contains no SYN symbol.
\<close>

theorem wire_round_trip:
  assumes "\<not> sq_extended s"
  shows "reduce (extend s) = s \<and> syn \<notin> set (sq_bytes (extend s)) \<and> sq_extended (extend s)"
  using assms by (simp add: reduce_extend) (simp add: extend_eq stuff_no_syn)

theorem wire_round_trip_witness:
  "\<not> sq_extended (seq_of [0x10, syn, ext] False)
   \<and> reduce (extend (seq_of [0x10, syn, ext] False)) = seq_of [0x10, syn, ext] False
   \<and> sq_bytes (extend (seq_of [0x10, syn, ext] False)) = [0x10, 0xa9, 0x01, 0xa9, 0x00]"
proof -
  have "\<not> sq_extended (seq_of [0x10, syn, ext] False)" by (simp add: seq_of_def)
  moreover have "sq_bytes (extend (seq_of [0x10, syn, ext] False)) = [0x10, 0xa9, 0x01, 0xa9, 0x00]"
    by (simp add: extend_eq seq_of_def stuff_byte_def needsEscape_def escape_def symbol_defs)
  ultimately show ?thesis using wire_round_trip by blast
qed

text \<open>
  C36: Two byte strings on the wire that differ in one byte only have different checksums.
\<close>

theorem checksum_single_byte:
  "calculateCRC (xs @ b # ys) True = calculateCRC (xs @ c # ys) True \<longleftrightarrow> b = c"
  using crc_single_byte by auto

text \<open>
  A disturbance that flips an odd number of bits on the wire changes the parity of the
  checksum, so it is always detected.
\<close>

theorem checksum_odd_bits:
  assumes "odd_bits xs \<noteq> odd_bits ys"
  shows "calculateCRC xs True \<noteq> calculateCRC ys True"
  using assms odd_parity_crc by metis

theorem checksum_odd_bits_witness:
  "odd_bits [0x10, 0x08, 0xb5] \<noteq> odd_bits [0x10, 0x08, 0xb4]
   \<and> calculateCRC [0x10, 0x08, 0xb5] True \<noteq> calculateCRC [0x10, 0x08, 0xb4] True"
proof -
  have "odd_bits [0x10, 0x08, 0xb5] \<noteq> odd_bits [0x10, 0x08, 0xb4]" by code_simp
  then show ?thesis using checksum_odd_bits by blast
qed

end
