(* ===== verification/Telegram.thy ===== *)
theory Telegram
  imports Byte_Sequence
begin

text \<open>
  \<open>TelegramImpl\<close> of \<open>src/ebus/core/telegram.hpp\<close>: the structure of an eBUS frame. A
  telegram is filled by \<open>createMaster\<close> and \<open>createSlave\<close>, which check one part each, or
  by \<open>parse\<close>, which walks a whole recorded exchange including its acknowledgements and
  one repetition. The lemmas characterise the accepted parts exactly and give the round
  trip from a framed exchange back to its parts.
\<close>

section \<open>Definitions\<close>

record telegram =
  tg_type :: TelegramType
  tg_master :: sequence
  tg_master_nn :: nat
  tg_master_crc :: u8
  tg_master_ack :: u8
  tg_master_state :: SequenceState
  tg_slave :: sequence
  tg_slave_nn :: nat
  tg_slave_crc :: u8
  tg_slave_ack :: u8
  tg_slave_state :: SequenceState

definition telegram_init :: telegram where
  "telegram_init =
     \<lparr>tg_type = type_undefined, tg_master = seq_nil, tg_master_nn = 0, tg_master_crc = sym_zero,
      tg_master_ack = sym_zero, tg_master_state = seq_empty, tg_slave = seq_nil, tg_slave_nn = 0,
      tg_slave_crc = sym_zero, tg_slave_ack = sym_zero, tg_slave_state = seq_empty\<rparr>"

definition telegram_clear :: "telegram \<Rightarrow> telegram" where
  "telegram_clear t =
     t\<lparr>tg_type := type_undefined, tg_master := seq_clear (tg_master t), tg_master_nn := 0,
       tg_master_crc := sym_zero, tg_master_ack := sym_zero, tg_master_state := seq_empty,
       tg_slave := seq_clear (tg_slave t), tg_slave_nn := 0, tg_slave_crc := sym_zero,
       tg_slave_ack := sym_zero, tg_slave_state := seq_empty\<rparr>"

text \<open>
  \<open>createMaster(SequenceImpl&)\<close> reduces its argument in place and returns early on the
  first failed check, leaving the other fields as they are.
\<close>

definition createMaster :: "sequence \<Rightarrow> telegram \<Rightarrow> telegram \<times> sequence" where
  "createMaster sequence0 t0 =
     (let t = t0\<lparr>tg_master_state := seq_ok\<rparr>;
          s = reduce sequence0;
          xs = sq_bytes s
      in
      (if length xs < 5 then t\<lparr>tg_master_state := err_seq_too_short\<rparr>
       else if \<not> isMaster (xs ! 0) then t\<lparr>tg_master_state := err_source_address\<rparr>
       else if \<not> isTarget (xs ! 1) then t\<lparr>tg_master_state := err_target_address\<rparr>
       else if xs ! 4 > max_data_bytes then t\<lparr>tg_master_state := err_data_byte\<rparr>
       else if xs ! 2 = syn \<or> xs ! 2 = ext \<or> xs ! 3 = syn \<or> xs ! 3 = ext
         then t\<lparr>tg_master_state := err_data_byte\<rparr>
       else if length xs < 5 + unat (xs ! 4) then t\<lparr>tg_master_state := err_seq_too_short\<rparr>
       else
         (let nn = unat (xs ! 4);
              t1 = t\<lparr>tg_type := typeOf (xs ! 1), tg_master_nn := nn\<rparr>
          in
          if length xs = 5 + nn
          then t1\<lparr>tg_master := assignSlice (tg_master t1) s 0 0, tg_master_crc := seq_crc s\<rparr>
          else if length xs = 5 + nn + 1
          then (let m = assignSlice (tg_master t1) s 0 (5 + nn);
                    c = xs ! (5 + nn);
                    t2 = t1\<lparr>tg_master := m, tg_master_crc := c\<rparr>
                in if seq_crc m \<noteq> c then t2\<lparr>tg_master_state := err_crc_invalid\<rparr> else t2)
          else t1\<lparr>tg_master_state := err_seq_too_long\<rparr>),
       s))"

definition createMaster_from :: "u8 \<Rightarrow> bytes \<Rightarrow> telegram \<Rightarrow> telegram" where
  "createMaster_from source_address data t =
     fst (createMaster
       (fold (\<lambda>b s. seq_push_back b False s) data (seq_push_back source_address False seq_nil)) t)"

definition createSlave :: "sequence \<Rightarrow> telegram \<Rightarrow> telegram \<times> sequence" where
  "createSlave sequence0 t0 =
     (let t = t0\<lparr>tg_slave_state := seq_ok\<rparr>;
          s = reduce sequence0;
          xs = sq_bytes s
      in
      (if length xs < 2 then t\<lparr>tg_slave_state := err_seq_too_short\<rparr>
       else if xs ! 0 > max_data_bytes then t\<lparr>tg_slave_state := err_data_byte\<rparr>
       else if length xs < 1 + unat (xs ! 0) then t\<lparr>tg_slave_state := err_seq_too_short\<rparr>
       else
         (let nn = unat (xs ! 0);
              t1 = t\<lparr>tg_slave_nn := nn\<rparr>
          in
          if length xs = 1 + nn
          then t1\<lparr>tg_slave := assignSlice (tg_slave t1) s 0 0, tg_slave_crc := seq_crc s\<rparr>
          else if length xs = 1 + nn + 1
          then (let m = assignSlice (tg_slave t1) s 0 (1 + nn);
                    c = xs ! (1 + nn);
                    t2 = t1\<lparr>tg_slave := m, tg_slave_crc := c\<rparr>
                in if seq_crc m \<noteq> c then t2\<lparr>tg_slave_state := err_crc_invalid\<rparr> else t2)
          else t1\<lparr>tg_slave_state := err_seq_too_long\<rparr>),
       s))"

definition createSlave_from :: "bytes \<Rightarrow> telegram \<Rightarrow> telegram" where
  "createSlave_from data t = fst (createSlave (fold (\<lambda>b s. seq_push_back b False s) data seq_nil) t)"

definition isValid :: "telegram \<Rightarrow> bool" where
  "isValid t \<longleftrightarrow>
     (if tg_type t \<noteq> master_slave then tg_master_state t = seq_ok
      else tg_master_state t = seq_ok \<and> tg_slave_state t = seq_ok)"

definition getMasterDataBytes :: "telegram \<Rightarrow> bytes" where
  "getMasterDataBytes t = seq_range (tg_master t) 5 (seq_size (tg_master t) - 5)"

definition getSlaveDataBytes :: "telegram \<Rightarrow> bytes" where
  "getSlaveDataBytes t = seq_range (tg_slave t) 1 (seq_size (tg_slave t) - 1)"

text \<open>
  The two length pre-checks of the parser. The last check of \<open>checkMasterSequence\<close> does
  not add the offset, that of \<open>checkSlaveSequence\<close> does.
\<close>

definition checkMasterSequence :: "sequence \<Rightarrow> nat \<Rightarrow> SequenceState" where
  "checkMasterSequence s offset =
     (let xs = sq_bytes s in
      if length xs < offset + 5 then err_seq_too_short
      else if \<not> isMaster (xs ! (offset + 0)) then err_source_address
      else if \<not> isTarget (xs ! (offset + 1)) then err_target_address
      else if xs ! (offset + 4) > max_data_bytes then err_data_byte
      else if length xs < 5 + unat (xs ! (offset + 4)) + 1 then err_seq_too_short
      else seq_ok)"

definition checkSlaveSequence :: "sequence \<Rightarrow> nat \<Rightarrow> SequenceState" where
  "checkSlaveSequence s offset =
     (let xs = sq_bytes s in
      if length xs < offset + 1 then err_seq_too_short
      else if xs ! (offset + 0) > max_data_bytes then err_data_byte
      else if length xs < offset + 1 + unat (xs ! (offset + 0)) + 1 then err_seq_too_short
      else seq_ok)"

text \<open>
  \<open>parseSequencePart\<close>, one definition per value of \<open>is_master\<close>; the result is the
  returned flag, the cursor and the telegram. The part is copied into the telegram's own
  sequence, which is then checked in place: \<open>createMaster(master_)\<close> reads the checksum
  behind the slice it has just cut, a byte that is still in the buffer (law
  \<open>assign_prefix_at\<close> of the byte vector), so the argument is the uncut slice.
\<close>

definition parseMasterPart :: "sequence \<Rightarrow> nat \<Rightarrow> telegram \<Rightarrow> bool \<times> nat \<times> telegram" where
  "parseMasterPart s offset t0 =
     (let t = t0\<lparr>tg_master_state := checkMasterSequence s offset\<rparr> in
      if tg_master_state t \<noteq> seq_ok then (False, offset, t)
      else
        (let len = 5 + unat (sq_bytes s ! (offset + 4)) + 1;
             m = reduce (assignSlice (tg_master t) s offset len);
             t1 = fst (createMaster m (t\<lparr>tg_master := m\<rparr>));
             offset1 = offset + len
         in
         if tg_master_state t1 \<noteq> seq_ok then (False, offset1, t1)
         else if tg_type t1 \<noteq> broadcast
         then
           (if seq_size s \<le> offset1 then (False, offset1, t1\<lparr>tg_master_state := err_ack_missing\<rparr>)
            else
              (let a = sq_bytes s ! offset1; t2 = t1\<lparr>tg_master_ack := a\<rparr> in
               if a \<noteq> ack \<and> a \<noteq> nak then (False, offset1 + 1, t2\<lparr>tg_master_state := err_ack_invalid\<rparr>)
               else (True, offset1 + 1, t2)))
         else (True, offset1, t1)))"

definition parseSlavePart :: "sequence \<Rightarrow> nat \<Rightarrow> telegram \<Rightarrow> bool \<times> nat \<times> telegram" where
  "parseSlavePart s offset t0 =
     (let t = t0\<lparr>tg_slave_state := checkSlaveSequence s offset\<rparr> in
      if tg_slave_state t \<noteq> seq_ok then (False, offset, t)
      else
        (let len = 1 + unat (sq_bytes s ! (offset + 0)) + 1;
             m = reduce (assignSlice (tg_slave t) s offset len);
             t1 = fst (createSlave m (t\<lparr>tg_slave := m\<rparr>));
             offset1 = offset + len
         in
         if tg_slave_state t1 \<noteq> seq_ok then (False, offset1, t1)
         else if seq_size s \<le> offset1 then (False, offset1, t1\<lparr>tg_slave_state := err_ack_missing\<rparr>)
         else
           (let a = sq_bytes s ! offset1; t2 = t1\<lparr>tg_slave_ack := a\<rparr> in
            if a \<noteq> ack \<and> a \<noteq> nak then (False, offset1 + 1, t2\<lparr>tg_slave_state := err_ack_invalid\<rparr>)
            else (True, offset1 + 1, t2))))"

text \<open>The slave half of \<open>parse\<close>, entered with the master part accepted.\<close>

definition parse_slave :: "sequence \<Rightarrow> nat \<Rightarrow> telegram \<Rightarrow> telegram" where
  "parse_slave s cursor t =
     (if tg_type t = master_slave
      then
        (case parseSlavePart s cursor t of
           (ok, cursor1, t1) \<Rightarrow>
             if \<not> ok then t1
             else if tg_slave_ack t1 = nak
             then
               (case parseSlavePart s cursor1 t1 of
                  (ok2, cursor2, t2) \<Rightarrow>
                    if \<not> ok2 then t2
                    else if tg_slave_ack t2 = nak then t2\<lparr>tg_slave_state := err_ack_negative\<rparr>
                    else t2)
             else t1)
      else t)"

definition parse :: "sequence \<Rightarrow> telegram \<Rightarrow> telegram" where
  "parse sequence0 t0 =
     (let s = reduce sequence0 in
      case parseMasterPart s 0 (telegram_clear t0) of
        (ok, cursor, t) \<Rightarrow>
          if \<not> ok then t
          else if tg_type t \<noteq> broadcast \<and> tg_master_ack t = nak
          then
            (case parseMasterPart s cursor t of
               (ok1, cursor1, t1) \<Rightarrow>
                 if \<not> ok1 then t1
                 else if tg_master_ack t1 = nak then t1\<lparr>tg_master_state := err_ack_negative\<rparr>
                 else parse_slave s cursor1 t1)
          else parse_slave s cursor t)"

definition makeTelegram :: "bytes \<Rightarrow> telegram" where
  "makeTelegram data = parse (makeSequence data True) telegram_init"

section \<open>Well-formed parts\<close>

text \<open>A master part \<open>QQ ZZ PB SB NN DBx\<close> and a slave part \<open>NN DBx\<close>, without checksum.\<close>

definition master_part_ok :: "bytes \<Rightarrow> bool" where
  "master_part_ok m \<longleftrightarrow>
     5 \<le> length m \<and> isMaster (m ! 0) \<and> isTarget (m ! 1) \<and> m ! 4 \<le> max_data_bytes \<and>
     m ! 2 \<notin> {syn, ext} \<and> m ! 3 \<notin> {syn, ext} \<and> length m = 5 + unat (m ! 4)"

definition slave_part_ok :: "bytes \<Rightarrow> bool" where
  "slave_part_ok s \<longleftrightarrow> 1 \<le> length s \<and> s ! 0 \<le> max_data_bytes \<and> length s = 1 + unat (s ! 0)"

text \<open>A part followed by its checksum.\<close>

definition framed :: "bytes \<Rightarrow> bytes" where
  "framed m = m @ [calculateCRC m False]"

lemma length_framed [simp]: "length (framed m) = length m + 1"
  by (simp add: framed_def)

lemma seq_crc_reduced: "\<not> sq_extended s \<Longrightarrow> seq_crc s = calculateCRC (sq_bytes s) False"
  by (simp add: seq_crc_def)

lemma seq_push_back_simps [simp]:
  "sq_bytes (seq_push_back b e s) = sq_bytes s @ [b]" "sq_extended (seq_push_back b e s) = e"
  by (simp_all add: seq_push_back_def)

lemma seq_of_simps [simp]: "sq_bytes (seq_of xs e) = xs" "sq_extended (seq_of xs e) = e"
  "sq_bytes seq_nil = []" "\<not> sq_extended seq_nil"
  by (simp_all add: seq_of_def seq_nil_def)

lemma fold_push_back: "sq_bytes (fold (\<lambda>b s. seq_push_back b False s) xs s) = sq_bytes s @ xs"
  by (induction xs arbitrary: s) simp_all

lemma fold_push_back_reduced:
  "\<not> sq_extended s \<Longrightarrow> \<not> sq_extended (fold (\<lambda>b s. seq_push_back b False s) xs s)"
  by (induction xs arbitrary: s) simp_all

lemma seq_eqI: "sq_bytes s = sq_bytes t \<Longrightarrow> sq_extended s = sq_extended t \<Longrightarrow> s = (t :: sequence)"
  by simp

lemma master_source_sequence:
  "fold (\<lambda>b s. seq_push_back b False s) data (seq_push_back q False seq_nil) = seq_of (q # data) False"
  by (rule seq_eqI)
    (simp_all add: fold_push_back fold_push_back_reduced)

lemma slave_source_sequence: "fold (\<lambda>b s. seq_push_back b False s) data seq_nil = seq_of data False"
  by (rule seq_eqI) (simp_all add: fold_push_back fold_push_back_reduced)

lemma reduce_seq: "reduce s = seq_of (seq_logical s) False"
  by (rule seq_eqI) (simp_all add: reduce_eq seq_logical_def)

lemma seq_logical_of [simp]:
  "seq_logical (seq_of xs False) = xs" "seq_logical (seq_of (stuff xs) True) = xs"
  by (simp_all add: seq_logical_def unstuff_stuff)

section \<open>What the two part checkers accept\<close>

definition master_accepted :: "bytes \<Rightarrow> telegram \<Rightarrow> telegram" where
  "master_accepted m t =
     t\<lparr>tg_type := typeOf (m ! 1), tg_master := seq_of m False, tg_master_nn := unat (m ! 4),
       tg_master_crc := calculateCRC m False, tg_master_state := seq_ok\<rparr>"

definition slave_accepted :: "bytes \<Rightarrow> telegram \<Rightarrow> telegram" where
  "slave_accepted m t =
     t\<lparr>tg_slave := seq_of m False, tg_slave_nn := unat (m ! 0),
       tg_slave_crc := calculateCRC m False, tg_slave_state := seq_ok\<rparr>"

lemma assignSlice_seq:
  assumes "0 < n" "n \<le> length xs"
  shows "assignSlice s (seq_of xs False) 0 n = seq_of (take n xs) False"
  using assms by (intro seq_eqI) (simp_all add: assignSlice_def seq_size_def Let_def)

lemma assignSlice_seq_all: "xs \<noteq> [] \<Longrightarrow> assignSlice s (seq_of xs False) 0 0 = seq_of xs False"
  by (intro seq_eqI) (simp_all add: assignSlice_def seq_size_def Let_def)

lemma createMaster_plain:
  assumes "master_part_ok m" "seq_logical s = m"
  shows "createMaster s t = (master_accepted m t, seq_of m False)"
proof -
  have "m \<noteq> []" using assms(1) by (auto simp: master_part_ok_def)
  then have "assignSlice u (seq_of m False) 0 0 = seq_of m False" for u
    by (rule assignSlice_seq_all)
  with assms show ?thesis
    by (auto simp: createMaster_def reduce_seq master_part_ok_def master_accepted_def Let_def
        seq_crc_reduced)
qed

lemma createMaster_framed:
  assumes "master_part_ok m" "seq_logical s = framed m"
  shows "createMaster s t = (master_accepted m t, seq_of (framed m) False)"
proof -
  have nth: "framed m ! i = m ! i" if "i < 5" for i
    using that assms(1) by (simp add: framed_def nth_append master_part_ok_def)
  have len: "length m = 5 + unat (m ! 4)"
    using assms(1) by (simp add: master_part_ok_def)
  have slice: "assignSlice u (seq_of (framed m) False) 0 (5 + unat (m ! 4)) = seq_of m False" for u
    using len by (simp add: assignSlice_seq) (simp add: framed_def)
  have crc: "framed m ! (5 + unat (m ! 4)) = calculateCRC m False"
    using len by (simp add: framed_def nth_append)
  show ?thesis
    using assms len
    by (auto simp: createMaster_def reduce_seq master_part_ok_def master_accepted_def Let_def
        nth slice crc seq_crc_reduced)
qed

lemma createMaster_okD:
  assumes "tg_master_state (fst (createMaster s t)) = seq_ok"
  shows "\<exists>m. master_part_ok m \<and> (seq_logical s = m \<or> seq_logical s = framed m)"
proof -
  define xs where "xs = seq_logical s"
  have checks: "5 \<le> length xs" "isMaster (xs ! 0)" "isTarget (xs ! 1)" "xs ! 4 \<le> max_data_bytes"
    "xs ! 2 \<notin> {syn, ext}" "xs ! 3 \<notin> {syn, ext}" "5 + unat (xs ! 4) \<le> length xs"
    using assms by (auto simp: createMaster_def reduce_seq Let_def xs_def split: if_splits)
  then have cases: "length xs = 5 + unat (xs ! 4) \<or>
      length xs = 5 + unat (xs ! 4) + 1 \<and>
      seq_crc (assignSlice (tg_master t) (seq_of xs False) 0 (5 + unat (xs ! 4))) = xs ! (5 + unat (xs ! 4))"
    using assms by (auto simp: createMaster_def reduce_seq Let_def xs_def split: if_splits)
  define m where "m = take (5 + unat (xs ! 4)) xs"
  have nth: "m ! i = xs ! i" if "i < 5" for i
    using that checks by (simp add: m_def)
  have m: "master_part_ok m"
    using checks by (auto simp: master_part_ok_def nth) (simp_all add: m_def)
  from cases show ?thesis
  proof
    assume "length xs = 5 + unat (xs ! 4)"
    then have "xs = m" by (simp add: m_def)
    with m show ?thesis by (auto simp: xs_def)
  next
    assume l: "length xs = 5 + unat (xs ! 4) + 1 \<and>
      seq_crc (assignSlice (tg_master t) (seq_of xs False) 0 (5 + unat (xs ! 4))) = xs ! (5 + unat (xs ! 4))"
    have "assignSlice (tg_master t) (seq_of xs False) 0 (5 + unat (xs ! 4)) = seq_of m False"
      unfolding m_def by (rule assignSlice_seq) (use l in auto)
    with l have "xs ! (5 + unat (xs ! 4)) = calculateCRC m False"
      by (simp add: seq_crc_reduced)
    moreover have "xs = m @ [xs ! (5 + unat (xs ! 4))]"
      using l unfolding m_def by (metis add.commute lessI plus_1_eq_Suc take_Suc_conv_app_nth take_all_iff order_refl)
    ultimately have "xs = framed m" by (simp add: framed_def)
    with m show ?thesis by (auto simp: xs_def)
  qed
qed

lemma createMaster_ok_iff:
  "tg_master_state (fst (createMaster s t)) = seq_ok \<longleftrightarrow>
     (\<exists>m. master_part_ok m \<and> (seq_logical s = m \<or> seq_logical s = framed m))"
  using createMaster_okD createMaster_plain createMaster_framed
  by (fastforce simp: master_accepted_def)

lemma createSlave_framed:
  assumes "slave_part_ok m" "seq_logical s = framed m"
  shows "createSlave s t = (slave_accepted m t, seq_of (framed m) False)"
proof -
  have nth: "framed m ! 0 = m ! 0"
    using assms(1) by (simp add: framed_def nth_append slave_part_ok_def)
  have len: "length m = 1 + unat (m ! 0)"
    using assms(1) by (simp add: slave_part_ok_def)
  have slice: "assignSlice u (seq_of (framed m) False) 0 (1 + unat (m ! 0)) = seq_of m False" for u
    using len by (simp add: assignSlice_seq) (simp add: framed_def)
  have crc: "framed m ! (1 + unat (m ! 0)) = calculateCRC m False"
    using len by (simp add: framed_def nth_append)
  show ?thesis
    using assms len slice crc
    by (auto simp: createSlave_def reduce_seq slave_part_ok_def slave_accepted_def Let_def
        nth seq_crc_reduced)
qed

text \<open>A part of one byte (\<open>NN = 0\<close>) is accepted with its checksum only.\<close>

lemma createSlave_plain:
  assumes "slave_part_ok m" "2 \<le> length m" "seq_logical s = m"
  shows "createSlave s t = (slave_accepted m t, seq_of m False)"
proof -
  have "m \<noteq> []" using assms(1) by (auto simp: slave_part_ok_def)
  then have "assignSlice u (seq_of m False) 0 0 = seq_of m False" for u
    by (rule assignSlice_seq_all)
  with assms show ?thesis
    by (auto simp: createSlave_def reduce_seq slave_part_ok_def slave_accepted_def Let_def
        seq_crc_reduced)
qed

section \<open>Parsing a recorded exchange\<close>

lemma master_accepted_simps [simp]:
  "tg_type (master_accepted m t) = typeOf (m ! 1)"
  "tg_master (master_accepted m t) = seq_of m False"
  "tg_master_state (master_accepted m t) = seq_ok"
  "tg_master_ack (master_accepted m t) = tg_master_ack t"
  "tg_slave (master_accepted m t) = tg_slave t"
  "tg_slave_state (master_accepted m t) = tg_slave_state t"
  by (simp_all add: master_accepted_def)

lemma slave_accepted_simps [simp]:
  "tg_type (slave_accepted m t) = tg_type t"
  "tg_master (slave_accepted m t) = tg_master t"
  "tg_master_state (slave_accepted m t) = tg_master_state t"
  "tg_master_ack (slave_accepted m t) = tg_master_ack t"
  "tg_slave (slave_accepted m t) = seq_of m False"
  "tg_slave_state (slave_accepted m t) = seq_ok"
  "tg_slave_ack (slave_accepted m t) = tg_slave_ack t"
  by (simp_all add: slave_accepted_def)

text \<open>Cutting a framed part out of the middle of a sequence.\<close>

lemma assignSlice_middle:
  assumes "xs \<noteq> []"
  shows "assignSlice u (seq_of (pre @ xs @ post) False) (length pre) (length xs) = seq_of xs False"
  using assms by (intro seq_eqI) (simp_all add: assignSlice_def seq_size_def Let_def)

text \<open>
  What the parser does with a well-formed framed part at its cursor, followed by
  \<open>post\<close>: the next byte, if there is one, is taken as the acknowledgement.
\<close>

definition take_ack :: "(u8 \<Rightarrow> telegram \<Rightarrow> telegram) \<Rightarrow> (SequenceState \<Rightarrow> telegram \<Rightarrow> telegram)
    \<Rightarrow> bytes \<Rightarrow> nat \<Rightarrow> telegram \<Rightarrow> bool \<times> nat \<times> telegram" where
  "take_ack set_ack set_state post off t =
     (case post of
        [] \<Rightarrow> (False, off, set_state err_ack_missing t)
      | a # _ \<Rightarrow>
          if a = ack \<or> a = nak then (True, off + 1, set_ack a t)
          else (False, off + 1, set_state err_ack_invalid (set_ack a t)))"

lemma nth_after: "(pre @ xs @ a # post) ! (length pre + length xs) = a"
  by (simp add: nth_append)

lemma parseMasterPart_framed:
  assumes m: "master_part_ok m" and s: "s = seq_of (pre @ framed m @ post) False"
  shows "parseMasterPart s (length pre) t =
    (let off = length pre + length (framed m); t1 = master_accepted m t in
     if typeOf (m ! 1) = broadcast then (True, off, t1)
     else take_ack (\<lambda>a t. t\<lparr>tg_master_ack := a\<rparr>) (\<lambda>e t. t\<lparr>tg_master_state := e\<rparr>) post off t1)"
proof -
  have len: "length m = 5 + unat (m ! 4)" and hdr: "5 \<le> length m"
    using m by (simp_all add: master_part_ok_def)
  then have flen: "5 + unat (m ! 4) + 1 = length (framed m)" by simp
  have nth: "(pre @ framed m @ post) ! (length pre + i) = m ! i" if "i < 5" for i
    using that hdr by (simp add: nth_append framed_def)
  note at = nth [of 0, simplified] nth [of 1, simplified] nth [of 4, simplified]
  have chk: "checkMasterSequence s (length pre) = seq_ok"
    using m len by (simp add: checkMasterSequence_def s at master_part_ok_def not_less Let_def)
  have cut: "reduce (assignSlice u s (length pre) (length (framed m))) = seq_of (framed m) False" for u
    unfolding s by (subst assignSlice_middle) (auto simp: framed_def reduce_eq)
  have "createMaster (seq_of (framed m) False) u = (master_accepted m u, seq_of (framed m) False)" for u
    by (rule createMaster_framed [OF m]) simp
  then have create: "fst (createMaster (seq_of (framed m) False)
      (t\<lparr>tg_master_state := seq_ok, tg_master := seq_of (framed m) False\<rparr>)) = master_accepted m t"
    by (simp add: master_accepted_def)
  have nn: "sq_bytes s ! (length pre + 4) = m ! 4"
    by (simp add: s at)
  have "parseMasterPart s (length pre) t =
    (let off = length pre + length (framed m); t1 = master_accepted m t in
     if typeOf (m ! 1) = broadcast then (True, off, t1)
     else if seq_size s \<le> off then (False, off, t1\<lparr>tg_master_state := err_ack_missing\<rparr>)
     else let a = sq_bytes s ! off; t2 = t1\<lparr>tg_master_ack := a\<rparr> in
       if a \<noteq> ack \<and> a \<noteq> nak then (False, off + 1, t2\<lparr>tg_master_state := err_ack_invalid\<rparr>)
       else (True, off + 1, t2))"
    unfolding parseMasterPart_def nn flen cut Let_def
    by (simp add: chk create)
  then show ?thesis
    by (cases post) (simp_all add: take_ack_def Let_def s seq_size_def nth_append)
qed

lemma parseSlavePart_framed:
  assumes m: "slave_part_ok m" and s: "s = seq_of (pre @ framed m @ post) False"
  shows "parseSlavePart s (length pre) t =
    take_ack (\<lambda>a t. t\<lparr>tg_slave_ack := a\<rparr>) (\<lambda>e t. t\<lparr>tg_slave_state := e\<rparr>) post
      (length pre + length (framed m)) (slave_accepted m t)"
proof -
  have len: "length m = 1 + unat (m ! 0)" and hdr: "1 \<le> length m"
    using m by (simp_all add: slave_part_ok_def)
  then have flen: "1 + unat (m ! 0) + 1 = length (framed m)" by simp
  have at: "(pre @ framed m @ post) ! length pre = m ! 0"
    using hdr by (cases m) (simp_all add: nth_append framed_def)
  have chk: "checkSlaveSequence s (length pre) = seq_ok"
    using m len by (simp add: checkSlaveSequence_def s at slave_part_ok_def not_less Let_def)
  have cut: "reduce (assignSlice u s (length pre) (length (framed m))) = seq_of (framed m) False" for u
    unfolding s by (subst assignSlice_middle) (auto simp: framed_def reduce_eq)
  have "createSlave (seq_of (framed m) False) u = (slave_accepted m u, seq_of (framed m) False)" for u
    by (rule createSlave_framed [OF m]) simp
  then have create: "fst (createSlave (seq_of (framed m) False)
      (t\<lparr>tg_slave_state := seq_ok, tg_slave := seq_of (framed m) False\<rparr>)) = slave_accepted m t"
    by (simp add: slave_accepted_def)
  have nn: "sq_bytes s ! (length pre + 0) = m ! 0"
    by (simp add: s at)
  have "parseSlavePart s (length pre) t =
    (let off = length pre + length (framed m); t1 = slave_accepted m t in
     if seq_size s \<le> off then (False, off, t1\<lparr>tg_slave_state := err_ack_missing\<rparr>)
     else let a = sq_bytes s ! off; t2 = t1\<lparr>tg_slave_ack := a\<rparr> in
       if a \<noteq> ack \<and> a \<noteq> nak then (False, off + 1, t2\<lparr>tg_slave_state := err_ack_invalid\<rparr>)
       else (True, off + 1, t2))"
    unfolding parseSlavePart_def nn flen cut Let_def
    by (simp add: chk create)
  then show ?thesis
    by (cases post) (simp_all add: take_ack_def Let_def s seq_size_def nth_append)
qed

text \<open>The bytes of a complete exchange, in logical form.\<close>

definition exchange :: "bytes \<Rightarrow> bytes \<Rightarrow> bytes" where
  "exchange m s =
     (case typeOf (m ! 1) of
        broadcast \<Rightarrow> framed m
      | master_master \<Rightarrow> framed m @ [ack]
      | _ \<Rightarrow> framed m @ [ack] @ framed s @ [ack])"

lemma typeOf_cases: "typeOf x = broadcast \<or> typeOf x = master_master \<or> typeOf x = master_slave"
  by (simp add: typeOf_def)

lemma ack_neq_nak [simp]: "ack \<noteq> nak" "nak \<noteq> ack"
  by (simp_all add: ack_def nak_def)

lemma parse_exchange_logical:
  assumes "master_part_ok m" "slave_part_ok s" "seq_logical q = exchange m s"
  shows "parse q t =
    (let t1 = master_accepted m (telegram_clear t) in
     case typeOf (m ! 1) of
       broadcast \<Rightarrow> t1
     | master_master \<Rightarrow> t1\<lparr>tg_master_ack := ack\<rparr>
     | _ \<Rightarrow> (slave_accepted s (t1\<lparr>tg_master_ack := ack\<rparr>))\<lparr>tg_slave_ack := ack\<rparr>)"
proof -
  have q: "reduce q = seq_of ([] @ exchange m s) False"
    using assms(3) by (simp add: reduce_seq)
  consider "typeOf (m ! 1) = broadcast" | "typeOf (m ! 1) = master_master" | "typeOf (m ! 1) = master_slave"
    using typeOf_cases by blast
  then show ?thesis
  proof cases
    case 1
    then have "parseMasterPart (reduce q) 0 u = (True, length (framed m), master_accepted m u)" for u
      using parseMasterPart_framed [OF assms(1), of "reduce q" "[]" "[]" u] by (simp add: q exchange_def)
    with 1 show ?thesis by (simp add: parse_def parse_slave_def)
  next
    case 2
    then have "parseMasterPart (reduce q) 0 u
        = (True, length (framed m) + 1, (master_accepted m u)\<lparr>tg_master_ack := ack\<rparr>)" for u
      using parseMasterPart_framed [OF assms(1), of "reduce q" "[]" "[ack]" u]
      by (simp add: q exchange_def take_ack_def)
    with 2 show ?thesis by (simp add: parse_def parse_slave_def)
  next
    case 3
    then have m: "parseMasterPart (reduce q) 0 u
        = (True, length (framed m) + 1, (master_accepted m u)\<lparr>tg_master_ack := ack\<rparr>)" for u
      using parseMasterPart_framed [OF assms(1), of "reduce q" "[]" "[ack] @ framed s @ [ack]" u]
      by (simp add: q exchange_def take_ack_def)
    have s: "parseSlavePart (reduce q) (length (framed m) + 1) u
        = (True, length (framed m) + 1 + length (framed s) + 1, (slave_accepted s u)\<lparr>tg_slave_ack := ack\<rparr>)" for u
      using 3 parseSlavePart_framed [OF assms(2), of "reduce q" "framed m @ [ack]" "[ack]" u]
      by (simp add: q exchange_def take_ack_def)
    from 3 show ?thesis by (simp add: parse_def parse_slave_def Let_def m s [simplified])
  qed
qed

section \<open>Properties\<close>

text \<open>
  C32: \<open>createMaster\<close> accepts exactly the well-formed master parts, given with or without their
  checksum and in escaped or plain form.
\<close>

theorem master_part_accepted_iff:
  "tg_master_state (fst (createMaster s t)) = seq_ok \<longleftrightarrow>
     (\<exists>m. master_part_ok m \<and> (seq_logical s = m \<or> seq_logical s = framed m))"
  by (rule createMaster_ok_iff)

text \<open>
  C11: Parsing the recorded wire bytes of a complete exchange gives the parts back: the type,
  the master part, its acknowledgement, and for a master-slave exchange the slave part,
  everything marked valid.
\<close>

theorem parse_exchange:
  assumes "master_part_ok m" "slave_part_ok r"
  shows "isValid (makeTelegram (stuff (exchange m r)))
    \<and> tg_type (makeTelegram (stuff (exchange m r))) = typeOf (m ! 1)
    \<and> tg_master (makeTelegram (stuff (exchange m r))) = seq_of m False
    \<and> (typeOf (m ! 1) = master_slave \<longrightarrow> tg_slave (makeTelegram (stuff (exchange m r))) = seq_of r False)"
proof -
  have q: "seq_logical (makeSequence (stuff (exchange m r)) True) = exchange m r"
    by (simp add: makeSequence_def seq_assign_def seq_logical_def unstuff_stuff)
  show ?thesis
    using typeOf_cases [of "m ! 1"]
    by (auto simp: makeTelegram_def parse_exchange_logical [OF assms q] isValid_def Let_def)
qed

theorem parse_exchange_witness:
  "master_part_ok [0x10, 0x08, 0xb5, 0x09, 0x01, 0xaa] \<and> slave_part_ok [0x01, 0xa9]
   \<and> tg_slave (makeTelegram (stuff (exchange [0x10, 0x08, 0xb5, 0x09, 0x01, 0xaa] [0x01, 0xa9])))
       = seq_of [0x01, 0xa9] False"
proof -
  have "master_part_ok [0x10, 0x08, 0xb5, 0x09, 0x01, 0xaa]" "slave_part_ok [0x01, 0xa9]"
      "typeOf ([0x10, 0x08, 0xb5, 0x09, 0x01, 0xaa] ! 1) = master_slave"
    by code_simp+
  then show ?thesis using parse_exchange by blast
qed

end
