(* ===== verification/Protocol_Handler.thy ===== *)
theory Protocol_Handler
  imports Arbitration Telegram
begin

text \<open>
  \<open>Handler\<close> (\<open>src/ebus/core/handler.hpp\<close>, \<open>.cpp\<close>): the fifteen-state machine that
  receives, answers and sends telegrams byte by byte. Its record extends that of the
  \<open>Request\<close> it drives. What the handler does to the outside is appended to the field
  \<open>outputs\<close>: a byte written to the bus, a callback fired with its argument. The
  callbacks themselves are queued by their receivers and do not call back; only the
  reactive callback returns something, the slave response, and it is a parameter.
  \<open>past_end\<close> is the byte an index at or beyond \<open>size()\<close> reads from the buffer.
\<close>

section \<open>State\<close>

record ProtocolInfo =
  is_error :: bool
  pi_level :: LogLevel
  pi_timestamp :: u64
  pi_session_id :: u32
  pi_poll_id :: u16
  pi_attempts :: u8
  pi_handler_state :: HandlerState
  pi_request_state :: RequestState
  pi_message_type :: MessageType
  pi_telegram_type :: TelegramType
  pi_protocol_error :: ProtocolError
  pi_result :: RequestResult
  pi_sequence_state :: SequenceState
  pi_master_view :: bytes
  pi_slave_view :: bytes

definition ProtocolInfo_init :: ProtocolInfo where
  "ProtocolInfo_init =
     \<lparr>is_error = False, pi_level = level_none, pi_timestamp = 0, pi_session_id = 0, pi_poll_id = 0,
      pi_attempts = 0, pi_handler_state = passive_receive_master,
      pi_request_state = observe, pi_message_type = message_undefined,
      pi_telegram_type = type_undefined, pi_protocol_error = no_protocol_error,
      pi_result = observe_data, pi_sequence_state = seq_empty, pi_master_view = [], pi_slave_view = []\<rparr>"

record BusEventInfo =
  bi_byte :: u8
  bi_handler_state :: HandlerState
  bi_request_state :: RequestState
  bi_result :: RequestResult
  bi_lock_counter :: u8
  bi_timestamp :: int

datatype handler_output =
    BusWrite u8
  | RequestWon
  | RequestLost
  | ExternalRequested
  | Protocol ProtocolInfo

record handler = request +
  external_callback :: bool
  has_bus :: bool
  last_result :: RequestResult
  pending_write :: "u8 option"
  source_address :: u8
  target_address :: u8
  won_callback :: bool
  lost_callback :: bool
  reactive_callback :: "(bytes \<Rightarrow> sequence \<Rightarrow> sequence) option"
  protocol_callback :: bool
  last_point :: int
  measure_sync :: bool
  passive_telegram :: telegram
  passive_master :: sequence
  passive_master_dbx :: nat
  passive_master_repeated :: bool
  passive_slave :: sequence
  passive_slave_dbx :: nat
  passive_slave_index :: nat
  passive_slave_repeated :: bool
  active_message :: bool
  active_telegram :: telegram
  active_master :: sequence
  active_master_index :: nat
  active_master_repeated :: bool
  active_slave :: sequence
  active_slave_dbx :: nat
  active_slave_repeated :: bool
  h_state :: HandlerState
  past_end :: "nat \<Rightarrow> u8"
  outputs :: "handler_output list"

section \<open>The transition matrix\<close>

definition handler_mask :: "HandlerState list \<Rightarrow> u16" where
  "handler_mask states = foldr (\<lambda>st m. push_bit (handler_index st) 1 OR m) states 0"

definition reset_trans :: HandlerState where "reset_trans = passive_receive_master"
definition arb_trans :: HandlerState where "arb_trans = request_bus"

definition handler_transition_masks :: "u16 list" where
  "handler_transition_masks =
     [handler_mask [reset_trans, arb_trans, passive_receive_master_acknowledge,
        reactive_send_master_positive_acknowledge, reactive_send_master_negative_acknowledge,
        release_bus],
      handler_mask [reset_trans, arb_trans, passive_receive_slave],
      handler_mask [reset_trans, arb_trans, passive_receive_slave_acknowledge],
      handler_mask [reset_trans, arb_trans, passive_receive_slave],
      handler_mask [reset_trans, arb_trans, reactive_send_slave],
      handler_mask [reset_trans, arb_trans],
      handler_mask [reset_trans, arb_trans, reactive_receive_slave_acknowledge],
      handler_mask [reset_trans, arb_trans, reactive_send_slave],
      handler_mask [reset_trans, arb_trans, active_send_master, release_bus],
      handler_mask [reset_trans, arb_trans, active_receive_master_acknowledge, release_bus],
      handler_mask [reset_trans, arb_trans, active_send_master, active_receive_slave, release_bus],
      handler_mask [reset_trans, arb_trans, active_send_slave_positive_acknowledge,
        active_send_slave_negative_acknowledge],
      handler_mask [reset_trans, arb_trans, release_bus],
      handler_mask [reset_trans, arb_trans, active_receive_slave, release_bus],
      handler_mask [reset_trans, arb_trans]]"

definition handler_allowed :: "HandlerState \<Rightarrow> HandlerState \<Rightarrow> bool" where
  "handler_allowed old new \<longleftrightarrow>
     (push_bit (handler_index new) 1 :: u16) AND handler_transition_masks ! handler_index old \<noteq> 0"

section \<open>Helpers of the state functions\<close>

definition emit :: "handler_output \<Rightarrow> handler \<Rightarrow> handler" where
  "emit x s = s\<lparr>outputs := outputs s @ [x]\<rparr>"

definition seq_index :: "(nat \<Rightarrow> u8) \<Rightarrow> sequence \<Rightarrow> nat \<Rightarrow> u8" where
  "seq_index stale q i = (if i < seq_size q then sq_bytes q ! i else stale i)"

definition callWrite :: "u8 \<Rightarrow> handler \<Rightarrow> handler" where
  "callWrite byte s = s\<lparr>pending_write := Some byte\<rparr>"

definition callPassiveReset :: "handler \<Rightarrow> handler" where
  "callPassiveReset s =
     s\<lparr>passive_telegram := telegram_clear (passive_telegram s),
       passive_master := seq_clear (passive_master s), passive_master_dbx := 0,
       passive_master_repeated := False,
       passive_slave := seq_clear (passive_slave s), passive_slave_dbx := 0,
       passive_slave_index := 0, passive_slave_repeated := False\<rparr>"

definition callActiveReset :: "handler \<Rightarrow> handler" where
  "callActiveReset s =
     s\<lparr>active_message := False,
       active_telegram := telegram_clear (active_telegram s),
       active_master := seq_clear (active_master s), active_master_index := 0,
       active_master_repeated := False,
       active_slave := seq_clear (active_slave s), active_slave_dbx := 0,
       active_slave_repeated := False\<rparr>"

definition callOnBusRequestWon :: "handler \<Rightarrow> handler" where
  "callOnBusRequestWon s = (if won_callback s then emit RequestWon s else s)"

definition callOnBusRequestLost :: "handler \<Rightarrow> handler" where
  "callOnBusRequestLost s = (if lost_callback s then emit RequestLost s else s)"

text \<open>The second argument is the response sequence; the result is what the callback left in it.\<close>

definition callOnReactive :: "bytes \<Rightarrow> sequence \<Rightarrow> handler \<Rightarrow> sequence" where
  "callOnReactive master_view slave_response s =
     (case reactive_callback s of None \<Rightarrow> slave_response | Some f \<Rightarrow> f master_view slave_response)"

definition payload_bytes :: "bytes \<Rightarrow> bytes \<Rightarrow> u32" where
  "payload_bytes master_view slave_view =
     (if length master_view \<ge> 5 then 2 + ucast (master_view ! 4) else 0) +
     (if length slave_view \<ge> 1 then ucast (slave_view ! 0) else 0)"

definition callOnTelegram ::
  "MessageType \<Rightarrow> TelegramType \<Rightarrow> bytes \<Rightarrow> bytes \<Rightarrow> handler \<Rightarrow> handler" where
  "callOnTelegram message_type telegram_type master_view slave_view s =
     (if protocol_callback s
      then
        (let s1 = updateHandler (\<lambda>m. m\<lparr>total_observed_data_bytes :=
                    total_observed_data_bytes m + ucast (payload_bytes master_view slave_view)\<rparr>) s;
             s2 = (if telegram_type \<noteq> broadcast \<and> length master_view \<ge> 2
                   then recordHandlerSuccess (master_view ! 1) s1 else s1)
         in emit (Protocol (ProtocolInfo_init
              \<lparr>is_error := False, pi_message_type := message_type, pi_telegram_type := telegram_type,
               pi_handler_state := h_state s2, pi_request_state := rq_state s2,
               pi_master_view := master_view, pi_slave_view := slave_view\<rparr>)) s2)
      else s)"

definition callOnError ::
  "LogLevel \<Rightarrow> ProtocolError \<Rightarrow> SequenceState \<Rightarrow> bytes \<Rightarrow> bytes \<Rightarrow> handler \<Rightarrow> handler" where
  "callOnError level protocol_error sequence_state master_view slave_view s =
     (if protocol_callback s
      then
        (let s1 = recordHandlerError (if master_view = [] then 0xff else master_view ! 0)
                    (recordBusError s)
         in emit (Protocol (ProtocolInfo_init
              \<lparr>is_error := True, pi_level := level, pi_protocol_error := protocol_error,
               pi_result := last_result s1, pi_sequence_state := sequence_state,
               pi_handler_state := h_state s1, pi_request_state := rq_state s1,
               pi_master_view := master_view, pi_slave_view := slave_view\<rparr>)) s1)
      else s)"

text \<open>The error reports of the state functions pass the raw buffers of one side.\<close>

definition passive_error :: "LogLevel \<Rightarrow> ProtocolError \<Rightarrow> SequenceState \<Rightarrow> handler \<Rightarrow> handler" where
  "passive_error level err st s =
     callOnError level err st (sq_bytes (passive_master s)) (sq_bytes (passive_slave s)) s"

definition active_error :: "LogLevel \<Rightarrow> ProtocolError \<Rightarrow> SequenceState \<Rightarrow> handler \<Rightarrow> handler" where
  "active_error level err st s =
     callOnError level err st (sq_bytes (active_master s)) (sq_bytes (active_slave s)) s"

definition passive_report :: "MessageType \<Rightarrow> TelegramType \<Rightarrow> handler \<Rightarrow> handler" where
  "passive_report mt tt s =
     callOnTelegram mt tt (sq_bytes (tg_master (passive_telegram s)))
       (sq_bytes (tg_slave (passive_telegram s))) s"

definition h_transitionTo :: "HandlerState \<Rightarrow> handler \<Rightarrow> handler" where
  "h_transitionTo next s =
     (if next = h_state s then s
      else
        (let old_state = h_state s;
             legal = handler_allowed old_state next;
             s1 = (if legal then s
                   else callOnError level_error illegal_fsm_transition seq_ok [] [] s);
             next' = (if legal then next else passive_receive_master)
         in logHandlerTransition old_state next' (s1\<lparr>h_state := next'\<rparr>)))"

definition bump_invalid :: "handler \<Rightarrow> handler" where
  "bump_invalid = updateHandler (\<lambda>m. m\<lparr>invalid_bytes := invalid_bytes m + 1\<rparr>)"

definition bump_error_passive :: "handler \<Rightarrow> handler" where
  "bump_error_passive = updateHandler (\<lambda>m. m\<lparr>error_passive := error_passive m + 1\<rparr>)"

definition bump_error_reactive :: "handler \<Rightarrow> handler" where
  "bump_error_reactive = updateHandler (\<lambda>m. m\<lparr>error_reactive := error_reactive m + 1\<rparr>)"

definition bump_error_active :: "handler \<Rightarrow> handler" where
  "bump_error_active = updateHandler (\<lambda>m. m\<lparr>error_active := error_active m + 1\<rparr>)"

definition bump_messages_passive :: "handler \<Rightarrow> handler" where
  "bump_messages_passive = updateHandler (\<lambda>m. m\<lparr>messages_passive := messages_passive m + 1\<rparr>)"

definition bump_messages_reactive :: "handler \<Rightarrow> handler" where
  "bump_messages_reactive = updateHandler (\<lambda>m. m\<lparr>messages_reactive := messages_reactive m + 1\<rparr>)"

definition bump_messages_active :: "handler \<Rightarrow> handler" where
  "bump_messages_active = updateHandler (\<lambda>m. m\<lparr>messages_active := messages_active m + 1\<rparr>)"

definition checkPassiveBuffers :: "handler \<Rightarrow> handler" where
  "checkPassiveBuffers s =
     (if seq_size (passive_master s) > 0 \<or> seq_size (passive_slave s) > 0
      then
        (let sequence_state = (if tg_master_state (passive_telegram s) \<noteq> seq_ok
                               then tg_slave_state (passive_telegram s)
                               else tg_master_state (passive_telegram s))
         in callPassiveReset (logPassiveReset
              (passive_error level_info check_passive_buffers sequence_state s)))
      else s)"

definition checkActiveBuffers :: "handler \<Rightarrow> handler" where
  "checkActiveBuffers s =
     (if seq_size (active_master s) > 0 \<or> seq_size (active_slave s) > 0
      then
        (let sequence_state = (if tg_master_state (active_telegram s) \<noteq> seq_ok
                               then tg_slave_state (active_telegram s)
                               else tg_master_state (active_telegram s))
         in callActiveReset (logActiveReset
              (active_error level_info check_active_buffers sequence_state s)))
      else s)"

section \<open>Passive states\<close>

text \<open>The plausibility filter on the header bytes of a master part.\<close>

definition header_plausible :: "nat \<Rightarrow> u8 \<Rightarrow> bool" where
  "header_plausible current_len byte =
     (if current_len = 0 then isMaster byte
      else if current_len = 1 then isTarget byte
      else if current_len = 2 \<or> current_len = 3 then \<not> (byte = syn \<or> byte = ext)
      else if current_len = 4 then \<not> byte > max_data_bytes
      else True)"

text \<open>The part of \<open>passiveReceiveMaster\<close> that runs once the last byte is in the buffer.\<close>

definition passive_master_complete :: "handler \<Rightarrow> handler" where
  "passive_master_complete s0 =
     (let (t, m) = createMaster (passive_master s0) (passive_telegram s0);
          s = s0\<lparr>passive_telegram := t, passive_master := m\<rparr>;
          zz = seq_index (past_end s) (passive_master s) 1
      in
      if tg_master_state (passive_telegram s) = seq_ok
      then
        (if tg_type (passive_telegram s) = broadcast
         then callPassiveReset (bump_messages_passive (passive_report message_passive broadcast s))
         else if zz = source_address s
         then h_transitionTo reactive_send_master_positive_acknowledge (callWrite ack s)
         else if zz = target_address s
         then
           (let resp = callOnReactive (sq_bytes (tg_master (passive_telegram s)))
                         (seq_clear (passive_slave s)) s;
                (t2, sl) = createSlave resp (passive_telegram s);
                s2 = s\<lparr>passive_telegram := t2, passive_slave := sl\<rparr>
            in
            if tg_slave_state (passive_telegram s2) = seq_ok
            then h_transitionTo reactive_send_master_positive_acknowledge
                   (callWrite ack (s2\<lparr>passive_slave :=
                      Byte_Sequence.extend (seq_push_back (tg_slave_crc (passive_telegram s2)) False
                        (tg_slave (passive_telegram s2)))\<rparr>))
            else h_transitionTo release_bus (callWrite syn (callPassiveReset
                   (passive_error level_error error_reactive_slave
                     (tg_slave_state (passive_telegram s2)) (bump_error_reactive s2)))))
         else h_transitionTo passive_receive_master_acknowledge s)
      else
        (if zz = source_address s \<or> zz = target_address s
         then
           (let s1 = passive_error level_error error_reactive_master
                       (tg_master_state (passive_telegram s)) (bump_error_reactive s)
            in h_transitionTo reactive_send_master_negative_acknowledge
                 (callWrite nak
                   (s1\<lparr>passive_telegram := telegram_clear (passive_telegram s1),
                       passive_master := seq_clear (passive_master s1), passive_master_dbx := 0\<rparr>)))
         else if tg_type (passive_telegram s) = master_master \<or> tg_type (passive_telegram s) = master_slave
         then h_transitionTo passive_receive_master_acknowledge s
         else callPassiveReset (passive_error level_error error_passive_master
                (tg_master_state (passive_telegram s)) (bump_error_passive s))))"

text \<open>Buffering a byte, with the count of the bytes still expected behind the header.\<close>

definition store_passive_master :: "u8 \<Rightarrow> handler \<Rightarrow> handler" where
  "store_passive_master byte s =
     (let m = seq_push_back byte True (passive_master s);
          d = (if seq_size m = 5 then unat (seq_index (past_end s) m 4) else passive_master_dbx s)
      in s\<lparr>passive_master := m, passive_master_dbx := (if byte = ext then d + 1 else d)\<rparr>)"

definition passiveReceiveMaster :: "u8 \<Rightarrow> handler \<Rightarrow> handler" where
  "passiveReceiveMaster byte s =
     (if byte \<noteq> syn
      then
        (if \<not> header_plausible (seq_size (passive_master s)) byte
         then callPassiveReset (bump_invalid s)
         else
           (let s1 = store_passive_master byte s
            in if seq_size (passive_master s1) \<ge> 5 + passive_master_dbx s1 + 1
               then passive_master_complete s1 else s1))
      else
        (let s1 = checkActiveBuffers (checkPassiveBuffers s)
         in if active_message s1 then snd (requestBus (source_address s1) False s1) else s1))"

definition passiveReceiveMasterAcknowledge :: "u8 \<Rightarrow> handler \<Rightarrow> handler" where
  "passiveReceiveMasterAcknowledge byte s =
     (if byte = ack
      then
        (if tg_type (passive_telegram s) = master_master
         then h_transitionTo passive_receive_master (callPassiveReset (bump_messages_passive
                (passive_report message_passive master_master s)))
         else h_transitionTo passive_receive_slave s)
      else if byte \<noteq> syn \<and> \<not> passive_master_repeated s
      then h_transitionTo passive_receive_master
             (s\<lparr>passive_master_repeated := True,
                passive_telegram := telegram_clear (passive_telegram s),
                passive_master := seq_clear (passive_master s), passive_master_dbx := 0\<rparr>)
      else h_transitionTo passive_receive_master (callPassiveReset
             (passive_error level_error error_passive_master_ack
               (tg_master_state (passive_telegram s)) (bump_error_passive s))))"

definition store_passive_slave :: "u8 \<Rightarrow> handler \<Rightarrow> handler" where
  "store_passive_slave byte s =
     (let m = seq_push_back byte True (passive_slave s);
          d = (if seq_size m = 1 then unat byte else passive_slave_dbx s)
      in s\<lparr>passive_slave := m, passive_slave_dbx := (if byte = ext then d + 1 else d)\<rparr>)"

definition passive_slave_complete :: "handler \<Rightarrow> handler" where
  "passive_slave_complete s0 =
     (let (t, sl) = createSlave (passive_slave s0) (passive_telegram s0);
          s = s0\<lparr>passive_telegram := t, passive_slave := sl\<rparr>;
          s1 = (if tg_slave_state (passive_telegram s) \<noteq> seq_ok
                then passive_error level_error error_passive_slave
                       (tg_slave_state (passive_telegram s)) (bump_error_passive s)
                else s)
      in h_transitionTo passive_receive_slave_acknowledge s1)"

definition passiveReceiveSlave :: "u8 \<Rightarrow> handler \<Rightarrow> handler" where
  "passiveReceiveSlave byte s =
     (if seq_size (passive_slave s) = 0 \<and> byte > max_data_bytes
      then callPassiveReset (bump_invalid s)
      else
        (let s1 = store_passive_slave byte s
         in if seq_size (passive_slave s1) \<ge> 1 + passive_slave_dbx s1 + 1
            then passive_slave_complete s1 else s1))"

definition passiveReceiveSlaveAcknowledge :: "u8 \<Rightarrow> handler \<Rightarrow> handler" where
  "passiveReceiveSlaveAcknowledge byte s =
     (if byte = ack
      then h_transitionTo passive_receive_master (callPassiveReset (bump_messages_passive
             (passive_report message_passive master_slave s)))
      else if byte = nak \<and> \<not> passive_slave_repeated s
      then h_transitionTo passive_receive_slave
             (s\<lparr>passive_slave_repeated := True, passive_slave := seq_clear (passive_slave s),
                passive_slave_dbx := 0\<rparr>)
      else h_transitionTo passive_receive_master (callPassiveReset
             (passive_error level_error error_passive_slave_ack
               (tg_slave_state (passive_telegram s)) (bump_error_passive s))))"

section \<open>Reactive states\<close>

definition reactiveSendMasterPositiveAcknowledge :: "u8 \<Rightarrow> handler \<Rightarrow> handler" where
  "reactiveSendMasterPositiveAcknowledge byte s =
     (if tg_type (passive_telegram s) = master_master
      then h_transitionTo passive_receive_master (callPassiveReset (bump_messages_reactive
             (passive_report message_reactive master_master s)))
      else if passive_slave_index s \<ge> seq_size (passive_slave s)
      then h_transitionTo passive_receive_master (callPassiveReset
             (passive_error level_error illegal_fsm_transition
               (tg_master_state (passive_telegram s)) s))
      else h_transitionTo reactive_send_slave
             (callWrite (seq_index (past_end s) (passive_slave s) (passive_slave_index s)) s))"

definition reactiveSendMasterNegativeAcknowledge :: "u8 \<Rightarrow> handler \<Rightarrow> handler" where
  "reactiveSendMasterNegativeAcknowledge byte s0 =
     (let s = h_transitionTo passive_receive_master s0
      in if \<not> passive_master_repeated s then s\<lparr>passive_master_repeated := True\<rparr>
         else callPassiveReset (passive_error level_error error_reactive_master_ack
                (tg_master_state (passive_telegram s)) (bump_error_reactive s)))"

definition reactiveSendSlave :: "u8 \<Rightarrow> handler \<Rightarrow> handler" where
  "reactiveSendSlave byte s0 =
     (let s = s0\<lparr>passive_slave_index := passive_slave_index s0 + 1\<rparr>
      in if passive_slave_index s \<ge> seq_size (passive_slave s)
         then h_transitionTo reactive_receive_slave_acknowledge s
         else callWrite (seq_index (past_end s) (passive_slave s) (passive_slave_index s)) s)"

definition reactiveReceiveSlaveAcknowledge :: "u8 \<Rightarrow> handler \<Rightarrow> handler" where
  "reactiveReceiveSlaveAcknowledge byte s =
     (if byte = ack
      then h_transitionTo passive_receive_master (callPassiveReset (bump_messages_reactive
             (passive_report message_reactive master_slave s)))
      else if byte = nak \<and> \<not> passive_slave_repeated s
      then (let s1 = s\<lparr>passive_slave_repeated := True, passive_slave_index := 0\<rparr>
            in h_transitionTo reactive_send_slave
                 (callWrite (seq_index (past_end s1) (passive_slave s1) (passive_slave_index s1)) s1))
      else h_transitionTo passive_receive_master (callPassiveReset
             (passive_error level_error error_reactive_slave_ack
               (tg_slave_state (passive_telegram s)) (bump_error_reactive s))))"

section \<open>Active states\<close>

definition request_won :: "handler \<Rightarrow> handler" where
  "request_won s0 =
     (let s = s0\<lparr>active_master := Byte_Sequence.extend (seq_push_back (tg_master_crc (active_telegram s0)) False
                   (tg_master (active_telegram s0)))\<rparr>
      in if seq_size (active_master s) > 1
         then (let s1 = (callOnBusRequestWon s)\<lparr>active_master_index := 1\<rparr>
               in h_transitionTo active_send_master
                    (callWrite (seq_index (past_end s1) (active_master s1) (active_master_index s1)) s1))
         else (let s1 = callOnBusRequestLost s
               in h_transitionTo release_bus (callWrite syn
                    (s1\<lparr>active_message := False,
                        active_telegram := telegram_clear (active_telegram s1),
                        active_master := seq_clear (active_master s1)\<rparr>))))"

definition request_error :: "handler \<Rightarrow> handler" where
  "request_error s0 =
     (let s = callOnBusRequestLost s0
      in h_transitionTo passive_receive_master
           (s\<lparr>active_message := False, active_telegram := telegram_clear (active_telegram s),
              active_master := seq_clear (active_master s)\<rparr>))"

definition request_lost :: "u8 \<Rightarrow> handler \<Rightarrow> handler" where
  "request_lost byte s0 =
     (let s = callOnBusRequestLost s0;
          s1 = s\<lparr>passive_master := seq_push_back byte True (passive_master s)\<rparr>
      in h_transitionTo passive_receive_master
           (s1\<lparr>active_message := False, active_telegram := telegram_clear (active_telegram s1),
               active_master := seq_clear (active_master s1)\<rparr>))"

definition h_requestBus :: "u8 \<Rightarrow> handler \<Rightarrow> handler" where
  "h_requestBus byte s =
     (case last_result s of
        observe_syn \<Rightarrow> request_error s
      | observe_data \<Rightarrow> request_error s
      | first_syn \<Rightarrow> s
      | first_won \<Rightarrow> request_won s
      | first_retry \<Rightarrow> s
      | first_lost \<Rightarrow> request_lost byte s
      | first_error \<Rightarrow> request_lost byte s
      | retry_syn \<Rightarrow> s
      | retry_error \<Rightarrow> request_error s
      | second_won \<Rightarrow> request_won s
      | second_lost \<Rightarrow> request_lost byte s
      | second_error \<Rightarrow> request_lost byte s)"

text \<open>What ends an exchange the handler started: the active side is reset and SYN is written.\<close>

definition finish_active :: "handler \<Rightarrow> handler" where
  "finish_active s = h_transitionTo release_bus (callWrite syn (callActiveReset s))"

definition active_report :: "TelegramType \<Rightarrow> handler \<Rightarrow> handler" where
  "active_report tt s =
     callOnTelegram message_active tt (sq_bytes (active_master s)) (sq_bytes (active_slave s)) s"

definition activeSendMaster :: "u8 \<Rightarrow> handler \<Rightarrow> handler" where
  "activeSendMaster byte s =
     (if active_master_index s \<ge> seq_size (active_master s)
      then h_transitionTo passive_receive_master (callActiveReset
             (active_error level_error illegal_fsm_transition
               (tg_master_state (active_telegram s)) s))
      else if byte \<noteq> seq_index (past_end s) (active_master s) (active_master_index s)
      then h_transitionTo passive_receive_master (callActiveReset
             (active_error level_error error_active_master_echo
               (tg_master_state (active_telegram s)) (bump_error_active s)))
      else
        (let s1 = s\<lparr>active_master_index := active_master_index s + 1\<rparr>
         in if active_master_index s1 \<ge> seq_size (active_master s1)
            then (if tg_type (active_telegram s1) = broadcast
                  then finish_active (bump_messages_active (active_report broadcast s1))
                  else h_transitionTo active_receive_master_acknowledge s1)
            else callWrite (seq_index (past_end s1) (active_master s1) (active_master_index s1)) s1))"

definition activeReceiveMasterAcknowledge :: "u8 \<Rightarrow> handler \<Rightarrow> handler" where
  "activeReceiveMasterAcknowledge byte s =
     (if byte = ack
      then (if tg_type (active_telegram s) = master_master
            then finish_active (bump_messages_active (active_report master_master s))
            else h_transitionTo active_receive_slave s)
      else if byte = nak \<and> \<not> active_master_repeated s
      then (let s1 = s\<lparr>active_master_repeated := True, active_master_index := 0\<rparr>
            in h_transitionTo active_send_master
                 (callWrite (seq_index (past_end s1) (active_master s1) (active_master_index s1)) s1))
      else finish_active (active_error level_error error_active_master_ack
             (tg_master_state (active_telegram s)) (bump_error_active s)))"

definition reject_slave :: "handler \<Rightarrow> handler" where
  "reject_slave s =
     h_transitionTo active_send_slave_negative_acknowledge (callWrite nak
       (s\<lparr>active_slave := seq_clear (active_slave s), active_slave_dbx := 0\<rparr>))"

definition store_active_slave :: "u8 \<Rightarrow> handler \<Rightarrow> handler" where
  "store_active_slave byte s =
     (let m = seq_push_back byte True (active_slave s);
          d = (if seq_size m = 1 then unat byte else active_slave_dbx s)
      in s\<lparr>active_slave := m, active_slave_dbx := (if byte = ext then d + 1 else d)\<rparr>)"

definition active_slave_complete :: "handler \<Rightarrow> handler" where
  "active_slave_complete s0 =
     (let (t, sl) = createSlave (active_slave s0) (active_telegram s0);
          s = s0\<lparr>active_telegram := t, active_slave := sl\<rparr>
      in if tg_slave_state (active_telegram s) = seq_ok
         then h_transitionTo active_send_slave_positive_acknowledge (callWrite ack s)
         else reject_slave (active_error level_error error_active_slave
                (tg_slave_state (active_telegram s)) (bump_error_active s)))"

definition activeReceiveSlave :: "u8 \<Rightarrow> handler \<Rightarrow> handler" where
  "activeReceiveSlave byte s =
     (if seq_size (active_slave s) = 0 \<and> byte > max_data_bytes
      then (let s1 = bump_invalid s
            in reject_slave (callOnError level_error error_active_slave err_data_byte
                 (sq_bytes (active_master s1)) [] s1))
      else
        (let s1 = store_active_slave byte s
         in if seq_size (active_slave s1) \<ge> 1 + active_slave_dbx s1 + 1
            then active_slave_complete s1 else s1))"

definition activeSendSlavePositiveAcknowledge :: "u8 \<Rightarrow> handler \<Rightarrow> handler" where
  "activeSendSlavePositiveAcknowledge byte s =
     finish_active (bump_messages_active
       (callOnTelegram message_active master_slave
         (sq_bytes (tg_master (active_telegram s))) (sq_bytes (tg_slave (active_telegram s))) s))"

definition activeSendSlaveNegativeAcknowledge :: "u8 \<Rightarrow> handler \<Rightarrow> handler" where
  "activeSendSlaveNegativeAcknowledge byte s =
     (if \<not> active_slave_repeated s
      then h_transitionTo active_receive_slave (s\<lparr>active_slave_repeated := True\<rparr>)
      else finish_active (active_error level_error error_active_slave_ack
             (tg_slave_state (active_telegram s)) (bump_error_active s)))"

definition releaseBus :: "u8 \<Rightarrow> handler \<Rightarrow> handler" where
  "releaseBus byte s =
     h_transitionTo passive_receive_master (if byte \<noteq> syn then bump_invalid s else s)"

section \<open>The public operations\<close>

fun state_handlers :: "HandlerState \<Rightarrow> u8 \<Rightarrow> handler \<Rightarrow> handler" where
  "state_handlers passive_receive_master = passiveReceiveMaster"
| "state_handlers passive_receive_master_acknowledge = passiveReceiveMasterAcknowledge"
| "state_handlers passive_receive_slave = passiveReceiveSlave"
| "state_handlers passive_receive_slave_acknowledge = passiveReceiveSlaveAcknowledge"
| "state_handlers reactive_send_master_positive_acknowledge = reactiveSendMasterPositiveAcknowledge"
| "state_handlers reactive_send_master_negative_acknowledge = reactiveSendMasterNegativeAcknowledge"
| "state_handlers reactive_send_slave = reactiveSendSlave"
| "state_handlers reactive_receive_slave_acknowledge = reactiveReceiveSlaveAcknowledge"
| "state_handlers request_bus = h_requestBus"
| "state_handlers active_send_master = activeSendMaster"
| "state_handlers active_receive_master_acknowledge = activeReceiveMasterAcknowledge"
| "state_handlers active_receive_slave = activeReceiveSlave"
| "state_handlers active_send_slave_positive_acknowledge = activeSendSlavePositiveAcknowledge"
| "state_handlers active_send_slave_negative_acknowledge = activeSendSlaveNegativeAcknowledge"
| "state_handlers release_bus = releaseBus"

text \<open>The timing block at the start of \<open>run\<close>: end marks, the byte count, new begin marks.\<close>

definition mark_ends :: "u8 \<Rightarrow> int \<Rightarrow> handler \<Rightarrow> handler" where
  "mark_ends byte t s =
     (if byte \<noteq> syn
      then (update_mon (\<lambda>m.
              if active_message s
              then (if measure_sync s then m\<lparr>ts_active_first := markEnd t (ts_active_first m)\<rparr>
                    else m\<lparr>ts_active_data := markEnd t (ts_active_data m)\<rparr>)
              else (if measure_sync s then m\<lparr>ts_passive_first := markEnd t (ts_passive_first m)\<rparr>
                    else m\<lparr>ts_passive_data := markEnd t (ts_passive_data m)\<rparr>)) s)
           \<lparr>measure_sync := False\<rparr>
      else (if measure_sync s then update_mon (\<lambda>m. m\<lparr>ts_sync := markEnd t (ts_sync m)\<rparr>) s else s)
           \<lparr>measure_sync := True\<rparr>)"

definition mark_begins :: "int \<Rightarrow> handler \<Rightarrow> handler" where
  "mark_begins t s =
     (if measure_sync s
      then update_mon (\<lambda>m. m\<lparr>ts_sync := markBegin t (ts_sync m),
             ts_active_first := markBegin t (ts_active_first m),
             ts_passive_first := markBegin t (ts_passive_first m)\<rparr>) s
      else update_mon (\<lambda>m. m\<lparr>ts_active_data := markBegin t (ts_active_data m),
             ts_passive_data := markBegin t (ts_passive_data m)\<rparr>) s)"

definition record_timing :: "BusEventInfo \<Rightarrow> handler \<Rightarrow> handler" where
  "record_timing info s =
     mark_begins (bi_timestamp info)
       (updateHandler (\<lambda>m. m\<lparr>total_observed_protocol_bytes := total_observed_protocol_bytes m + 1\<rparr>)
         ((mark_ends (bi_byte info) (bi_timestamp info) s)\<lparr>last_point := bi_timestamp info\<rparr>))"

definition flush_write :: "handler \<Rightarrow> handler" where
  "flush_write s =
     (case pending_write s of
        None \<Rightarrow> s
      | Some byte \<Rightarrow>
          if has_bus s
          then update_mon_clk (\<lambda>t m. m\<lparr>ts_write := markEnd t (ts_write m)\<rparr>)
                 (emit (BusWrite byte)
                   (update_mon_clk (\<lambda>t m. m\<lparr>ts_write := markBegin t (ts_write m)\<rparr>) s))
          else s)"

definition handler_run :: "BusEventInfo \<Rightarrow> handler \<Rightarrow> handler" where
  "handler_run info s =
     (let s1 = record_timing info (s\<lparr>last_result := bi_result info\<rparr>);
          s2 = s1\<lparr>pending_write := None\<rparr>
      in flush_write (state_handlers (h_state s2) (bi_byte info) s2))"

definition setSourceAddress :: "u8 \<Rightarrow> handler \<Rightarrow> handler" where
  "setSourceAddress address s =
     (let a = (if isMaster address then address else 0xff)
      in s\<lparr>source_address := a, target_address := slaveOf a\<rparr>)"

definition handler_reset :: "handler \<Rightarrow> handler" where
  "handler_reset s = callPassiveReset (callActiveReset (h_transitionTo passive_receive_master s))"

definition sendActiveMessage :: "bytes \<Rightarrow> handler \<Rightarrow> bool \<times> handler" where
  "sendActiveMessage message s =
     (if active_message s then (False, s)
      else if message = [] then (False, s)
      else
        (let s1 = s\<lparr>active_telegram := createMaster_from (source_address s) message (active_telegram s)\<rparr>
         in if tg_master_state (active_telegram s1) = seq_ok
            then (True, s1\<lparr>active_message := True\<rparr>)
            else (False, bump_error_active s1)))"

definition onBusRequested :: "handler \<Rightarrow> handler" where
  "onBusRequested s =
     (if active_message s \<and> h_state s \<noteq> request_bus then h_transitionTo request_bus s else s)"

definition onStartBit :: "handler \<Rightarrow> handler" where
  "onStartBit s = callPassiveReset (callActiveReset s)"

text \<open>The constructor: no callback is set, the reservations do not change the contents.\<close>

definition handler_new :: "u8 \<Rightarrow> bool \<Rightarrow> (nat \<Rightarrow> u8) \<Rightarrow> request \<Rightarrow> handler" where
  "handler_new address bus stale r =
     (let s = request.extend r (handler.fields False bus observe_syn None 0 0 False False None False
                0 False telegram_init seq_nil 0 False seq_nil 0 0 False
                False telegram_init seq_nil 0 False seq_nil 0 False passive_receive_master stale []);
          s1 = setSourceAddress address s
      in s1\<lparr>last_point := now s1, clk_reads := clk_reads s1 + 1\<rparr>)"

end
