(* ===== verification/Handler_Telemetry.thy ===== *)
theory Handler_Telemetry
  imports Protocol_Handler
begin

text \<open>
  What the handler does not depend on. An erasure or extension of the state that keeps
  every field the handler reads, and commutes with every update it makes, commutes with
  every operation: the locale \<open>handler_frame\<close> proves this once. It is interpreted for
  \<open>forget\<close>, which erases the monitor and the clocks (telemetry is written by the handler,
  never read, so the proofs about telegrams can run a handler without a monitor), and for
  \<open>prepend\<close>, which puts earlier outputs in front (outputs are only ever appended).
\<close>

definition forget :: "'a env_scheme \<Rightarrow> 'a env_scheme" where
  "forget s = s\<lparr>clk_reads := 0, wall_reads := 0, mon := None\<rparr>"

definition prepend :: "handler_output list \<Rightarrow> handler \<Rightarrow> handler" where
  "prepend out s = s\<lparr>outputs := out @ outputs s\<rparr>"

lemmas logs =
  updateHandler_def updateRequest_def recordBusError_def recordHandlerError_def
  recordHandlerSuccess_def logPassiveReset_def logActiveReset_def logHandlerTransition_def
  logRequestTransition_def

lemmas bump_defs =
  bump_invalid_def bump_error_passive_def bump_error_reactive_def bump_error_active_def
  bump_messages_passive_def bump_messages_reactive_def bump_messages_active_def

lemma mon_fields [simp]:
  "h_state (update_mon f s) = h_state s" "rq_state (update_mon f s) = rq_state s"
  "last_result (update_mon f s) = last_result s"
  "h_state (update_mon_clk g s) = h_state s" "rq_state (update_mon_clk g s) = rq_state s"
  "last_result (update_mon_clk g s) = last_result s"
  by (simp_all add: monitor_ops)

section \<open>Reports and their frame\<close>

text \<open>
  Reporting changes nothing but the outputs and the telemetry. Two states that agree up
  to those agree in every other field, which gives each reporting operation its frame.
\<close>

definition quiet :: "handler \<Rightarrow> handler" where
  "quiet s = (forget s)\<lparr>outputs := []\<rparr>"

lemma quiet_frame:
  assumes "quiet t = quiet s"
  shows "lock_counter_max t = lock_counter_max s" "lock_counter t = lock_counter s"
    "bytes_since_syn t = bytes_since_syn s" "request_address t = request_address s"
    "bus_request t = bus_request s" "external_bus_request t = external_bus_request s"
    "rq_state t = rq_state s" "rq_result t = rq_result s" "external_callback t = external_callback s" "has_bus t = has_bus s"
    "last_result t = last_result s" "pending_write t = pending_write s"
    "source_address t = source_address s" "target_address t = target_address s"
    "won_callback t = won_callback s" "lost_callback t = lost_callback s"
    "reactive_callback t = reactive_callback s" "protocol_callback t = protocol_callback s"
    "last_point t = last_point s" "measure_sync t = measure_sync s"
    "passive_telegram t = passive_telegram s" "passive_master t = passive_master s"
    "passive_master_dbx t = passive_master_dbx s" "passive_master_repeated t = passive_master_repeated s"
    "passive_slave t = passive_slave s" "passive_slave_dbx t = passive_slave_dbx s"
    "passive_slave_index t = passive_slave_index s" "passive_slave_repeated t = passive_slave_repeated s"
    "active_message t = active_message s" "active_telegram t = active_telegram s"
    "active_master t = active_master s" "active_master_index t = active_master_index s"
    "active_master_repeated t = active_master_repeated s" "active_slave t = active_slave s"
    "active_slave_dbx t = active_slave_dbx s" "active_slave_repeated t = active_slave_repeated s"
    "h_state t = h_state s" "past_end t = past_end s"
  using assms by (cases s, cases t, simp add: quiet_def forget_def)+

lemma quiet_emit: "quiet (emit x s) = quiet s"
  by (simp add: quiet_def emit_def forget_def)

lemma quiet_mon:
  "quiet (update_mon f s) = quiet s" "quiet (update_mon_clk g s) = quiet s"
  "quiet (update_mon_wall h s) = quiet s"
  by (simp_all add: quiet_def forget_def monitor_ops)

lemma quiet_reports:
  "quiet (callOnTelegram mt tt mv sv s) = quiet s" "quiet (callOnError lv e st mv sv s) = quiet s"
  "quiet (callOnBusRequestWon s) = quiet s" "quiet (callOnBusRequestLost s) = quiet s"
  by (simp_all add: callOnTelegram_def callOnError_def callOnBusRequestWon_def callOnBusRequestLost_def
    logs Let_def quiet_emit quiet_mon)

lemmas report_frames [simp] =
  quiet_frame [OF quiet_reports(1)] quiet_frame [OF quiet_reports(2)] quiet_frame [OF
  quiet_reports(3)] quiet_frame [OF quiet_reports(4)] quiet_frame [OF quiet_mon(1)] quiet_frame
  [OF quiet_mon(2)] quiet_frame [OF quiet_mon(3)]

lemma quiet_views:
  "quiet (passive_error lv e st s) = quiet s" "quiet (active_error lv e st s) = quiet s"
  "quiet (passive_report mt tt s) = quiet s" "quiet (active_report tt s) = quiet s"
  by (simp_all add: passive_error_def active_error_def passive_report_def active_report_def quiet_reports)

lemma quiet_bumps:
  "quiet (bump_invalid s) = quiet s" "quiet (bump_error_passive s) = quiet s"
  "quiet (bump_error_reactive s) = quiet s" "quiet (bump_error_active s) = quiet s"
  "quiet (bump_messages_passive s) = quiet s" "quiet (bump_messages_reactive s) = quiet s"
  "quiet (bump_messages_active s) = quiet s"
  by (simp_all add: bump_defs logs quiet_mon)

lemmas view_frames [simp] =
  quiet_frame [OF quiet_views(1)] quiet_frame [OF quiet_views(2)] quiet_frame [OF
  quiet_views(3)] quiet_frame [OF quiet_views(4)] quiet_frame [OF quiet_bumps(1)] quiet_frame
  [OF quiet_bumps(2)] quiet_frame [OF quiet_bumps(3)] quiet_frame [OF quiet_bumps(4)]
  quiet_frame [OF quiet_bumps(5)] quiet_frame [OF quiet_bumps(6)] quiet_frame [OF
  quiet_bumps(7)]

section \<open>State transformations the handler commutes with\<close>

named_theorems frame_pull

locale handler_frame =
  fixes F :: "handler \<Rightarrow> handler"
  assumes frame_field:
      "lock_counter_max (F s) = lock_counter_max s" "lock_counter (F s) = lock_counter s"
      "bytes_since_syn (F s) = bytes_since_syn s" "request_address (F s) = request_address s"
      "bus_request (F s) = bus_request s" "external_bus_request (F s) = external_bus_request s"
      "rq_state (F s) = rq_state s" "rq_result (F s) = rq_result s"
      "external_callback (F s) = external_callback s" "has_bus (F s) = has_bus s"
      "last_result (F s) = last_result s" "pending_write (F s) = pending_write s"
      "source_address (F s) = source_address s" "target_address (F s) = target_address s"
      "won_callback (F s) = won_callback s" "lost_callback (F s) = lost_callback s"
      "reactive_callback (F s) = reactive_callback s" "protocol_callback (F s) = protocol_callback s"
      "last_point (F s) = last_point s" "measure_sync (F s) = measure_sync s"
      "passive_telegram (F s) = passive_telegram s" "passive_master (F s) = passive_master s"
      "passive_master_dbx (F s) = passive_master_dbx s"
      "passive_master_repeated (F s) = passive_master_repeated s" "passive_slave (F s) = passive_slave s"
      "passive_slave_dbx (F s) = passive_slave_dbx s" "passive_slave_index (F s) = passive_slave_index s"
      "passive_slave_repeated (F s) = passive_slave_repeated s" "active_message (F s) = active_message s"
      "active_telegram (F s) = active_telegram s" "active_master (F s) = active_master s"
      "active_master_index (F s) = active_master_index s"
      "active_master_repeated (F s) = active_master_repeated s" "active_slave (F s) = active_slave s"
      "active_slave_dbx (F s) = active_slave_dbx s" "active_slave_repeated (F s) = active_slave_repeated s"
      "h_state (F s) = h_state s" "past_end (F s) = past_end s"
    and frame_update:
      "(F s)\<lparr>lock_counter_max := x_0\<rparr> = F (s\<lparr>lock_counter_max := x_0\<rparr>)"
      "(F s)\<lparr>lock_counter := x_1\<rparr> = F (s\<lparr>lock_counter := x_1\<rparr>)"
      "(F s)\<lparr>bytes_since_syn := x_2\<rparr> = F (s\<lparr>bytes_since_syn := x_2\<rparr>)"
      "(F s)\<lparr>request_address := x_3\<rparr> = F (s\<lparr>request_address := x_3\<rparr>)"
      "(F s)\<lparr>bus_request := x_4\<rparr> = F (s\<lparr>bus_request := x_4\<rparr>)"
      "(F s)\<lparr>external_bus_request := x_5\<rparr> = F (s\<lparr>external_bus_request := x_5\<rparr>)"
      "(F s)\<lparr>rq_state := x_6\<rparr> = F (s\<lparr>rq_state := x_6\<rparr>)"
      "(F s)\<lparr>rq_result := x_7\<rparr> = F (s\<lparr>rq_result := x_7\<rparr>)"
      "(F s)\<lparr>has_bus := x_8\<rparr> = F (s\<lparr>has_bus := x_8\<rparr>)"
      "(F s)\<lparr>external_callback := x_ec\<rparr> = F (s\<lparr>external_callback := x_ec\<rparr>)"
      "(F s)\<lparr>last_result := x_9\<rparr> = F (s\<lparr>last_result := x_9\<rparr>)"
      "(F s)\<lparr>pending_write := x_10\<rparr> = F (s\<lparr>pending_write := x_10\<rparr>)"
      "(F s)\<lparr>source_address := x_11\<rparr> = F (s\<lparr>source_address := x_11\<rparr>)"
      "(F s)\<lparr>target_address := x_12\<rparr> = F (s\<lparr>target_address := x_12\<rparr>)"
      "(F s)\<lparr>won_callback := x_13\<rparr> = F (s\<lparr>won_callback := x_13\<rparr>)"
      "(F s)\<lparr>lost_callback := x_14\<rparr> = F (s\<lparr>lost_callback := x_14\<rparr>)"
      "(F s)\<lparr>reactive_callback := x_15\<rparr> = F (s\<lparr>reactive_callback := x_15\<rparr>)"
      "(F s)\<lparr>protocol_callback := x_16\<rparr> = F (s\<lparr>protocol_callback := x_16\<rparr>)"
      "(F s)\<lparr>last_point := x_17\<rparr> = F (s\<lparr>last_point := x_17\<rparr>)"
      "(F s)\<lparr>measure_sync := x_18\<rparr> = F (s\<lparr>measure_sync := x_18\<rparr>)"
      "(F s)\<lparr>passive_telegram := x_19\<rparr> = F (s\<lparr>passive_telegram := x_19\<rparr>)"
      "(F s)\<lparr>passive_master := x_20\<rparr> = F (s\<lparr>passive_master := x_20\<rparr>)"
      "(F s)\<lparr>passive_master_dbx := x_21\<rparr> = F (s\<lparr>passive_master_dbx := x_21\<rparr>)"
      "(F s)\<lparr>passive_master_repeated := x_22\<rparr> = F (s\<lparr>passive_master_repeated := x_22\<rparr>)"
      "(F s)\<lparr>passive_slave := x_23\<rparr> = F (s\<lparr>passive_slave := x_23\<rparr>)"
      "(F s)\<lparr>passive_slave_dbx := x_24\<rparr> = F (s\<lparr>passive_slave_dbx := x_24\<rparr>)"
      "(F s)\<lparr>passive_slave_index := x_25\<rparr> = F (s\<lparr>passive_slave_index := x_25\<rparr>)"
      "(F s)\<lparr>passive_slave_repeated := x_26\<rparr> = F (s\<lparr>passive_slave_repeated := x_26\<rparr>)"
      "(F s)\<lparr>active_message := x_27\<rparr> = F (s\<lparr>active_message := x_27\<rparr>)"
      "(F s)\<lparr>active_telegram := x_28\<rparr> = F (s\<lparr>active_telegram := x_28\<rparr>)"
      "(F s)\<lparr>active_master := x_29\<rparr> = F (s\<lparr>active_master := x_29\<rparr>)"
      "(F s)\<lparr>active_master_index := x_30\<rparr> = F (s\<lparr>active_master_index := x_30\<rparr>)"
      "(F s)\<lparr>active_master_repeated := x_31\<rparr> = F (s\<lparr>active_master_repeated := x_31\<rparr>)"
      "(F s)\<lparr>active_slave := x_32\<rparr> = F (s\<lparr>active_slave := x_32\<rparr>)"
      "(F s)\<lparr>active_slave_dbx := x_33\<rparr> = F (s\<lparr>active_slave_dbx := x_33\<rparr>)"
      "(F s)\<lparr>active_slave_repeated := x_34\<rparr> = F (s\<lparr>active_slave_repeated := x_34\<rparr>)"
      "(F s)\<lparr>h_state := x_35\<rparr> = F (s\<lparr>h_state := x_35\<rparr>)"
      "(F s)\<lparr>past_end := x_36\<rparr> = F (s\<lparr>past_end := x_36\<rparr>)"
    and frame_emit: "emit x (F s) = F (emit x s)"
    and frame_mon: "update_mon f (F s) = F (update_mon f s)" "update_mon_clk g (F s) = F (update_mon_clk g s)"
      "update_mon_wall h (F s) = F (update_mon_wall h s)"
begin

declare frame_field [simp] frame_update [frame_pull] frame_emit [frame_pull] frame_mon [frame_pull]

lemma frame_if [frame_pull]: "(if b then F s else F t) = F (if b then s else t)"
  by simp

lemma frame_calls [frame_pull]:
  "callWrite b (F s) = F (callWrite b s)"
  "callPassiveReset (F s) = F (callPassiveReset s)"
  "callActiveReset (F s) = F (callActiveReset s)"
  "callOnBusRequestWon (F s) = F (callOnBusRequestWon s)"
  "callOnBusRequestLost (F s) = F (callOnBusRequestLost s)"
  by (simp_all add: callWrite_def callPassiveReset_def callActiveReset_def
      callOnBusRequestWon_def callOnBusRequestLost_def frame_pull)

lemma frame_bumps [frame_pull]:
  "bump_invalid (F s) = F (bump_invalid s)"
  "bump_error_passive (F s) = F (bump_error_passive s)"
  "bump_error_reactive (F s) = F (bump_error_reactive s)"
  "bump_error_active (F s) = F (bump_error_active s)"
  "bump_messages_passive (F s) = F (bump_messages_passive s)"
  "bump_messages_reactive (F s) = F (bump_messages_reactive s)"
  "bump_messages_active (F s) = F (bump_messages_active s)"
  by (simp_all add: bump_invalid_def bump_error_passive_def bump_error_reactive_def
      bump_error_active_def bump_messages_passive_def bump_messages_reactive_def
      bump_messages_active_def logs frame_pull)

lemma frame_reports [frame_pull]:
  "callOnTelegram mt tt mv sv (F s) = F (callOnTelegram mt tt mv sv s)"
  "callOnError lv e st mv sv (F s) = F (callOnError lv e st mv sv s)"
  by (simp_all add: callOnTelegram_def callOnError_def logs frame_pull Let_def)

lemma frame_views [frame_pull]:
  "passive_error lv e st (F s) = F (passive_error lv e st s)"
  "active_error lv e st (F s) = F (active_error lv e st s)"
  "passive_report mt tt (F s) = F (passive_report mt tt s)"
  "active_report tt (F s) = F (active_report tt s)"
  by (simp_all add: passive_error_def active_error_def passive_report_def active_report_def frame_pull)

lemma frame_transitionTo [frame_pull]:
  "h_transitionTo next (F s) = F (h_transitionTo next s)"
  by (simp add: h_transitionTo_def logs frame_pull Let_def)

lemma frame_checks [frame_pull]:
  "checkPassiveBuffers (F s) = F (checkPassiveBuffers s)"
  "checkActiveBuffers (F s) = F (checkActiveBuffers s)"
  by (simp_all add: checkPassiveBuffers_def checkActiveBuffers_def logs frame_pull Let_def)

lemma frame_requestBus [frame_pull]:
  "snd (requestBus a e (F s)) = F (snd (requestBus a e s))"
  by (simp add: requestBus_def busAvailable_def logs frame_pull Let_def)

lemma frame_request_steps [frame_pull]:
  "finish_active (F s) = F (finish_active s)"
  "reject_slave (F s) = F (reject_slave s)"
  "request_won (F s) = F (request_won s)"
  "request_error (F s) = F (request_error s)"
  "request_lost b (F s) = F (request_lost b s)"
  by (simp_all add: finish_active_def reject_slave_def request_won_def request_error_def
     request_lost_def frame_pull Let_def)

lemma frame_callOnReactive [simp]: "callOnReactive mv sr (F s) = callOnReactive mv sr s"
  by (simp add: callOnReactive_def)

lemma frame_complete [frame_pull]:
  "passive_master_complete (F s) = F (passive_master_complete s)"
  "passive_slave_complete (F s) = F (passive_slave_complete s)"
  "active_slave_complete (F s) = F (active_slave_complete s)"
  by (simp_all add: passive_master_complete_def passive_slave_complete_def active_slave_complete_def
    frame_pull Let_def split_beta cong: if_cong split del: if_split)

lemma frame_store [frame_pull]:
  "store_passive_master b (F s) = F (store_passive_master b s)"
  "store_passive_slave b (F s) = F (store_passive_slave b s)"
  "store_active_slave b (F s) = F (store_active_slave b s)"
  by (simp_all add: store_passive_master_def store_passive_slave_def store_active_slave_def Let_def frame_pull)

lemma frame_passive [frame_pull]:
  "passiveReceiveMaster b (F s) = F (passiveReceiveMaster b s)"
  "passiveReceiveMasterAcknowledge b (F s) = F (passiveReceiveMasterAcknowledge b s)"
  "passiveReceiveSlave b (F s) = F (passiveReceiveSlave b s)"
  "passiveReceiveSlaveAcknowledge b (F s) = F (passiveReceiveSlaveAcknowledge b s)"
  by (simp_all add: passiveReceiveMaster_def passiveReceiveMasterAcknowledge_def
    passiveReceiveSlave_def passiveReceiveSlaveAcknowledge_def frame_pull Let_def)

lemma frame_reactive [frame_pull]:
  "reactiveSendMasterPositiveAcknowledge b (F s) = F (reactiveSendMasterPositiveAcknowledge b s)"
  "reactiveSendMasterNegativeAcknowledge b (F s) = F (reactiveSendMasterNegativeAcknowledge b s)"
  "reactiveSendSlave b (F s) = F (reactiveSendSlave b s)"
  "reactiveReceiveSlaveAcknowledge b (F s) = F (reactiveReceiveSlaveAcknowledge b s)"
  by (simp_all add: reactiveSendMasterPositiveAcknowledge_def reactiveSendMasterNegativeAcknowledge_def
    reactiveSendSlave_def reactiveReceiveSlaveAcknowledge_def frame_pull Let_def)

lemma frame_active [frame_pull]:
  "h_requestBus b (F s) = F (h_requestBus b s)"
  "activeSendMaster b (F s) = F (activeSendMaster b s)"
  "activeReceiveMasterAcknowledge b (F s) = F (activeReceiveMasterAcknowledge b s)"
  "activeReceiveSlave b (F s) = F (activeReceiveSlave b s)"
  "activeSendSlavePositiveAcknowledge b (F s) = F (activeSendSlavePositiveAcknowledge b s)"
  "activeSendSlaveNegativeAcknowledge b (F s) = F (activeSendSlaveNegativeAcknowledge b s)"
  "releaseBus b (F s) = F (releaseBus b s)"
  by (simp_all add: h_requestBus_def activeSendMaster_def activeReceiveMasterAcknowledge_def
    activeReceiveSlave_def activeSendSlavePositiveAcknowledge_def
    activeSendSlaveNegativeAcknowledge_def releaseBus_def frame_pull Let_def
    split: RequestResult.split)

lemma frame_state_handlers [frame_pull]: "state_handlers st b (F s) = F (state_handlers st b s)"
  by (cases st) (simp_all add: frame_pull)

lemma frame_timing [frame_pull]:
  "mark_ends b t (F s) = F (mark_ends b t s)"
  "mark_begins t (F s) = F (mark_begins t s)"
  by (simp_all add: mark_ends_def mark_begins_def frame_pull cong: if_cong)

lemma frame_flush [frame_pull]: "flush_write (F s) = F (flush_write s)"
  by (cases "pending_write s") (simp_all add: flush_write_def frame_pull)

lemma frame_run [frame_pull]: "handler_run info (F s) = F (handler_run info s)"
  by (simp add: handler_run_def record_timing_def logs frame_pull Let_def)

lemma frame_public [frame_pull]:
  "setSourceAddress a (F s) = F (setSourceAddress a s)"
  "handler_reset (F s) = F (handler_reset s)"
  "onBusRequested (F s) = F (onBusRequested s)"
  "onStartBit (F s) = F (onStartBit s)"
  "snd (sendActiveMessage m (F s)) = F (snd (sendActiveMessage m s))"
  "fst (sendActiveMessage m (F s)) = fst (sendActiveMessage m s)"
  by (simp_all add: setSourceAddress_def handler_reset_def onBusRequested_def onStartBit_def
    sendActiveMessage_def frame_pull Let_def)

end

interpretation telemetry: handler_frame forget
  by unfold_locales (simp_all add: forget_def emit_def monitor_ops mon_reads_def)

interpretation earlier: handler_frame "prepend out" for out
  by unfold_locales (simp_all add: prepend_def emit_def monitor_ops mon_reads_def now_def)

lemmas forget_public = telemetry.frame_public

lemma mon_forget [simp]: "mon (forget s) = None"
  by (simp add: forget_def)

lemma forget_idem [simp]: "forget (forget s) = forget s"
  by (simp add: forget_def)

lemma outputs_forget [simp]: "outputs (forget s) = outputs s" for s :: handler
  by (simp add: forget_def)

section \<open>Running without a monitor\<close>

lemma silent_update_mon [simp]:
  "mon s = None \<Longrightarrow> update_mon f s = s" "mon s = None \<Longrightarrow> update_mon_clk g s = s"
  "mon s = None \<Longrightarrow> update_mon_wall h s = s"
  by (simp_all add: monitor_ops mon_reads_def)

lemma silent_bumps [simp]:
  assumes "mon s = None"
  shows "bump_invalid s = s" "bump_error_passive s = s" "bump_error_reactive s = s"
    "bump_error_active s = s" "bump_messages_passive s = s" "bump_messages_reactive s = s"
    "bump_messages_active s = s"
  using assms by (simp_all add: bump_defs logs)

end
