(* ===== verification/Bus_Handler.thy ===== *)
theory Bus_Handler
  imports Handler_Telemetry
begin

text \<open>
  \<open>BusHandler::onBusEvent\<close> (\<open>src/ebus/core/bus_handler.cpp\<close>): one event of the physical
  layer drives the arbitration machine and then the protocol machine. The two callbacks
  of \<open>Request\<close> that the \<open>Handler\<close> constructor binds are \<open>onBusRequested\<close> and
  \<open>onStartBit\<close>. The value returned beside the state is the \<open>BusEventInfo\<close> handed to the
  client manager and the reactor.
\<close>

section \<open>Definitions\<close>

record BusEvent =
  ev_byte :: u8
  ev_bus_request :: bool
  ev_start_bit :: bool
  ev_timestamp :: int

definition request_completed :: "handler \<Rightarrow> handler" where
  "request_completed s =
     busRequestCompleted (Some onBusRequested)
       (if external_callback s then Some (emit ExternalRequested) else None) s"

definition start_bit :: "handler \<Rightarrow> handler" where
  "start_bit = startBit (Some onStartBit)"

definition onBusEvent :: "BusEvent \<Rightarrow> handler \<Rightarrow> BusEventInfo \<times> handler" where
  "onBusEvent ev s =
     (let s1 = (if ev_bus_request ev then request_completed s else s);
          s2 = (if ev_start_bit ev then start_bit s1 else s1);
          rs = rq_state s2;
          (res, s3) = request_run (ev_byte ev) s2;
          info = \<lparr>bi_byte = ev_byte ev, bi_handler_state = passive_receive_master,
                  bi_request_state = rs, bi_result = res, bi_lock_counter = lock_counter s3,
                  bi_timestamp = ev_timestamp ev\<rparr>;
          s4 = handler_run info s3
      in (info\<lparr>bi_handler_state := h_state s4\<rparr>, s4))"

definition bus_step :: "BusEvent \<Rightarrow> handler \<Rightarrow> handler" where
  "bus_step ev s = snd (onBusEvent ev s)"

definition feed :: "BusEvent list \<Rightarrow> handler \<Rightarrow> handler" where
  "feed evs s = fold bus_step evs s"

lemma feed_simps [simp]:
  "feed [] s = s" "feed (e # es) s = feed es (bus_step e s)"
  "feed (es @ fs) s = feed fs (feed es s)"
  by (simp_all add: feed_def)

section \<open>What the bus handler does not depend on\<close>

context handler_frame
begin

lemma frame_request_transition [frame_pull]:
  "rq_transitionTo st (F s) = F (rq_transitionTo st s)"
  by (simp add: rq_transitionTo_def logs frame_pull Let_def)

lemma frame_request_states [frame_pull]:
  "rq_observe b (F s) = F (rq_observe b s)"
  "rq_first b (F s) = F (rq_first b s)"
  "rq_retry b (F s) = F (rq_retry b s)"
  "rq_second b (F s) = F (rq_second b s)"
  by (simp_all add: rq_observe_def rq_first_def rq_retry_def rq_second_def updateRequest_def frame_pull)

lemma frame_request_run [frame_pull]:
  "request_run b (F s) = (fst (request_run b s), F (snd (request_run b s)))"
  by (cases "rq_state s") (simp_all add: request_run_def frame_pull Let_def)

lemma frame_completed [frame_pull]:
  "request_completed (F s) = F (request_completed s)"
  "start_bit (F s) = F (start_bit s)"
  by (simp_all add: request_completed_def busRequestCompleted_def start_bit_def startBit_def
      frame_pull Let_def)

lemma frame_bus_step: "bus_step ev (F s) = F (bus_step ev s)"
  by (simp add: bus_step_def onBusEvent_def frame_pull Let_def split_beta)

lemma frame_feed: "feed evs (F s) = F (feed evs s)"
  by (induction evs arbitrary: s) (simp_all add: frame_bus_step)

end

lemmas forget_bus_step = telemetry.frame_bus_step
lemmas forget_feed = telemetry.frame_feed

text \<open>What is reported before an event does not influence what is reported for it.\<close>

lemma bus_step_appends: "\<exists>xs. outputs (bus_step ev s) = outputs s @ xs"
proof -
  have "s = prepend (outputs s) (s\<lparr>outputs := []\<rparr>)" by (simp add: prepend_def)
  then have "bus_step ev s = prepend (outputs s) (bus_step ev (s\<lparr>outputs := []\<rparr>))"
    by (metis earlier.frame_bus_step)
  then show ?thesis by (simp add: prepend_def)
qed

section \<open>Properties\<close>

text \<open>
  C33: Telemetry is transparent: with or without a monitor attached, and whatever its clocks
  read, the handler writes the same bytes, fires the same callbacks and reaches the same
  protocol state; only the metrics differ.
\<close>

theorem telemetry_transparent:
  "forget (feed evs s) = forget (feed evs (s\<lparr>mon := m\<rparr>))"
proof -
  have "forget (s\<lparr>mon := m\<rparr>) = forget s" by (simp add: forget_def)
  then show ?thesis by (metis forget_feed)
qed

end
