(* ===== verification/Handler_Reception.thy ===== *)
theory Handler_Reception
  imports Bus_Handler
begin

text \<open>
  What the handler makes of a stream of bytes. The completion test of the receiving
  states counts the bytes that are not the escape symbol; on the wire form of a
  well-formed part that test succeeds at its last byte and not before. From this follow
  the reception of a master part, of a slave part, and of whole exchanges.
\<close>

section \<open>Steps of a handler without a monitor\<close>

definition tick :: "BusEventInfo \<Rightarrow> handler \<Rightarrow> handler" where
  "tick info s =
     s\<lparr>last_result := bi_result info, measure_sync := (bi_byte info = syn),
       last_point := bi_timestamp info, pending_write := None\<rparr>"

lemma silent_run:
  assumes "mon s = None"
  shows "handler_run info s = flush_write (state_handlers (h_state s) (bi_byte info) (tick info s))"
  using assms
  by (simp add: handler_run_def record_timing_def mark_ends_def mark_begins_def logs tick_def Let_def)

lemma silent_flush:
  assumes "mon s = None"
  shows "flush_write s =
    (case pending_write s of None \<Rightarrow> s | Some b \<Rightarrow> if has_bus s then emit (BusWrite b) s else s)"
  using assms by (simp add: flush_write_def emit_def split: option.split)

definition telegram_info ::
  "MessageType \<Rightarrow> TelegramType \<Rightarrow> HandlerState \<Rightarrow> RequestState \<Rightarrow> bytes \<Rightarrow> bytes \<Rightarrow> ProtocolInfo" where
  "telegram_info mt tt hs rs mv sv = ProtocolInfo_init
     \<lparr>is_error := False, pi_message_type := mt, pi_telegram_type := tt, pi_handler_state := hs,
      pi_request_state := rs, pi_master_view := mv, pi_slave_view := sv\<rparr>"

lemma silent_callOnTelegram:
  assumes "mon s = None"
  shows "callOnTelegram mt tt mv sv s =
    (if protocol_callback s then emit (Protocol (telegram_info mt tt (h_state s) (rq_state s) mv sv)) s else s)"
  using assms by (simp add: callOnTelegram_def telegram_info_def logs Let_def)

fun handler_successors :: "HandlerState \<Rightarrow> HandlerState list" where
  "handler_successors passive_receive_master =
     [passive_receive_master, request_bus, passive_receive_master_acknowledge,
      reactive_send_master_positive_acknowledge, reactive_send_master_negative_acknowledge, release_bus]"
| "handler_successors passive_receive_master_acknowledge =
     [passive_receive_master, request_bus, passive_receive_slave]"
| "handler_successors passive_receive_slave =
     [passive_receive_master, request_bus, passive_receive_slave_acknowledge]"
| "handler_successors passive_receive_slave_acknowledge =
     [passive_receive_master, request_bus, passive_receive_slave]"
| "handler_successors reactive_send_master_positive_acknowledge =
     [passive_receive_master, request_bus, reactive_send_slave]"
| "handler_successors reactive_send_master_negative_acknowledge = [passive_receive_master, request_bus]"
| "handler_successors reactive_send_slave =
     [passive_receive_master, request_bus, reactive_receive_slave_acknowledge]"
| "handler_successors reactive_receive_slave_acknowledge =
     [passive_receive_master, request_bus, reactive_send_slave]"
| "handler_successors request_bus =
     [passive_receive_master, request_bus, active_send_master, release_bus]"
| "handler_successors active_send_master =
     [passive_receive_master, request_bus, active_receive_master_acknowledge, release_bus]"
| "handler_successors active_receive_master_acknowledge =
     [passive_receive_master, request_bus, active_send_master, active_receive_slave, release_bus]"
| "handler_successors active_receive_slave =
     [passive_receive_master, request_bus, active_send_slave_positive_acknowledge,
      active_send_slave_negative_acknowledge]"
| "handler_successors active_send_slave_positive_acknowledge =
     [passive_receive_master, request_bus, release_bus]"
| "handler_successors active_send_slave_negative_acknowledge =
     [passive_receive_master, request_bus, active_receive_slave, release_bus]"
| "handler_successors release_bus = [passive_receive_master, request_bus]"

lemma handler_allowed_iff: "handler_allowed old new \<longleftrightarrow> new \<in> set (handler_successors old)"
  by (cases old; cases new)
    (simp_all add: handler_allowed_def handler_transition_masks_def handler_mask_def
      reset_trans_def arb_trans_def)

lemma silent_transitionTo:
  assumes "mon s = None" "next \<in> set (handler_successors (h_state s)) \<or> next = h_state s"
  shows "h_transitionTo next s = s\<lparr>h_state := next\<rparr>"
  using assms by (auto simp: h_transitionTo_def handler_allowed_iff logs Let_def)

lemma telegram_clear_init [simp]: "telegram_clear t = telegram_init"
  by (cases t) (simp add: telegram_clear_def telegram_init_def seq_clear_def seq_nil_def)

lemma seq_clear_nil [simp]: "seq_clear q = seq_nil"
  by (simp add: seq_clear_def seq_nil_def)

section \<open>The completion test on wire bytes\<close>

definition data_count :: "bytes \<Rightarrow> nat" where
  "data_count xs = length (filter (\<lambda>b. b \<noteq> ext) xs)"

definition ext_count :: "bytes \<Rightarrow> nat" where
  "ext_count xs = length (filter (\<lambda>b. b = ext) xs)"

lemma count_simps [simp]:
  "data_count [] = 0" "ext_count [] = 0"
  "data_count (b # xs) = (if b = ext then 0 else 1) + data_count xs"
  "ext_count (b # xs) = (if b = ext then 1 else 0) + ext_count xs"
  "data_count (xs @ ys) = data_count xs + data_count ys"
  "ext_count (xs @ ys) = ext_count xs + ext_count ys"
  by (simp_all add: data_count_def ext_count_def)

lemma count_length: "data_count xs + ext_count xs = length xs"
  by (induction xs) simp_all

lemma data_count_stuff: "data_count (stuff xs) = length xs"
proof (induction xs)
  case (Cons x xs)
  then show ?case using stuff_byte_cases [of x] by auto
qed simp

lemma last_stuff: "xs \<noteq> [] \<Longrightarrow> last (stuff xs) \<noteq> ext"
proof (induction xs rule: rev_induct)
  case (snoc x xs)
  then show ?case using stuff_byte_cases [of x] by auto
qed simp

lemma data_count_prefix:
  assumes "stuff ys = p @ q" "q \<noteq> []"
  shows "data_count p < length ys"
proof -
  have "ys \<noteq> []" using assms by auto
  then have "last q \<noteq> ext" using last_stuff [of ys] assms by simp
  then have "0 < data_count q"
    using assms(2) by (simp add: data_count_def filter_empty_conv) (metis last_in_set)
  then show ?thesis
    using data_count_stuff [of ys] assms(1) by simp
qed

lemma complete_iff: "stuff ys = p @ q \<Longrightarrow> q \<noteq> [] \<longleftrightarrow> data_count p < length ys"
  using data_count_prefix [of ys p q] data_count_stuff [of ys] by auto

section \<open>Receiving a master part\<close>

definition master_dbx :: "bytes \<Rightarrow> nat" where
  "master_dbx p = (if length p < 5 then 0 else unat (p ! 4) + ext_count (drop 5 p))"

lemma header_facts:
  assumes "master_part_ok m" "i < 5"
  shows "header_plausible i (m ! i)" "m ! i \<noteq> ext" "m ! i \<noteq> syn"
proof -
  have "i \<in> {0, 1, 2, 3, 4}" using assms(2) by auto
  moreover have "m ! 0 \<noteq> ext" "m ! 0 \<noteq> syn"
    using assms(1) isMaster_not_reserved by (auto simp: master_part_ok_def)
  moreover have "m ! 4 \<noteq> ext" "m ! 4 \<noteq> syn"
    using assms(1) by (auto simp: master_part_ok_def symbol_defs max_data_bytes_def)
  moreover note assms(1)
  ultimately show "header_plausible i (m ! i)" "m ! i \<noteq> ext" "m ! i \<noteq> syn"
    by (auto simp: master_part_ok_def header_plausible_def isTarget_def)
qed

lemma master_wire:
  assumes "master_part_ok m"
  shows "stuff (framed m) = take 5 m @ stuff (drop 5 (framed m))"
    and "length (drop 5 (framed m)) = unat (m ! 4) + 1" and "length (take 5 m) = 5"
proof -
  have len: "5 \<le> length m" "length m = 5 + unat (m ! 4)"
    using assms by (auto simp: master_part_ok_def)
  then show "length (drop 5 (framed m)) = unat (m ! 4) + 1" "length (take 5 m) = 5" by auto
  have "\<forall>b \<in> set (take 5 m). \<not> needsEscape b"
    using header_facts [OF assms] len by (auto simp: in_set_conv_nth needsEscape_def)
  then have "stuff (take 5 m) = take 5 m"
    by (intro stuff_no_escape) (simp add: filter_empty_conv)
  moreover have "framed m = take 5 m @ drop 5 (framed m)"
    using len by (simp add: framed_def)
  ultimately show "stuff (framed m) = take 5 m @ stuff (drop 5 (framed m))"
    by (metis stuff_simps(3))
qed

lemma master_prefix:
  assumes m: "master_part_ok m" and w: "stuff (framed m) = p @ b # q"
  shows "b \<noteq> syn" "header_plausible (length p) b"
    and "q \<noteq> [] \<longleftrightarrow> length (p @ [b]) < 6 + master_dbx (p @ [b])"
    and "master_dbx (p @ [b]) = (if length p = 4 then unat b else master_dbx p) + (if b = ext then 1 else 0)"
proof -
  define ys where "ys = drop 5 (framed m)"
  have wire: "p @ b # q = take 5 m @ stuff ys" and ys: "length ys = unat (m ! 4) + 1" and l5: "length (take 5 m) = 5"
    using master_wire [OF m] w by (simp_all add: ys_def)
  show "b \<noteq> syn" using stuff_no_syn [of "framed m"] w by auto
  have at: "(p @ b # q) ! i = m ! i" if "i < 5" for i
    using that l5 by (simp add: wire nth_append)
  show "header_plausible (length p) b"
  proof (cases "length p < 5")
    case True
    then have "b = m ! length p" using at [of "length p"] by simp
    then show ?thesis using header_facts [OF m True] by simp
  qed (auto simp: header_plausible_def)
  have pb: "p ! i = m ! i" if "i < 5" "i < length p" for i
    using at [OF that(1)] that(2) by (simp add: nth_append)
  have short: "b = m ! length p" "b \<noteq> ext" if "length p < 5"
    using at [OF that] header_facts [OF m that] by simp_all
  show "master_dbx (p @ [b]) = (if length p = 4 then unat b else master_dbx p) + (if b = ext then 1 else 0)"
    using short by (auto simp: master_dbx_def nth_append)
  show "q \<noteq> [] \<longleftrightarrow> length (p @ [b]) < 6 + master_dbx (p @ [b])"
  proof (cases "length p < 5")
    case True
    have "q \<noteq> []" using arg_cong [OF wire, of length] l5 True ys length_stuff [of ys] by auto
    with True show ?thesis by (auto simp: master_dbx_def)
  next
    case False
    define p2 where "p2 = drop 5 p @ [b]"
    have "take 5 p = take 5 m" and st: "stuff ys = p2 @ q"
      using False l5 arg_cong [OF wire, of "drop 5"] arg_cong [OF wire, of "take 5"]
      by (simp_all add: p2_def)
    then have dbx: "master_dbx (p @ [b]) = unat (m ! 4) + ext_count p2"
      using False pb [of 4] by (simp add: master_dbx_def p2_def nth_append)
    have len: "length (p @ [b]) = 5 + data_count p2 + ext_count p2"
      using False count_length [of p2] by (simp add: p2_def)
    show ?thesis
      using complete_iff [OF st] ys unfolding len dbx by simp
  qed
qed

section \<open>Receiving a slave part\<close>

definition slave_dbx :: "bytes \<Rightarrow> nat" where
  "slave_dbx p = (if p = [] then 0 else unat (p ! 0) + ext_count (drop 1 p))"

lemma slave_wire:
  assumes "slave_part_ok r"
  shows "stuff (framed r) = r ! 0 # stuff (drop 1 (framed r))"
    and "length (drop 1 (framed r)) = unat (r ! 0) + 1" and "r ! 0 \<noteq> ext"
proof -
  have r: "1 \<le> length r" "length r = 1 + unat (r ! 0)" "r ! 0 \<le> max_data_bytes"
    using assms by (auto simp: slave_part_ok_def)
  then show "length (drop 1 (framed r)) = unat (r ! 0) + 1" by simp
  show "r ! 0 \<noteq> ext" using r(3) by (auto simp: symbol_defs max_data_bytes_def)
  have "\<not> needsEscape (r ! 0)"
    using r(3) by (auto simp: needsEscape_def symbol_defs max_data_bytes_def)
  moreover obtain x xs where "r = x # xs" using r(1) by (cases r) auto
  ultimately show "stuff (framed r) = r ! 0 # stuff (drop 1 (framed r))"
    by (simp add: framed_def stuff_byte_def)
qed

lemma slave_prefix:
  assumes r: "slave_part_ok r" and w: "stuff (framed r) = p @ b # q"
  shows "p = [] \<Longrightarrow> b \<le> max_data_bytes"
    and "q \<noteq> [] \<longleftrightarrow> length (p @ [b]) < 2 + slave_dbx (p @ [b])"
    and "slave_dbx (p @ [b]) = (if p = [] then unat b else slave_dbx p) + (if b = ext then 1 else 0)"
proof -
  define ys where "ys = drop 1 (framed r)"
  have wire: "p @ b # q = r ! 0 # stuff ys" and ys: "length ys = unat (r ! 0) + 1" and x: "r ! 0 \<noteq> ext"
    using slave_wire [OF r] w by (simp_all add: ys_def)
  show "p = [] \<Longrightarrow> b \<le> max_data_bytes" using wire r by (auto simp: slave_part_ok_def)
  show "slave_dbx (p @ [b]) = (if p = [] then unat b else slave_dbx p) + (if b = ext then 1 else 0)"
    using wire x by (cases p) (auto simp: slave_dbx_def)
  have "\<exists>p2. p @ [b] = r ! 0 # p2 \<and> stuff ys = p2 @ q"
    using wire by (cases p) auto
  then obtain p2 where p2: "p @ [b] = r ! 0 # p2" and st: "stuff ys = p2 @ q" by blast
  show "q \<noteq> [] \<longleftrightarrow> length (p @ [b]) < 2 + slave_dbx (p @ [b])"
    using complete_iff [OF st] ys count_length [of p2] unfolding p2 by (auto simp: slave_dbx_def)
qed

section \<open>Bus events while no arbitration runs\<close>

definition plain :: "BusEvent \<Rightarrow> bool" where
  "plain ev \<longleftrightarrow> \<not> ev_bus_request ev \<and> \<not> ev_start_bit ev"

text \<open>The bookkeeping fields that every event overwrites.\<close>

definition step_fields ::
  "u8 \<Rightarrow> u32 \<Rightarrow> RequestResult \<Rightarrow> RequestResult \<Rightarrow> bool \<Rightarrow> int \<Rightarrow> u8 option \<Rightarrow> handler \<Rightarrow> handler" where
  "step_fields lc bs rr lr ms lp pw s =
     s\<lparr>lock_counter := lc, bytes_since_syn := bs, rq_result := rr, last_result := lr,
       measure_sync := ms, last_point := lp, pending_write := pw\<rparr>"

definition agree :: "handler \<Rightarrow> handler \<Rightarrow> bool" where
  "agree t s \<longleftrightarrow>
     step_fields (lock_counter s) (bytes_since_syn s) (rq_result s) (last_result s)
       (measure_sync s) (last_point s) (pending_write s) t = s"

lemma agree_refl [simp]: "agree s s"
  by (simp add: agree_def step_fields_def)

lemma agree_fields [simp]: "agree (step_fields lc bs rr lr ms lp pw s) s"
  by (simp add: agree_def step_fields_def)

lemma agreeE:
  assumes "agree t s"
  obtains lc bs rr lr ms lp pw where "t = step_fields lc bs rr lr ms lp pw s"
proof (rule that)
  have "step_fields (lock_counter t) (bytes_since_syn t) (rq_result t) (last_result t)
      (measure_sync t) (last_point t) (pending_write t) (step_fields a b c d e f g t) = t" for a b c d e f g
    by (simp add: step_fields_def)
  then show "t = step_fields (lock_counter t) (bytes_since_syn t) (rq_result t) (last_result t)
      (measure_sync t) (last_point t) (pending_write t) s"
    using assms unfolding agree_def by metis
qed

lemma agree_trans: "agree u t \<Longrightarrow> agree t s \<Longrightarrow> agree u s"
  by (elim agreeE) (simp add: agree_def step_fields_def)

text \<open>The state a state function sees when an event arrives outside an arbitration.\<close>

definition observed :: "BusEvent \<Rightarrow> handler \<Rightarrow> handler" where
  "observed ev s =
     (let s1 = rq_observe (ev_byte ev) s
      in step_fields (lock_counter s1) (bytes_since_syn s1) (rq_result s1) (rq_result s1)
           (ev_byte ev = syn) (ev_timestamp ev) None s)"

lemma tick_observe:
  assumes "bi_byte info = ev_byte ev" "bi_result info = rq_result (rq_observe (ev_byte ev) s)"
    "bi_timestamp info = ev_timestamp ev"
  shows "tick info (rq_observe (ev_byte ev) s) = observed ev s"
  using assms by (simp add: tick_def observed_def step_fields_def rq_observe_def Let_def)

lemma observe_step:
  assumes "mon s = None" "rq_state s = observe" "plain ev"
  shows "bus_step ev s = flush_write (state_handlers (h_state s) (ev_byte ev) (observed ev s))"
proof -
  have "mon (rq_observe b s) = None" "h_state (rq_observe b s) = h_state s" for b
    using assms(1) by (simp_all add: rq_observe_def)
  then show ?thesis
    using assms
    by (simp add: bus_step_def onBusEvent_def request_run_def silent_run plain_def tick_observe Let_def)
qed

lemma observed_simps [simp]:
  "mon (observed ev s) = mon s" "h_state (observed ev s) = h_state s"
  "rq_state (observed ev s) = rq_state s" "pending_write (observed ev s) = None"
  by (simp_all add: observed_def step_fields_def Let_def)

lemma observed_agree: "agree (observed ev s) s"
  by (simp add: observed_def Let_def)

text \<open>One byte of a well-formed part: it is buffered, and the last one completes the part.\<close>

lemma receive_master_byte:
  assumes m: "master_part_ok m" and w: "stuff (framed m) = p @ b # q"
    and u: "passive_master u = seq_of p e" "passive_master_dbx u = master_dbx p"
  shows "passiveReceiveMaster b u =
    (let u1 = u\<lparr>passive_master := seq_of (p @ [b]) True, passive_master_dbx := master_dbx (p @ [b])\<rparr>
     in if q = [] then passive_master_complete u1 else u1)"
proof -
  note pre = master_prefix [OF m w]
  have store: "store_passive_master b u
      = u\<lparr>passive_master := seq_of (p @ [b]) True, passive_master_dbx := master_dbx (p @ [b])\<rparr>"
    using u pre(4) by (simp add: store_passive_master_def seq_push_back_def seq_of_def seq_size_def
      seq_index_def Let_def nth_append)
  have "5 + master_dbx (p @ [b]) + 1 \<le> length (p @ [b]) \<longleftrightarrow> q = []"
    using pre(3) by auto
  then show ?thesis
    using pre(1,2) u(1) unfolding passiveReceiveMaster_def store Let_def
    by (simp add: seq_size_def)
qed

lemma receive_slave_byte:
  assumes r: "slave_part_ok r" and w: "stuff (framed r) = p @ b # q"
    and u: "passive_slave u = seq_of p e" "passive_slave_dbx u = slave_dbx p"
  shows "passiveReceiveSlave b u =
    (let u1 = u\<lparr>passive_slave := seq_of (p @ [b]) True, passive_slave_dbx := slave_dbx (p @ [b])\<rparr>
     in if q = [] then passive_slave_complete u1 else u1)"
proof -
  note pre = slave_prefix [OF r w]
  have store: "store_passive_slave b u
      = u\<lparr>passive_slave := seq_of (p @ [b]) True, passive_slave_dbx := slave_dbx (p @ [b])\<rparr>"
    using u pre(3) by (simp add: store_passive_slave_def seq_push_back_def seq_of_def seq_size_def Let_def)
  have "1 + slave_dbx (p @ [b]) + 1 \<le> length (p @ [b]) \<longleftrightarrow> q = []"
    using pre(2) by auto
  then show ?thesis
    using pre(1) u(1) unfolding passiveReceiveSlave_def store Let_def
    by (auto simp add: seq_size_def not_less)
qed

lemma receive_active_slave_byte:
  assumes r: "slave_part_ok r" and w: "stuff (framed r) = p @ b # q"
    and u: "active_slave u = seq_of p e" "active_slave_dbx u = slave_dbx p"
  shows "activeReceiveSlave b u =
    (let u1 = u\<lparr>active_slave := seq_of (p @ [b]) True, active_slave_dbx := slave_dbx (p @ [b])\<rparr>
     in if q = [] then active_slave_complete u1 else u1)"
proof -
  note pre = slave_prefix [OF r w]
  have store: "store_active_slave b u
      = u\<lparr>active_slave := seq_of (p @ [b]) True, active_slave_dbx := slave_dbx (p @ [b])\<rparr>"
    using u pre(3) by (simp add: store_active_slave_def seq_push_back_def seq_of_def seq_size_def Let_def)
  have "1 + slave_dbx (p @ [b]) + 1 \<le> length (p @ [b]) \<longleftrightarrow> q = []"
    using pre(2) by auto
  then show ?thesis
    using pre(1) u(1) unfolding activeReceiveSlave_def store Let_def
    by (auto simp add: seq_size_def not_less)
qed

section \<open>The receiver contract\<close>

text \<open>
  Three states receive a part byte by byte: two passive ones and one active one. They
  share a contract: each byte of the wire form of an acceptable part is put into a
  buffer, and the last one, and only the last one, starts the completing code. \<open>fill s p\<close>
  is the state with the bytes \<open>p\<close> in the buffer.
\<close>

lemma wire_split:
  assumes "stuff (framed x) = map ev_byte evs"
  obtains evs0 ev where "evs = evs0 @ [ev]" "stuff (framed x) = map ev_byte evs0 @ [ev_byte ev]"
proof (cases evs rule: rev_cases)
  case Nil
  then show ?thesis using assms by (simp add: framed_def stuff_byte_def split: if_splits)
qed (use assms that in simp)

locale receiver =
  fixes fill :: "handler \<Rightarrow> bytes \<Rightarrow> handler"
    and complete :: "handler \<Rightarrow> handler"
    and ok :: "bytes \<Rightarrow> bool"
    and ready :: "handler \<Rightarrow> bool"
  assumes fill_empty: "ready s \<Longrightarrow> fill s [] = s"
    and fill_step: "\<lbrakk>ready s; ok x; agree t (fill s p); plain ev; stuff (framed x) = p @ ev_byte ev # q\<rbrakk>
      \<Longrightarrow> bus_step ev t = (let u = fill (observed ev t) (p @ [ev_byte ev])
            in if q = [] then flush_write (complete u) else u)"
    and fill_agree: "agree t (fill s p) \<Longrightarrow> agree (fill (observed ev t) y) (fill s y)"
    and fill_pending: "pending_write (fill s p) = pending_write s"
begin

lemma feed_prefix:
  assumes "ready s" "ok x"
  shows "stuff (framed x) = map ev_byte evs @ q \<Longrightarrow> q \<noteq> [] \<Longrightarrow> \<forall>ev \<in> set evs. plain ev
    \<Longrightarrow> agree (feed evs s) (fill s (map ev_byte evs))"
proof (induction evs arbitrary: q rule: rev_induct)
  case (snoc ev evs)
  have a: "agree (feed evs s) (fill s (map ev_byte evs))"
    using snoc.IH [of "ev_byte ev # q"] snoc.prems by simp
  from fill_step [OF assms a, of ev q] fill_agree [OF a] snoc.prems show ?case by simp
qed (simp add: fill_empty assms)

lemma feed_part:
  assumes "ready s" "ok x" and evs: "map ev_byte evs = stuff (framed x)" "\<forall>ev \<in> set evs. plain ev"
  shows "\<exists>u. feed evs s = flush_write (complete u) \<and> agree u (fill s (stuff (framed x)))
    \<and> pending_write u = None"
proof -
  obtain evs0 ev where e: "evs = evs0 @ [ev]" "stuff (framed x) = map ev_byte evs0 @ [ev_byte ev]"
    using wire_split evs(1) by metis
  have a: "agree (feed evs0 s) (fill s (map ev_byte evs0))"
    using feed_prefix [OF assms(1,2) e(2)] evs(2) e(1) by simp
  let ?u = "fill (observed ev (feed evs0 s)) (stuff (framed x))"
  have "feed evs s = flush_write (complete ?u)"
    using fill_step [OF assms(1,2) a, of ev "[]"] e evs(2) by simp
  moreover have "pending_write ?u = None" by (simp add: fill_pending)
  ultimately show ?thesis using fill_agree [OF a] by blast
qed

end

definition fill_master :: "handler \<Rightarrow> bytes \<Rightarrow> handler" where
  "fill_master s p = s\<lparr>passive_master := seq_of p (p \<noteq> []), passive_master_dbx := master_dbx p\<rparr>"

definition fill_slave :: "handler \<Rightarrow> bytes \<Rightarrow> handler" where
  "fill_slave s p = s\<lparr>passive_slave := seq_of p (p \<noteq> []), passive_slave_dbx := slave_dbx p\<rparr>"

definition fill_active :: "handler \<Rightarrow> bytes \<Rightarrow> handler" where
  "fill_active s p = s\<lparr>active_slave := seq_of p (p \<noteq> []), active_slave_dbx := slave_dbx p\<rparr>"

lemmas event_simps =
  observe_step observed_def step_fields_def silent_flush Let_def

lemma fill_master_step:
  assumes s: "mon s = None" "rq_state s = observe" "h_state s = passive_receive_master"
    and m: "master_part_ok m" and t: "agree t (fill_master s p)" and ev: "plain ev"
    and w: "stuff (framed m) = p @ ev_byte ev # q"
  shows "bus_step ev t = (let u = fill_master (observed ev t) (p @ [ev_byte ev])
      in if q = [] then flush_write (passive_master_complete u) else u)"
  using t
proof (rule agreeE)
  fix lc bs rr lr ms lp pw assume t: "t = step_fields lc bs rr lr ms lp pw (fill_master s p)"
  show ?thesis
    using receive_master_byte [OF m w, of "observed ev t"] s ev
    by (simp add: t fill_master_def event_simps)
qed

lemma fill_slave_step:
  assumes s: "mon s = None" "rq_state s = observe" "h_state s = passive_receive_slave"
    and m: "slave_part_ok r" and t: "agree t (fill_slave s p)" and ev: "plain ev"
    and w: "stuff (framed r) = p @ ev_byte ev # q"
  shows "bus_step ev t = (let u = fill_slave (observed ev t) (p @ [ev_byte ev])
      in if q = [] then flush_write (passive_slave_complete u) else u)"
  using t
proof (rule agreeE)
  fix lc bs rr lr ms lp pw assume t: "t = step_fields lc bs rr lr ms lp pw (fill_slave s p)"
  show ?thesis
    using receive_slave_byte [OF m w, of "observed ev t"] s ev
    by (simp add: t fill_slave_def event_simps)
qed

lemma fill_active_step:
  assumes s: "mon s = None" "rq_state s = observe" "h_state s = active_receive_slave"
    and m: "slave_part_ok r" and t: "agree t (fill_active s p)" and ev: "plain ev"
    and w: "stuff (framed r) = p @ ev_byte ev # q"
  shows "bus_step ev t = (let u = fill_active (observed ev t) (p @ [ev_byte ev])
      in if q = [] then flush_write (active_slave_complete u) else u)"
  using t
proof (rule agreeE)
  fix lc bs rr lr ms lp pw assume t: "t = step_fields lc bs rr lr ms lp pw (fill_active s p)"
  show ?thesis
    using receive_active_slave_byte [OF m w, of "observed ev t"] s ev
    by (simp add: t fill_active_def event_simps)
qed

lemma agree_fill:
  "agree t (fill_master s p) \<Longrightarrow> agree (fill_master (observed ev t) x) (fill_master s x)"
  "agree t (fill_slave s p) \<Longrightarrow> agree (fill_slave (observed ev t) x) (fill_slave s x)"
  "agree t (fill_active s p) \<Longrightarrow> agree (fill_active (observed ev t) x) (fill_active s x)"
  by (erule agreeE, simp add: agree_def fill_master_def fill_slave_def fill_active_def event_simps)+

definition ready_master :: "handler \<Rightarrow> bool" where
  "ready_master s \<longleftrightarrow> mon s = None \<and> rq_state s = observe \<and> h_state s = passive_receive_master
     \<and> passive_master s = seq_nil \<and> passive_master_dbx s = 0"

definition ready_slave :: "handler \<Rightarrow> bool" where
  "ready_slave s \<longleftrightarrow> mon s = None \<and> rq_state s = observe \<and> h_state s = passive_receive_slave
     \<and> passive_slave s = seq_nil \<and> passive_slave_dbx s = 0"

definition ready_active :: "handler \<Rightarrow> bool" where
  "ready_active s \<longleftrightarrow> mon s = None \<and> rq_state s = observe \<and> h_state s = active_receive_slave
     \<and> active_slave s = seq_nil \<and> active_slave_dbx s = 0"

interpretation master_rx: receiver fill_master passive_master_complete master_part_ok ready_master
proof (unfold_locales, goal_cases)
  case 1
  then show ?case by (simp add: ready_master_def fill_master_def master_dbx_def seq_of_def seq_nil_def)
next
  case 2
  then show ?case unfolding ready_master_def by (elim conjE) (rule fill_master_step)
qed (simp_all add: agree_fill, simp_all add: fill_master_def)

interpretation slave_rx: receiver fill_slave passive_slave_complete slave_part_ok ready_slave
proof (unfold_locales, goal_cases)
  case 1
  then show ?case by (simp add: ready_slave_def fill_slave_def slave_dbx_def seq_of_def seq_nil_def)
next
  case 2
  then show ?case unfolding ready_slave_def by (elim conjE) (rule fill_slave_step)
qed (simp_all add: agree_fill, simp_all add: fill_slave_def)

interpretation active_rx: receiver fill_active active_slave_complete slave_part_ok ready_active
proof (unfold_locales, goal_cases)
  case 1
  then show ?case by (simp add: ready_active_def fill_active_def slave_dbx_def seq_of_def seq_nil_def)
next
  case 2
  then show ?case unfolding ready_active_def by (elim conjE) (rule fill_active_step)
qed (simp_all add: agree_fill, simp_all add: fill_active_def)

section \<open>What completion does\<close>

lemma stuff_eq_Nil [simp]: "stuff xs = [] \<longleftrightarrow> xs = []"
  using length_stuff [of xs] by (auto dest: arg_cong [of _ _ length])

lemma fill_logical [simp]:
  "seq_logical (passive_master (fill_master s (stuff xs))) = xs"
  "seq_logical (passive_slave (fill_slave s (stuff xs))) = xs"
  "seq_logical (active_slave (fill_active s (stuff xs))) = xs"
  by (auto simp: fill_master_def fill_slave_def fill_active_def seq_logical_def unstuff_stuff)

text \<open>The outcomes for a well-formed master part.\<close>

lemma complete_master:
  assumes m: "master_part_ok m" and u: "seq_logical (passive_master u) = framed m" "mon u = None"
    "h_state u = passive_receive_master"
  defines "u1 \<equiv> u\<lparr>passive_telegram := master_accepted m (passive_telegram u),
      passive_master := seq_of (framed m) False\<rparr>"
  shows "typeOf (m ! 1) = broadcast \<Longrightarrow>
      passive_master_complete u = callPassiveReset (passive_report message_passive broadcast u1)"
    and "typeOf (m ! 1) \<noteq> broadcast \<Longrightarrow> m ! 1 = source_address u \<Longrightarrow>
      passive_master_complete u = (callWrite ack u1)\<lparr>h_state := reactive_send_master_positive_acknowledge\<rparr>"
    and "typeOf (m ! 1) \<noteq> broadcast \<Longrightarrow> m ! 1 \<noteq> source_address u \<Longrightarrow> m ! 1 \<noteq> target_address u \<Longrightarrow>
      passive_master_complete u = u1\<lparr>h_state := passive_receive_master_acknowledge\<rparr>"
proof -
  have create: "createMaster (passive_master u) (passive_telegram u)
      = (master_accepted m (passive_telegram u), seq_of (framed m) False)"
    by (rule createMaster_framed [OF m u(1)])
  have zz: "seq_index f (seq_of (framed m) False) (Suc 0) = m ! 1" for f
    using m by (simp add: seq_index_def seq_size_def framed_def nth_append master_part_ok_def)
  note simps = passive_master_complete_def create zz u1_def u silent_transitionTo callWrite_def Let_def
  show "typeOf (m ! 1) = broadcast \<Longrightarrow>
      passive_master_complete u = callPassiveReset (passive_report message_passive broadcast u1)"
    using u by (simp add: simps passive_report_def silent_callOnTelegram emit_def)
  show "typeOf (m ! 1) \<noteq> broadcast \<Longrightarrow> m ! 1 = source_address u \<Longrightarrow>
      passive_master_complete u = (callWrite ack u1)\<lparr>h_state := reactive_send_master_positive_acknowledge\<rparr>"
    by (simp add: simps)
  show "typeOf (m ! 1) \<noteq> broadcast \<Longrightarrow> m ! 1 \<noteq> source_address u \<Longrightarrow> m ! 1 \<noteq> target_address u \<Longrightarrow>
      passive_master_complete u = u1\<lparr>h_state := passive_receive_master_acknowledge\<rparr>"
    by (simp add: simps)
qed

lemma complete_slave:
  assumes r: "slave_part_ok r" and u: "seq_logical (passive_slave u) = framed r" "mon u = None"
    "h_state u = passive_receive_slave"
  shows "passive_slave_complete u =
    u\<lparr>passive_telegram := slave_accepted r (passive_telegram u), passive_slave := seq_of (framed r) False,
      h_state := passive_receive_slave_acknowledge\<rparr>"
  using createSlave_framed [OF r u(1)] u
  by (simp add: passive_slave_complete_def silent_transitionTo Let_def)

lemma complete_active:
  assumes r: "slave_part_ok r" and u: "seq_logical (active_slave u) = framed r" "mon u = None"
    "h_state u = active_receive_slave"
  shows "active_slave_complete u =
    (callWrite ack (u\<lparr>active_telegram := slave_accepted r (active_telegram u),
      active_slave := seq_of (framed r) False\<rparr>))\<lparr>h_state := active_send_slave_positive_acknowledge\<rparr>"
  using createSlave_framed [OF r u(1)] u
  by (simp add: active_slave_complete_def silent_transitionTo callWrite_def Let_def)

end
