(* ===== verification/Exchanges.thy ===== *)
theory Exchanges
  imports Handler_Reception
begin

text \<open>
  Whole exchanges as a handler sees them on the bus: between two other participants, as
  the addressed participant, and as the one that won the arbitration. Each theorem feeds
  the bytes the protocol prescribes, as bus events through \<open>BusHandler::onBusEvent\<close>, and
  states what the handler wrote, what it reported and in which state it is left.
\<close>

section \<open>Observing an exchange between others\<close>

definition idle :: "handler \<Rightarrow> bool" where
  "idle s \<longleftrightarrow> rq_state s = observe \<and> h_state s = passive_receive_master \<and>
     passive_telegram s = telegram_init \<and> passive_master s = seq_nil \<and> passive_master_dbx s = 0 \<and>
     \<not> passive_master_repeated s \<and> passive_slave s = seq_nil \<and> passive_slave_dbx s = 0 \<and>
     passive_slave_index s = 0 \<and> \<not> passive_slave_repeated s"

lemma idle_reset:
  assumes "idle s"
  shows "callPassiveReset (s\<lparr>passive_telegram := t, passive_master := pm, passive_master_dbx := md,
      passive_slave := ps, passive_slave_dbx := sd\<rparr>) = s"
  using assms by (simp add: idle_def callPassiveReset_def)

definition exchange_wire :: "bytes \<Rightarrow> bytes \<Rightarrow> bytes" where
  "exchange_wire m r =
     (case typeOf (m ! 1) of
        broadcast \<Rightarrow> stuff (framed m)
      | master_master \<Rightarrow> stuff (framed m) @ [ack]
      | _ \<Rightarrow> stuff (framed m) @ [ack] @ stuff (framed r) @ [ack])"

definition observed_report :: "bytes \<Rightarrow> bytes \<Rightarrow> handler_output" where
  "observed_report m r = Protocol
     (case typeOf (m ! 1) of
        broadcast \<Rightarrow> telegram_info message_passive broadcast passive_receive_master observe m []
      | master_master \<Rightarrow>
          telegram_info message_passive master_master passive_receive_master_acknowledge observe m []
      | _ \<Rightarrow> telegram_info message_passive master_slave passive_receive_slave_acknowledge observe m r)"

lemma idle_ready: "idle s \<Longrightarrow> mon s = None \<Longrightarrow> ready_master s"
  by (simp add: idle_def ready_master_def)

lemma observe_broadcast:
  assumes s: "idle s" "mon s = None" and m: "master_part_ok m" "typeOf (m ! 1) = broadcast"
    and evs: "map ev_byte evs = stuff (framed m)" "\<forall>ev \<in> set evs. plain ev"
  shows "agree (feed evs s)
    (s\<lparr>outputs := outputs s @ (if protocol_callback s then [observed_report m r] else [])\<rparr>)"
proof -
  obtain u where u: "feed evs s = flush_write (passive_master_complete u)"
      "agree u (fill_master s (stuff (framed m)))" "pending_write u = None"
    using master_rx.feed_part [OF idle_ready [OF s] m(1) evs] by blast
  from u(2) obtain lc bs rr lr ms lp pw
    where v: "u = step_fields lc bs rr lr ms lp pw (fill_master s (stuff (framed m)))" by (rule agreeE)
  have "seq_logical (passive_master u) = framed m" "mon u = None" "h_state u = passive_receive_master"
    using s fill_logical(1) [of s "framed m"] by (simp_all add: v step_fields_def fill_master_def idle_def)
  note c = complete_master(1) [OF m(1) this m(2)]
  show ?thesis
    using s u(3) m(2) unfolding u(1) c
    by (simp add: v step_fields_def fill_master_def passive_report_def silent_callOnTelegram emit_def
      callPassiveReset_def silent_flush agree_def idle_def observed_report_def telegram_init_def [symmetric])
       (simp add: telegram_init_def)
qed

text \<open>After the master part, the observer waits for the acknowledgement.\<close>

definition master_seen :: "bytes \<Rightarrow> handler \<Rightarrow> handler" where
  "master_seen m s =
     s\<lparr>passive_telegram := master_accepted m telegram_init, passive_master := seq_of (framed m) False,
       passive_master_dbx := master_dbx (stuff (framed m)),
       h_state := passive_receive_master_acknowledge\<rparr>"

lemma observe_master:
  assumes s: "ready_master s" "passive_telegram s = telegram_init" and m: "master_part_ok m" "typeOf (m ! 1) \<noteq> broadcast"
      "m ! 1 \<noteq> source_address s" "m ! 1 \<noteq> target_address s"
    and evs: "map ev_byte evs = stuff (framed m)" "\<forall>ev \<in> set evs. plain ev"
  shows "agree (feed evs s) (master_seen m s)"
proof -
  obtain u where u: "feed evs s = flush_write (passive_master_complete u)"
      "agree u (fill_master s (stuff (framed m)))" "pending_write u = None"
    using master_rx.feed_part [OF s(1) m(1) evs] by blast
  from u(2) obtain lc bs rr lr ms lp pw
    where v: "u = step_fields lc bs rr lr ms lp pw (fill_master s (stuff (framed m)))" by (rule agreeE)
  have "seq_logical (passive_master u) = framed m" "mon u = None" "h_state u = passive_receive_master"
    using s fill_logical(1) [of s "framed m"] by (simp_all add: v step_fields_def fill_master_def ready_master_def)
  moreover have "m ! 1 \<noteq> source_address u" "m ! 1 \<noteq> target_address u"
    using m by (simp_all add: v step_fields_def fill_master_def)
  ultimately have c: "passive_master_complete u =
      u\<lparr>passive_telegram := master_accepted m (passive_telegram u),
        passive_master := seq_of (framed m) False, h_state := passive_receive_master_acknowledge\<rparr>"
    using complete_master(3) [OF m(1) _ _ _ m(2)] by simp
  show ?thesis
    using s u(3) unfolding u(1) c
    by (simp add: v step_fields_def fill_master_def silent_flush agree_def ready_master_def master_seen_def)
qed

lemma observe_master_ack:
  assumes s: "idle s" "mon s = None" and m: "typeOf (m ! 1) = master_master"
    and t: "agree t (master_seen m s)" and ev: "plain ev" "ev_byte ev = ack"
  shows "agree (bus_step ev t)
    (s\<lparr>outputs := outputs s @ (if protocol_callback s then [observed_report m r] else [])\<rparr>)"
  using t
proof (rule agreeE)
  fix lc bs rr lr ms lp pw assume v: "t = step_fields lc bs rr lr ms lp pw (master_seen m s)"
  show ?thesis
    using s m ev
    by (simp add: v master_seen_def event_simps passiveReceiveMasterAcknowledge_def passive_report_def
      silent_callOnTelegram emit_def callPassiveReset_def silent_transitionTo agree_def idle_def
      observed_report_def) (simp add: telegram_init_def)
qed

definition slave_awaited :: "bytes \<Rightarrow> handler \<Rightarrow> handler" where
  "slave_awaited m s = (master_seen m s)\<lparr>h_state := passive_receive_slave\<rparr>"

lemma observe_slave_awaited:
  assumes s: "idle s" "mon s = None" and m: "typeOf (m ! 1) = master_slave"
    and t: "agree t (master_seen m s)" and ev: "plain ev" "ev_byte ev = ack"
  shows "agree (bus_step ev t) (slave_awaited m s)"
  using t
proof (rule agreeE)
  fix lc bs rr lr ms lp pw assume v: "t = step_fields lc bs rr lr ms lp pw (master_seen m s)"
  show ?thesis
    using s m ev
    by (simp add: v master_seen_def slave_awaited_def event_simps passiveReceiveMasterAcknowledge_def
      silent_transitionTo agree_def idle_def)
qed

definition slave_seen :: "bytes \<Rightarrow> bytes \<Rightarrow> handler \<Rightarrow> handler" where
  "slave_seen m r s = (master_seen m s)
     \<lparr>passive_telegram := slave_accepted r (master_accepted m telegram_init),
      passive_slave := seq_of (framed r) False, passive_slave_dbx := slave_dbx (stuff (framed r)),
      h_state := passive_receive_slave_acknowledge\<rparr>"

lemma observe_slave:
  assumes s: "idle s" "mon s = None" and r: "slave_part_ok r" and t: "agree t (slave_awaited m s)"
    and evs: "map ev_byte evs = stuff (framed r)" "\<forall>ev \<in> set evs. plain ev"
  shows "agree (feed evs t) (slave_seen m r s)"
proof -
  from t obtain lc bs rr lr ms lp pw
    where v: "t = step_fields lc bs rr lr ms lp pw (slave_awaited m s)" by (rule agreeE)
  have "ready_slave t"
    using s by (simp add: v step_fields_def slave_awaited_def master_seen_def ready_slave_def idle_def)
  then obtain u where u: "feed evs t = flush_write (passive_slave_complete u)"
      "agree u (fill_slave t (stuff (framed r)))" "pending_write u = None"
    using slave_rx.feed_part [OF _ r evs] by blast
  from u(2) obtain lc' bs' rr' lr' ms' lp' pw'
    where w: "u = step_fields lc' bs' rr' lr' ms' lp' pw' (fill_slave t (stuff (framed r)))" by (rule agreeE)
  have "seq_logical (passive_slave u) = framed r" "mon u = None" "h_state u = passive_receive_slave"
    using s fill_logical(2) [of t "framed r"]
    by (simp_all add: w v step_fields_def fill_slave_def slave_awaited_def master_seen_def idle_def)
  note c = complete_slave [OF r this]
  show ?thesis
    using s u(3) unfolding u(1) c
    by (simp add: w v step_fields_def fill_slave_def slave_awaited_def master_seen_def silent_flush
      agree_def idle_def slave_seen_def)
qed

lemma observe_slave_ack:
  assumes s: "idle s" "mon s = None" and m: "typeOf (m ! 1) = master_slave"
    and t: "agree t (slave_seen m r s)" and ev: "plain ev" "ev_byte ev = ack"
  shows "agree (bus_step ev t)
    (s\<lparr>outputs := outputs s @ (if protocol_callback s then [observed_report m r] else [])\<rparr>)"
  using t
proof (rule agreeE)
  fix lc bs rr lr ms lp pw assume v: "t = step_fields lc bs rr lr ms lp pw (slave_seen m r s)"
  show ?thesis
    using s m ev
    by (simp add: v master_seen_def slave_seen_def event_simps passiveReceiveSlaveAcknowledge_def
      passive_report_def silent_callOnTelegram emit_def callPassiveReset_def silent_transitionTo
      agree_def idle_def observed_report_def)
qed

lemma map_splitE:
  assumes "map f xs = ys @ b # zs"
  obtains us a vs where "xs = us @ a # vs" "map f us = ys" "f a = b" "map f vs = zs"
  using assms by (auto simp: map_eq_append_conv)

lemma exchange_observed:
  assumes s: "idle s" "mon s = None" and m: "master_part_ok m" "slave_part_ok r"
      "m ! 1 \<noteq> source_address s" "m ! 1 \<noteq> target_address s"
    and evs: "map ev_byte evs = exchange_wire m r" "\<forall>ev \<in> set evs. plain ev"
  shows "agree (feed evs s)
    (s\<lparr>outputs := outputs s @ (if protocol_callback s then [observed_report m r] else [])\<rparr>)"
proof -
  consider (b) "typeOf (m ! 1) = broadcast" | (mm) "typeOf (m ! 1) = master_master"
    | (ms) "typeOf (m ! 1) = master_slave"
    using typeOf_cases by blast
  then show ?thesis
  proof cases
    case b
    then show ?thesis using observe_broadcast [OF s m(1)] evs by (simp add: exchange_wire_def)
  next
    case mm
    then have "map ev_byte evs = stuff (framed m) @ [ack]" using evs by (simp add: exchange_wire_def)
    then obtain e1 a where e: "evs = e1 @ [a]" "map ev_byte e1 = stuff (framed m)" "ev_byte a = ack"
      by (auto simp: map_eq_append_conv)
    have "agree (feed e1 s) (master_seen m s)"
      using observe_master [OF idle_ready [OF s] _ m(1) _ m(3,4) e(2)] s(1) mm evs(2) e(1) by (simp add: idle_def)
    then show ?thesis using observe_master_ack [OF s mm] evs(2) e by simp
  next
    case ms
    then have "map ev_byte evs = stuff (framed m) @ [ack] @ stuff (framed r) @ [ack]"
      using evs by (simp add: exchange_wire_def)
    then have "map ev_byte evs = stuff (framed m) @ ack # stuff (framed r) @ [ack]" by simp
    then obtain e1 a es where e1: "evs = e1 @ a # es" "map ev_byte e1 = stuff (framed m)"
        "ev_byte a = ack" "map ev_byte es = stuff (framed r) @ [ack]"
      by (rule map_splitE)
    from e1(4) obtain e2 c cs where "es = e2 @ c # cs" "map ev_byte e2 = stuff (framed r)"
        "ev_byte c = ack" "map ev_byte cs = []"
      by (rule map_splitE)
    with e1 have e: "evs = e1 @ a # e2 @ [c]" "map ev_byte e1 = stuff (framed m)"
        "ev_byte a = ack" "map ev_byte e2 = stuff (framed r)" "ev_byte c = ack" by auto
    have "agree (feed e1 s) (master_seen m s)"
      using observe_master [OF idle_ready [OF s] _ m(1) _ m(3,4) e(2)] s(1) ms evs(2) e(1) by (simp add: idle_def)
    then have "agree (bus_step a (feed e1 s)) (slave_awaited m s)"
      using observe_slave_awaited [OF s ms] evs(2) e by simp
    then have "agree (feed e2 (bus_step a (feed e1 s))) (slave_seen m r s)"
      using observe_slave [OF s m(2)] evs(2) e by simp
    then show ?thesis using observe_slave_ack [OF s ms] evs(2) e by simp
  qed
qed

text \<open>Any number of exchanges between others, each followed by a SYN.\<close>

definition listening :: "handler \<Rightarrow> bool" where
  "listening s \<longleftrightarrow> idle s \<and> \<not> active_message s \<and> sq_bytes (active_master s) = [] \<and> sq_bytes (active_slave s) = []"

lemma agree_listening:
  assumes "agree t (s\<lparr>outputs := out\<rparr>)" "listening s" "mon s = None"
  shows "listening t" "mon t = None" "outputs t = out" "source_address t = source_address s"
    "target_address t = target_address s" "protocol_callback t = protocol_callback s"
  using assms by (auto elim!: agreeE simp: listening_def idle_def step_fields_def)

lemma listening_syn:
  assumes "listening s" "mon s = None" "plain ev" "ev_byte ev = syn"
  shows "agree (bus_step ev s) s"
  using assms
  by (simp add: event_simps listening_def idle_def agree_def passiveReceiveMaster_def
    checkPassiveBuffers_def checkActiveBuffers_def seq_size_def)

definition traffic :: "(bytes \<times> bytes) list \<Rightarrow> bytes" where
  "traffic xs = concat (map (\<lambda>(m, r). exchange_wire m r @ [syn]) xs)"

definition foreign :: "handler \<Rightarrow> bytes \<times> bytes \<Rightarrow> bool" where
  "foreign s x \<longleftrightarrow> master_part_ok (fst x) \<and> slave_part_ok (snd x) \<and>
     fst x ! 1 \<noteq> source_address s \<and> fst x ! 1 \<noteq> target_address s"

lemma traffic_observed:
  "\<lbrakk>listening s; mon s = None; \<forall>x \<in> set xs. foreign s x; map ev_byte evs = traffic xs;
    \<forall>ev \<in> set evs. plain ev\<rbrakk>
   \<Longrightarrow> listening (feed evs s) \<and> outputs (feed evs s) =
      outputs s @ (if protocol_callback s then map (\<lambda>(m, r). observed_report m r) xs else [])"
proof (induction xs arbitrary: evs s)
  case Nil
  then show ?case by (simp add: traffic_def)
next
  case (Cons x xs)
  obtain m r where x: "x = (m, r)" by (cases x)
  have "map ev_byte evs = exchange_wire m r @ syn # traffic xs"
    using Cons.prems(4) by (simp add: traffic_def x)
  then obtain e1 a e2 where e: "evs = e1 @ a # e2" "map ev_byte e1 = exchange_wire m r"
      "ev_byte a = syn" "map ev_byte e2 = traffic xs"
    by (rule map_splitE)
  let ?out = "outputs s @ (if protocol_callback s then [observed_report m r] else [])"
  define t where "t = feed e1 s"
  have "agree t (s\<lparr>outputs := ?out\<rparr>)"
    unfolding t_def using Cons.prems e x
    by (intro exchange_observed) (auto simp: listening_def foreign_def)
  note t = agree_listening [OF this Cons.prems(1,2)]
  have "agree (bus_step a t) t"
    using listening_syn t(1,2) Cons.prems(5) e by simp
  then have "agree (bus_step a t) (t\<lparr>outputs := outputs t\<rparr>)" by simp
  note u = agree_listening [OF this t(1,2)]
  have "\<forall>x \<in> set xs. foreign (bus_step a t) x"
    using Cons.prems(3) t u by (simp add: foreign_def)
  from Cons.IH [OF u(1,2) this e(4)] show ?case
    using Cons.prems(5) t u e by (simp add: x t_def)
qed

section \<open>Where the observer goes wrong\<close>

text \<open>A SYN does not end the wait for a slave part: the buffers are cleared, the state stays.\<close>

lemma slave_wait_syn:
  assumes s: "idle s" "mon s = None" and t: "agree t (slave_awaited m s)" and ev: "plain ev" "ev_byte ev = syn"
  shows "agree (bus_step ev t) (s\<lparr>h_state := passive_receive_slave\<rparr>)"
  using t
proof (rule agreeE)
  fix lc bs rr lr ms lp pw assume v: "t = step_fields lc bs rr lr ms lp pw (slave_awaited m s)"
  have "syn > max_data_bytes" by (simp add: symbol_defs max_data_bytes_def)
  then show ?thesis
    using s ev
    by (simp add: v slave_awaited_def master_seen_def event_simps passiveReceiveSlave_def seq_size_def
      callPassiveReset_def agree_def idle_def)
qed

definition orphan_report :: "bytes \<Rightarrow> handler_output" where
  "orphan_report r = Protocol
     (telegram_info message_passive master_slave passive_receive_slave_acknowledge observe [] r)"

lemma orphan_slave:
  assumes s: "idle s" "mon s = None" and r: "slave_part_ok r"
    and t: "agree t (s\<lparr>h_state := passive_receive_slave\<rparr>)"
    and evs: "map ev_byte evs = stuff (framed r)" "\<forall>ev \<in> set evs. plain ev" and ev: "plain ev" "ev_byte ev = ack"
  shows "agree (bus_step ev (feed evs t))
    (s\<lparr>outputs := outputs s @ (if protocol_callback s then [orphan_report r] else [])\<rparr>)"
proof -
  from t obtain lc bs rr lr ms lp pw
    where v: "t = step_fields lc bs rr lr ms lp pw (s\<lparr>h_state := passive_receive_slave\<rparr>)" by (rule agreeE)
  have "ready_slave t" using s by (simp add: v step_fields_def ready_slave_def idle_def)
  then obtain u where u: "feed evs t = flush_write (passive_slave_complete u)"
      "agree u (fill_slave t (stuff (framed r)))" "pending_write u = None"
    using slave_rx.feed_part [OF _ r evs] by blast
  from u(2) obtain lc' bs' rr' lr' ms' lp' pw'
    where w: "u = step_fields lc' bs' rr' lr' ms' lp' pw' (fill_slave t (stuff (framed r)))" by (rule agreeE)
  have "seq_logical (passive_slave u) = framed r" "mon u = None" "h_state u = passive_receive_slave"
    using s fill_logical(2) [of t "framed r"] by (simp_all add: w v step_fields_def fill_slave_def idle_def)
  note c = complete_slave [OF r this]
  have f: "feed evs t = step_fields lc' bs' rr' lr' ms' lp' None (s
      \<lparr>passive_telegram := slave_accepted r telegram_init, passive_slave := seq_of (framed r) False,
       passive_slave_dbx := slave_dbx (stuff (framed r)), h_state := passive_receive_slave_acknowledge\<rparr>)"
    using s u(3) unfolding u(1) c
    by (simp add: w v step_fields_def fill_slave_def silent_flush idle_def)
  show ?thesis
    using s ev
    by (simp add: f event_simps passiveReceiveSlaveAcknowledge_def passive_report_def silent_callOnTelegram
      emit_def callPassiveReset_def silent_transitionTo agree_def idle_def orphan_report_def)
      (simp add: telegram_init_def)
qed

text \<open>A NAK followed by a SYN leaves the mark of a repetition behind.\<close>

lemma nak_step:
  assumes s: "idle s" "mon s = None" and t: "agree t (master_seen m s)" and ev: "plain ev" "ev_byte ev = nak"
  shows "agree (bus_step ev t) (s\<lparr>passive_master_repeated := True\<rparr>)"
  using t
proof (rule agreeE)
  fix lc bs rr lr ms lp pw assume v: "t = step_fields lc bs rr lr ms lp pw (master_seen m s)"
  have "nak \<noteq> ack" "nak \<noteq> syn" by (simp_all add: symbol_defs)
  then show ?thesis
    using s ev
    by (simp add: v master_seen_def event_simps passiveReceiveMasterAcknowledge_def silent_transitionTo
      agree_def idle_def)
qed

lemma syn_keeps_repeated:
  assumes s: "listening s" "mon s = None" and t: "agree t (s\<lparr>passive_master_repeated := True\<rparr>)"
    and ev: "plain ev" "ev_byte ev = syn"
  shows "agree (bus_step ev t) (s\<lparr>passive_master_repeated := True\<rparr>)"
  using t
proof (rule agreeE)
  fix lc bs rr lr ms lp pw
  assume v: "t = step_fields lc bs rr lr ms lp pw (s\<lparr>passive_master_repeated := True\<rparr>)"
  show ?thesis
    using s ev
    by (simp add: v event_simps listening_def idle_def agree_def passiveReceiveMaster_def
      checkPassiveBuffers_def checkActiveBuffers_def seq_size_def)
qed

section \<open>Properties\<close>

text \<open>A handler as constructed, with its callbacks set, and bus events without flags: for the examples.\<close>

definition sample_env :: env where
  "sample_env = \<lparr>clk = \<lambda>_. 0, clk_reads = 0, wall = \<lambda>_. 0, wall_reads = 0, mon = None\<rparr>"

definition sample_handler :: "u8 \<Rightarrow> handler" where
  "sample_handler address =
     (handler_new address True (\<lambda>_. 0x55) (request_new sample_env))\<lparr>protocol_callback := True, won_callback := True\<rparr>"

definition event :: "u8 \<Rightarrow> BusEvent" where
  "event b = \<lparr>ev_byte = b, ev_bus_request = False, ev_start_bit = False, ev_timestamp = 0\<rparr>"

lemma event_map [simp]: "map ev_byte (map event bs) = bs" "\<forall>ev \<in> set (map event bs). plain ev"
  "ev_byte (event b) = b" "plain (event b)" "ev_byte \<circ> event = id"
  by (auto simp: event_def plain_def comp_def)

lemma sample_listening: "listening (sample_handler a)"
  by (simp add: sample_handler_def handler_new_def setSourceAddress_def request_new_def sample_env_def
    env.defs request.defs handler.defs now_def Let_def listening_def idle_def)

lemma sample_fields [simp]:
  "mon (sample_handler a) = None" "has_bus (sample_handler a)" "protocol_callback (sample_handler a)"
  "outputs (sample_handler a) = []" "won_callback (sample_handler a)" "\<not> bus_request (sample_handler a)"
  "active_slave_dbx (sample_handler a) = 0" "active_slave (sample_handler a) = seq_nil"
  "active_master (sample_handler a) = seq_nil"
  "isMaster a \<Longrightarrow> source_address (sample_handler a) = a"
  "isMaster a \<Longrightarrow> target_address (sample_handler a) = slaveOf a"
  by (simp_all add: sample_handler_def handler_new_def setSourceAddress_def request_new_def sample_env_def
    env.defs request.defs handler.defs now_def Let_def)

lemma forget_listening [simp]: "listening (forget s) \<longleftrightarrow> listening s" "idle (forget s) \<longleftrightarrow> idle s"
  by (simp_all add: listening_def idle_def)

lemma forget_foreign [simp]: "foreign (forget s) x \<longleftrightarrow> foreign s x"
  by (simp add: foreign_def)

lemma forget_outputs: "outputs (feed evs (forget s)) = outputs (feed evs s)"
  by (simp add: forget_feed)

text \<open>
  C3: Every exchange between other participants is reported, once, in order, with exactly its
  master and slave part, and the handler is listening again after each: for any number of
  well-formed broadcast, master-master and master-slave exchanges, escaped bytes included.
\<close>

theorem traffic_reported:
  assumes "listening s" "protocol_callback s" "\<forall>x \<in> set xs. foreign s x"
    "map ev_byte evs = traffic xs" "\<forall>ev \<in> set evs. plain ev"
  shows "listening (feed evs s) \<and> outputs (feed evs s) = outputs s @ map (\<lambda>(m, r). observed_report m r) xs"
proof -
  have "listening (feed evs (forget s)) \<and> outputs (feed evs (forget s)) =
      outputs s @ map (\<lambda>(m, r). observed_report m r) xs"
    using traffic_observed [of "forget s" xs evs] assms by simp
  then show ?thesis by (simp add: forget_feed)
qed

theorem traffic_reported_witness:
  "(let x = ([0x10, 0x08, 0xb5, 0x09, 0x01, 0xaa], [0x01, 0xa9]); s = sample_handler 0x31 in
    outputs (feed (map event (traffic [x])) s)
      = [observed_report [0x10, 0x08, 0xb5, 0x09, 0x01, 0xaa] [0x01, 0xa9]])"
proof -
  let ?x = "([0x10, 0x08, 0xb5, 0x09, 0x01, 0xaa], [0x01, 0xa9]) :: bytes \<times> bytes"
  have "isMaster 0x31" "master_part_ok (fst ?x)" "slave_part_ok (snd ?x)" "slaveOf 0x31 \<noteq> 0x08" by code_simp+
  then have "\<forall>x \<in> set [?x]. foreign (sample_handler 0x31) x" by (simp add: foreign_def)
  then show ?thesis
    using traffic_reported [of "sample_handler 0x31" "[?x]" "map event (traffic [?x])"] sample_listening
    by (simp add: Let_def)
qed

text \<open>
  C38: A SYN received while a slave part is expected does not end the exchange. The handler stays
  in that state, takes the next bytes for a slave part and reports a telegram that has no
  master part, although a SYN marks the start of a new exchange.
\<close>

theorem slave_wait_ignores_syn:
  assumes s: "listening s" "protocol_callback s" and m: "foreign s (m, r)" "typeOf (m ! 1) = master_slave"
    and evs: "map ev_byte evs = stuff (framed m) @ [ack, syn] @ stuff (framed r) @ [ack]"
      "\<forall>ev \<in> set evs. plain ev"
  shows "outputs (feed evs s) = outputs s @ [orphan_report r]"
proof -
  have "map ev_byte evs = stuff (framed m) @ ack # syn # stuff (framed r) @ [ack]" using evs(1) by simp
  then obtain e1 a e2 where e1: "evs = e1 @ a # e2" "map ev_byte e1 = stuff (framed m)" "ev_byte a = ack"
      "map ev_byte e2 = syn # stuff (framed r) @ [ack]" by (rule map_splitE)
  from e1(4) have "map ev_byte e2 = [] @ syn # stuff (framed r) @ [ack]" by simp
  then obtain e0 b e3 where e2: "e2 = e0 @ b # e3" "map ev_byte e0 = []" "ev_byte b = syn"
      "map ev_byte e3 = stuff (framed r) @ [ack]" by (rule map_splitE)
  from e2(4) obtain e4 c e5 where e4: "e3 = e4 @ c # e5" "map ev_byte e4 = stuff (framed r)"
      "ev_byte c = ack" "map ev_byte e5 = []" by (rule map_splitE)
  have evs': "evs = e1 @ a # b # e4 @ [c]" using e1(1) e2(1,2) e4(1,4) by simp
  then have pl: "\<forall>ev \<in> set e1. plain ev" "plain a" "plain b" "\<forall>ev \<in> set e4. plain ev" "plain c"
    using evs(2) by auto
  let ?s = "forget s"
  have i: "idle ?s" "mon ?s = None" using s(1) by (simp_all add: listening_def)
  have ok: "master_part_ok m" "slave_part_ok r" "m ! 1 \<noteq> source_address ?s" "m ! 1 \<noteq> target_address ?s"
    using m(1) by (simp_all add: foreign_def)
  have "agree (feed e1 ?s) (master_seen m ?s)"
    using observe_master [OF idle_ready [OF i] _ ok(1) _ ok(3,4) e1(2) pl(1)] i(1) m(2) by (simp add: idle_def)
  from slave_wait_syn [OF i observe_slave_awaited [OF i m(2) this pl(2) e1(3)] pl(3) e2(3)]
  have "agree (feed evs ?s) (?s\<lparr>outputs := outputs s @ [orphan_report r]\<rparr>)"
    using orphan_slave [OF i ok(2) _ e4(2) pl(4,5) e4(3)] s(2) evs' by simp
  then have "outputs (feed evs ?s) = outputs s @ [orphan_report r]"
    by (auto elim!: agreeE simp: step_fields_def)
  then show ?thesis by (simp only: forget_outputs)
qed

theorem slave_wait_ignores_syn_witness:
  "outputs (feed (map event (stuff (framed [0x10, 0x08, 0xb5, 0x09, 0x00]) @ [ack, syn] @ [0x00, 0x00] @ [ack]))
     (sample_handler 0x31)) = [orphan_report [0x00]]"
proof -
  have c: "isMaster 0x31" "master_part_ok [0x10, 0x08, 0xb5, 0x09, 0x00]" "slave_part_ok [0x00]"
      "slaveOf 0x31 \<noteq> 0x08" "typeOf ([0x10, 0x08, 0xb5, 0x09, 0x00] ! 1) = master_slave"
    by code_simp+
  have n: "\<not> needsEscape 0x00" by (simp add: needsEscape_def symbol_defs)
  then have "calculateCRC [0x00] False = 0"
    using calculateCrcEntry_zero_iff [of 0] by (simp add: calculateCRC_def crc_byte_def calcCRC_eq sym_zero_def)
  with n have w: "stuff (framed [0x00]) = [0x00, 0x00]" by (simp add: framed_def stuff_byte_def)
  from c have f: "foreign (sample_handler 0x31) ([0x10, 0x08, 0xb5, 0x09, 0x00], [0x00])"
    by (simp add: foreign_def)
  show ?thesis
    using slave_wait_ignores_syn [OF sample_listening _ f c(5) event_map(1,2)] unfolding w by simp
qed

text \<open>
  When a master part is refused and the sender gives up, the SYN does not clear the mark that
  a repetition is under way: the buffers are empty, the handler is receiving, and the mark
  of the finished exchange is still set for the next one.
\<close>

theorem repetition_mark_survives_syn:
  assumes s: "listening s" and m: "foreign s (m, r)" "typeOf (m ! 1) \<noteq> broadcast"
    and evs: "map ev_byte evs = stuff (framed m) @ [nak, syn]" "\<forall>ev \<in> set evs. plain ev"
  shows "passive_master_repeated (feed evs s) \<and> h_state (feed evs s) = passive_receive_master
    \<and> sq_bytes (passive_master (feed evs s)) = [] \<and> outputs (feed evs s) = outputs s"
proof -
  obtain e1 a e2 where e1: "evs = e1 @ a # e2" "map ev_byte e1 = stuff (framed m)" "ev_byte a = nak"
      "map ev_byte e2 = [syn]" using evs(1) by (elim map_splitE)
  then obtain b where b: "e2 = [b]" "ev_byte b = syn" by auto
  have pl: "\<forall>ev \<in> set e1. plain ev" "plain a" "plain b" using evs(2) e1(1) b(1) by auto
  let ?s = "forget s"
  have i: "idle ?s" "mon ?s = None" "listening ?s" using s(1) by (simp_all add: listening_def)
  have ok: "master_part_ok m" "m ! 1 \<noteq> source_address ?s" "m ! 1 \<noteq> target_address ?s"
    using m(1) by (simp_all add: foreign_def)
  have "agree (feed e1 ?s) (master_seen m ?s)"
    using observe_master [OF idle_ready [OF i(1,2)] _ ok(1) m(2) ok(2,3) e1(2) pl(1)] i(1) by (simp add: idle_def)
  from syn_keeps_repeated [OF i(3,2) nak_step [OF i(1,2) this pl(2) e1(3)] pl(3) b(2)]
  have "agree (feed evs ?s) (?s\<lparr>passive_master_repeated := True\<rparr>)" by (simp add: e1(1) b(1))
  then have "passive_master_repeated (feed evs ?s) \<and> h_state (feed evs ?s) = passive_receive_master
      \<and> sq_bytes (passive_master (feed evs ?s)) = [] \<and> outputs (feed evs ?s) = outputs s"
    using i(1) by (auto elim!: agreeE simp: step_fields_def idle_def)
  then show ?thesis by (simp add: forget_feed)
qed

theorem repetition_mark_survives_syn_witness:
  "passive_master_repeated (feed (map event (stuff (framed [0x10, 0x08, 0xb5, 0x09, 0x00]) @ [nak, syn]))
     (sample_handler 0x31))"
proof -
  have c: "isMaster 0x31" "master_part_ok [0x10, 0x08, 0xb5, 0x09, 0x00]" "slave_part_ok [0x00]"
      "slaveOf 0x31 \<noteq> 0x08" "typeOf ([0x10, 0x08, 0xb5, 0x09, 0x00] ! 1) \<noteq> broadcast"
    by code_simp+
  then have f: "foreign (sample_handler 0x31) ([0x10, 0x08, 0xb5, 0x09, 0x00], [0x00])"
    by (simp add: foreign_def)
  show ?thesis
    using repetition_mark_survives_syn [OF sample_listening f c(5) event_map(1,2)] by blast
qed

end
