(* ===== verification/Active_Exchange.thy ===== *)
theory Active_Exchange
  imports Exchanges
begin

text \<open>
  An exchange the handler starts itself: the message is queued, the next SYN arms the
  bus request, the physical layer writes the address and flags the event that reads it
  back, and the handler sends the rest, byte after echoed byte.
\<close>

text \<open>One event outside an arbitration: what the state function starts from.\<close>

lemma observe_stepE:
  assumes "agree t s" "mon s = None" "rq_state s = observe" "plain ev"
  obtains lc bs rr lr ms lp
  where "bus_step ev t =
    flush_write (state_handlers (h_state s) (ev_byte ev) (step_fields lc bs rr lr ms lp None s))"
proof -
  obtain lc bs rr lr ms lp pw where o: "observed ev t = step_fields lc bs rr lr ms lp pw s"
    using agree_trans [OF observed_agree assms(1)] by (rule agreeE)
  have "pw = None" using arg_cong [OF o, of pending_write] by (simp add: step_fields_def)
  moreover have "mon t = None" "rq_state t = observe" "h_state t = h_state s"
    using assms(1-3) by (auto elim!: agreeE simp: step_fields_def)
  ultimately show thesis using observe_step [of t ev] assms(4) o by (intro that) simp
qed

section \<open>Sending byte after echoed byte\<close>

definition sending :: "handler \<Rightarrow> bytes \<Rightarrow> nat \<Rightarrow> handler" where
  "sending s W i = s\<lparr>active_master := seq_of W True, active_master_index := i,
     h_state := active_send_master, outputs := outputs s @ map BusWrite (take i (drop 1 W))\<rparr>"

lemma echo_step:
  assumes s: "mon s = None" "rq_state s = observe" "has_bus s"
    and i: "i + 1 < length W" and t: "agree t (sending s W i)"
    and ev: "plain ev" "ev_byte ev = W ! i"
  shows "agree (bus_step ev t) (sending s W (i + 1))"
  using t
proof (rule agreeE)
  fix lc bs rr lr ms lp pw assume v: "t = step_fields lc bs rr lr ms lp pw (sending s W i)"
  have "take (Suc i) (drop (Suc 0) W) = take i (drop (Suc 0) W) @ [W ! Suc i]"
    using i by (simp add: take_Suc_conv_app_nth)
  then show ?thesis
    using s i ev
    by (simp add: v sending_def event_simps activeSendMaster_def seq_size_def seq_index_def callWrite_def
      emit_def agree_def)
qed

lemma echo:
  assumes s: "mon s = None" "rq_state s = observe" "has_bus s"
  shows "\<lbrakk>agree t (sending s W i); i + length evs < length W; \<forall>ev \<in> set evs. plain ev;
    map ev_byte evs = take (length evs) (drop i W)\<rbrakk>
    \<Longrightarrow> agree (feed evs t) (sending s W (i + length evs))"
proof (induction evs arbitrary: t i)
  case (Cons ev evs)
  have "drop i W = W ! i # drop (Suc i) W" using Cons.prems(2) by (simp add: Cons_nth_drop_Suc)
  with Cons.prems have b: "ev_byte ev = W ! i" "map ev_byte evs = take (length evs) (drop (Suc i) W)"
    by simp_all
  have "agree (bus_step ev t) (sending s W (i + 1))"
    using echo_step [OF s _ Cons.prems(1)] Cons.prems b by simp
  from Cons.IH [OF this] show ?case using Cons.prems b by simp
qed simp

text \<open>The last byte of the master part comes back.\<close>

definition sent :: "handler \<Rightarrow> bytes \<Rightarrow> handler" where
  "sent s W = s\<lparr>active_master := seq_of W True, active_master_index := length W,
     h_state := active_receive_master_acknowledge, outputs := outputs s @ map BusWrite (drop 1 W)\<rparr>"

lemma sent_step:
  assumes s: "mon s = None" "rq_state s = observe" "has_bus s" "tg_type (active_telegram s) \<noteq> broadcast"
    and W: "1 < length W" and t: "agree t (sending s W (length W - 1))"
    and ev: "plain ev" "ev_byte ev = W ! (length W - 1)"
  shows "agree (bus_step ev t) (sent s W)"
  using t
proof (rule agreeE)
  fix lc bs rr lr ms lp pw assume v: "t = step_fields lc bs rr lr ms lp pw (sending s W (length W - 1))"
  show ?thesis
    using s W ev
    by (simp add: v sending_def sent_def event_simps activeSendMaster_def seq_size_def seq_index_def
      silent_transitionTo agree_def)
qed

text \<open>Everything the active side keeps, back at its initial values; SYN is written to release the bus.\<close>

definition released :: "handler \<Rightarrow> handler_output list \<Rightarrow> handler" where
  "released s out = s\<lparr>active_message := False, active_telegram := telegram_init, active_master := seq_nil,
     active_master_index := 0, active_master_repeated := False, active_slave := seq_nil,
     active_slave_dbx := 0, active_slave_repeated := False, h_state := release_bus,
     outputs := outputs s @ out @ [BusWrite syn]\<rparr>"

lemma finish_active_released:
  assumes "mon u = None" "has_bus u" "release_bus \<in> set (handler_successors (h_state u))"
  shows "flush_write (finish_active u) = (released u [])\<lparr>pending_write := Some syn\<rparr>"
proof -
  have "finish_active u = (callWrite syn (callActiveReset u))\<lparr>h_state := release_bus\<rparr>"
    unfolding finish_active_def
    by (rule silent_transitionTo) (use assms in \<open>simp_all add: callWrite_def callActiveReset_def\<close>)
  then show ?thesis
    using assms by (simp add: silent_flush callWrite_def callActiveReset_def emit_def released_def)
qed

lemma silent_active_report:
  assumes "mon u = None"
  shows "active_report tt u = u\<lparr>outputs := outputs u @ (if protocol_callback u
    then [Protocol (telegram_info message_active tt (h_state u) (rq_state u)
      (sq_bytes (active_master u)) (sq_bytes (active_slave u)))] else [])\<rparr>"
  using assms by (simp add: active_report_def silent_callOnTelegram emit_def)

lemma broadcast_step:
  assumes s: "mon s = None" "rq_state s = observe" "has_bus s" "tg_type (active_telegram s) = broadcast"
      "sq_bytes (active_slave s) = []"
    and W: "1 < length W" and t: "agree t (sending s W (length W - 1))"
    and ev: "plain ev" "ev_byte ev = W ! (length W - 1)"
  shows "agree (bus_step ev t) (released s (map BusWrite (drop 1 W) @
    (if protocol_callback s
     then [Protocol (telegram_info message_active broadcast active_send_master observe W [])] else [])))"
proof -
  obtain n where n: "length W = Suc n" "n \<noteq> 0" using W by (cases "length W") auto
  obtain lc bs rr lr ms lp where step: "bus_step ev t = flush_write (activeSendMaster (W ! n)
      (step_fields lc bs rr lr ms lp None (sending s W n)))"
    using observe_stepE [OF t _ _ ev(1)] s ev n by (simp add: sending_def) blast
  define u where "u = (step_fields lc bs rr lr ms lp None (sending s W n))\<lparr>active_master_index := Suc n\<rparr>"
  have u: "mon u = None" "h_state u = active_send_master" "has_bus u" "rq_state u = observe"
    "sq_bytes (active_master u) = W" "sq_bytes (active_slave u) = []" "protocol_callback u = protocol_callback s"
    using s by (simp_all add: u_def sending_def step_fields_def)
  have "activeSendMaster (W ! n) (step_fields lc bs rr lr ms lp None (sending s W n))
      = finish_active (bump_messages_active (active_report broadcast u))"
    using s n by (simp add: activeSendMaster_def seq_size_def seq_index_def u_def sending_def step_fields_def)
  then have "bus_step ev t = flush_write (finish_active (active_report broadcast u))"
    using u(1) by (simp add: step silent_active_report)
  also have "\<dots> = (released (active_report broadcast u) [])\<lparr>pending_write := Some syn\<rparr>"
    by (rule finish_active_released) (use u in \<open>simp_all add: silent_active_report\<close>)
  finally show ?thesis
    using u n by (simp add: silent_active_report released_def agree_def step_fields_def)
      (simp add: u_def sending_def step_fields_def)
qed

section \<open>Winning the bus\<close>

definition won_outputs :: "handler \<Rightarrow> handler_output list" where
  "won_outputs s = (if won_callback s then [RequestWon] else [])"

definition win :: "handler \<Rightarrow> handler" where
  "win s = s\<lparr>rq_state := observe, outputs := outputs s @ won_outputs s\<rparr>"

lemma framed_sequence:
  "Byte_Sequence.extend (seq_push_back (calculateCRC m False) False (seq_of m False)) = seq_of (stuff (framed m)) True"
  by (simp add: extend_eq seq_push_back_def seq_of_def framed_def)

lemma length_wire: "m \<noteq> [] \<Longrightarrow> 1 < length (stuff (framed m))"
  using length_stuff [of "framed m"] by (cases m) simp_all

lemma request_won_sending:
  assumes "mon u = None" "h_state u = request_bus" "has_bus u"
    "tg_master (active_telegram u) = seq_of m False" "tg_master_crc (active_telegram u) = calculateCRC m False"
    "m \<noteq> []" "pending_write u = None"
  shows "flush_write (request_won u) =
    (sending (u\<lparr>outputs := outputs u @ won_outputs u\<rparr>) (stuff (framed m)) 1)
      \<lparr>pending_write := Some (stuff (framed m) ! 1)\<rparr>"
proof -
  define W where "W = stuff (framed m)"
  have W: "1 < length W" using length_wire [OF assms(6)] by (simp add: W_def)
  have "take 1 (drop 1 W) = [W ! 1]" using W by (cases W; cases "tl W") auto
  then show ?thesis
    using assms W framed_sequence [of m]
    by (simp add: request_won_def W_def [symmetric] seq_size_def seq_index_def callOnBusRequestWon_def
      emit_def callWrite_def silent_transitionTo silent_flush sending_def won_outputs_def Let_def)
qed

lemma won_step:
  assumes s: "mon s = None" "rq_state s = first" "h_state s = request_bus" "has_bus s"
      "tg_master (active_telegram s) = seq_of m False" "tg_master_crc (active_telegram s) = calculateCRC m False"
      "request_address s = m ! 0"
    and m: "master_part_ok m" and t: "agree t s" and ev: "plain ev" "ev_byte ev = m ! 0"
  shows "agree (bus_step ev t) (sending (win s) (stuff (framed m)) 1)"
  using t
proof (rule agreeE)
  fix lc bs rr lr ms lp pw assume v: "t = step_fields lc bs rr lr ms lp pw s"
  have m0: "m ! 0 \<noteq> syn" "m \<noteq> []"
    using m isMaster_not_reserved by (auto simp: master_part_ok_def)
  define u where "u = step_fields (lock_counter_max s) 0 first_won first_won False (ev_timestamp ev) None
    (s\<lparr>rq_state := observe\<rparr>)"
  have u: "mon u = None" "h_state u = request_bus" "has_bus u"
    "tg_master (active_telegram u) = seq_of m False" "tg_master_crc (active_telegram u) = calculateCRC m False"
    "pending_write u = None" "last_result u = first_won"
    using s by (simp_all add: u_def step_fields_def)
  define info where "info = \<lparr>bi_byte = m ! 0, bi_handler_state = passive_receive_master,
    bi_request_state = first, bi_result = first_won, bi_lock_counter = lock_counter_max s,
    bi_timestamp = ev_timestamp ev\<rparr>"
  define z where "z = snd (request_run (m ! 0) t)"
  have z: "request_run (m ! 0) t = (first_won, z)" "lock_counter z = lock_counter_max s"
    "mon z = None" "h_state z = request_bus" "tick info z = u"
    using s m0 by (simp_all add: z_def v step_fields_def request_run_def rq_first_def rq_transitionTo_def
      request_allowed_iff updateRequest_def logRequestTransition_def tick_def info_def u_def Let_def)
  have "bus_step ev t = handler_run info z"
    using z ev s by (simp add: bus_step_def onBusEvent_def plain_def info_def v step_fields_def Let_def)
  also have "\<dots> = flush_write (request_won u)"
    using z u by (simp add: silent_run h_requestBus_def info_def)
  finally show ?thesis
    using u m0 by (simp add: request_won_sending)
      (simp add: u_def agree_def step_fields_def sending_def win_def won_outputs_def)
qed

section \<open>Asking for the bus\<close>

text \<open>A queued message, nothing in the buffers, and the bus available from the next SYN on.\<close>

definition queued :: "bytes \<Rightarrow> handler \<Rightarrow> bool" where
  "queued m s \<longleftrightarrow> idle s \<and> mon s = None \<and> has_bus s \<and> active_message s \<and>
     tg_type (active_telegram s) = typeOf (m ! 1) \<and>
     tg_master (active_telegram s) = seq_of m False \<and> tg_master_crc (active_telegram s) = calculateCRC m False \<and>
     active_master s = seq_nil \<and> active_slave s = seq_nil \<and> active_slave_dbx s = 0 \<and>
     m ! 0 = source_address s \<and> lock_counter s = 0 \<and> \<not> bus_request s"

definition asked :: "handler \<Rightarrow> handler" where
  "asked s = s\<lparr>request_address := source_address s, external_bus_request := False, bus_request := True\<rparr>"

lemma asked_step:
  assumes s: "queued m s" and ev: "plain ev" "ev_byte ev = syn"
  shows "agree (bus_step ev s) (asked s)"
proof -
  have "busAvailable (observed ev s)"
    using s ev by (simp add: queued_def busAvailable_def observed_def step_fields_def rq_observe_def Let_def)
  moreover have "seq_size (passive_master (observed ev s)) = 0" "seq_size (passive_slave (observed ev s)) = 0"
    "seq_size (active_master (observed ev s)) = 0" "seq_size (active_slave (observed ev s)) = 0"
    "active_message (observed ev s)" "source_address (observed ev s) = source_address s"
    using s by (simp_all add: queued_def idle_def observed_def step_fields_def seq_size_def Let_def)
  ultimately have "passiveReceiveMaster syn (observed ev s) = asked (observed ev s)"
    by (simp add: passiveReceiveMaster_def checkPassiveBuffers_def checkActiveBuffers_def requestBus_def
      asked_def Let_def)
  then have "bus_step ev s = asked (observed ev s)"
    using s ev by (simp add: observe_step queued_def idle_def silent_flush asked_def)
  then show ?thesis
    by (simp add: asked_def agree_def observed_def step_fields_def Let_def)
qed

definition requesting :: "handler \<Rightarrow> handler" where
  "requesting s = (asked s)\<lparr>bus_request := False, rq_state := first, h_state := request_bus\<rparr>"

text \<open>The SYN whose event carries the mark that the address has been written.\<close>

lemma requesting_step:
  assumes s: "queued m s" and t: "agree t (asked s)"
    and ev: "ev_bus_request ev" "\<not> ev_start_bit ev" "ev_byte ev = syn"
  shows "agree (bus_step ev t) (requesting s)"
  using t
proof (rule agreeE)
  fix lc bs rr lr ms lp pw assume v: "t = step_fields lc bs rr lr ms lp pw (asked s)"
  define c where "c = step_fields lc bs rr lr ms lp pw (requesting s)"
  have c: "request_completed t = c"
    using s by (simp add: c_def v request_completed_def busRequestCompleted_def rq_transitionTo_def
      request_allowed_iff onBusRequested_def silent_transitionTo queued_def idle_def asked_def
      requesting_def step_fields_def logRequestTransition_def Let_def)
  define z where "z = c\<lparr>rq_result := first_syn, bytes_since_syn := 0\<rparr>"
  have z: "request_run syn c = (first_syn, z)"
    using s by (simp add: z_def c_def request_run_def rq_first_def rq_transitionTo_def updateRequest_def
      requesting_def asked_def step_fields_def queued_def Let_def)
  have zs: "mon z = None" "h_state z = request_bus" "rq_state c = first"
    using s by (simp_all add: z_def c_def requesting_def asked_def step_fields_def queued_def)
  have "bus_step ev t = handler_run \<lparr>bi_byte = syn, bi_handler_state = passive_receive_master,
      bi_request_state = first, bi_result = first_syn, bi_lock_counter = lock_counter z,
      bi_timestamp = ev_timestamp ev\<rparr> z"
    using ev c z zs by (simp add: bus_step_def onBusEvent_def Let_def)
  also have "agree \<dots> (requesting s)"
    using zs by (simp add: silent_run silent_flush h_requestBus_def tick_def)
      (simp add: z_def c_def agree_def step_fields_def)
  finally show ?thesis .
qed

lemma start_sending:
  assumes s: "queued m s" and m: "master_part_ok m"
    and e: "plain e1" "ev_byte e1 = syn" "ev_bus_request e2" "\<not> ev_start_bit e2" "ev_byte e2 = syn"
      "plain e3" "ev_byte e3 = m ! 0"
  shows "agree (feed [e1, e2, e3] s) (sending (win (requesting s)) (stuff (framed m)) 1)"
proof -
  have "agree (bus_step e2 (bus_step e1 s)) (requesting s)"
    using requesting_step [OF s asked_step [OF s e(1,2)] e(3-5)] .
  from won_step [OF _ _ _ _ _ _ _ m this e(6,7)] show ?thesis
    using s by (simp add: requesting_def asked_def queued_def)
qed

lemma silent_error:
  assumes "mon s = None" "protocol_callback s"
  shows "\<exists>info. is_error info \<and> pi_protocol_error info = err \<and>
    callOnError level err st mv sv s = emit (Protocol info) s"
  using assms
  by (intro exI [of _ "ProtocolInfo_init\<lparr>is_error := True, pi_level := level, pi_protocol_error := err,
        pi_result := last_result s, pi_sequence_state := st, pi_handler_state := h_state s,
        pi_request_state := rq_state s, pi_master_view := mv, pi_slave_view := sv\<rparr>"])
    (simp add: callOnError_def recordHandlerError_def recordBusError_def Let_def)

text \<open>A byte that comes back changed ends the sending: an error, and nothing of the message is left.\<close>

lemma bad_echo_step:
  assumes s: "mon s = None" "rq_state s = observe" "protocol_callback s"
    and i: "i < length W" and t: "agree t (sending s W i)" and ev: "plain ev" "ev_byte ev \<noteq> W ! i"
  obtains info where "is_error info" "pi_protocol_error info = error_active_master_echo"
    "outputs (bus_step ev t) = outputs s @ map BusWrite (take i (drop 1 W)) @ [Protocol info]"
    "h_state (bus_step ev t) = passive_receive_master" "\<not> active_message (bus_step ev t)"
    "active_master (bus_step ev t) = seq_nil"
proof -
  obtain lc bs rr lr ms lp where step: "bus_step ev t = flush_write (activeSendMaster (ev_byte ev)
      (step_fields lc bs rr lr ms lp None (sending s W i)))"
    using observe_stepE [OF t _ _ ev(1)] s by (simp add: sending_def) blast
  define u where "u = step_fields lc bs rr lr ms lp None (sending s W i)"
  define v where "v = active_error level_error error_active_master_echo (tg_master_state (active_telegram u)) u"
  obtain info where info: "is_error info" "pi_protocol_error info = error_active_master_echo"
      "v = emit (Protocol info) u"
    using silent_error [of u] s unfolding v_def active_error_def
    by (simp add: u_def sending_def step_fields_def) blast
  have u: "mon u = None" "h_state u = active_send_master" "pending_write u = None"
    using s by (simp_all add: u_def sending_def step_fields_def)
  have "activeSendMaster (ev_byte ev) u = h_transitionTo passive_receive_master (callActiveReset v)"
    using s i ev by (simp add: activeSendMaster_def seq_size_def seq_index_def v_def)
      (simp add: u_def sending_def step_fields_def)
  also have "\<dots> = (callActiveReset v)\<lparr>h_state := passive_receive_master\<rparr>"
    by (rule silent_transitionTo) (use u in \<open>simp_all add: info(3) callActiveReset_def emit_def\<close>)
  finally have "bus_step ev t = (callActiveReset v)\<lparr>h_state := passive_receive_master\<rparr>"
    using u unfolding step u_def [symmetric]
    by (simp add: silent_flush info(3) callActiveReset_def emit_def)
  then show thesis
    using info by (intro that [of info])
      (simp_all add: info(3) callActiveReset_def emit_def, simp add: u_def sending_def step_fields_def)
qed

lemma sending_prefix:
  assumes s: "queued m s" and m: "master_part_ok m"
    and e: "plain e1" "ev_byte e1 = syn" "ev_bus_request e2" "\<not> ev_start_bit e2" "ev_byte e2 = syn"
    and evs: "map ev_byte evs = take k (stuff (framed m))" "\<forall>ev \<in> set evs. plain ev"
    and k: "0 < k" "k < length (stuff (framed m))"
  shows "agree (feed (e1 # e2 # evs) s) (sending (win (requesting s)) (stuff (framed m)) k)"
proof -
  define W where "W = stuff (framed m)"
  obtain V where W0: "W = m ! 0 # V"
    using master_wire(1,3) [OF m] m by (cases m; auto simp: W_def master_part_ok_def)
  obtain n where n: "k = Suc n" using k by (cases k) auto
  obtain e3 es where es: "evs = e3 # es" "ev_byte e3 = m ! 0" "map ev_byte es = take n V"
    using evs(1) W0 n unfolding W_def [symmetric] by (cases evs) auto
  have len: "length es = n" using arg_cong [OF evs(1), of length] k n es(1) by simp
  have b: "mon (win (requesting s)) = None" "rq_state (win (requesting s)) = observe" "has_bus (win (requesting s))"
    using s by (simp_all add: win_def requesting_def asked_def queued_def)
  have "agree (feed [e1, e2, e3] s) (sending (win (requesting s)) W 1)"
    unfolding W_def using evs(2) es by (intro start_sending [OF s m e]) auto
  from echo [OF b this, of es] show ?thesis
    using es(1,3) evs(2) k n len by (simp add: W_def [symmetric]) (simp add: W0)
qed

section \<open>The whole exchange\<close>

lemma echo_all:
  assumes s: "mon s = None" "rq_state s = observe" "has_bus s" and t: "agree t (sending s W 1)"
    and es: "map ev_byte (es @ [l]) = drop 1 W" "\<forall>ev \<in> set es. plain ev"
  shows "1 < length W" "ev_byte l = W ! (length W - 1)" "agree (feed es t) (sending s W (length W - 1))"
proof -
  have len: "length W = length es + 2" using arg_cong [OF es(1), of length] by simp
  then show "1 < length W" by simp
  have n: "map ev_byte (es @ [l]) ! length es = W ! (length es + 1)"
    using len by (subst es(1)) simp
  show "ev_byte l = W ! (length W - 1)"
    using n len by (simp add: nth_append)
  have "map ev_byte es = take (length es) (drop 1 W)"
    using arg_cong [OF es(1), of "take (length es)"] by simp
  from echo [OF s t _ es(2) this] show "agree (feed es t) (sending s W (length W - 1))"
    using len by simp
qed

lemma master_ack_step:
  assumes s: "mon s = None" "rq_state s = observe" "has_bus s" "tg_type (active_telegram s) = master_master"
      "sq_bytes (active_slave s) = []"
    and t: "agree t (sent s W)" and ev: "plain ev" "ev_byte ev = ack"
  shows "agree (bus_step ev t) (released s (map BusWrite (drop 1 W) @
    (if protocol_callback s
     then [Protocol (telegram_info message_active master_master active_receive_master_acknowledge observe W [])]
     else [])))"
proof -
  obtain lc bs rr lr ms lp where step: "bus_step ev t = flush_write (activeReceiveMasterAcknowledge ack
      (step_fields lc bs rr lr ms lp None (sent s W)))"
    using observe_stepE [OF t _ _ ev(1)] s ev by (simp add: sent_def) blast
  define u where "u = step_fields lc bs rr lr ms lp None (sent s W)"
  have u: "mon u = None" "h_state u = active_receive_master_acknowledge" "has_bus u" "rq_state u = observe"
    "sq_bytes (active_master u) = W" "sq_bytes (active_slave u) = []" "protocol_callback u = protocol_callback s"
    "tg_type (active_telegram u) = master_master"
    using s by (simp_all add: u_def sent_def step_fields_def)
  have "bus_step ev t = flush_write (finish_active (active_report master_master u))"
    using u by (simp add: step u_def [symmetric] activeReceiveMasterAcknowledge_def silent_active_report)
  also have "\<dots> = (released (active_report master_master u) [])\<lparr>pending_write := Some syn\<rparr>"
    by (rule finish_active_released) (use u in \<open>simp_all add: silent_active_report\<close>)
  finally show ?thesis
    using u by (simp add: silent_active_report released_def agree_def step_fields_def)
      (simp add: u_def sent_def step_fields_def)
qed

lemma slave_wait_step:
  assumes s: "mon s = None" "rq_state s = observe" "tg_type (active_telegram s) = master_slave"
    and t: "agree t (sent s W)" and ev: "plain ev" "ev_byte ev = ack"
  shows "agree (bus_step ev t) ((sent s W)\<lparr>h_state := active_receive_slave\<rparr>)"
proof -
  obtain lc bs rr lr ms lp where "bus_step ev t = flush_write (activeReceiveMasterAcknowledge ack
      (step_fields lc bs rr lr ms lp None (sent s W)))"
    using observe_stepE [OF t _ _ ev(1)] s ev by (simp add: sent_def) blast
  then show ?thesis
    using s by (simp add: activeReceiveMasterAcknowledge_def sent_def step_fields_def silent_transitionTo
      silent_flush agree_def)
qed

text \<open>The slave part has arrived and is acknowledged.\<close>

definition answered :: "handler \<Rightarrow> bytes \<Rightarrow> bytes \<Rightarrow> handler" where
  "answered s W r = (sent s W)
     \<lparr>active_telegram := slave_accepted r (active_telegram s), active_slave := seq_of (framed r) False,
      active_slave_dbx := slave_dbx (stuff (framed r)), h_state := active_send_slave_positive_acknowledge,
      outputs := outputs s @ map BusWrite (drop 1 W) @ [BusWrite ack]\<rparr>"

lemma slave_part_steps:
  assumes s: "mon s = None" "rq_state s = observe" "has_bus s" "active_slave s = seq_nil" "active_slave_dbx s = 0"
    and r: "slave_part_ok r" and t: "agree t ((sent s W)\<lparr>h_state := active_receive_slave\<rparr>)"
    and evs: "map ev_byte evs = stuff (framed r)" "\<forall>ev \<in> set evs. plain ev"
  shows "agree (feed evs t) (answered s W r)"
proof -
  from t obtain lc bs rr lr ms lp pw
    where v: "t = step_fields lc bs rr lr ms lp pw ((sent s W)\<lparr>h_state := active_receive_slave\<rparr>)"
    by (rule agreeE)
  have "ready_active t" using s by (simp add: v step_fields_def sent_def ready_active_def)
  then obtain u where u: "feed evs t = flush_write (active_slave_complete u)"
      "agree u (fill_active t (stuff (framed r)))" "pending_write u = None"
    using active_rx.feed_part [OF _ r evs] by blast
  from u(2) obtain lc' bs' rr' lr' ms' lp' pw'
    where w: "u = step_fields lc' bs' rr' lr' ms' lp' pw' (fill_active t (stuff (framed r)))" by (rule agreeE)
  have "seq_logical (active_slave u) = framed r" "mon u = None" "h_state u = active_receive_slave"
    using s fill_logical(3) [of t "framed r"]
    by (simp_all add: w v step_fields_def fill_active_def sent_def)
  note c = complete_active [OF r this]
  show ?thesis
    using s unfolding u(1) c
    by (simp add: w v step_fields_def fill_active_def sent_def callWrite_def silent_flush emit_def
      agree_def answered_def)
qed

lemma answered_step:
  assumes s: "mon s = None" "rq_state s = observe" "has_bus s" "tg_master (active_telegram s) = seq_of m False"
    and t: "agree t (answered s W r)" and ev: "plain ev"
  shows "agree (bus_step ev t) (released s (map BusWrite (drop 1 W) @ [BusWrite ack] @
    (if protocol_callback s
     then [Protocol (telegram_info message_active master_slave active_send_slave_positive_acknowledge observe m r)]
     else [])))"
proof -
  obtain lc bs rr lr ms lp where step: "bus_step ev t =
      flush_write (activeSendSlavePositiveAcknowledge (ev_byte ev)
        (step_fields lc bs rr lr ms lp None (answered s W r)))"
    using observe_stepE [OF t _ _ ev(1)] s ev by (simp add: sent_def answered_def) blast
  define u where "u = step_fields lc bs rr lr ms lp None (answered s W r)"
  have u: "mon u = None" "h_state u = active_send_slave_positive_acknowledge" "has_bus u" "rq_state u = observe"
    "sq_bytes (tg_master (active_telegram u)) = m" "sq_bytes (tg_slave (active_telegram u)) = r"
    "protocol_callback u = protocol_callback s"
    using s by (simp_all add: u_def answered_def sent_def step_fields_def)
  let ?u = "u\<lparr>outputs := outputs u @ (if protocol_callback s
     then [Protocol (telegram_info message_active master_slave active_send_slave_positive_acknowledge observe m r)]
     else [])\<rparr>"
  have "bus_step ev t = flush_write (finish_active ?u)"
    using u by (simp add: step u_def [symmetric] activeSendSlavePositiveAcknowledge_def
      silent_callOnTelegram emit_def)
  also have "\<dots> = (released ?u [])\<lparr>pending_write := Some syn\<rparr>"
    by (rule finish_active_released) (use u in simp_all)
  finally show ?thesis
    using u by (simp add: released_def agree_def step_fields_def)
      (simp add: u_def answered_def sent_def step_fields_def)
qed

text \<open>What the sender puts on the bus and reports, after it has won.\<close>

definition active_outputs :: "bool \<Rightarrow> bytes \<Rightarrow> bytes \<Rightarrow> handler_output list" where
  "active_outputs callback m r =
     (let W = stuff (framed m);
          report = (\<lambda>info. if callback then [Protocol info] else [])
      in map BusWrite (drop 1 W) @
        (case typeOf (m ! 1) of
           broadcast \<Rightarrow> report (telegram_info message_active broadcast active_send_master observe W [])
         | master_master \<Rightarrow>
             report (telegram_info message_active master_master active_receive_master_acknowledge observe W [])
         | _ \<Rightarrow> [BusWrite ack] @
             report (telegram_info message_active master_slave active_send_slave_positive_acknowledge
               observe m r)))"

lemma wire_events:
  assumes m: "master_part_ok m" and evs: "map ev_byte evs = stuff (framed m) @ rest"
  obtains e3 es l fs where "evs = e3 # es @ l # fs" "ev_byte e3 = m ! 0"
    "map ev_byte (es @ [l]) = drop 1 (stuff (framed m))" "map ev_byte fs = rest"
proof -
  define W where "W = stuff (framed m)"
  have W0: "W = m ! 0 # drop 1 W" "drop 1 W \<noteq> []"
    using master_wire(1,3) [OF m] m length_wire [of m]
    by (cases m; auto simp: W_def master_part_ok_def)+
  obtain ws fs where ws: "evs = ws @ fs" "map ev_byte ws = W" "map ev_byte fs = rest"
    using evs by (auto simp: map_eq_append_conv W_def)
  obtain e3 us where us: "ws = e3 # us" using ws(2) W0(1) by (cases ws) auto
  have "ev_byte e3 # map ev_byte us = m ! 0 # drop 1 W"
    using ws(2) W0(1) unfolding us by simp
  then have hd: "ev_byte e3 = m ! 0" "map ev_byte us = drop 1 W" by simp_all
  obtain es l where "us = es @ [l]" using hd(2) W0(2) by (cases us rule: rev_cases) auto
  with ws us hd show thesis by (intro that) (auto simp: W_def)
qed

lemma exchange_sent:
  assumes s: "queued m s" and m: "master_part_ok m" "slave_part_ok r"
    and e: "plain e1" "ev_byte e1 = syn" "ev_bus_request e2" "\<not> ev_start_bit e2" "ev_byte e2 = syn"
    and evs: "map ev_byte evs = exchange_wire m r" "\<forall>ev \<in> set evs. plain ev"
  shows "agree (feed (e1 # e2 # evs) s)
    (released (win (requesting s)) (active_outputs (protocol_callback s) m r))"
proof -
  define b W where "b = win (requesting s)" and "W = stuff (framed m)"
  have b: "mon b = None" "rq_state b = observe" "has_bus b" "active_slave b = seq_nil" "active_slave_dbx b = 0"
    "tg_type (active_telegram b) = typeOf (m ! 1)" "tg_master (active_telegram b) = seq_of m False"
    "protocol_callback b = protocol_callback s"
    using s by (simp_all add: b_def win_def requesting_def asked_def queued_def)
  have b0: "sq_bytes (active_slave b) = []" using b(4) by simp
  obtain rest where wire: "exchange_wire m r = stuff (framed m) @ rest"
    by (cases "typeOf (m ! 1)") (auto simp: exchange_wire_def)
  obtain e3 es l fs where ev: "evs = e3 # es @ l # fs" "ev_byte e3 = m ! 0"
      "map ev_byte (es @ [l]) = drop 1 W" "map ev_byte fs = rest"
    unfolding W_def using wire_events [OF m(1) evs(1) [unfolded wire]] by blast
  have pl: "plain e3" "\<forall>ev \<in> set es. plain ev" "plain l" "\<forall>ev \<in> set fs. plain ev"
    using evs(2) ev(1) by auto
  have "agree (feed [e1, e2, e3] s) (sending b W 1)"
    unfolding b_def W_def by (rule start_sending [OF s m(1) e pl(1) ev(2)])
  note echoed = echo_all [OF b(1-3) this ev(3) pl(2)]
  define t where "t = bus_step l (feed es (feed [e1, e2, e3] s))"
  have feed: "feed (e1 # e2 # evs) s = feed fs t" by (simp add: ev(1) t_def)
  consider (bc) "typeOf (m ! 1) = broadcast" | (mm) "typeOf (m ! 1) = master_master"
    | (ms) "typeOf (m ! 1) = master_slave"
    using typeOf_cases by blast
  then show ?thesis
  proof cases
    case bc
    then have "fs = []" using ev(4) wire by (simp add: exchange_wire_def)
    then show ?thesis
      using broadcast_step [OF b(1-3) _ b0 echoed(1) echoed(3) pl(3) echoed(2)] bc b
      unfolding feed t_def active_outputs_def b_def [symmetric] W_def [symmetric] by simp
  next
    case mm
    then have "rest = [ack]" using wire by (simp add: exchange_wire_def)
    with ev(4) obtain a where a: "fs = [a]" "ev_byte a = ack" by auto
    have "agree t (sent b W)"
      using sent_step [OF b(1-3) _ echoed(1) echoed(3) pl(3) echoed(2)] mm b(6) by (simp add: t_def)
    then show ?thesis
      using master_ack_step [OF b(1-3) _ b0] mm b(6,8) pl(4) a
      unfolding feed active_outputs_def b_def [symmetric] W_def [symmetric] by simp
  next
    case ms
    then have "map ev_byte fs = [] @ ack # stuff (framed r) @ [ack]" using ev(4) wire by (simp add: exchange_wire_def)
    then obtain e0 a f1 where "fs = e0 @ a # f1" "map ev_byte e0 = []" "ev_byte a = ack"
        "map ev_byte f1 = stuff (framed r) @ [ack]" by (rule map_splitE)
    moreover from this(4) obtain f2 c g where "f1 = f2 @ c # g" "map ev_byte f2 = stuff (framed r)"
        "ev_byte c = ack" "map ev_byte g = []" by (rule map_splitE)
    ultimately have f: "fs = a # f2 @ [c]" "ev_byte a = ack" "map ev_byte f2 = stuff (framed r)" by auto
    have "agree t (sent b W)"
      using sent_step [OF b(1-3) _ echoed(1) echoed(3) pl(3) echoed(2)] ms b(6) by (simp add: t_def)
    then have "agree (bus_step a t) ((sent b W)\<lparr>h_state := active_receive_slave\<rparr>)"
      using slave_wait_step [OF b(1,2)] ms b(6) pl(4) f by simp
    then have "agree (feed f2 (bus_step a t)) (answered b W r)"
      using slave_part_steps [OF b(1-5) m(2)] pl(4) f by simp
    then show ?thesis
      using answered_step [OF b(1-3,7)] ms b(8) pl(4) f
      unfolding feed active_outputs_def b_def [symmetric] W_def [symmetric] by simp
  qed
qed

section \<open>Properties\<close>

definition free :: "handler \<Rightarrow> bool" where
  "free s \<longleftrightarrow> listening s \<and> has_bus s \<and> protocol_callback s \<and> won_callback s \<and> lock_counter s = 0 \<and> \<not> bus_request s \<and>
     active_master s = seq_nil \<and> active_slave s = seq_nil \<and> active_slave_dbx s = 0"

lemma send_queues:
  assumes s: "free s" "mon s = None" and m: "master_part_ok (source_address s # msg)"
  shows "fst (sendActiveMessage msg s)" "queued (source_address s # msg) (snd (sendActiveMessage msg s))"
    "outputs (snd (sendActiveMessage msg s)) = outputs s"
    "protocol_callback (snd (sendActiveMessage msg s)) = protocol_callback s"
    "won_callback (snd (sendActiveMessage msg s)) = won_callback s"
proof -
  let ?m = "source_address s # msg"
  have "msg \<noteq> []" using m by (auto simp: master_part_ok_def)
  moreover have "createMaster_from (source_address s) msg t = master_accepted ?m t" for t
    using createMaster_plain [OF m, of "seq_of ?m False" t]
    by (simp add: createMaster_from_def master_source_sequence)
  ultimately have send: "sendActiveMessage msg s =
      (True, s\<lparr>active_telegram := master_accepted ?m (active_telegram s), active_message := True\<rparr>)"
    using s(1) by (simp add: sendActiveMessage_def free_def listening_def Let_def)
  show "fst (sendActiveMessage msg s)" "outputs (snd (sendActiveMessage msg s)) = outputs s"
    "protocol_callback (snd (sendActiveMessage msg s)) = protocol_callback s"
    "won_callback (snd (sendActiveMessage msg s)) = won_callback s"
    by (simp_all add: send)
  show "queued ?m (snd (sendActiveMessage msg s))"
    using s by (simp add: send queued_def free_def listening_def idle_def) (simp add: master_accepted_def)
qed

lemma message_exchanged:
  assumes s: "free s" and m: "master_part_ok (source_address s # msg)" "slave_part_ok r"
    and e: "plain e1" "ev_byte e1 = syn" "ev_bus_request e2" "\<not> ev_start_bit e2" "ev_byte e2 = syn"
    and evs: "map ev_byte evs = exchange_wire (source_address s # msg) r" "\<forall>ev \<in> set evs. plain ev"
  shows "fst (sendActiveMessage msg s)
    \<and> outputs (feed (e1 # e2 # evs) (snd (sendActiveMessage msg s))) =
        outputs s @ [RequestWon] @ active_outputs True (source_address s # msg) r @ [BusWrite syn]
    \<and> h_state (feed (e1 # e2 # evs) (snd (sendActiveMessage msg s))) = release_bus
    \<and> \<not> active_message (feed (e1 # e2 # evs) (snd (sendActiveMessage msg s)))"
proof -
  let ?s = "forget s" and ?m = "source_address s # msg"
  have f: "free ?s" "mon ?s = None" "master_part_ok (source_address ?s # msg)"
    using s m by (simp_all add: free_def)
  note q = send_queues [OF f]
  define t where "t = snd (sendActiveMessage msg ?s)"
  have t: "t = forget (snd (sendActiveMessage msg s))" by (simp add: t_def forget_public)
  have "agree (feed (e1 # e2 # evs) t) (released (win (requesting t)) (active_outputs True ?m r))"
    using exchange_sent [of ?m t r e1 e2 evs] q m e evs s by (simp add: t_def free_def)
  then have "outputs (feed (e1 # e2 # evs) t) =
        outputs s @ [RequestWon] @ active_outputs True ?m r @ [BusWrite syn]
    \<and> h_state (feed (e1 # e2 # evs) t) = release_bus \<and> \<not> active_message (feed (e1 # e2 # evs) t)"
    using q(3,5) s by (auto elim!: agreeE simp: step_fields_def released_def win_def requesting_def
      asked_def won_outputs_def t_def free_def)
  moreover have "fst (sendActiveMessage msg s)" using q(1) by (simp add: forget_public)
  ultimately show ?thesis by (simp add: t forget_feed del: feed_simps)
qed

definition writes :: "handler_output list \<Rightarrow> bytes" where
  "writes out = List.map_filter (\<lambda>x. case x of BusWrite b \<Rightarrow> Some b | _ \<Rightarrow> None) out"

definition reports :: "handler_output list \<Rightarrow> (bytes \<times> bytes) list" where
  "reports out = List.map_filter
     (\<lambda>x. case x of Protocol i \<Rightarrow> Some (pi_master_view i, pi_slave_view i) | _ \<Rightarrow> None) out"

lemma writes_simps [simp]:
  "writes [] = []" "writes (BusWrite b # xs) = b # writes xs" "writes (RequestWon # xs) = writes xs"
  "writes (Protocol i # xs) = writes xs" "writes (xs @ ys) = writes xs @ writes ys"
  "writes (map BusWrite bs) = bs"
  by (simp_all add: writes_def List.map_filter_def comp_def)

lemma reports_simps [simp]:
  "reports [] = []" "reports (BusWrite b # xs) = reports xs" "reports (RequestWon # xs) = reports xs"
  "reports (Protocol i # xs) = (pi_master_view i, pi_slave_view i) # reports xs"
  "reports (xs @ ys) = reports xs @ reports ys" "reports (map BusWrite bs) = []"
  by (simp_all add: reports_def List.map_filter_def comp_def)

text \<open>The sending has been given up: an error has been reported after \<open>out\<close>, and nothing written.\<close>

definition sending_aborted :: "handler_output list \<Rightarrow> handler \<Rightarrow> bool" where
  "sending_aborted out t \<longleftrightarrow>
     (\<exists>info. is_error info \<and> pi_protocol_error info = error_active_master_echo \<and> outputs t = out @ [Protocol info]) \<and>
     h_state t = passive_receive_master \<and> \<not> active_message t \<and> active_master t = seq_nil"

lemma active_message_started:
  assumes s: "free s" and m: "master_part_ok (source_address s # msg)"
    and e: "plain e1" "ev_byte e1 = syn" "ev_bus_request e2" "\<not> ev_start_bit e2" "ev_byte e2 = syn"
  shows "outputs (feed [e1, e2] (snd (sendActiveMessage msg s))) = outputs s"
proof -
  let ?s = "forget s"
  have f: "free ?s" "mon ?s = None" "master_part_ok (source_address ?s # msg)"
    using s m by (simp_all add: free_def)
  note q = send_queues [OF f]
  have "agree (feed [e1, e2] (snd (sendActiveMessage msg ?s))) (requesting (snd (sendActiveMessage msg ?s)))"
    using requesting_step [OF q(2) asked_step [OF q(2) e(1,2)] e(3-5)] by simp
  then have "outputs (feed [e1, e2] (snd (sendActiveMessage msg ?s))) = outputs s"
    using q(3) by (auto elim!: agreeE simp: step_fields_def requesting_def asked_def)
  then show ?thesis by (simp add: forget_public forget_feed del: feed_simps)
qed

lemma message_prefix:
  assumes s: "free s" and m: "master_part_ok (source_address s # msg)"
    and e: "plain e1" "ev_byte e1 = syn" "ev_bus_request e2" "\<not> ev_start_bit e2" "ev_byte e2 = syn"
    and evs: "map ev_byte evs = take k (stuff (framed (source_address s # msg)))" "\<forall>ev \<in> set evs. plain ev"
    and k: "0 < k" "k < length (stuff (framed (source_address s # msg)))"
  shows "outputs (feed (e1 # e2 # evs) (snd (sendActiveMessage msg s))) =
      outputs s @ [RequestWon] @ map BusWrite (take k (drop 1 (stuff (framed (source_address s # msg)))))"
    and "\<lbrakk>plain ev; ev_byte ev \<noteq> stuff (framed (source_address s # msg)) ! k\<rbrakk> \<Longrightarrow>
      sending_aborted (outputs s @ [RequestWon] @ map BusWrite (take k (drop 1 (stuff (framed (source_address s # msg))))))
        (feed (e1 # e2 # evs @ [ev]) (snd (sendActiveMessage msg s)))"
proof -
  let ?s = "forget s" and ?m = "source_address s # msg"
  have f: "free ?s" "mon ?s = None" "master_part_ok (source_address ?s # msg)"
    using s m by (simp_all add: free_def)
  note q = send_queues [OF f]
  define t where "t = snd (sendActiveMessage msg ?s)"
  have t: "t = forget (snd (sendActiveMessage msg s))" by (simp add: t_def forget_public)
  define b where "b = win (requesting t)"
  have a: "agree (feed (e1 # e2 # evs) t) (sending b (stuff (framed ?m)) k)"
    using sending_prefix [OF q(2) f(3) e _ evs(2) k(1)] evs(1) k by (simp add: t_def b_def)
  have b: "outputs b = outputs s @ [RequestWon]" "mon b = None" "rq_state b = observe" "protocol_callback b"
    using q s by (simp_all add: b_def win_def requesting_def asked_def won_outputs_def t_def [symmetric] free_def queued_def)
  have "outputs (feed (e1 # e2 # evs) t) =
      outputs s @ [RequestWon] @ map BusWrite (take k (drop 1 (stuff (framed (source_address s # msg)))))"
    using a b(1) by (auto elim!: agreeE simp: step_fields_def sending_def)
  then show "outputs (feed (e1 # e2 # evs) (snd (sendActiveMessage msg s))) =
      outputs s @ [RequestWon] @ map BusWrite (take k (drop 1 (stuff (framed (source_address s # msg)))))"
    by (simp add: t forget_feed del: feed_simps)
  assume ev: "plain ev" "ev_byte ev \<noteq> stuff (framed ?m) ! k"
  have st: "feed (e1 # e2 # evs @ [ev]) t = bus_step ev (feed (e1 # e2 # evs) t)"
    by simp
  show "sending_aborted (outputs s @ [RequestWon] @ map BusWrite (take k (drop 1 (stuff (framed (source_address s # msg))))))
        (feed (e1 # e2 # evs @ [ev]) (snd (sendActiveMessage msg s)))"
    using bad_echo_step [OF b(2-4) k(2) a ev] unfolding st [symmetric] sending_aborted_def
    by (simp add: t forget_feed b(1) del: feed_simps) metis
qed

text \<open>
  C4: A queued message goes out as the protocol prescribes. After the next SYN the bus is
  requested, and nothing is written before the own address (put on the bus by the physical
  layer) has been read back. From then on the bytes of the escaped and checksummed master part
  are written one at a time: when the address and \<open>k\<close> of them have come back, \<open>k + 1\<close> of them have been
  written and nothing else. Whenever a byte comes back changed, none is written any more: an echo
  error is reported, the message is dropped and the handler listens again. When all have come
  back, and the addressed participant answers as it should, the answer is acknowledged, the
  telegram is reported once, SYN releases the bus and nothing of the message is left in the
  handler. The report of a telegram with an answer contains the master and the slave part (what
  the reports of the other types contain is not stated here).
\<close>

theorem message_sent:
  assumes s: "free s" and m: "master_part_ok (source_address s # msg)" "slave_part_ok r"
    and e: "plain e1" "ev_byte e1 = syn" "ev_bus_request e2" "\<not> ev_start_bit e2" "ev_byte e2 = syn"
    and evs: "map ev_byte evs = exchange_wire (source_address s # msg) r" "\<forall>ev \<in> set evs. plain ev"
  defines "q \<equiv> snd (sendActiveMessage msg s)" and "bytes \<equiv> drop 1 (stuff (framed (source_address s # msg)))"
    and "final \<equiv> feed (e1 # e2 # evs) (snd (sendActiveMessage msg s))"
    and "report \<equiv> Protocol (telegram_info message_active master_slave active_send_slave_positive_acknowledge observe
      (source_address s # msg) r)"
  shows "fst (sendActiveMessage msg s) \<and> outputs (feed [e1, e2] q) = outputs s
    \<and> (\<forall>k < length bytes. outputs (feed (e1 # e2 # take (k + 1) evs) q) =
        outputs s @ [RequestWon] @ map BusWrite (take (k + 1) bytes))
    \<and> (\<forall>k < length bytes. \<forall>ev. plain ev \<and> ev_byte ev \<noteq> bytes ! k \<longrightarrow>
        sending_aborted (outputs s @ [RequestWon] @ map BusWrite (take (k + 1) bytes))
          (feed (e1 # e2 # take (k + 1) evs @ [ev]) q))
    \<and> writes (outputs final) = writes (outputs s) @ bytes @
        (if typeOf (msg ! 0) = master_slave then [ack] else []) @ [syn]
    \<and> length (reports (outputs final)) = length (reports (outputs s)) + 1
    \<and> (typeOf (msg ! 0) = master_slave \<longrightarrow>
        outputs final = outputs s @ [RequestWon] @ map BusWrite bytes @ [BusWrite ack, report, BusWrite syn])
    \<and> h_state final = release_bus \<and> \<not> active_message final"
proof -
  let ?m = "source_address s # msg"
  have len: "length (stuff (framed ?m)) = Suc (length bytes)"
    using length_wire [of ?m] by (simp add: bytes_def)
  obtain rest where "exchange_wire ?m r = stuff (framed ?m) @ rest"
    by (cases "typeOf (?m ! 1)") (auto simp: exchange_wire_def)
  then have pre: "map ev_byte (take (k + 1) evs) = take (k + 1) (stuff (framed ?m))"
      "\<forall>ev \<in> set (take (k + 1) evs). plain ev" if "k < length bytes" for k
    using that evs len by (auto simp: take_map [symmetric] dest: in_set_takeD)
  note prefix = message_prefix [OF s m(1) e pre, unfolded len, folded bytes_def q_def]
  have nth: "stuff (framed ?m) ! (k + 1) = bytes ! k" if "k < length bytes" for k
    using that by (simp add: bytes_def)
  note fin = message_exchanged [OF s m e evs, folded final_def]
  have out: "outputs final = outputs s @ [RequestWon] @ active_outputs True ?m r @ [BusWrite syn]" using fin by simp
  consider "typeOf (msg ! 0) = broadcast" | "typeOf (msg ! 0) = master_master" | "typeOf (msg ! 0) = master_slave"
    using typeOf_cases by blast
  then have "writes (outputs final) = writes (outputs s) @ bytes @
      (if typeOf (msg ! 0) = master_slave then [ack] else []) @ [syn]"
    "length (reports (outputs final)) = length (reports (outputs s)) + 1"
    "typeOf (msg ! 0) = master_slave \<longrightarrow>
      outputs final = outputs s @ [RequestWon] @ map BusWrite bytes @ [BusWrite ack, report, BusWrite syn]"
    unfolding out by (cases; simp add: active_outputs_def Let_def bytes_def report_def)+
  then show ?thesis
    using fin prefix nth active_message_started [OF s m(1) e, folded q_def] by auto
qed

theorem message_sent_witness:
  "(let s = (sample_handler 0x31)\<lparr>lock_counter := 0\<rparr>; msg = [0x08, 0xb5, 0x09, 0x01, 0xaa]; r = [0x01, 0xa9];
        m = [0x31, 0x08, 0xb5, 0x09, 0x01, 0xaa]; q = snd (sendActiveMessage msg s);
        e1 = event syn; e2 = (event syn)\<lparr>ev_bus_request := True\<rparr>; evs = map event (exchange_wire m r) in
    outputs (feed (e1 # e2 # take 2 evs) q) = [RequestWon, BusWrite 0x08, BusWrite 0xb5]
    \<and> sending_aborted [RequestWon, BusWrite 0x08, BusWrite 0xb5] (feed (e1 # e2 # take 2 evs @ [event 0xb4]) q)
    \<and> outputs (feed (e1 # e2 # evs) q) =
        [RequestWon] @ map BusWrite (drop 1 (stuff (framed m))) @
        [BusWrite ack, Protocol (telegram_info message_active master_slave
          active_send_slave_positive_acknowledge observe m r), BusWrite syn])"
proof -
  let ?s = "(sample_handler 0x31)\<lparr>lock_counter := 0\<rparr>" and ?msg = "[0x08, 0xb5, 0x09, 0x01, 0xaa]"
    and ?m = "[0x31, 0x08, 0xb5, 0x09, 0x01, 0xaa]"
  have c: "isMaster 0x31" "master_part_ok ?m" "slave_part_ok [0x01, 0xa9]" "typeOf (?msg ! 0) = master_slave"
    by code_simp+
  have s: "free ?s" "source_address ?s = 0x31" "outputs ?s = []"
    using c(1) sample_listening by (simp_all add: free_def listening_def idle_def)
  have e: "plain (event syn)" "ev_byte (event syn) = syn" "ev_bus_request ((event syn)\<lparr>ev_bus_request := True\<rparr>)"
    "\<not> ev_start_bit ((event syn)\<lparr>ev_bus_request := True\<rparr>)" "ev_byte ((event syn)\<lparr>ev_bus_request := True\<rparr>) = syn"
    "plain (event 0xb4)" "ev_byte (event 0xb4) = 0xb4"
    by (simp_all add: event_def plain_def)
  have w: "take 2 (drop 1 (stuff (framed ?m))) = [0x08, 0xb5]" "drop 1 (stuff (framed ?m)) ! 1 = 0xb5"
      "1 < length (drop 1 (stuff (framed ?m)))"
    by (simp_all add: framed_def stuff_byte_def needsEscape_def syn_def ext_def)
  note t = message_sent [OF s(1) _ c(3) e(1-5), where msg = ?msg and evs = "map event (exchange_wire ?m [0x01, 0xa9])",
      unfolded s(2,3)]
  have h: "map ev_byte (map event (exchange_wire ?m [0x01, 0xa9])) = exchange_wire ?m [0x01, 0xa9]"
      "\<forall>ev \<in> set (map event (exchange_wire ?m [0x01, 0xa9])). plain ev"
    by (simp_all add: event_def plain_def)
  note u = t [OF c(2) h]
  note p = u [THEN conjunct2, THEN conjunct2, THEN conjunct1, rule_format, OF w(3), unfolded one_add_one w(1)]
  note f = u [THEN conjunct2, THEN conjunct2, THEN conjunct2, THEN conjunct1, rule_format, OF w(3), of "event 0xb4",
      unfolded one_add_one w(1,2) e(7)]
  show ?thesis
    using p f [OF conjI [OF e(6)]] u c(4) by (simp add: Let_def del: feed_simps)
qed

end
