(* ===== verification/Reactive_Exchange.thy ===== *)
theory Reactive_Exchange
  imports Active_Exchange
begin

text \<open>
  An exchange in which the handler is the addressed participant: as a master it
  acknowledges, as a slave it asks the reactive callback for the response and sends it.
\<close>

section \<open>Addressed as a slave\<close>

text \<open>The response the callback supplies, with or without its checksum.\<close>

definition answers :: "handler \<Rightarrow> bytes \<Rightarrow> bytes \<Rightarrow> bool" where
  "answers s m r \<longleftrightarrow>
     (case reactive_callback s of
        None \<Rightarrow> False
      | Some f \<Rightarrow> let q = seq_logical (f m seq_nil) in q = framed r \<or> q = r \<and> 2 \<le> length r)"

definition replying :: "handler \<Rightarrow> bytes \<Rightarrow> bytes \<Rightarrow> nat \<Rightarrow> HandlerState \<Rightarrow> handler_output list \<Rightarrow> handler" where
  "replying s m r i st out = s
     \<lparr>passive_telegram := slave_accepted r (master_accepted m telegram_init),
      passive_master := seq_of (framed m) False, passive_master_dbx := master_dbx (stuff (framed m)),
      passive_slave := seq_of (stuff (framed r)) True, passive_slave_index := i, h_state := st,
      outputs := outputs s @ out\<rparr>"

lemma complete_reactive:
  assumes m: "master_part_ok m" "typeOf (m ! 1) \<noteq> broadcast" and r: "slave_part_ok r"
    and u: "seq_logical (passive_master u) = framed m" "mon u = None" "h_state u = passive_receive_master"
      "m ! 1 \<noteq> source_address u" "m ! 1 = target_address u" "answers u m r"
  shows "passive_master_complete u = (callWrite ack (u
    \<lparr>passive_telegram := slave_accepted r (master_accepted m (passive_telegram u)),
     passive_master := seq_of (framed m) False, passive_slave := seq_of (stuff (framed r)) True\<rparr>))
      \<lparr>h_state := reactive_send_master_positive_acknowledge\<rparr>"
proof -
  have create: "createMaster (passive_master u) (passive_telegram u)
      = (master_accepted m (passive_telegram u), seq_of (framed m) False)"
    by (rule createMaster_framed [OF m(1) u(1)])
  have zz: "seq_index f (seq_of (framed m) False) (Suc 0) = m ! 1" for f
    using m(1) by (simp add: seq_index_def seq_size_def framed_def nth_append master_part_ok_def)
  obtain f where f: "reactive_callback u = Some f"
      "seq_logical (f m seq_nil) = framed r \<or> seq_logical (f m seq_nil) = r \<and> 2 \<le> length r"
    using u(6) by (auto simp: answers_def Let_def split: option.splits)
  have slave: "fst (createSlave (f m seq_nil) t) = slave_accepted r t" for t
    using f(2) createSlave_framed [OF r] createSlave_plain [OF r] by auto
  have resp: "tg_slave_crc (slave_accepted r t) = calculateCRC r False" for t
    by (simp add: slave_accepted_def)
  have "passive_master_complete u = h_transitionTo reactive_send_master_positive_acknowledge
      (callWrite ack (u\<lparr>passive_master := seq_of (framed m) False,
        passive_telegram := slave_accepted r (master_accepted m (passive_telegram u)),
        passive_slave := seq_of (stuff (framed r)) True\<rparr>))"
    using m u by (simp add: passive_master_complete_def create zz callOnReactive_def f(1) slave resp
      framed_sequence split_beta Let_def)
  then show ?thesis using u(2,3) by (simp add: silent_transitionTo callWrite_def)
qed

lemma reply_start:
  assumes s: "idle s" "mon s = None" "has_bus s" and m: "master_part_ok m" "typeOf (m ! 1) = master_slave"
      "m ! 1 \<noteq> source_address s" "m ! 1 = target_address s" and r: "slave_part_ok r" "answers s m r"
    and evs: "map ev_byte evs = stuff (framed m)" "\<forall>ev \<in> set evs. plain ev"
  shows "agree (feed evs s) (replying s m r 0 reactive_send_master_positive_acknowledge [BusWrite ack])"
proof -
  obtain u where u: "feed evs s = flush_write (passive_master_complete u)"
      "agree u (fill_master s (stuff (framed m)))" "pending_write u = None"
    using master_rx.feed_part [OF idle_ready [OF s(1,2)] m(1) evs] by blast
  from u(2) obtain lc bs rr lr ms lp pw
    where v: "u = step_fields lc bs rr lr ms lp pw (fill_master s (stuff (framed m)))" by (rule agreeE)
  have "seq_logical (passive_master u) = framed m" "mon u = None" "h_state u = passive_receive_master"
      "m ! 1 \<noteq> source_address u" "m ! 1 = target_address u" "answers u m r"
    using s m r fill_logical(1) [of s "framed m"]
    by (simp_all add: v step_fields_def fill_master_def idle_def answers_def)
  note c = complete_reactive [OF m(1) _ r(1) this]
  show ?thesis
    using s u(3) m(2) unfolding u(1)
    by (simp add: c) (simp add: v step_fields_def fill_master_def callWrite_def silent_flush emit_def
      agree_def idle_def replying_def)
qed

lemma framed_neq_Nil [simp]: "framed r \<noteq> []"
  by (simp add: framed_def)

lemma reply_first:
  assumes s: "mon s = None" "rq_state s = observe" "has_bus s" and m: "typeOf (m ! 1) = master_slave"
    and t: "agree t (replying s m r 0 reactive_send_master_positive_acknowledge [BusWrite ack])" and ev: "plain ev"
  shows "agree (bus_step ev t)
    (replying s m r 0 reactive_send_slave (BusWrite ack # map BusWrite (take 1 (stuff (framed r)))))"
proof -
  let ?W = "stuff (framed r)"
  have W: "?W \<noteq> []" by simp
  then have "take (Suc 0) ?W = [?W ! 0]" by (cases ?W) auto
  moreover obtain lc bs rr lr ms lp where "bus_step ev t =
      flush_write (reactiveSendMasterPositiveAcknowledge (ev_byte ev) (step_fields lc bs rr lr ms lp None
        (replying s m r 0 reactive_send_master_positive_acknowledge [BusWrite ack])))"
    using observe_stepE [OF t _ _ ev(1)] s by (simp add: replying_def) blast
  ultimately show ?thesis
    using s m W by (simp add: reactiveSendMasterPositiveAcknowledge_def replying_def step_fields_def
      seq_size_def seq_index_def callWrite_def silent_transitionTo silent_flush emit_def agree_def)
qed

lemma reply_step:
  assumes s: "mon s = None" "rq_state s = observe" "has_bus s" and i: "i + 1 < length (stuff (framed r))"
    and t: "agree t (replying s m r i reactive_send_slave
      (BusWrite ack # map BusWrite (take (i + 1) (stuff (framed r)))))" and ev: "plain ev"
  shows "agree (bus_step ev t) (replying s m r (i + 1) reactive_send_slave
      (BusWrite ack # map BusWrite (take (i + 2) (stuff (framed r)))))"
proof -
  let ?W = "stuff (framed r)"
  have "take (Suc (Suc i)) ?W = take (Suc i) ?W @ [?W ! Suc i]"
    using i by (simp add: take_Suc_conv_app_nth)
  moreover obtain lc bs rr lr ms lp where "bus_step ev t =
      flush_write (reactiveSendSlave (ev_byte ev) (step_fields lc bs rr lr ms lp None
        (replying s m r i reactive_send_slave (BusWrite ack # map BusWrite (take (i + 1) ?W)))))"
    using observe_stepE [OF t _ _ ev(1)] s by (simp add: replying_def) blast
  ultimately show ?thesis
    using s i by (simp add: reactiveSendSlave_def replying_def step_fields_def
      seq_size_def seq_index_def callWrite_def silent_flush emit_def agree_def)
qed

lemma reply_steps:
  assumes s: "mon s = None" "rq_state s = observe" "has_bus s"
  shows "\<lbrakk>agree t (replying s m r i reactive_send_slave
      (BusWrite ack # map BusWrite (take (i + 1) (stuff (framed r)))));
    i + length evs < length (stuff (framed r)); \<forall>ev \<in> set evs. plain ev\<rbrakk>
    \<Longrightarrow> agree (feed evs t) (replying s m r (i + length evs) reactive_send_slave
      (BusWrite ack # map BusWrite (take (i + length evs + 1) (stuff (framed r)))))"
proof (induction evs arbitrary: t i)
  case (Cons ev evs)
  have "agree (bus_step ev t) (replying s m r (i + 1) reactive_send_slave
      (BusWrite ack # map BusWrite (take (i + 2) (stuff (framed r)))))"
    using reply_step [OF s _ Cons.prems(1)] Cons.prems(2,3) by simp
  then have "agree (bus_step ev t) (replying s m r (i + 1) reactive_send_slave
      (BusWrite ack # map BusWrite (take (i + 1 + 1) (stuff (framed r)))))" by simp
  from Cons.IH [OF this] show ?case using Cons.prems(2,3) by simp
qed simp

lemma reply_last:
  assumes s: "mon s = None" "rq_state s = observe" and i: "i + 1 = length (stuff (framed r))"
    and t: "agree t (replying s m r i reactive_send_slave
      (BusWrite ack # map BusWrite (take (i + 1) (stuff (framed r)))))" and ev: "plain ev"
  shows "agree (bus_step ev t) (replying s m r (i + 1) reactive_receive_slave_acknowledge
      (BusWrite ack # map BusWrite (stuff (framed r))))"
proof -
  obtain lc bs rr lr ms lp where "bus_step ev t =
      flush_write (reactiveSendSlave (ev_byte ev) (step_fields lc bs rr lr ms lp None
        (replying s m r i reactive_send_slave (BusWrite ack # map BusWrite (take (i + 1) (stuff (framed r)))))))"
    using observe_stepE [OF t _ _ ev(1)] s by (simp add: replying_def) blast
  then show ?thesis
    using s i by (simp add: reactiveSendSlave_def replying_def step_fields_def
      seq_size_def silent_transitionTo silent_flush agree_def)
qed

definition reactive_report :: "bytes \<Rightarrow> bytes \<Rightarrow> handler_output" where
  "reactive_report m r = Protocol
     (telegram_info message_reactive master_slave reactive_receive_slave_acknowledge observe m r)"

lemma reply_ack:
  assumes s: "idle s" "mon s = None"
    and t: "agree t (replying s m r i reactive_receive_slave_acknowledge out)"
    and ev: "plain ev" "ev_byte ev = ack"
  shows "agree (bus_step ev t)
    (s\<lparr>outputs := outputs s @ out @ (if protocol_callback s then [reactive_report m r] else [])\<rparr>)"
proof -
  obtain lc bs rr lr ms lp where "bus_step ev t =
      flush_write (reactiveReceiveSlaveAcknowledge ack (step_fields lc bs rr lr ms lp None
        (replying s m r i reactive_receive_slave_acknowledge out)))"
    using observe_stepE [OF t _ _ ev(1)] s ev by (simp add: replying_def idle_def) blast
  then show ?thesis
    using s by (simp add: reactiveReceiveSlaveAcknowledge_def replying_def step_fields_def passive_report_def
      silent_callOnTelegram emit_def callPassiveReset_def silent_transitionTo silent_flush agree_def
      idle_def reactive_report_def)
qed

lemma exchange_answered:
  assumes s: "idle s" "mon s = None" "has_bus s" and m: "master_part_ok m" "typeOf (m ! 1) = master_slave"
      "m ! 1 \<noteq> source_address s" "m ! 1 = target_address s" and r: "slave_part_ok r" "answers s m r"
    and evs: "map ev_byte evs = exchange_wire m r" "\<forall>ev \<in> set evs. plain ev"
  shows "agree (feed evs s)
    (s\<lparr>outputs := outputs s @ BusWrite ack # map BusWrite (stuff (framed r)) @
        (if protocol_callback s then [reactive_report m r] else [])\<rparr>)"
proof -
  let ?W = "stuff (framed r)"
  have o: "rq_state s = observe" using s(1) by (simp add: idle_def)
  have "map ev_byte evs = stuff (framed m) @ ack # ?W @ [ack]"
    using evs m(2) by (simp add: exchange_wire_def)
  then obtain e1 a es where e1: "evs = e1 @ a # es" "map ev_byte e1 = stuff (framed m)"
      "ev_byte a = ack" "map ev_byte es = ?W @ [ack]" by (rule map_splitE)
  from e1(4) obtain e2 c cs where "es = e2 @ c # cs" "map ev_byte e2 = ?W" "ev_byte c = ack"
      "map ev_byte cs = []" by (rule map_splitE)
  moreover from this(2) have "e2 \<noteq> []" by (metis list.simps(8) stuff_eq_Nil framed_neq_Nil)
  then obtain e3 l where "e2 = e3 @ [l]" by (cases e2 rule: rev_cases) auto
  ultimately have e: "evs = e1 @ a # e3 @ [l, c]" "length ?W = length e3 + 1" "ev_byte c = ack"
    using e1 by (auto simp: length_append_singleton dest: arg_cong [of _ ?W length])
  have pl: "\<forall>ev \<in> set e1. plain ev" "plain a" "\<forall>ev \<in> set e3. plain ev" "plain l" "plain c"
    using evs(2) e(1) by auto
  define t where "t = bus_step a (feed e1 s)"
  have "agree t (replying s m r 0 reactive_send_slave (BusWrite ack # map BusWrite (take (0 + 1) ?W)))"
    using reply_first [OF s(2) o s(3) m(2) reply_start [OF s m r e1(2) pl(1)] pl(2)] by (simp add: t_def)
  from reply_steps [OF s(2) o s(3) this _ pl(3)] e(2)
  have "agree (feed e3 t) (replying s m r (length e3) reactive_send_slave
      (BusWrite ack # map BusWrite (take (length e3 + 1) ?W)))" by simp
  from reply_last [OF s(2) o _ this pl(4)] e(2)
  have "agree (bus_step l (feed e3 t)) (replying s m r (length e3 + 1) reactive_receive_slave_acknowledge
      (BusWrite ack # map BusWrite ?W))" by simp
  from reply_ack [OF s(1,2) this pl(5) e(3)] show ?thesis by (simp add: e(1) t_def)
qed

section \<open>Addressed as a master\<close>

lemma exchange_acknowledged:
  assumes s: "idle s" "mon s = None" "has_bus s" and m: "master_part_ok m" "typeOf (m ! 1) = master_master"
      "m ! 1 = source_address s"
    and evs: "map ev_byte evs = exchange_wire m r" "\<forall>ev \<in> set evs. plain ev"
  shows "agree (feed evs s) (s\<lparr>outputs := outputs s @ BusWrite ack # (if protocol_callback s
    then [Protocol (telegram_info message_reactive master_master
      reactive_send_master_positive_acknowledge observe m [])] else [])\<rparr>)"
proof -
  have "map ev_byte evs = stuff (framed m) @ [ack]" using evs m(2) by (simp add: exchange_wire_def)
  then obtain e1 a e0 where "evs = e1 @ a # e0" and e1: "map ev_byte e1 = stuff (framed m)"
      and "ev_byte a = ack" "map ev_byte e0 = []" by (rule map_splitE)
  then have e: "evs = e1 @ [a]" by simp
  have pl: "\<forall>ev \<in> set e1. plain ev" "plain a" using evs(2) e by auto
  obtain u where u: "feed e1 s = flush_write (passive_master_complete u)"
      "agree u (fill_master s (stuff (framed m)))" "pending_write u = None"
    using master_rx.feed_part [OF idle_ready [OF s(1,2)] m(1) e1 pl(1)] by blast
  from u(2) obtain lc bs rr lr ms lp pw
    where v: "u = step_fields lc bs rr lr ms lp pw (fill_master s (stuff (framed m)))" by (rule agreeE)
  have "seq_logical (passive_master u) = framed m" "mon u = None" "h_state u = passive_receive_master"
      "m ! 1 = source_address u"
    using s m fill_logical(1) [of s "framed m"] by (simp_all add: v step_fields_def fill_master_def idle_def)
  note c = complete_master(2) [OF m(1) this(1-3) _ this(4)]
  let ?s = "s\<lparr>passive_telegram := master_accepted m telegram_init, passive_master := seq_of (framed m) False,
     passive_master_dbx := master_dbx (stuff (framed m)), h_state := reactive_send_master_positive_acknowledge,
     outputs := outputs s @ [BusWrite ack]\<rparr>"
  have "agree (feed e1 s) ?s"
    using s u(3) m(2) unfolding u(1)
    by (simp add: c) (simp add: v step_fields_def fill_master_def callWrite_def silent_flush emit_def
      agree_def idle_def)
  then obtain lc bs rr lr ms lp where "bus_step a (feed e1 s) =
      flush_write (reactiveSendMasterPositiveAcknowledge (ev_byte a) (step_fields lc bs rr lr ms lp None ?s))"
    using observe_stepE [OF _ _ _ pl(2), of "feed e1 s" ?s] s by (simp add: idle_def) blast
  then show ?thesis
    using s m by (simp add: e reactiveSendMasterPositiveAcknowledge_def step_fields_def passive_report_def
      silent_callOnTelegram emit_def callPassiveReset_def silent_transitionTo silent_flush agree_def
      idle_def) (simp add: telegram_init_def)
qed

section \<open>Properties\<close>

lemma answered_exchange:
  assumes s: "idle s" "has_bus s" "protocol_callback s" and m: "master_part_ok m" "typeOf (m ! 1) = master_slave"
      "m ! 1 \<noteq> source_address s" "m ! 1 = target_address s" and r: "slave_part_ok r" "answers s m r"
    and evs: "map ev_byte evs = exchange_wire m r" "\<forall>ev \<in> set evs. plain ev"
  shows "outputs (feed evs s) =
      outputs s @ BusWrite ack # map BusWrite (stuff (framed r)) @ [reactive_report m r]
    \<and> idle (feed evs s)"
proof -
  have "answers (forget s) m r" using r(2) by (simp add: answers_def)
  then have "agree (feed evs (forget s)) ((forget s)\<lparr>outputs := outputs s @ BusWrite ack #
      map BusWrite (stuff (framed r)) @ [reactive_report m r]\<rparr>)"
    using exchange_answered [of "forget s" m r evs] assms by simp
  then have "outputs (feed evs (forget s)) =
      outputs s @ BusWrite ack # map BusWrite (stuff (framed r)) @ [reactive_report m r]
      \<and> idle (feed evs (forget s))"
    using s by (auto elim!: agreeE simp: step_fields_def idle_def)
  then show ?thesis by (simp add: forget_feed)
qed

text \<open>
  C5: Addressed as a slave, the handler acknowledges a valid request, sends the response of the
  reactive callback byte by byte, escaped and with its checksum, waits for the
  acknowledgement, reports the telegram once and is idle again.
\<close>

theorem request_answered:
  assumes s: "idle s" "has_bus s" "protocol_callback s" and m: "master_part_ok m" "typeOf (m ! 1) = master_slave"
      "m ! 1 \<noteq> source_address s" "m ! 1 = target_address s" and r: "slave_part_ok r" "answers s m r"
    and evs: "map ev_byte evs = exchange_wire m r" "\<forall>ev \<in> set evs. plain ev"
  shows "outputs (feed evs s) =
      outputs s @ BusWrite ack # map BusWrite (stuff (framed r)) @ [reactive_report m r]
    \<and> idle (feed evs s)"
  by (rule answered_exchange [OF assms])

theorem request_answered_witness:
  "(let s = (sample_handler 0x03)\<lparr>reactive_callback := Some (\<lambda>_ _. seq_of [0x01, 0xa9] False)\<rparr>;
        m = [0x31, 0x08, 0xb5, 0x09, 0x01, 0xaa]; r = [0x01, 0xa9] in
    outputs (feed (map event (exchange_wire m r)) s)
      = BusWrite ack # map BusWrite (stuff (framed r)) @ [reactive_report m r])"
proof -
  let ?s = "(sample_handler 0x03)\<lparr>reactive_callback := Some (\<lambda>_ _. seq_of [0x01, 0xa9] False)\<rparr>"
    and ?m = "[0x31, 0x08, 0xb5, 0x09, 0x01, 0xaa]"
  have c: "isMaster 0x03" "slaveOf 0x03 = 0x08" "master_part_ok ?m" "slave_part_ok [0x01, 0xa9]"
      "typeOf (?m ! 1) = master_slave"
    by code_simp+
  have s: "idle ?s" "has_bus ?s" "protocol_callback ?s" "outputs ?s = []" "source_address ?s = 0x03"
      "target_address ?s = 0x08"
    using c(1,2) sample_listening by (simp_all add: listening_def idle_def)
  have a: "answers ?s ?m [0x01, 0xa9]" by (simp add: answers_def)
  have "?m ! 1 \<noteq> source_address ?s" "?m ! 1 = target_address ?s" using s by simp_all
  from request_answered [OF s(1-3) c(3,5) this c(4) a event_map(1,2)] show ?thesis
    by (simp add: Let_def s(4))
qed

text \<open>
  Addressed as a master, the handler acknowledges the telegram, reports it once and is idle
  again.
\<close>

theorem master_telegram_acknowledged:
  assumes s: "idle s" "has_bus s" "protocol_callback s" and m: "master_part_ok m"
      "typeOf (m ! 1) = master_master" "m ! 1 = source_address s"
    and evs: "map ev_byte evs = exchange_wire m r" "\<forall>ev \<in> set evs. plain ev"
  shows "outputs (feed evs s) = outputs s @ [BusWrite ack, Protocol (telegram_info message_reactive master_master
      reactive_send_master_positive_acknowledge observe m [])] \<and> idle (feed evs s)"
proof -
  have "agree (feed evs (forget s)) ((forget s)\<lparr>outputs := outputs s @ [BusWrite ack,
      Protocol (telegram_info message_reactive master_master reactive_send_master_positive_acknowledge observe m [])]\<rparr>)"
    using exchange_acknowledged [where s = "forget s" and m = m and evs = evs and r = r] assms by simp
  then have "outputs (feed evs (forget s)) = outputs s @ [BusWrite ack,
      Protocol (telegram_info message_reactive master_master reactive_send_master_positive_acknowledge observe m [])]
      \<and> idle (feed evs (forget s))"
    using s by (auto elim!: agreeE simp: step_fields_def idle_def)
  then show ?thesis by (simp add: forget_feed)
qed

theorem master_telegram_acknowledged_witness:
  "(let m = [0x10, 0x31, 0x07, 0x04, 0x00] in
    outputs (feed (map event (exchange_wire m [])) (sample_handler 0x31))
      = [BusWrite ack, Protocol (telegram_info message_reactive master_master
          reactive_send_master_positive_acknowledge observe m [])])"
proof -
  let ?m = "[0x10, 0x31, 0x07, 0x04, 0x00]"
  have c: "isMaster 0x31" "master_part_ok ?m" "typeOf (?m ! 1) = master_master" by code_simp+
  have "idle (sample_handler 0x31)" using sample_listening by (simp add: listening_def)
  from master_telegram_acknowledged [OF this _ _ c(2,3) _ event_map(1,2)] c(1) show ?thesis
    by (simp add: Let_def)
qed

end
