(* ===== verification/Handler_Safety.thy ===== *)
theory Handler_Safety
  imports Handler_Reception
begin

text \<open>
  What holds at every step of the handler, whatever arrives: the recovery branch of
  \<open>transitionTo\<close> is never taken by a state function, and no byte is read beyond the end
  of a buffer as long as no start bit interferes.
\<close>

section \<open>The recovery branch\<close>

definition illegal :: "handler_output \<Rightarrow> bool" where
  "illegal x = (case x of Protocol i \<Rightarrow> is_error i \<and> pi_protocol_error i = illegal_fsm_transition | _ \<Rightarrow> False)"

definition illegals :: "handler \<Rightarrow> handler_output list" where
  "illegals s = filter illegal (outputs s)"

lemma illegals_mon [simp]:
  "illegals (update_mon f s) = illegals s" "illegals (update_mon_clk g s) = illegals s"
  "illegals (update_mon_wall h s) = illegals s"
  by (simp_all add: illegals_def monitor_ops)

lemma illegals_reports [simp]:
  "illegals (callOnTelegram mt tt mv sv s) = illegals s"
  "e \<noteq> illegal_fsm_transition \<Longrightarrow> illegals (callOnError lv e st mv sv s) = illegals s"
  "illegals (callOnBusRequestWon s) = illegals s" "illegals (callOnBusRequestLost s) = illegals s"
  by (simp_all add: illegals_def callOnTelegram_def callOnError_def callOnBusRequestWon_def
      callOnBusRequestLost_def emit_def monitor_ops illegal_def ProtocolInfo_init_def Let_def)

lemma illegals_views [simp]:
  "e \<noteq> illegal_fsm_transition \<Longrightarrow> illegals (passive_error lv e st s) = illegals s"
  "e \<noteq> illegal_fsm_transition \<Longrightarrow> illegals (active_error lv e st s) = illegals s"
  "illegals (passive_report mt tt s) = illegals s" "illegals (active_report tt s) = illegals s"
  "illegals (callWrite b s) = illegals s" "illegals (callPassiveReset s) = illegals s"
  "illegals (callActiveReset s) = illegals s"
  by (simp_all add: passive_error_def active_error_def passive_report_def active_report_def)
    (simp_all add: illegals_def callWrite_def callPassiveReset_def callActiveReset_def)

lemma illegals_bumps [simp]:
  "illegals (bump_invalid s) = illegals s" "illegals (bump_error_passive s) = illegals s"
  "illegals (bump_error_reactive s) = illegals s" "illegals (bump_error_active s) = illegals s"
  "illegals (bump_messages_passive s) = illegals s" "illegals (bump_messages_reactive s) = illegals s"
  "illegals (bump_messages_active s) = illegals s"
  by (simp_all add: bump_defs logs)

lemma illegals_fields [simp]:
  "illegals (s\<lparr>passive_telegram := a1\<rparr>) = illegals s" "illegals (s\<lparr>passive_master := a2\<rparr>) = illegals s"
  "illegals (s\<lparr>passive_master_dbx := a3\<rparr>) = illegals s" "illegals (s\<lparr>passive_master_repeated := a4\<rparr>) = illegals s"
  "illegals (s\<lparr>passive_slave := a5\<rparr>) = illegals s" "illegals (s\<lparr>passive_slave_dbx := a6\<rparr>) = illegals s"
  "illegals (s\<lparr>passive_slave_index := a7\<rparr>) = illegals s" "illegals (s\<lparr>passive_slave_repeated := a8\<rparr>) = illegals s"
  "illegals (s\<lparr>active_message := a9\<rparr>) = illegals s" "illegals (s\<lparr>active_telegram := b1\<rparr>) = illegals s"
  "illegals (s\<lparr>active_master := b2\<rparr>) = illegals s" "illegals (s\<lparr>active_master_index := b3\<rparr>) = illegals s"
  "illegals (s\<lparr>active_master_repeated := b4\<rparr>) = illegals s" "illegals (s\<lparr>active_slave := b5\<rparr>) = illegals s"
  "illegals (s\<lparr>active_slave_dbx := b6\<rparr>) = illegals s" "illegals (s\<lparr>active_slave_repeated := b7\<rparr>) = illegals s"
  "illegals (s\<lparr>h_state := b8\<rparr>) = illegals s"
  by (simp_all add: illegals_def)

lemma state_calls [simp]:
  "h_state (callWrite b s) = h_state s" "h_state (callPassiveReset s) = h_state s"
  "h_state (callActiveReset s) = h_state s"
  by (simp_all add: callWrite_def callPassiveReset_def callActiveReset_def)

lemma illegals_transitionTo:
  "next = h_state s \<or> next \<in> set (handler_successors (h_state s)) \<Longrightarrow> illegals (h_transitionTo next s) = illegals s"
  by (auto simp: h_transitionTo_def handler_allowed_iff logs Let_def)

lemma illegals_requestBus [simp]: "illegals (snd (requestBus a e s)) = illegals s"
  by (simp add: illegals_def requestBus_def monitor_ops Let_def)

lemma illegals_checks [simp]:
  "illegals (checkPassiveBuffers s) = illegals s" "illegals (checkActiveBuffers s) = illegals s"
  by (simp_all add: checkPassiveBuffers_def checkActiveBuffers_def logs Let_def)

text \<open>
  The two guards that report an illegal transition themselves: an index beyond the
  buffer when the next byte of a response, or the echo of a sent byte, is looked up.
\<close>

definition index_guard :: "handler \<Rightarrow> bool" where
  "index_guard s \<longleftrightarrow>
     h_state s = reactive_send_master_positive_acknowledge \<and>
       tg_type (passive_telegram s) \<noteq> master_master \<and> passive_slave_index s \<ge> seq_size (passive_slave s)
   \<or> h_state s = active_send_master \<and> active_master_index s \<ge> seq_size (active_master s)"

lemma illegals_complete:
  "h_state s = passive_receive_master \<Longrightarrow> illegals (passive_master_complete s) = illegals s"
  "h_state s = passive_receive_slave \<Longrightarrow> illegals (passive_slave_complete s) = illegals s"
  "h_state s = active_receive_slave \<Longrightarrow> illegals (active_slave_complete s) = illegals s"
  by (simp_all add: passive_master_complete_def passive_slave_complete_def active_slave_complete_def
    reject_slave_def illegals_transitionTo split_beta Let_def)

lemma illegals_store [simp]:
  "illegals (store_passive_master b s) = illegals s" "h_state (store_passive_master b s) = h_state s"
  "illegals (store_passive_slave b s) = illegals s" "h_state (store_passive_slave b s) = h_state s"
  "illegals (store_active_slave b s) = illegals s" "h_state (store_active_slave b s) = h_state s"
  by (simp_all add: store_passive_master_def store_passive_slave_def store_active_slave_def Let_def)

lemma state_handlers_legal:
  assumes "\<not> index_guard s"
  shows "illegals (state_handlers (h_state s) b s) = illegals s"
  using assms
  by (cases "h_state s")
    (simp_all add: index_guard_def passiveReceiveMaster_def passiveReceiveMasterAcknowledge_def
      passiveReceiveSlave_def passiveReceiveSlaveAcknowledge_def reactiveSendMasterPositiveAcknowledge_def
      reactiveSendMasterNegativeAcknowledge_def reactiveSendSlave_def reactiveReceiveSlaveAcknowledge_def
      h_requestBus_def request_won_def request_error_def request_lost_def activeSendMaster_def
      activeReceiveMasterAcknowledge_def finish_active_def reject_slave_def activeReceiveSlave_def
      activeSendSlavePositiveAcknowledge_def activeSendSlaveNegativeAcknowledge_def releaseBus_def
      illegals_transitionTo illegals_complete Let_def split: RequestResult.split, auto)

lemma timing_state [simp]: "h_state (record_timing info s) = h_state s"
  by (simp add: record_timing_def mark_ends_def mark_begins_def updateHandler_def)

lemma run_legal:
  assumes "\<not> index_guard s"
  shows "illegals (handler_run info s) = illegals s"
proof -
  define u where "u = (record_timing info (s\<lparr>last_result := bi_result info\<rparr>))\<lparr>pending_write := None\<rparr>"
  have u: "illegals u = illegals s" "h_state u = h_state s" "\<not> index_guard u"
    using assms by (simp_all add: u_def record_timing_def mark_ends_def mark_begins_def updateHandler_def
      update_mon_def illegals_def index_guard_def)
  have "illegals (flush_write v) = illegals v" for v
    by (simp add: flush_write_def emit_def illegals_def monitor_ops illegal_def split: option.split)
  then show ?thesis
    using state_handlers_legal [OF u(3), of "bi_byte info"] u
    by (simp add: handler_run_def u_def [symmetric] Let_def)
qed

section \<open>Reads beyond the end of a buffer\<close>

text \<open>
  \<open>past_end\<close> stands for the bytes a buffer holds behind its last element. An operation that
  never reads them commutes with replacing them.
\<close>

definition set_past :: "(nat \<Rightarrow> u8) \<Rightarrow> handler \<Rightarrow> handler" where
  "set_past f s = s\<lparr>past_end := f\<rparr>"

named_theorems past_pull

lemma past_fields [simp]:
  "h_state (set_past f s) = h_state s" "rq_state (set_past f s) = rq_state s"
  "last_result (set_past f s) = last_result s" "pending_write (set_past f s) = pending_write s"
  "has_bus (set_past f s) = has_bus s" "protocol_callback (set_past f s) = protocol_callback s"
  "won_callback (set_past f s) = won_callback s" "lost_callback (set_past f s) = lost_callback s"
  "reactive_callback (set_past f s) = reactive_callback s" "external_callback (set_past f s) = external_callback s"
  "source_address (set_past f s) = source_address s" "target_address (set_past f s) = target_address s"
  "passive_telegram (set_past f s) = passive_telegram s" "passive_master (set_past f s) = passive_master s"
  "passive_master_dbx (set_past f s) = passive_master_dbx s"
  "passive_master_repeated (set_past f s) = passive_master_repeated s"
  "passive_slave (set_past f s) = passive_slave s" "passive_slave_dbx (set_past f s) = passive_slave_dbx s"
  "passive_slave_index (set_past f s) = passive_slave_index s"
  "passive_slave_repeated (set_past f s) = passive_slave_repeated s"
  "active_message (set_past f s) = active_message s" "active_telegram (set_past f s) = active_telegram s"
  "active_master (set_past f s) = active_master s" "active_master_index (set_past f s) = active_master_index s"
  "active_master_repeated (set_past f s) = active_master_repeated s"
  "active_slave (set_past f s) = active_slave s" "active_slave_dbx (set_past f s) = active_slave_dbx s"
  "active_slave_repeated (set_past f s) = active_slave_repeated s" "measure_sync (set_past f s) = measure_sync s"
  "past_end (set_past f s) = f"
  by (simp_all add: set_past_def)

lemma past_update [past_pull]:
  "(set_past f s)\<lparr>passive_telegram := a1\<rparr> = set_past f (s\<lparr>passive_telegram := a1\<rparr>)"
  "(set_past f s)\<lparr>passive_master := a2\<rparr> = set_past f (s\<lparr>passive_master := a2\<rparr>)"
  "(set_past f s)\<lparr>passive_master_dbx := a3\<rparr> = set_past f (s\<lparr>passive_master_dbx := a3\<rparr>)"
  "(set_past f s)\<lparr>passive_master_repeated := a4\<rparr> = set_past f (s\<lparr>passive_master_repeated := a4\<rparr>)"
  "(set_past f s)\<lparr>passive_slave := a5\<rparr> = set_past f (s\<lparr>passive_slave := a5\<rparr>)"
  "(set_past f s)\<lparr>passive_slave_dbx := a6\<rparr> = set_past f (s\<lparr>passive_slave_dbx := a6\<rparr>)"
  "(set_past f s)\<lparr>passive_slave_index := a7\<rparr> = set_past f (s\<lparr>passive_slave_index := a7\<rparr>)"
  "(set_past f s)\<lparr>passive_slave_repeated := a8\<rparr> = set_past f (s\<lparr>passive_slave_repeated := a8\<rparr>)"
  "(set_past f s)\<lparr>active_message := a9\<rparr> = set_past f (s\<lparr>active_message := a9\<rparr>)"
  "(set_past f s)\<lparr>active_telegram := b1\<rparr> = set_past f (s\<lparr>active_telegram := b1\<rparr>)"
  "(set_past f s)\<lparr>active_master := b2\<rparr> = set_past f (s\<lparr>active_master := b2\<rparr>)"
  "(set_past f s)\<lparr>active_master_index := b3\<rparr> = set_past f (s\<lparr>active_master_index := b3\<rparr>)"
  "(set_past f s)\<lparr>active_master_repeated := b4\<rparr> = set_past f (s\<lparr>active_master_repeated := b4\<rparr>)"
  "(set_past f s)\<lparr>active_slave := b5\<rparr> = set_past f (s\<lparr>active_slave := b5\<rparr>)"
  "(set_past f s)\<lparr>active_slave_dbx := b6\<rparr> = set_past f (s\<lparr>active_slave_dbx := b6\<rparr>)"
  "(set_past f s)\<lparr>active_slave_repeated := b7\<rparr> = set_past f (s\<lparr>active_slave_repeated := b7\<rparr>)"
  "(set_past f s)\<lparr>h_state := b8\<rparr> = set_past f (s\<lparr>h_state := b8\<rparr>)"
  "(set_past f s)\<lparr>pending_write := b9\<rparr> = set_past f (s\<lparr>pending_write := b9\<rparr>)"
  "(set_past f s)\<lparr>last_result := c1\<rparr> = set_past f (s\<lparr>last_result := c1\<rparr>)"
  "(set_past f s)\<lparr>last_point := c2\<rparr> = set_past f (s\<lparr>last_point := c2\<rparr>)"
  "(set_past f s)\<lparr>measure_sync := c3\<rparr> = set_past f (s\<lparr>measure_sync := c3\<rparr>)"
  "(if c then set_past f s else set_past f t) = set_past f (if c then s else t)"
  by (simp_all add: set_past_def)

lemma past_reports [past_pull]:
  "update_mon g (set_past f s) = set_past f (update_mon g s)"
  "update_mon_clk h (set_past f s) = set_past f (update_mon_clk h s)"
  "update_mon_wall k (set_past f s) = set_past f (update_mon_wall k s)"
  "emit x (set_past f s) = set_past f (emit x s)"
  "callOnTelegram mt tt mv sv (set_past f s) = set_past f (callOnTelegram mt tt mv sv s)"
  "callOnError lv e st mv sv (set_past f s) = set_past f (callOnError lv e st mv sv s)"
  "callOnBusRequestWon (set_past f s) = set_past f (callOnBusRequestWon s)"
  "callOnBusRequestLost (set_past f s) = set_past f (callOnBusRequestLost s)"
  by (simp_all add: set_past_def emit_def callOnTelegram_def callOnError_def callOnBusRequestWon_def
    callOnBusRequestLost_def monitor_ops mon_reads_def now_def Let_def)

lemma past_calls [past_pull]:
  "callWrite b (set_past f s) = set_past f (callWrite b s)"
  "callPassiveReset (set_past f s) = set_past f (callPassiveReset s)"
  "callActiveReset (set_past f s) = set_past f (callActiveReset s)"
  "passive_error lv e st (set_past f s) = set_past f (passive_error lv e st s)"
  "active_error lv e st (set_past f s) = set_past f (active_error lv e st s)"
  "passive_report mt tt (set_past f s) = set_past f (passive_report mt tt s)"
  "active_report tt (set_past f s) = set_past f (active_report tt s)"
  by (simp_all add: callWrite_def callPassiveReset_def callActiveReset_def passive_error_def
    active_error_def passive_report_def active_report_def past_pull)

lemma past_bumps [past_pull]:
  "bump_invalid (set_past f s) = set_past f (bump_invalid s)"
  "bump_error_passive (set_past f s) = set_past f (bump_error_passive s)"
  "bump_error_reactive (set_past f s) = set_past f (bump_error_reactive s)"
  "bump_error_active (set_past f s) = set_past f (bump_error_active s)"
  "bump_messages_passive (set_past f s) = set_past f (bump_messages_passive s)"
  "bump_messages_reactive (set_past f s) = set_past f (bump_messages_reactive s)"
  "bump_messages_active (set_past f s) = set_past f (bump_messages_active s)"
  by (simp_all add: bump_defs logs past_pull)

lemma past_transitionTo [past_pull]: "h_transitionTo st (set_past f s) = set_past f (h_transitionTo st s)"
  by (simp add: h_transitionTo_def logs past_pull Let_def)

lemma past_checks [past_pull]:
  "checkPassiveBuffers (set_past f s) = set_past f (checkPassiveBuffers s)"
  "checkActiveBuffers (set_past f s) = set_past f (checkActiveBuffers s)"
  "snd (requestBus a e (set_past f s)) = set_past f (snd (requestBus a e s))"
  "finish_active (set_past f s) = set_past f (finish_active s)"
  "reject_slave (set_past f s) = set_past f (reject_slave s)"
  by (simp_all add: checkPassiveBuffers_def checkActiveBuffers_def finish_active_def reject_slave_def
    logs past_pull Let_def)
    (simp add: requestBus_def busAvailable_def set_past_def monitor_ops Let_def)

text \<open>Where a look-up is not guarded by the code, the buffer is known to hold the byte.\<close>

definition safe :: "handler \<Rightarrow> bool" where
  "safe s \<longleftrightarrow>
     (h_state s = active_send_master \<longrightarrow> active_master_index s < seq_size (active_master s)) \<and>
     (h_state s = active_receive_master_acknowledge \<longrightarrow> 0 < seq_size (active_master s)) \<and>
     (h_state s \<in> {reactive_send_slave, reactive_receive_slave_acknowledge} \<longrightarrow> 0 < seq_size (passive_slave s))"

lemma seq_index_in: "i < seq_size q \<Longrightarrow> seq_index f q i = sq_bytes q ! i"
  by (simp add: seq_index_def)

lemma unstuff_half: "length xs \<le> 2 * length (unstuff xs)"
  by (induction xs rule: unstuff.induct) (auto split: option.split)

lemma snd_createMaster [simp]: "snd (createMaster q t) = reduce q"
  by (simp add: createMaster_def Let_def)

lemma reduce_size: "6 \<le> seq_size q \<Longrightarrow> 1 < seq_size (reduce q)"
  using unstuff_half [of "sq_bytes q"] by (simp add: reduce_eq seq_size_def)

lemma past_store [past_pull]:
  "store_passive_master b (set_past f s) = set_past f (store_passive_master b s)"
  "store_passive_slave b (set_past f s) = set_past f (store_passive_slave b s)"
  "store_active_slave b (set_past f s) = set_past f (store_active_slave b s)"
  by (simp_all add: store_passive_master_def store_passive_slave_def store_active_slave_def
    past_pull seq_index_in Let_def)

lemma past_callOnReactive [simp]: "callOnReactive mv sr (set_past f s) = callOnReactive mv sr s"
  by (simp add: callOnReactive_def)

lemma past_complete:
  "6 \<le> seq_size (passive_master s) \<Longrightarrow>
    passive_master_complete (set_past f s) = set_past f (passive_master_complete s)"
  "passive_slave_complete (set_past f s) = set_past f (passive_slave_complete s)"
  "active_slave_complete (set_past f s) = set_past f (active_slave_complete s)"
  using reduce_size [of "passive_master s"]
  by (simp_all add: passive_master_complete_def passive_slave_complete_def active_slave_complete_def
    past_pull seq_index_in Let_def split_beta cong: if_cong split del: if_split)

lemma past_request [past_pull]:
  "request_won (set_past f s) = set_past f (request_won s)"
  "request_error (set_past f s) = set_past f (request_error s)"
  "request_lost b (set_past f s) = set_past f (request_lost b s)"
  by (simp_all add: request_won_def request_error_def request_lost_def past_pull seq_index_in Let_def
    cong: if_cong)

lemma past_state_handlers:
  assumes "safe s"
  shows "state_handlers (h_state s) b (set_past f s) = set_past f (state_handlers (h_state s) b s)"
proof -
  have "passiveReceiveMaster b (set_past f s) = set_past f (passiveReceiveMaster b s)" for b
    by (simp add: passiveReceiveMaster_def past_pull past_complete Let_def cong: if_cong)
  moreover have "h_requestBus b (set_past f s) = set_past f (h_requestBus b s)" for b
    by (simp add: h_requestBus_def past_pull split: RequestResult.split)
  ultimately show ?thesis
    using assms
    by (cases "h_state s")
      (simp_all add: safe_def passiveReceiveMasterAcknowledge_def
      passiveReceiveSlave_def passiveReceiveSlaveAcknowledge_def reactiveSendMasterPositiveAcknowledge_def
      reactiveSendMasterNegativeAcknowledge_def reactiveSendSlave_def reactiveReceiveSlaveAcknowledge_def
      activeSendMaster_def activeReceiveMasterAcknowledge_def activeReceiveSlave_def
      activeSendSlavePositiveAcknowledge_def activeSendSlaveNegativeAcknowledge_def releaseBus_def
      past_pull past_complete seq_index_in Let_def cong: if_cong)
qed

lemma past_run:
  assumes "safe s"
  shows "handler_run info (set_past f s) = set_past f (handler_run info s)"
proof -
  define u where "u = (record_timing info (s\<lparr>last_result := bi_result info\<rparr>))\<lparr>pending_write := None\<rparr>"
  have pre: "(record_timing info ((set_past f s)\<lparr>last_result := bi_result info\<rparr>))\<lparr>pending_write := None\<rparr>
      = set_past f u"
    by (simp add: u_def record_timing_def mark_ends_def mark_begins_def logs past_pull cong: if_cong)
  have u: "safe u" "h_state u = h_state s"
    using assms by (simp_all add: u_def record_timing_def mark_ends_def mark_begins_def updateHandler_def safe_def)
  have "flush_write (set_past f v) = set_past f (flush_write v)" for v
    by (cases "pending_write v") (simp_all add: flush_write_def past_pull)
  then show ?thesis
    using past_state_handlers [OF u(1), of "bi_byte info" f] u(2) pre
    by (simp add: handler_run_def u_def [symmetric] Let_def)
qed

section \<open>The invariant\<close>

lemma transitionTo_state:
  "h_state (h_transitionTo next s) =
     (if next = h_state s \<or> next \<in> set (handler_successors (h_state s)) then next else passive_receive_master)"
  by (auto simp: h_transitionTo_def handler_allowed_iff logs Let_def)

lemma transitionTo_frame [simp]:
  "active_master (h_transitionTo next s) = active_master s"
  "active_master_index (h_transitionTo next s) = active_master_index s"
  "passive_slave (h_transitionTo next s) = passive_slave s"
  "passive_slave_index (h_transitionTo next s) = passive_slave_index s"
  by (simp_all add: h_transitionTo_def logs Let_def)

lemma call_frames [simp]:
  "active_master (callWrite b s) = active_master s" "active_master_index (callWrite b s) = active_master_index s"
  "passive_slave (callWrite b s) = passive_slave s" "passive_slave_index (callWrite b s) = passive_slave_index s"
  "active_master (callPassiveReset s) = active_master s" "active_master_index (callPassiveReset s) = active_master_index s"
  "passive_slave (callActiveReset s) = passive_slave s" "passive_slave_index (callActiveReset s) = passive_slave_index s"
  by (simp_all add: callWrite_def callPassiveReset_def callActiveReset_def)

text \<open>The states whose look-ups the invariant is about.\<close>

definition unguarded :: "HandlerState \<Rightarrow> bool" where
  "unguarded st \<longleftrightarrow> st \<in> {active_send_master, active_receive_master_acknowledge, reactive_send_slave,
     reactive_receive_slave_acknowledge}"

lemma safeI: "\<not> unguarded (h_state s) \<Longrightarrow> safe s"
  by (auto simp: safe_def unguarded_def)

lemma complete_unguarded:
  "h_state s = passive_receive_master \<Longrightarrow> \<not> unguarded (h_state (passive_master_complete s))"
  "h_state s = passive_receive_slave \<Longrightarrow> \<not> unguarded (h_state (passive_slave_complete s))"
  "h_state s = active_receive_slave \<Longrightarrow> \<not> unguarded (h_state (active_slave_complete s))"
  by (simp_all add: passive_master_complete_def passive_slave_complete_def active_slave_complete_def
    reject_slave_def transitionTo_state unguarded_def split_beta Let_def)

lemma unguarded_passive:
  "h_state s = passive_receive_master \<Longrightarrow> \<not> unguarded (h_state (passiveReceiveMaster b s))"
  "h_state s = passive_receive_slave \<Longrightarrow> \<not> unguarded (h_state (passiveReceiveSlave b s))"
  "h_state s = active_receive_slave \<Longrightarrow> \<not> unguarded (h_state (activeReceiveSlave b s))"
proof -
  assume "h_state s = passive_receive_master"
  moreover from this have "h_state (checkActiveBuffers (checkPassiveBuffers s)) = passive_receive_master"
    by (simp add: checkActiveBuffers_def checkPassiveBuffers_def logs Let_def)
  moreover have "h_state (snd (requestBus a e u)) = h_state u" for a e and u :: handler
    by (simp add: requestBus_def updateRequest_def Let_def)
  ultimately show "\<not> unguarded (h_state (passiveReceiveMaster b s))"
    by (simp add: passiveReceiveMaster_def complete_unguarded Let_def) (simp add: unguarded_def)
qed (simp_all add: passiveReceiveSlave_def activeReceiveSlave_def complete_unguarded reject_slave_def
    transitionTo_state Let_def, simp_all add: unguarded_def)

lemma safe_state_handlers:
  assumes "safe s"
  shows "safe (state_handlers (h_state s) b s)"
proof (cases "h_state s \<in> {passive_receive_master, passive_receive_slave, active_receive_slave}")
  case True
  then show ?thesis using unguarded_passive by (auto intro: safeI)
next
  case False
  then show ?thesis
    using assms
    by (cases "h_state s")
      (simp_all add: safe_def passiveReceiveMasterAcknowledge_def
      passiveReceiveSlaveAcknowledge_def reactiveSendMasterPositiveAcknowledge_def
      reactiveSendMasterNegativeAcknowledge_def reactiveSendSlave_def reactiveReceiveSlaveAcknowledge_def
      h_requestBus_def request_won_def request_error_def request_lost_def
      activeSendMaster_def activeReceiveMasterAcknowledge_def finish_active_def
      activeSendSlavePositiveAcknowledge_def activeSendSlaveNegativeAcknowledge_def releaseBus_def
      transitionTo_state Let_def split: RequestResult.split)
qed

lemma safe_cong:
  "\<lbrakk>h_state t = h_state s; active_master t = active_master s; active_master_index t = active_master_index s;
    passive_slave t = passive_slave s\<rbrakk> \<Longrightarrow> safe t \<longleftrightarrow> safe s"
  by (simp add: safe_def)

lemma safe_run:
  assumes "safe s"
  shows "safe (handler_run info s)"
proof -
  define u where "u = (record_timing info (s\<lparr>last_result := bi_result info\<rparr>))\<lparr>pending_write := None\<rparr>"
  have u: "safe u" "h_state u = h_state s"
    using assms by (simp_all add: u_def record_timing_def mark_ends_def mark_begins_def updateHandler_def safe_def)
  have "safe (flush_write v) \<longleftrightarrow> safe v" for v
    by (rule safe_cong) (simp_all add: flush_write_def emit_def split: option.split)
  then show ?thesis
    using safe_state_handlers [OF u(1), of "bi_byte info"] u(2)
    by (simp add: handler_run_def u_def [symmetric] Let_def)
qed

lemma more_fields:
  assumes "request.more t = request.more s"
  shows "h_state t = h_state s" "active_master t = active_master s"
    "active_master_index t = active_master_index s" "passive_slave t = passive_slave s"
    "active_message t = active_message s" "external_callback t = external_callback s"
  using assms by (cases s, cases t, simp)+

lemma safe_more: "request.more t = request.more s \<Longrightarrow> safe t \<longleftrightarrow> safe s"
  by (rule safe_cong) (rule more_fields; assumption)+

lemma safe_completed:
  assumes "safe s"
  shows "safe (request_completed s)"
proof -
  define u where "u = (let s1 = s\<lparr>bus_request := False\<rparr> in if rq_state s1 = observe then rq_transitionTo first s1 else s1)"
  have "request.more u = request.more s" by (simp add: u_def Let_def)
  then have u: "safe u" using assms safe_more by blast
  have "safe (onBusRequested u)"
    using u by (simp add: onBusRequested_def safe_def transitionTo_state)
  moreover have "safe (emit ExternalRequested u)"
    using u by (simp add: emit_def safe_def)
  moreover have "request_completed s \<in> {emit ExternalRequested u, u, onBusRequested u}"
    by (auto simp: request_completed_def busRequestCompleted_def u_def Let_def)
  ultimately show ?thesis using u by auto
qed

lemma past_request_fields [simp]:
  "lock_counter (set_past f s) = lock_counter s" "lock_counter_max (set_past f s) = lock_counter_max s"
  "bytes_since_syn (set_past f s) = bytes_since_syn s" "request_address (set_past f s) = request_address s"
  "bus_request (set_past f s) = bus_request s" "external_bus_request (set_past f s) = external_bus_request s"
  "rq_result (set_past f s) = rq_result s"
  by (simp_all add: set_past_def)

lemma past_request_update [past_pull]:
  "(set_past f s)\<lparr>lock_counter := a1\<rparr> = set_past f (s\<lparr>lock_counter := a1\<rparr>)"
  "(set_past f s)\<lparr>bytes_since_syn := a2\<rparr> = set_past f (s\<lparr>bytes_since_syn := a2\<rparr>)"
  "(set_past f s)\<lparr>bus_request := a3\<rparr> = set_past f (s\<lparr>bus_request := a3\<rparr>)"
  "(set_past f s)\<lparr>rq_state := a4\<rparr> = set_past f (s\<lparr>rq_state := a4\<rparr>)"
  "(set_past f s)\<lparr>rq_result := a5\<rparr> = set_past f (s\<lparr>rq_result := a5\<rparr>)"
  by (simp_all add: set_past_def)

lemma past_request_transition [past_pull]:
  "rq_transitionTo st (set_past f s) = set_past f (rq_transitionTo st s)"
  by (simp add: rq_transitionTo_def logs past_pull Let_def)

lemma past_request_run [past_pull]:
  "request_run b (set_past f s) = (fst (request_run b s), set_past f (snd (request_run b s)))"
  by (cases "rq_state s") (simp_all add: request_step_defs updateRequest_def past_pull Let_def)

lemma past_completed [past_pull]: "request_completed (set_past f s) = set_past f (request_completed s)"
proof -
  have "onBusRequested (set_past f s) = set_past f (onBusRequested s)" for s
    by (simp add: onBusRequested_def past_pull)
  then show ?thesis
    by (simp add: request_completed_def busRequestCompleted_def past_pull Let_def)
qed

lemma safe_bus_step:
  assumes "safe s" "\<not> ev_start_bit ev"
  shows "safe (bus_step ev s)"
    and "bus_step ev (set_past f s) = set_past f (bus_step ev s)"
proof -
  define u where "u = (if ev_bus_request ev then request_completed s else s)"
  have u: "safe u" using assms(1) safe_completed by (simp add: u_def)
  have v: "safe (snd (request_run b u))" for b
    using u safe_more [OF request_run_frame(1)] by blast
  show "safe (bus_step ev s)"
    using assms(2) v by (simp add: bus_step_def onBusEvent_def u_def [symmetric] split_beta Let_def safe_run)
  have "(if ev_bus_request ev then request_completed (set_past f s) else set_past f s) = set_past f u"
    by (simp add: u_def past_pull)
  then show "bus_step ev (set_past f s) = set_past f (bus_step ev s)"
    using assms(2) past_run [OF v]
    by (simp add: bus_step_def onBusEvent_def u_def [symmetric] past_pull split_beta Let_def)
qed

lemma safe_feed:
  assumes "safe s" "\<forall>ev \<in> set evs. \<not> ev_start_bit ev"
  shows "safe (feed evs s) \<and> feed evs (set_past f s) = set_past f (feed evs s)"
  using assms by (induction evs arbitrary: s) (simp_all add: safe_bus_step)

section \<open>Properties\<close>

text \<open>
  C6: No state function ever asks for a transition outside the matrix: unless one of the two
  index checks fires, a step reports no illegal transition.
\<close>

theorem no_illegal_transition:
  assumes "\<not> index_guard s"
  shows "illegals (handler_run info s) = illegals s"
  by (rule run_legal [OF assms])

theorem no_illegal_transition_witness:
  "\<not> index_guard (handler_new 0x31 True (\<lambda>_. 0) (request_new
      \<lparr>clk = \<lambda>_. 0, clk_reads = 0, wall = \<lambda>_. 0, wall_reads = 0, mon = None\<rparr>))
   \<and> illegals (handler_run (\<lparr>bi_byte = 0x10, bi_handler_state = passive_receive_master, bi_request_state = observe,
       bi_result = observe_data, bi_lock_counter = 0, bi_timestamp = 0\<rparr>)
      (handler_new 0x31 True (\<lambda>_. 0) (request_new
        \<lparr>clk = \<lambda>_. 0, clk_reads = 0, wall = \<lambda>_. 0, wall_reads = 0, mon = None\<rparr>))) = []"
proof -
  let ?s = "handler_new 0x31 True (\<lambda>_. 0) (request_new
      \<lparr>clk = \<lambda>_. 0, clk_reads = 0, wall = \<lambda>_. 0, wall_reads = 0, mon = None\<rparr>)"
  have "\<not> index_guard ?s" "illegals ?s = []"
    by (simp_all add: index_guard_def illegals_def handler_new_def setSourceAddress_def request_new_def
      env.defs request.defs handler.defs now_def Let_def)
  then show ?thesis using no_illegal_transition by simp
qed

text \<open>
  C7: As long as no start-bit error interferes, no byte behind the end of a buffer is ever read:
  whatever those bytes are, the handler does the same, and the invariant that ensures it is
  kept along every sequence of bus events.
\<close>

theorem reads_in_bounds:
  assumes "safe s" "\<forall>ev \<in> set evs. \<not> ev_start_bit ev"
  shows "safe (feed evs s) \<and> feed evs (s\<lparr>past_end := f\<rparr>) = (feed evs s)\<lparr>past_end := f\<rparr>"
  using safe_feed [OF assms] by (simp add: set_past_def)

theorem reads_in_bounds_witness:
  "safe (handler_new 0x31 True (\<lambda>_. 0) (request_new
      \<lparr>clk = \<lambda>_. 0, clk_reads = 0, wall = \<lambda>_. 0, wall_reads = 0, mon = None\<rparr>))
   \<and> safe (feed [\<lparr>ev_byte = 0x10, ev_bus_request = False, ev_start_bit = False, ev_timestamp = 5\<rparr>]
      (handler_new 0x31 True (\<lambda>_. 0) (request_new
        \<lparr>clk = \<lambda>_. 0, clk_reads = 0, wall = \<lambda>_. 0, wall_reads = 0, mon = None\<rparr>)))"
proof -
  let ?s = "handler_new 0x31 True (\<lambda>_. 0) (request_new
      \<lparr>clk = \<lambda>_. 0, clk_reads = 0, wall = \<lambda>_. 0, wall_reads = 0, mon = None\<rparr>)"
  have s: "safe ?s"
    by (simp add: safe_def handler_new_def setSourceAddress_def request_new_def
      env.defs request.defs handler.defs now_def Let_def)
  have "\<forall>ev \<in> set [\<lparr>ev_byte = 0x10, ev_bus_request = False, ev_start_bit = False, ev_timestamp = 5\<rparr>].
      \<not> ev_start_bit ev" by simp
  from reads_in_bounds [OF s this] s show ?thesis by blast
qed

text \<open>
  C37: A start-bit error clears the buffers but not the state. A handler that waits for the
  acknowledgement of its master part then answers a NAK with the byte left over in the
  cleared buffer and goes on as if it were sending.
\<close>

theorem start_bit_stale_write:
  assumes "mon s = None" "rq_state s = observe" "h_state s = active_receive_master_acknowledge" "has_bus s"
    "ev_byte ev = nak" "ev_start_bit ev" "\<not> ev_bus_request ev"
  shows "outputs (bus_step ev s) = outputs s @ [BusWrite (past_end s 0)]
    \<and> h_state (bus_step ev s) = active_send_master \<and> sq_bytes (active_master (bus_step ev s)) = []"
proof -
  define u where "u = start_bit s"
  have u: "u = (callPassiveReset (callActiveReset (s\<lparr>bus_request := False\<rparr>)))\<lparr>rq_result := observe_syn\<rparr>"
    using assms by (simp add: u_def start_bit_def startBit_def onStartBit_def rq_transitionTo_def
      callPassiveReset_def callActiveReset_def Let_def)
  then have f: "mon u = None" "rq_state u = observe" "h_state u = active_receive_master_acknowledge"
    "has_bus u" "active_master u = seq_nil" "\<not> active_master_repeated u" "past_end u = past_end s"
    "outputs u = outputs s"
    using assms by (simp_all add: callPassiveReset_def callActiveReset_def)
  have nak: "nak \<noteq> ack" "nak \<noteq> syn" by (simp_all add: symbol_defs)
  have "bus_step ev s = bus_step (ev\<lparr>ev_start_bit := False\<rparr>) u"
    using assms by (simp add: bus_step_def onBusEvent_def u_def)
  also have "\<dots> = flush_write (activeReceiveMasterAcknowledge nak (observed (ev\<lparr>ev_start_bit := False\<rparr>) u))"
    using observe_step [OF f(1,2), of "ev\<lparr>ev_start_bit := False\<rparr>"] f assms by (simp add: plain_def)
  finally show ?thesis
    using f nak by (simp add: activeReceiveMasterAcknowledge_def observed_def step_fields_def seq_index_def
      seq_size_def callWrite_def silent_transitionTo silent_flush emit_def Let_def)
qed

theorem start_bit_stale_write_witness:
  "outputs (bus_step \<lparr>ev_byte = nak, ev_bus_request = False, ev_start_bit = True, ev_timestamp = 0\<rparr>
     ((handler_new 0x31 True (\<lambda>_. 0x55) (request_new
        \<lparr>clk = \<lambda>_. 0, clk_reads = 0, wall = \<lambda>_. 0, wall_reads = 0, mon = None\<rparr>))
       \<lparr>h_state := active_receive_master_acknowledge\<rparr>)) = [BusWrite 0x55]"
proof -
  let ?s = "(handler_new 0x31 True (\<lambda>_. 0x55) (request_new
        \<lparr>clk = \<lambda>_. 0, clk_reads = 0, wall = \<lambda>_. 0, wall_reads = 0, mon = None\<rparr>))
       \<lparr>h_state := active_receive_master_acknowledge\<rparr>"
  have "mon ?s = None" "rq_state ?s = observe" "h_state ?s = active_receive_master_acknowledge" "has_bus ?s"
      "outputs ?s = []" "past_end ?s 0 = 0x55"
    by (simp_all add: handler_new_def setSourceAddress_def request_new_def
      env.defs request.defs handler.defs now_def Let_def)
  then show ?thesis
    using start_bit_stale_write [of ?s "\<lparr>ev_byte = nak, ev_bus_request = False, ev_start_bit = True, ev_timestamp = 0\<rparr>"]
    by simp
qed

end
