(* ===== verification/Heap_Queue.thy ===== *)
theory Heap_Queue
  imports Ebus_Prelude "HOL-Library.Multiset"
begin

text \<open>
  \<open>std::push_heap\<close> and \<open>std::pop_heap\<close> on a vector, as the scheduler uses them for its
  queue (\<open>src/ebus/app/scheduler.cpp\<close>). \<open>push_heap\<close> takes a vector whose last element is
  new and moves it up towards the front; \<open>pop_heap\<close> exchanges the first and the last
  element and moves the new first element down among the others. The standard fixes
  only that the result is a heap, which the two definitions are shown to produce; with a
  comparison that is total on the queued items the order of the removals does not depend
  on the layout. The locale \<open>priority_queue\<close> is the contract of such a queue.
\<close>

definition parent :: "nat \<Rightarrow> nat" where
  "parent i = (i - 1) div 2"

definition swap_at :: "nat \<Rightarrow> nat \<Rightarrow> 'a list \<Rightarrow> 'a list" where
  "swap_at i j xs = xs[i := xs ! j, j := xs ! i]"

function sift_up :: "('a \<Rightarrow> 'a \<Rightarrow> bool) \<Rightarrow> nat \<Rightarrow> 'a list \<Rightarrow> 'a list" where
  "sift_up lt i xs =
     (if 0 < i \<and> lt (xs ! parent i) (xs ! i) then sift_up lt (parent i) (swap_at i (parent i) xs) else xs)"
  by pat_completeness auto
termination by (relation "measure (\<lambda>(lt, i, xs). i)") (auto simp: parent_def)

definition larger_child :: "('a \<Rightarrow> 'a \<Rightarrow> bool) \<Rightarrow> nat \<Rightarrow> nat \<Rightarrow> 'a list \<Rightarrow> nat" where
  "larger_child lt n i xs =
     (if 2 * i + 2 < n \<and> lt (xs ! (2 * i + 1)) (xs ! (2 * i + 2)) then 2 * i + 2 else 2 * i + 1)"

function sift_down :: "('a \<Rightarrow> 'a \<Rightarrow> bool) \<Rightarrow> nat \<Rightarrow> nat \<Rightarrow> 'a list \<Rightarrow> 'a list" where
  "sift_down lt n i xs =
     (let c = larger_child lt n i xs
      in if c < n \<and> lt (xs ! i) (xs ! c) then sift_down lt n c (swap_at i c xs) else xs)"
  by pat_completeness auto
termination by (relation "measure (\<lambda>(lt, n, i, xs). n - i)") (auto simp: larger_child_def split: if_splits)

declare sift_up.simps [simp del] sift_down.simps [simp del]

definition push_heap :: "('a \<Rightarrow> 'a \<Rightarrow> bool) \<Rightarrow> 'a list \<Rightarrow> 'a list" where
  "push_heap lt xs = sift_up lt (length xs - 1) xs"

definition pop_heap :: "('a \<Rightarrow> 'a \<Rightarrow> bool) \<Rightarrow> 'a list \<Rightarrow> 'a list" where
  "pop_heap lt xs =
     (if length xs \<le> 1 then xs else sift_down lt (length xs - 1) 0 (swap_at 0 (length xs - 1) xs))"

text \<open>The heap property of the first \<open>n\<close> elements: no element is below one of its children.\<close>

definition is_heap :: "('a \<Rightarrow> 'a \<Rightarrow> bool) \<Rightarrow> nat \<Rightarrow> 'a list \<Rightarrow> bool" where
  "is_heap lt n xs \<longleftrightarrow> (\<forall>j < n. 0 < j \<longrightarrow> \<not> lt (xs ! parent j) (xs ! j))"

section \<open>Exchanging two elements\<close>

lemma swap_at_simps [simp]:
  "length (swap_at i j xs) = length xs"
  "i < length xs \<Longrightarrow> j < length xs \<Longrightarrow> mset (swap_at i j xs) = mset xs"
  by (simp_all add: swap_at_def mset_swap)

lemma nth_swap_at:
  "i < length xs \<Longrightarrow> j < length xs \<Longrightarrow>
    swap_at i j xs ! k = (if k = j then xs ! i else if k = i then xs ! j else xs ! k)"
  by (auto simp: swap_at_def nth_list_update)

lemma parent_less [simp]: "0 < i \<Longrightarrow> parent i < i"
  by (auto simp: parent_def)

lemma parent_eq_iff: "0 < j \<Longrightarrow> parent j = i \<longleftrightarrow> j = 2 * i + 1 \<or> j = 2 * i + 2"
  by (auto simp: parent_def)

lemma sift_up_mset: "i < length xs \<Longrightarrow> mset (sift_up lt i xs) = mset xs"
proof (induction lt i xs rule: sift_up.induct)
  case (1 lt i xs)
  then show ?case
    using less_trans [OF parent_less] by (subst sift_up.simps) auto
qed

lemma sift_down_frame:
  "n \<le> length xs \<Longrightarrow> i < n \<Longrightarrow> mset (sift_down lt n i xs) = mset xs
     \<and> (\<forall>k. n \<le> k \<longrightarrow> sift_down lt n i xs ! k = xs ! k)"
proof (induction lt n i xs rule: sift_down.induct)
  case (1 lt n i xs)
  then show ?case by (subst (1 2) sift_down.simps) (auto simp: Let_def nth_swap_at)
qed

lemma push_heap_mset: "mset (push_heap lt xs) = mset xs"
  by (cases "xs = []") (simp_all add: push_heap_def sift_up.simps [of _ 0] sift_up_mset)

lemma pop_heap_mset: "mset (pop_heap lt xs) = mset xs"
proof (cases "length xs \<le> 1")
  case False
  then have "length xs - 1 \<le> length (swap_at 0 (length xs - 1) xs)" "0 < length xs - 1" by auto
  moreover have "mset (swap_at 0 (length xs - 1) xs) = mset xs" using False by (intro swap_at_simps(2)) auto
  ultimately show ?thesis using sift_down_frame [of "length xs - 1" _ 0 lt] False by (simp add: pop_heap_def)
qed (simp add: pop_heap_def)

lemmas heap_lengths = mset_eq_length [OF push_heap_mset] mset_eq_length [OF pop_heap_mset]

lemma pop_heap_last: "xs \<noteq> [] \<Longrightarrow> last (pop_heap lt xs) = hd xs"
proof (cases "length xs \<le> 1")
  case False
  assume "xs \<noteq> []"
  from False have "length xs - 1 \<le> length (swap_at 0 (length xs - 1) xs)" "0 < length xs - 1" by auto
  from sift_down_frame [OF this, of lt] have "pop_heap lt xs ! (length xs - 1) = swap_at 0 (length xs - 1) xs ! (length xs - 1)"
    using False by (simp add: pop_heap_def)
  also have "\<dots> = xs ! 0" using False by (subst nth_swap_at) auto
  finally show ?thesis
    using \<open>xs \<noteq> []\<close> heap_lengths(2) [of lt xs] by (metis hd_conv_nth last_conv_nth length_0_conv)
next
  case True
  moreover assume "xs \<noteq> []"
  ultimately have "length xs = 1" by (cases xs) auto
  then show ?thesis by (auto simp: pop_heap_def length_Suc_conv)
qed

section \<open>The heap property\<close>

locale heap_order =
  fixes lt :: "'a \<Rightarrow> 'a \<Rightarrow> bool"
  assumes asym: "lt a b \<Longrightarrow> \<not> lt b a"
    and negtrans: "\<not> lt a b \<Longrightarrow> \<not> lt b c \<Longrightarrow> \<not> lt a c"
begin

lemma heap_front: "is_heap lt n xs \<Longrightarrow> i < n \<Longrightarrow> \<not> lt (xs ! 0) (xs ! i)"
proof (induction i rule: less_induct)
  case (less i)
  show ?case
  proof (cases "i = 0")
    case True
    then show ?thesis using asym by blast
  next
    case False
    then have "\<not> lt (xs ! 0) (xs ! parent i)" using less by (auto intro: less_trans [OF parent_less])
    moreover have "\<not> lt (xs ! parent i) (xs ! i)" using less.prems False by (simp add: is_heap_def)
    ultimately show ?thesis by (rule negtrans)
  qed
qed

definition up_inv :: "nat \<Rightarrow> 'a list \<Rightarrow> bool" where
  "up_inv i xs \<longleftrightarrow> i < length xs
     \<and> (\<forall>j < length xs. 0 < j \<longrightarrow> j \<noteq> i \<longrightarrow> \<not> lt (xs ! parent j) (xs ! j))
     \<and> (\<forall>j < length xs. 0 < j \<longrightarrow> parent j = i \<longrightarrow> 0 < i \<longrightarrow> \<not> lt (xs ! parent i) (xs ! j))"

lemma up_inv_step:
  assumes inv: "up_inv i xs" and i: "0 < i" and lt: "lt (xs ! parent i) (xs ! i)"
  shows "up_inv (parent i) (swap_at i (parent i) xs)"
proof -
  let ?p = "parent i" and ?ys = "swap_at i (parent i) xs"
  have len: "i < length xs" "?p < length xs" "?p \<noteq> i"
    using inv parent_less [OF i] by (auto simp: up_inv_def simp del: parent_less)
  note nth = nth_swap_at [OF len(1,2)]
  have ok: "\<not> lt (xs ! parent j) (xs ! j)" if "j < length xs" "0 < j" "j \<noteq> i" for j
    using inv that by (simp add: up_inv_def)
  have "\<not> lt (?ys ! parent j) (?ys ! j)" if j: "j < length xs" "0 < j" "j \<noteq> ?p" for j
  proof (cases "j = i")
    case True
    then show ?thesis using asym [OF lt] len(3) by (simp add: nth)
  next
    case False
    consider "parent j = ?p" | "parent j = i" | "parent j \<noteq> ?p" "parent j \<noteq> i" by blast
    then show ?thesis
    proof cases
      case 1
      then show ?thesis
        using negtrans [OF asym [OF lt], of "xs ! j"] ok [OF j(1,2) False] False j(3) by (simp add: nth)
    next
      case 2
      then show ?thesis using inv i j False by (simp add: nth up_inv_def len(3) [symmetric])
    next
      case 3
      then show ?thesis using ok [OF j(1,2) False] False j(3) by (simp add: nth)
    qed
  qed
  moreover have "\<not> lt (?ys ! parent ?p) (?ys ! j)" if j: "j < length xs" "0 < j" "parent j = ?p" "0 < ?p" for j
  proof -
    have top: "\<not> lt (xs ! parent ?p) (xs ! ?p)" using ok [OF len(2) j(4) len(3)] .
    have "parent ?p < ?p" using j(4) by simp
    then have far: "parent ?p \<noteq> ?p" "parent ?p \<noteq> i" "j \<noteq> ?p"
      using parent_less [OF i] parent_less [OF j(2)] j(3) by auto
    show ?thesis
      using top negtrans [OF top, of "xs ! j"] ok [OF j(1,2)] j(3) far by (cases "j = i") (simp_all add: nth)
  qed
  ultimately show ?thesis using len by (simp add: up_inv_def)
qed

lemma sift_up_heap: "up_inv i xs \<Longrightarrow> is_heap lt (length xs) (sift_up lt i xs)"
proof (induction i arbitrary: xs rule: less_induct)
  case (less i)
  show ?case
  proof (cases "0 < i \<and> lt (xs ! parent i) (xs ! i)")
    case True
    then show ?thesis
      using less.IH [of "parent i" "swap_at i (parent i) xs"] up_inv_step [OF less.prems]
      by (subst sift_up.simps) simp
  next
    case False
    then have "is_heap lt (length xs) xs" using less.prems by (auto simp: up_inv_def is_heap_def)
    then show ?thesis using False by (subst sift_up.simps) (simp only: if_False)
  qed
qed

definition down_inv :: "nat \<Rightarrow> nat \<Rightarrow> 'a list \<Rightarrow> bool" where
  "down_inv n i xs \<longleftrightarrow> n \<le> length xs \<and> i < n
     \<and> (\<forall>j < n. 0 < j \<longrightarrow> parent j \<noteq> i \<longrightarrow> \<not> lt (xs ! parent j) (xs ! j))
     \<and> (\<forall>j < n. 0 < j \<longrightarrow> parent j = i \<longrightarrow> 0 < i \<longrightarrow> \<not> lt (xs ! parent i) (xs ! j))"

lemma down_inv_step:
  assumes inv: "down_inv n i xs" and c: "c < n" "0 < c" "parent c = i" and lt: "lt (xs ! i) (xs ! c)"
    and best: "\<And>j. j < n \<Longrightarrow> 0 < j \<Longrightarrow> parent j = i \<Longrightarrow> \<not> lt (xs ! c) (xs ! j)"
  shows "down_inv n c (swap_at i c xs)"
proof -
  let ?ys = "swap_at i c xs"
  have len: "i < length xs" "c < length xs" "i < c" using inv c parent_less [OF c(2)] by (auto simp: down_inv_def)
  note nth = nth_swap_at [OF len(1,2)]
  have ok: "\<not> lt (xs ! parent j) (xs ! j)" if "j < n" "0 < j" "parent j \<noteq> i" for j
    using inv that by (simp add: down_inv_def)
  have "\<not> lt (?ys ! parent j) (?ys ! j)" if j: "j < n" "0 < j" "parent j \<noteq> c" for j
  proof -
    consider "j = c" | "j \<noteq> c" "parent j = i" | "j = i" | "j \<noteq> c" "j \<noteq> i" "parent j \<noteq> i" by blast
    then show ?thesis
    proof cases
      case 1
      then show ?thesis using asym [OF lt] c(3) len(3) by (simp add: nth)
    next
      case 2
      then show ?thesis using best [OF j(1,2)] len(3) parent_less [OF j(2)] by (simp add: nth)
    next
      case 3
      then have "\<not> lt (xs ! parent i) (xs ! c)" using inv c j by (simp add: down_inv_def)
      then show ?thesis using 3 j(3) len(3) parent_less [OF j(2)] by (simp add: nth)
    next
      case 4
      then show ?thesis using ok [OF j(1,2)] j(3) by (simp add: nth)
    qed
  qed
  moreover have "\<not> lt (?ys ! parent c) (?ys ! j)" if j: "j < n" "0 < j" "parent j = c" for j
    using ok [OF j(1,2)] j len(3) parent_less [OF j(2)] c(3) by (simp add: nth)
  ultimately show ?thesis using inv len c by (simp add: down_inv_def)
qed

lemma sift_down_heap: "down_inv n i xs \<Longrightarrow> is_heap lt n (sift_down lt n i xs)"
proof (induction "n - i" arbitrary: i xs rule: less_induct)
  case less
  define c where "c = larger_child lt n i xs"
  have pc: "parent c = i" "0 < c" "i < c" by (auto simp: c_def larger_child_def parent_def)
  have best: "\<not> lt (xs ! c) (xs ! j)" if "j < n" "0 < j" "parent j = i" for j
    using that asym by (auto simp: parent_eq_iff c_def larger_child_def)
  show ?case
  proof (cases "c < n \<and> lt (xs ! i) (xs ! c)")
    case True
    then have c: "c < n" by simp
    have "sift_down lt n i xs = sift_down lt n c (swap_at i c xs)"
      using True by (subst sift_down.simps) (simp add: c_def [symmetric])
    moreover have "down_inv n c (swap_at i c xs)"
      using down_inv_step [OF less.prems c pc(2,1)] True best by blast
    ultimately show ?thesis using less.hyps [of c "swap_at i c xs"] c pc(3) by simp
  next
    case False
    then have "sift_down lt n i xs = xs" by (subst sift_down.simps) (auto simp: c_def [symmetric])
    moreover have "\<not> lt (xs ! i) (xs ! j)" if j: "j < n" "0 < j" "parent j = i" for j
    proof -
      have "c < n" using j by (auto simp: parent_eq_iff c_def larger_child_def)
      then show ?thesis using False best [OF j] negtrans by blast
    qed
    ultimately show ?thesis using less.prems by (auto simp: down_inv_def is_heap_def)
  qed
qed

lemma push_heap_heap:
  assumes "is_heap lt (length xs) xs"
  shows "is_heap lt (length xs + 1) (push_heap lt (xs @ [x]))"
proof -
  have "\<not> lt ((xs @ [x]) ! parent j) ((xs @ [x]) ! j)" if "j < length xs" "0 < j" for j
    using assms that less_trans [OF parent_less] by (simp add: is_heap_def nth_append)
  moreover have "\<not> (j < length xs + 1 \<and> 0 < j \<and> parent j = length xs)" for j
    using parent_less [of j] by linarith
  ultimately have "up_inv (length xs) (xs @ [x])" by (auto simp: up_inv_def less_Suc_eq)
  from sift_up_heap [OF this] show ?thesis by (simp add: push_heap_def)
qed

lemma pop_heap_heap:
  assumes "is_heap lt (length xs) xs"
  shows "is_heap lt (length xs - 1) (butlast (pop_heap lt xs))"
proof (cases "length xs \<le> 1")
  case False
  let ?n = "length xs - 1" and ?ys = "swap_at 0 (length xs - 1) xs"
  have len: "0 < length xs" "?n < length xs" using False by auto
  have "\<not> lt (?ys ! parent j) (?ys ! j)" if "j < ?n" "0 < j" "parent j \<noteq> 0" for j
    using assms that less_trans [OF parent_less [OF that(2)], of ?n]
    unfolding is_heap_def nth_swap_at [OF len] by auto
  then have "down_inv ?n 0 ?ys" using False by (simp add: down_inv_def)
  from sift_down_heap [OF this] have h: "is_heap lt ?n (pop_heap lt xs)" using False by (simp add: pop_heap_def)
  have "butlast (pop_heap lt xs) ! j = pop_heap lt xs ! j" if "j < ?n" for j
    using that by (simp add: nth_butlast heap_lengths)
  then show ?thesis using h less_trans [OF parent_less] by (auto simp: is_heap_def)
qed (simp add: is_heap_def)

end

section \<open>The contract of a priority queue\<close>

locale priority_queue =
  fixes lt :: "'a \<Rightarrow> 'a \<Rightarrow> bool" and invar :: "'q \<Rightarrow> bool" and items :: "'q \<Rightarrow> 'a multiset"
    and push :: "'a \<Rightarrow> 'q \<Rightarrow> 'q" and pop :: "'q \<Rightarrow> 'a \<times> 'q"
  assumes push_invar: "invar q \<Longrightarrow> invar (push x q)"
    and push_items: "invar q \<Longrightarrow> items (push x q) = add_mset x (items q)"
    and pop_invar: "invar q \<Longrightarrow> items q \<noteq> {#} \<Longrightarrow> invar (snd (pop q))"
    and pop_items: "invar q \<Longrightarrow> items q \<noteq> {#} \<Longrightarrow> items q = add_mset (fst (pop q)) (items (snd (pop q)))"
    and pop_best: "invar q \<Longrightarrow> x \<in># items q \<Longrightarrow> \<not> lt (fst (pop q)) x"
begin

fun drain :: "nat \<Rightarrow> 'q \<Rightarrow> 'a list" where
  "drain 0 q = []"
| "drain (Suc n) q = fst (pop q) # drain n (snd (pop q))"

lemma drain_mset: "invar q \<Longrightarrow> size (items q) = n \<Longrightarrow> mset (drain n q) = items q"
proof (induction n arbitrary: q)
  case (Suc n)
  then have ne: "items q \<noteq> {#}" by auto
  from pop_items [OF Suc.prems(1) ne] Suc.prems(2) have "size (items (snd (pop q))) = n"
    by (metis size_add_mset Suc_inject)
  with Suc.IH [OF pop_invar [OF Suc.prems(1) ne]] pop_items [OF Suc.prems(1) ne] show ?case by simp
qed simp

lemma drain_sorted: "invar q \<Longrightarrow> size (items q) = n \<Longrightarrow> sorted_wrt (\<lambda>x y. \<not> lt x y) (drain n q)"
proof (induction n arbitrary: q)
  case (Suc n)
  then have ne: "items q \<noteq> {#}" by auto
  note p = pop_items [OF Suc.prems(1) ne] pop_invar [OF Suc.prems(1) ne]
  from p(1) Suc.prems(2) have n: "size (items (snd (pop q))) = n" by (metis size_add_mset Suc_inject)
  have "\<not> lt (fst (pop q)) y" if "y \<in> set (drain n (snd (pop q)))" for y
  proof -
    have "y \<in># items (snd (pop q))" using that drain_mset [OF p(2) n] by (metis set_mset_mset)
    then show ?thesis using pop_best [OF Suc.prems(1)] p(1) by (metis insert_iff set_mset_add_mset_insert)
  qed
  then show ?case using Suc.IH [OF p(2) n] by simp
qed simp

end

definition heap_push :: "('a \<Rightarrow> 'a \<Rightarrow> bool) \<Rightarrow> 'a \<Rightarrow> 'a list \<Rightarrow> 'a list" where
  "heap_push lt x xs = push_heap lt (xs @ [x])"

definition heap_pop :: "('a \<Rightarrow> 'a \<Rightarrow> bool) \<Rightarrow> 'a list \<Rightarrow> 'a \<times> 'a list" where
  "heap_pop lt xs = (let ys = pop_heap lt xs in (last ys, butlast ys))"

definition heap_inv :: "('a \<Rightarrow> 'a \<Rightarrow> bool) \<Rightarrow> 'a list \<Rightarrow> bool" where
  "heap_inv lt xs \<longleftrightarrow> is_heap lt (length xs) xs"

lemma heap_pop_parts:
  assumes "xs \<noteq> []"
  shows "fst (heap_pop lt xs) = hd xs" "mset xs = add_mset (hd xs) (mset (snd (heap_pop lt xs)))"
    "length (snd (heap_pop lt xs)) = length xs - 1"
proof -
  show "fst (heap_pop lt xs) = hd xs" using pop_heap_last [OF assms] by (simp add: heap_pop_def Let_def)
  have "pop_heap lt xs \<noteq> []" using assms heap_lengths(2) [of lt xs] by auto
  then have "mset (pop_heap lt xs) = add_mset (last (pop_heap lt xs)) (mset (butlast (pop_heap lt xs)))"
    by (metis append_butlast_last_id mset.simps(2) mset_append union_mset_add_mset_right add.right_neutral mset.simps(1))
  then show "mset xs = add_mset (hd xs) (mset (snd (heap_pop lt xs)))"
    using pop_heap_last [OF assms, of lt] by (simp add: heap_pop_def Let_def pop_heap_mset)
  show "length (snd (heap_pop lt xs)) = length xs - 1" by (simp add: heap_pop_def Let_def heap_lengths)
qed

context heap_order
begin

lemma heap_queue: "priority_queue lt (heap_inv lt) mset (heap_push lt) (heap_pop lt)"
proof
  fix q x
  assume q: "heap_inv lt q"
  show "heap_inv lt (heap_push lt x q)"
    using push_heap_heap q by (simp add: heap_inv_def heap_push_def heap_lengths)
  show "mset (heap_push lt x q) = add_mset x (mset q)" by (simp add: heap_push_def push_heap_mset)
  {
    assume "mset q \<noteq> {#}"
    then have ne: "q \<noteq> []" by simp
    show "heap_inv lt (snd (heap_pop lt q))"
      using pop_heap_heap q by (simp add: heap_inv_def heap_pop_def Let_def heap_lengths)
    show "mset q = add_mset (fst (heap_pop lt q)) (mset (snd (heap_pop lt q)))"
      using heap_pop_parts(1,2) [OF ne] by simp
  }
  assume "x \<in># mset q"
  then obtain i where "i < length q" "q ! i = x" by (auto simp: in_set_conv_nth)
  moreover from this have "q \<noteq> []" by auto
  ultimately show "\<not> lt (fst (heap_pop lt q)) x"
    using heap_front q heap_pop_parts(1) by (metis hd_conv_nth heap_inv_def)
qed

end

end
