(* ===== verification/Scheduler.thy ===== *)
theory Scheduler
  imports Heap_Queue Bus_Handler "HOL-Library.Signed_Division"
begin

text \<open>
  \<open>Scheduler\<close> (\<open>src/ebus/app/scheduler.hpp\<close>, \<open>.cpp\<close>): the queue of messages to send, with
  priorities, due times and repeated attempts. The queue is the vector of a binary heap
  (\<open>Heap_Queue\<close>); the scheduler owns a handler, shares its clock, and hands events to the
  event sink, here the list \<open>events\<close>. The callbacks that the handler invokes while it runs
  (\<open>onBusRequestWon\<close>, \<open>onBusRequestLost\<close>, \<open>onHandlerProtocol\<close>) take as arguments what
  they read outside the scheduler: the state of the handler at that moment and the wall
  clock. \<open>injectProtocolEvent\<close> dereferences the monitor of the handler without a check;
  \<open>None\<close> stands for the null pointer. Points in time and durations are microseconds
  in a signed 64-bit representation: their addition is undefined when it overflows, the
  model takes the wrapped value. The mutex is not modelled.
\<close>

section \<open>Data\<close>

datatype EventType = ev_won | ev_lost | ev_telegram | ev_error

record ProtocolEvent =
  pe_type :: EventType
  pe_level :: LogLevel
  pe_timestamp :: u64
  pe_session_id :: u32
  pe_poll_id :: u16
  pe_attempts :: u8
  pe_handler_state :: HandlerState
  pe_request_state :: RequestState
  pe_message_type :: MessageType
  pe_telegram_type :: TelegramType
  pe_protocol_error :: ProtocolError
  pe_result :: RequestResult
  pe_sequence_state :: SequenceState
  pe_master :: bytes
  pe_slave :: bytes

definition ProtocolEvent_init :: ProtocolEvent where
  "ProtocolEvent_init =
     \<lparr>pe_type = ev_won, pe_level = level_none, pe_timestamp = 0, pe_session_id = 0, pe_poll_id = 0,
      pe_attempts = 0, pe_handler_state = passive_receive_master, pe_request_state = observe,
      pe_message_type = message_undefined, pe_telegram_type = type_undefined,
      pe_protocol_error = no_protocol_error, pe_result = observe_data, pe_sequence_state = seq_empty,
      pe_master = [], pe_slave = []\<rparr>"

text \<open>\<open>StaticSequence::assign\<close>: what exceeds the capacity is cut off.\<close>

definition static_assign :: "nat \<Rightarrow> bytes \<Rightarrow> bytes" where
  "static_assign cap data = take (if length data < cap then length data else cap) data"

record Item =
  it_priority :: u8
  it_due :: int
  it_session_id :: u32
  it_poll_id :: u16
  it_attempts :: u8
  it_message :: sequence

definition Compare :: "Item \<Rightarrow> Item \<Rightarrow> bool" where
  "Compare lhs rhs =
     (let lhs_bucket = it_due lhs sdiv jitter_threshold_us; rhs_bucket = it_due rhs sdiv jitter_threshold_us
      in if lhs_bucket \<noteq> rhs_bucket then lhs_bucket > rhs_bucket
         else if it_priority lhs \<noteq> it_priority rhs then it_priority lhs < it_priority rhs
         else it_session_id lhs > it_session_id rhs)"

record ActiveAttempt =
  aa_item :: Item
  aa_start_time :: int
  aa_session_id :: u32

record scheduler =
  sc_handler :: handler
  scheduled_items :: "Item list"
  max_queue_size :: nat
  active_item :: "ActiveAttempt option"
  event_sink :: bool
  next_session_id :: u32
  current_session_id :: u32
  current_poll_id :: u16
  max_attempts :: u8
  base_backoff :: int
  fsm_timeout :: int
  total_timeout :: int
  user_reactive :: "(bytes \<Rightarrow> sequence \<Rightarrow> sequence) option"
  events :: "ProtocolEvent list"

text \<open>The constructor, with the defaults of \<open>RuntimeConfig\<close> (timeouts in milliseconds).\<close>

definition scheduler_new :: "handler \<Rightarrow> scheduler" where
  "scheduler_new h =
     \<lparr>sc_handler = h, scheduled_items = [], max_queue_size = 0, active_item = None, event_sink = False,
      next_session_id = 1, current_session_id = 0, current_poll_id = 0, max_attempts = 3,
      base_backoff = 100000, fsm_timeout = 1000, total_timeout = 2000, user_reactive = None, events = []\<rparr>"

section \<open>Configuration\<close>

definition setProtocolEventSink :: "bool \<Rightarrow> scheduler \<Rightarrow> scheduler" where
  "setProtocolEventSink present s = s\<lparr>event_sink := present\<rparr>"

definition setMaxAttempts :: "u8 \<Rightarrow> scheduler \<Rightarrow> scheduler" where
  "setMaxAttempts n s = s\<lparr>max_attempts := (if n = 0 then 1 else n)\<rparr>"

definition setBaseBackoff :: "u32 \<Rightarrow> scheduler \<Rightarrow> scheduler" where
  "setBaseBackoff ms s = s\<lparr>base_backoff := 1000 * uint (if ms = 0 then 1 else ms)\<rparr>"

definition setFsmTimeout :: "u32 \<Rightarrow> scheduler \<Rightarrow> scheduler" where
  "setFsmTimeout ms s = s\<lparr>fsm_timeout := uint ms\<rparr>"

definition setTotalTimeout :: "u32 \<Rightarrow> scheduler \<Rightarrow> scheduler" where
  "setTotalTimeout ms s = s\<lparr>total_timeout := uint ms\<rparr>"

definition onHandlerReactive :: "(bytes \<Rightarrow> sequence \<Rightarrow> sequence) option \<Rightarrow> bytes \<Rightarrow> sequence \<Rightarrow> sequence" where
  "onHandlerReactive user master q = (case user of None \<Rightarrow> q | Some f \<Rightarrow> f master q)"

definition attachHandlerCallbacks :: "scheduler \<Rightarrow> scheduler" where
  "attachHandlerCallbacks s =
     s\<lparr>sc_handler := (sc_handler s)
         \<lparr>won_callback := True, lost_callback := True,
          reactive_callback := Some (onHandlerReactive (user_reactive s)), protocol_callback := True\<rparr>\<rparr>"

definition detachHandlerCallbacks :: "scheduler \<Rightarrow> scheduler" where
  "detachHandlerCallbacks s =
     s\<lparr>sc_handler := (sc_handler s)
         \<lparr>won_callback := False, lost_callback := False, reactive_callback := None,
          protocol_callback := False\<rparr>\<rparr>"

text \<open>
  The bound callback reads the user's callback when it is invoked: an attached handler
  sees a new one at once.
\<close>

definition setReactiveCallback :: "(bytes \<Rightarrow> sequence \<Rightarrow> sequence) option \<Rightarrow> scheduler \<Rightarrow> scheduler" where
  "setReactiveCallback f s =
     (if reactive_callback (sc_handler s) = None then s\<lparr>user_reactive := f\<rparr>
      else s\<lparr>user_reactive := f,
             sc_handler := (sc_handler s)\<lparr>reactive_callback := Some (onHandlerReactive f)\<rparr>\<rparr>)"

section \<open>The queue\<close>

definition sched_now :: "scheduler \<Rightarrow> int \<times> scheduler" where
  "sched_now s = (now (sc_handler s),
     s\<lparr>sc_handler := (sc_handler s)\<lparr>clk_reads := clk_reads (sc_handler s) + 1\<rparr>\<rparr>)"

definition time_add :: "int \<Rightarrow> int \<Rightarrow> int" where
  "time_add t d = sint (of_int (t + d) :: 64 word)"

definition time_max :: int where
  "time_max = 2 ^ 63 - 1"

definition backoffDuration :: "int \<Rightarrow> scheduler \<Rightarrow> int" where
  "backoffDuration attempt s =
     (let multipliers = [1, 2, 4, 8, 16, 32, 64, 128, 256, 512]
      in if attempt \<le> 0 then 0
         else if attempt > int (length multipliers) then time_max
         else base_backoff s * multipliers ! nat (attempt - 1))"

definition pushItem :: "Item \<Rightarrow> scheduler \<Rightarrow> bool \<times> scheduler" where
  "pushItem it s =
     (if length (scheduled_items s) \<ge> scheduler_max_items then (False, s)
      else
        (let items = snd (vec_push_back scheduler_max_items it (scheduled_items s))
         in (True, s\<lparr>max_queue_size := max (length items) (max_queue_size s),
                     scheduled_items := push_heap Compare items\<rparr>)))"

definition enqueueAt :: "u8 \<Rightarrow> bytes \<Rightarrow> int \<Rightarrow> u16 \<Rightarrow> scheduler \<Rightarrow> u32 \<times> scheduler" where
  "enqueueAt priority message due poll_id s =
     (let session_id = next_session_id s;
          it = \<lparr>it_priority = priority, it_due = due, it_session_id = session_id, it_poll_id = poll_id,
                it_attempts = 0, it_message = seq_assign seq_nil message False\<rparr>;
          (ok, s1) = pushItem it (s\<lparr>next_session_id := session_id + 1\<rparr>)
      in (if ok then session_id else 0, s1))"

definition enqueue :: "u8 \<Rightarrow> bytes \<Rightarrow> u16 \<Rightarrow> scheduler \<Rightarrow> u32 \<times> scheduler" where
  "enqueue priority message poll_id s =
     (let (t, s1) = sched_now s in enqueueAt priority message t poll_id s1)"

definition sched_clear :: "scheduler \<Rightarrow> scheduler" where
  "sched_clear s = s\<lparr>scheduled_items := vec_clear (scheduled_items s), active_item := None\<rparr>"

definition sched_stop :: "scheduler \<Rightarrow> scheduler" where
  "sched_stop s = sched_clear (s\<lparr>active_item := None\<rparr>)"

definition nextDueTime :: "scheduler \<Rightarrow> int" where
  "nextDueTime s =
     (case active_item s of
        Some a \<Rightarrow> time_add (aa_start_time a) (1000 * total_timeout s)
      | None \<Rightarrow>
          if active_message (sc_handler s) then time_max
          else if scheduled_items s = [] then time_max
          else it_due (hd (scheduled_items s)))"

definition resetPeakMetrics :: "scheduler \<Rightarrow> scheduler" where
  "resetPeakMetrics s = s\<lparr>max_queue_size := length (scheduled_items s)\<rparr>"

section \<open>Events\<close>

definition sink :: "ProtocolEvent \<Rightarrow> scheduler \<Rightarrow> scheduler" where
  "sink ev s = (if event_sink s then s\<lparr>events := events s @ [ev]\<rparr> else s)"

definition request_event :: "EventType \<Rightarrow> HandlerState \<Rightarrow> u64 \<Rightarrow> scheduler \<Rightarrow> scheduler" where
  "request_event ty hs wall_ms s =
     (if current_session_id s = 0 then s
      else sink (ProtocolEvent_init
        \<lparr>pe_type := ty, pe_session_id := current_session_id s, pe_poll_id := current_poll_id s,
         pe_handler_state := hs, pe_request_state := observe, pe_timestamp := wall_ms\<rparr>) s)"

definition onBusRequestWon :: "HandlerState \<Rightarrow> u64 \<Rightarrow> scheduler \<Rightarrow> scheduler" where
  "onBusRequestWon = request_event ev_won"

definition onBusRequestLost :: "HandlerState \<Rightarrow> u64 \<Rightarrow> scheduler \<Rightarrow> scheduler" where
  "onBusRequestLost = request_event ev_lost"

definition onHandlerProtocol :: "ProtocolInfo \<Rightarrow> u64 \<Rightarrow> scheduler \<Rightarrow> scheduler" where
  "onHandlerProtocol info wall_ms s =
     (let attempts = (case active_item s of
            Some a \<Rightarrow> if aa_session_id a = current_session_id s then it_attempts (aa_item a) else 0
          | None \<Rightarrow> 0);
          ev = ProtocolEvent_init
            \<lparr>pe_type := (if is_error info then ev_error else ev_telegram),
             pe_session_id := current_session_id s, pe_poll_id := current_poll_id s, pe_attempts := attempts,
             pe_handler_state := pi_handler_state info, pe_request_state := pi_request_state info,
             pe_timestamp := wall_ms, pe_level := pi_level info,
             pe_master := static_assign model_capacity (pi_master_view info),
             pe_slave := static_assign model_capacity (pi_slave_view info)\<rparr>
      in sink (if is_error info
               then ev\<lparr>pe_protocol_error := pi_protocol_error info, pe_result := pi_result info,
                       pe_sequence_state := pi_sequence_state info\<rparr>
               else ev\<lparr>pe_message_type := pi_message_type info, pe_telegram_type := pi_telegram_type info\<rparr>) s)"

definition forget_attempt :: "scheduler \<Rightarrow> scheduler" where
  "forget_attempt s = s\<lparr>active_item := None, current_session_id := 0, current_poll_id := 0\<rparr>"

definition reschedule :: "Item \<Rightarrow> scheduler \<Rightarrow> scheduler" where
  "reschedule it s =
     (let s1 = s\<lparr>sc_handler := updateHandler (\<lambda>m. m\<lparr>total_attempts := total_attempts m + 1\<rparr>) (sc_handler s)\<rparr>;
          (t, s2) = sched_now s1;
          it1 = it\<lparr>it_due := time_add t (backoffDuration (uint (it_attempts it)) s)\<rparr>;
          items = snd (vec_push_back scheduler_max_items it1 (scheduled_items s2))
      in forget_attempt (s2\<lparr>scheduled_items := push_heap Compare items\<rparr>))"

definition injectProtocolEvent :: "ProtocolEvent \<Rightarrow> scheduler \<Rightarrow> (bool \<times> scheduler) option" where
  "injectProtocolEvent event s =
     (case active_item s of
        None \<Rightarrow> Some (False, s)
      | Some a \<Rightarrow>
          if pe_session_id event \<noteq> aa_session_id a then Some (False, s)
          else if pe_type event = ev_won then Some (True, s)
          else if pe_type event = ev_lost \<or> pe_type event = ev_error then
            (let is_fatal = (pe_type event = ev_error \<and> pe_protocol_error event = invalid_message);
                 it = (aa_item a)\<lparr>it_attempts := it_attempts (aa_item a) + 1\<rparr>
             in if \<not> is_fatal \<and> it_attempts it < max_attempts s
                then (case mon (sc_handler s) of None \<Rightarrow> None | Some _ \<Rightarrow> Some (True, reschedule it s))
                else Some (True, forget_attempt s))
          else Some (True, forget_attempt s))"

section \<open>The periodic step\<close>

definition timeout_event :: "ActiveAttempt \<Rightarrow> scheduler \<Rightarrow> ProtocolEvent" where
  "timeout_event a s = ProtocolEvent_init
     \<lparr>pe_type := ev_error, pe_session_id := aa_session_id a, pe_poll_id := it_poll_id (aa_item a),
      pe_protocol_error := total_transfer_timeout, pe_result := first_error,
      pe_sequence_state := tg_master_state (active_telegram (sc_handler s)), pe_level := level_error,
      pe_handler_state := h_state (sc_handler s), pe_request_state := observe,
      pe_master := static_assign model_capacity (sq_bytes (it_message (aa_item a)))\<rparr>"

definition fail_event :: "Item \<Rightarrow> scheduler \<Rightarrow> ProtocolEvent" where
  "fail_event it s = ProtocolEvent_init
     \<lparr>pe_type := ev_error, pe_session_id := it_session_id it, pe_poll_id := it_poll_id it,
      pe_protocol_error := invalid_message, pe_result := first_error,
      pe_sequence_state := tg_master_state (active_telegram (sc_handler s)), pe_level := level_error,
      pe_handler_state := h_state (sc_handler s), pe_request_state := observe\<rparr>"

definition start_item :: "Item \<Rightarrow> scheduler \<Rightarrow> scheduler" where
  "start_item it s =
     (let (t, s1) = sched_now (s\<lparr>current_session_id := it_session_id it, current_poll_id := it_poll_id it\<rparr>);
          s2 = s1\<lparr>active_item := Some \<lparr>aa_item = it, aa_start_time = t, aa_session_id = it_session_id it\<rparr>\<rparr>;
          (ok, h) = sendActiveMessage (sq_bytes (it_message it)) (sc_handler s2);
          s3 = s2\<lparr>sc_handler := h\<rparr>
      in if ok then s3 else sink (fail_event it s3) s3)"

definition sched_tick :: "scheduler \<Rightarrow> bool \<times> scheduler" where
  "sched_tick s =
     (case active_item s of
        Some a \<Rightarrow>
          (let (t, s1) = sched_now s
           in if t - aa_start_time a > 1000 * total_timeout s1
              then (True, sink (timeout_event a s1) (s1\<lparr>sc_handler := handler_reset (sc_handler s1)\<rparr>))
              else (False, s1))
      | None \<Rightarrow>
          if scheduled_items s = [] then (False, s)
          else
            (let (t, s1) = sched_now s
             in if it_due (hd (scheduled_items s1)) \<le> t
                then if active_message (sc_handler s1) then (False, s1)
                     else (let (it, items) = heap_pop Compare (scheduled_items s1)
                           in (True, start_item it (s1\<lparr>scheduled_items := items\<rparr>)))
                else (False, s1)))"

text \<open>
  One event of the bus, seen by the scheduler: the handler runs and invokes the callbacks
  for what it reports. While it runs a bus request it is in the state in which \<open>run\<close> found it.
\<close>

definition deliver :: "HandlerState \<Rightarrow> u64 \<Rightarrow> handler_output \<Rightarrow> scheduler \<Rightarrow> scheduler" where
  "deliver hs wall_ms x =
     (case x of
        RequestWon \<Rightarrow> onBusRequestWon hs wall_ms
      | RequestLost \<Rightarrow> onBusRequestLost hs wall_ms
      | Protocol info \<Rightarrow> onHandlerProtocol info wall_ms
      | _ \<Rightarrow> (\<lambda>s. s))"

definition sched_bus_event :: "u64 \<Rightarrow> BusEvent \<Rightarrow> scheduler \<Rightarrow> scheduler" where
  "sched_bus_event wall_ms ev s =
     (let h = sc_handler s;
          h1 = (if ev_bus_request ev then request_completed h else h);
          h2 = bus_step ev h;
          reported = drop (length (outputs h)) (outputs h2)
      in fold (deliver (h_state h1) wall_ms) reported (s\<lparr>sc_handler := h2\<rparr>))"

section \<open>The queue is a priority queue\<close>

text \<open>
  \<open>Compare\<close> orders items by due bucket, priority and session; it is a strict weak ordering,
  which is what the heap algorithms rely on.
\<close>

lemma Compare_iff:
  "Compare a b \<longleftrightarrow>
     it_due b sdiv jitter_threshold_us < it_due a sdiv jitter_threshold_us
   \<or> it_due b sdiv jitter_threshold_us = it_due a sdiv jitter_threshold_us
     \<and> (it_priority a < it_priority b \<or> it_priority a = it_priority b \<and> it_session_id b < it_session_id a)"
  by (auto simp: Compare_def Let_def)

interpretation item_order: heap_order Compare
  by unfold_locales (auto simp: Compare_iff)

interpretation item_queue: priority_queue Compare "heap_inv Compare" mset "heap_push Compare" "heap_pop Compare"
  by (rule item_order.heap_queue)

lemma Compare_total:
  "it_session_id a \<noteq> it_session_id b \<Longrightarrow> Compare a b \<or> Compare b a"
  by (auto simp: Compare_iff)

section \<open>Invariant\<close>

definition pending :: "scheduler \<Rightarrow> Item multiset" where
  "pending s = mset (scheduled_items s) + (case active_item s of None \<Rightarrow> {#} | Some a \<Rightarrow> {#aa_item a#})"

text \<open>
  The queue is a heap within its capacity, at least one attempt is allowed, and no pending
  item is at the end of its 8-bit attempt counter.
\<close>

definition sched_inv :: "scheduler \<Rightarrow> bool" where
  "sched_inv s \<longleftrightarrow> heap_inv Compare (scheduled_items s) \<and> length (scheduled_items s) \<le> scheduler_max_items
     \<and> 0 < max_attempts s \<and> (\<forall>it \<in># pending s. it_attempts it < 255)"

lemma sched_now_simps [simp]:
  "scheduled_items (snd (sched_now s)) = scheduled_items s" "active_item (snd (sched_now s)) = active_item s"
  "max_attempts (snd (sched_now s)) = max_attempts s" "total_timeout (snd (sched_now s)) = total_timeout s"
  "fst (sched_now s) = now (sc_handler s)"
  "sc_handler (snd (sched_now s)) = (sc_handler s)\<lparr>clk_reads := clk_reads (sc_handler s) + 1\<rparr>"
  by (simp_all add: sched_now_def)

lemma sink_simps [simp]:
  "scheduled_items (sink e s) = scheduled_items s" "active_item (sink e s) = active_item s"
  "max_attempts (sink e s) = max_attempts s" "sc_handler (sink e s) = sc_handler s"
  "current_session_id (sink e s) = current_session_id s" "event_sink (sink e s) = event_sink s"
  by (simp_all add: sink_def)

lemma sched_inv_cong:
  "scheduled_items t = scheduled_items s \<Longrightarrow> active_item t = active_item s \<Longrightarrow> max_attempts t = max_attempts s
   \<Longrightarrow> sched_inv t = sched_inv s"
  by (simp add: sched_inv_def pending_def)

lemma push_heap_heap_id: "heap_inv lt xs \<Longrightarrow> push_heap lt xs = xs"
proof -
  assume "heap_inv lt xs"
  then have "\<not> (0 < length xs - 1 \<and> lt (xs ! parent (length xs - 1)) (xs ! (length xs - 1)))"
    by (simp add: heap_inv_def is_heap_def)
  then show ?thesis unfolding push_heap_def by (subst sift_up.simps) (simp only: if_False)
qed

lemma bounded_push:
  fixes it :: Item
  assumes "heap_inv Compare items" "length items \<le> scheduler_max_items"
  defines "items' \<equiv> push_heap Compare (snd (vec_push_back scheduler_max_items it items))"
  shows "heap_inv Compare items'" "length items' \<le> scheduler_max_items" "set_mset (mset items') \<subseteq> insert it (set items)"
    and "length items < scheduler_max_items \<Longrightarrow> mset items' = add_mset it (mset items)"
    and "length items = scheduler_max_items \<Longrightarrow> items' = items"
  using assms(1,2) item_queue.push_invar [of items it] push_heap_heap_id [OF assms(1)]
  by (auto simp: items'_def vec_push_back_def heap_push_def heap_lengths push_heap_mset)

lemma pushItem_inv:
  assumes "sched_inv s" "it_attempts it < 255"
  shows "sched_inv (snd (pushItem it s))"
  using assms bounded_push [of "scheduled_items s" it]
  by (auto simp: pushItem_def sched_inv_def pending_def Let_def)

lemma enqueueAt_inv: "sched_inv s \<Longrightarrow> sched_inv (snd (enqueueAt p m due poll s))"
  using sched_inv_cong [of "s\<lparr>next_session_id := next_session_id s + 1\<rparr>" s]
  by (simp add: enqueueAt_def split_beta Let_def pushItem_inv)

lemma enqueue_inv: "sched_inv s \<Longrightarrow> sched_inv (snd (enqueue p m poll s))"
  using enqueueAt_inv [of "snd (sched_now s)"] sched_inv_cong [of "snd (sched_now s)" s]
  by (simp add: enqueue_def split_beta)

lemma forget_attempt_simps [simp]:
  "scheduled_items (forget_attempt s) = scheduled_items s" "active_item (forget_attempt s) = None"
  "max_attempts (forget_attempt s) = max_attempts s" "current_session_id (forget_attempt s) = 0"
  by (simp_all add: forget_attempt_def)

lemma reschedule_simps [simp]:
  "active_item (reschedule it s) = None" "max_attempts (reschedule it s) = max_attempts s"
  "current_session_id (reschedule it s) = 0"
  by (simp_all add: reschedule_def sched_now_def Let_def split_beta)

definition backed_off :: "Item \<Rightarrow> scheduler \<Rightarrow> Item" where
  "backed_off it s =
     it\<lparr>it_due := time_add (now (sc_handler s)) (backoffDuration (uint (it_attempts it)) s)\<rparr>"

lemma reschedule_items:
  "scheduled_items (reschedule it s) =
     push_heap Compare (snd (vec_push_back scheduler_max_items (backed_off it s) (scheduled_items s)))"
  by (simp add: reschedule_def backed_off_def sched_now_def monitor_ops now_def Let_def split_beta)

lemma inc_below:
  assumes "a < (255 :: u8)"
  shows "unat (a + 1) = unat a + 1" "b < a + 1 \<longleftrightarrow> b \<le> a"
proof -
  from assms have "unat a < 255" by (simp add: word_less_nat_alt)
  then show n: "unat (a + 1) = unat a + 1" by (simp add: unat_word_ariths)
  show "b < a + 1 \<longleftrightarrow> b \<le> a"
    unfolding word_less_nat_alt word_le_nat_alt n by auto
qed

lemma next_attempt_below: "a < n \<Longrightarrow> a < (255 :: u8)"
proof -
  assume "a < n"
  moreover have "unat n < 2 ^ LENGTH(8)" by (rule unsigned_less)
  ultimately show ?thesis by (simp add: word_less_nat_alt)
qed

definition retried :: "ActiveAttempt \<Rightarrow> Item" where
  "retried a = (aa_item a)\<lparr>it_attempts := it_attempts (aa_item a) + 1\<rparr>"

lemma inject_cases:
  assumes "injectProtocolEvent ev s = Some (r, s')"
  obtains (ignored) "s' = s" "active_item s = None \<or> pe_type ev = ev_won
      \<or> (\<exists>a. active_item s = Some a \<and> pe_session_id ev \<noteq> aa_session_id a)"
    | (finished) a where "active_item s = Some a" "s' = forget_attempt s"
    | (again) a where "active_item s = Some a" "it_attempts (retried a) < max_attempts s"
        "s' = reschedule (retried a) s"
proof (cases "active_item s")
  case None
  then show ?thesis using assms ignored by (simp add: injectProtocolEvent_def)
next
  case (Some a)
  then have "s' = s \<and> (pe_session_id ev \<noteq> aa_session_id a \<or> pe_type ev = ev_won) \<or> s' = forget_attempt s
    \<or> it_attempts (retried a) < max_attempts s \<and> s' = reschedule (retried a) s"
    using assms by (simp add: injectProtocolEvent_def retried_def Let_def split: if_splits option.splits)
  then show ?thesis using Some ignored finished again by blast
qed

lemma injectProtocolEvent_inv:
  assumes "sched_inv s" "injectProtocolEvent ev s = Some (r, s')"
  shows "sched_inv s'"
  using assms(2)
proof (cases rule: inject_cases)
  case (again a)
  then have "it_attempts (backed_off (retried a) s) < 255" by (simp add: backed_off_def next_attempt_below)
  then show ?thesis
    using again(3) assms(1) bounded_push [of "scheduled_items s" "backed_off (retried a) s"]
    by (auto simp: sched_inv_def pending_def reschedule_items)
qed (use assms(1) in \<open>auto simp: sched_inv_def pending_def\<close>)

lemma start_item_simps [simp]:
  "scheduled_items (start_item it s) = scheduled_items s" "max_attempts (start_item it s) = max_attempts s"
  "\<exists>t. active_item (start_item it s) = Some \<lparr>aa_item = it, aa_start_time = t, aa_session_id = it_session_id it\<rparr>"
  by (simp_all add: start_item_def sched_now_def split_beta Let_def)

lemma sched_tick_inv:
  assumes "sched_inv s"
  shows "sched_inv (snd (sched_tick s))"
proof (cases "active_item s")
  case (Some a)
  then show ?thesis
    using assms by (simp add: sched_tick_def split_beta Let_def sched_inv_def pending_def)
next
  case None
  let ?p = "heap_pop Compare (scheduled_items s)"
  obtain t where t: "active_item (start_item (fst ?p) ((snd (sched_now s))\<lparr>scheduled_items := snd ?p\<rparr>)) =
      Some \<lparr>aa_item = fst ?p, aa_start_time = t, aa_session_id = it_session_id (fst ?p)\<rparr>"
    using start_item_simps(3) by blast
  show ?thesis
  proof (cases "scheduled_items s = []")
    case False
    then have ne: "mset (scheduled_items s) \<noteq> {#}" by simp
    have h: "heap_inv Compare (scheduled_items s)" using assms by (simp add: sched_inv_def)
    have len: "length (snd ?p) \<le> scheduler_max_items"
      using assms heap_pop_parts(3) [OF False, of Compare] by (auto simp: sched_inv_def)
    have "sched_inv (start_item (fst ?p) ((snd (sched_now s))\<lparr>scheduled_items := snd ?p\<rparr>))"
      using assms None item_queue.pop_invar [OF h ne] item_queue.pop_items [OF h ne]
        len t
      by (simp add: sched_inv_def pending_def)
    moreover have "sched_inv (snd (sched_now s))" using assms sched_inv_cong [of "snd (sched_now s)" s] by simp
    ultimately show ?thesis
      using None False by (simp add: sched_tick_def split_beta Let_def)
  qed (use assms None in \<open>simp add: sched_tick_def\<close>)
qed

lemma deliver_simps [simp]:
  "scheduled_items (deliver hs w x s) = scheduled_items s" "active_item (deliver hs w x s) = active_item s"
  "max_attempts (deliver hs w x s) = max_attempts s" "sc_handler (deliver hs w x s) = sc_handler s"
  "current_session_id (deliver hs w x s) = current_session_id s" "event_sink (deliver hs w x s) = event_sink s"
  by (auto simp: deliver_def onBusRequestWon_def onBusRequestLost_def request_event_def onHandlerProtocol_def Let_def
      split: handler_output.split)

lemma fold_deliver_simps [simp]:
  "scheduled_items (fold (deliver hs w) xs s) = scheduled_items s"
  "active_item (fold (deliver hs w) xs s) = active_item s"
  "max_attempts (fold (deliver hs w) xs s) = max_attempts s"
  "sc_handler (fold (deliver hs w) xs s) = sc_handler s"
  "current_session_id (fold (deliver hs w) xs s) = current_session_id s"
  "event_sink (fold (deliver hs w) xs s) = event_sink s"
  by (induction xs arbitrary: s) simp_all

text \<open>Everything that can happen to a scheduler, in any order.\<close>

inductive sched_step :: "scheduler \<Rightarrow> scheduler \<Rightarrow> bool" where
  step_enqueue: "sched_step s (snd (enqueue p m poll s))"
| step_enqueueAt: "sched_step s (snd (enqueueAt p m due poll s))"
| step_tick: "sched_step s (snd (sched_tick s))"
| step_inject: "injectProtocolEvent ev s = Some (r, s') \<Longrightarrow> sched_step s s'"
| step_bus: "sched_step s (sched_bus_event w ev s)"
| step_clear: "sched_step s (sched_clear s)"
| step_stop: "sched_step s (sched_stop s)"
| step_peak: "sched_step s (resetPeakMetrics s)"
| step_sink: "sched_step s (setProtocolEventSink b s)"
| step_attempts: "sched_step s (setMaxAttempts n s)"
| step_backoff: "sched_step s (setBaseBackoff ms s)"
| step_fsm: "sched_step s (setFsmTimeout ms s)"
| step_total: "sched_step s (setTotalTimeout ms s)"
| step_reactive: "sched_step s (setReactiveCallback f s)"
| step_attach: "sched_step s (attachHandlerCallbacks s)"
| step_detach: "sched_step s (detachHandlerCallbacks s)"

inductive_cases sched_stepE: "sched_step s s'"

lemma heap_inv_Nil [simp]: "heap_inv lt []"
  by (simp add: heap_inv_def is_heap_def)

lemma sched_config_inv:
  assumes "sched_inv s"
  shows "sched_inv (sched_bus_event w ev s)" "sched_inv (sched_clear s)" "sched_inv (sched_stop s)"
    "sched_inv (resetPeakMetrics s)" "sched_inv (setProtocolEventSink b s)" "sched_inv (setMaxAttempts n s)"
    "sched_inv (setBaseBackoff ms s)" "sched_inv (setFsmTimeout ms s)" "sched_inv (setTotalTimeout ms s)"
    "sched_inv (setReactiveCallback f s)" "sched_inv (attachHandlerCallbacks s)"
    "sched_inv (detachHandlerCallbacks s)"
  using assms
  by (simp_all add: sched_inv_def pending_def sched_bus_event_def sched_clear_def sched_stop_def vec_clear_eq
      resetPeakMetrics_def setProtocolEventSink_def setMaxAttempts_def setBaseBackoff_def setFsmTimeout_def
      setTotalTimeout_def setReactiveCallback_def attachHandlerCallbacks_def detachHandlerCallbacks_def
      word_gt_0 Let_def)

lemma sched_step_inv: "sched_step s s' \<Longrightarrow> sched_inv s \<Longrightarrow> sched_inv s'"
  by (induction rule: sched_step.induct)
    (auto intro: enqueue_inv enqueueAt_inv sched_tick_inv injectProtocolEvent_inv sched_config_inv)

lemma sched_new_inv: "sched_inv (scheduler_new h)"
  by (simp add: sched_inv_def scheduler_new_def pending_def)

lemma sched_reachable_inv:
  assumes "sched_step\<^sup>*\<^sup>* (scheduler_new h) s"
  shows "sched_inv s"
  using assms by (induction rule: rtranclp_induct) (auto intro: sched_new_inv sched_step_inv)

end
