(* ===== verification/Scheduling.thy ===== *)
theory Scheduling
  imports Scheduler Active_Exchange
begin

text \<open>
  What the scheduler promises: the queue stays a heap within its capacity, the item that is
  started is the one that comes first, attempts are bounded, and a message that is queued
  goes out over the handler and comes back as events that carry its session.
\<close>

section \<open>Ticks\<close>

lemma pending_tick: "pending (snd (sched_tick s)) = pending s"
proof (cases "active_item s")
  case (Some a)
  then show ?thesis by (simp add: sched_tick_def pending_def split_beta Let_def)
next
  case None
  let ?p = "heap_pop Compare (scheduled_items s)"
  show ?thesis
  proof (cases "scheduled_items s = []")
    case False
    obtain t where "active_item (start_item (hd (scheduled_items s)) ((snd (sched_now s))\<lparr>scheduled_items := snd ?p\<rparr>)) =
        Some \<lparr>aa_item = hd (scheduled_items s), aa_start_time = t, aa_session_id = it_session_id (hd (scheduled_items s))\<rparr>"
      using start_item_simps(3) by blast
    then show ?thesis
      using None False heap_pop_parts(1,2) [OF False, of Compare]
      by (simp add: sched_tick_def pending_def split_beta Let_def)
  qed (simp add: None sched_tick_def)
qed

definition starts :: "Item \<Rightarrow> scheduler \<Rightarrow> scheduler" where
  "starts it s = start_item it ((snd (sched_now s))\<lparr>scheduled_items := snd (heap_pop Compare (scheduled_items s))\<rparr>)"

lemma tick_starts:
  assumes "active_item s = None" "scheduled_items s \<noteq> []" "it_due (hd (scheduled_items s)) \<le> now (sc_handler s)"
    "\<not> active_message (sc_handler s)"
  shows "sched_tick s = (True, starts (hd (scheduled_items s)) s)"
  using assms heap_pop_parts(1) [OF assms(2), of Compare]
  by (simp add: sched_tick_def starts_def split_beta Let_def)

lemma starts_simps:
  "current_session_id (starts it s) = it_session_id it" "event_sink (starts it s) = event_sink s"
  "scheduled_items (starts it s) = snd (heap_pop Compare (scheduled_items s))"
  "\<exists>t. active_item (starts it s) = Some \<lparr>aa_item = it, aa_start_time = t, aa_session_id = it_session_id it\<rparr>"
  "sc_handler (starts it s) = snd (sendActiveMessage (sq_bytes (it_message it))
     ((sc_handler s)\<lparr>clk_reads := clk_reads (sc_handler s) + 2\<rparr>))"
  "fst (sendActiveMessage (sq_bytes (it_message it)) ((sc_handler s)\<lparr>clk_reads := clk_reads (sc_handler s) + 2\<rparr>))
     \<Longrightarrow> events (starts it s) = events s"
  by (simp_all add: starts_def start_item_def sched_now_def split_beta Let_def sink_def)

section \<open>Attempts\<close>

text \<open>One for every pending item, and one for every attempt it has left.\<close>

definition credit :: "scheduler \<Rightarrow> nat" where
  "credit s = (\<Sum>it \<in># pending s. 1 + (unat (max_attempts s) - unat (it_attempts it)))"

lemma max_attempts_tick: "max_attempts (snd (sched_tick s)) = max_attempts s"
  by (simp add: sched_tick_def split_beta Let_def split: option.split)

lemma credit_tick: "credit (snd (sched_tick s)) = credit s"
  by (simp add: credit_def pending_tick max_attempts_tick)

lemma credit_inject:
  assumes inv: "sched_inv s" and a: "active_item s = Some a" "pe_session_id ev = aa_session_id a" "pe_type ev \<noteq> ev_won"
    and r: "injectProtocolEvent ev s = Some (r, s')"
  shows "credit s' < credit s"
  using r
proof (cases rule: inject_cases)
  case ignored
  then show ?thesis using a by simp
next
  case (finished b)
  then show ?thesis using a(1) by (simp add: credit_def pending_def)
next
  case (again b)
  let ?it = "backed_off (retried a) s"
  have b: "b = a" using again(1) a(1) by simp
  have "it_attempts (aa_item a) < 255" using inv a(1) by (simp add: sched_inv_def pending_def)
  then have "unat (it_attempts ?it) = unat (it_attempts (aa_item a)) + 1"
    by (simp add: backed_off_def retried_def inc_below)
  moreover have "unat (it_attempts ?it) < unat (max_attempts s)"
    using again(2) by (simp add: backed_off_def b word_less_nat_alt)
  moreover have "mset (scheduled_items s') = add_mset ?it (mset (scheduled_items s))
      \<or> scheduled_items s' = scheduled_items s"
    using inv bounded_push(4,5) [of "scheduled_items s" ?it]
    by (auto simp: again(3) b reschedule_items sched_inv_def le_less)
  ultimately show ?thesis
    using a(1) again(3) by (auto simp: credit_def pending_def)
qed

section \<open>Reports of the handler\<close>

lemma sched_feed_handler:
  "sc_handler (fold (\<lambda>ev. sched_bus_event w ev) evs s) = feed evs (sc_handler s)"
  by (induction evs arbitrary: s) (simp_all add: sched_bus_event_def Let_def)

definition event_of :: "u32 \<Rightarrow> handler_output \<Rightarrow> (EventType \<times> u32 \<times> bytes \<times> bytes) list" where
  "event_of sid x =
     (case x of
        RequestWon \<Rightarrow> [(ev_won, sid, [], [])]
      | RequestLost \<Rightarrow> [(ev_lost, sid, [], [])]
      | Protocol i \<Rightarrow> [(if is_error i then ev_error else ev_telegram, sid,
          static_assign model_capacity (pi_master_view i), static_assign model_capacity (pi_slave_view i))]
      | _ \<Rightarrow> [])"

definition event_view :: "ProtocolEvent \<Rightarrow> EventType \<times> u32 \<times> bytes \<times> bytes" where
  "event_view e = (pe_type e, pe_session_id e, pe_master e, pe_slave e)"

lemma deliver_view:
  assumes "event_sink s" "current_session_id s \<noteq> 0"
  shows "map event_view (events (deliver hs w x s)) = map event_view (events s) @ event_of (current_session_id s) x"
  using assms by (cases x)
    (simp_all add: deliver_def onBusRequestWon_def onBusRequestLost_def request_event_def onHandlerProtocol_def
      sink_def event_of_def event_view_def ProtocolEvent_init_def Let_def)

lemma fold_deliver_view:
  "event_sink s \<Longrightarrow> current_session_id s \<noteq> 0 \<Longrightarrow>
    map event_view (events (fold (deliver hs w) xs s)) = map event_view (events s) @ concat (map (event_of (current_session_id s)) xs)"
  by (induction xs arbitrary: s) (simp_all add: deliver_view)

lemma sched_bus_simps [simp]:
  "scheduled_items (sched_bus_event w ev s) = scheduled_items s" "active_item (sched_bus_event w ev s) = active_item s"
  "current_session_id (sched_bus_event w ev s) = current_session_id s" "event_sink (sched_bus_event w ev s) = event_sink s"
  by (simp_all add: sched_bus_event_def Let_def)

lemma sched_feed_view:
  assumes "event_sink s" "current_session_id s \<noteq> 0" "outputs (feed evs (sc_handler s)) = outputs (sc_handler s) @ out"
  shows "map event_view (events (fold (\<lambda>ev. sched_bus_event w ev) evs s)) =
      map event_view (events s) @ concat (map (event_of (current_session_id s)) out)"
  using assms
proof (induction evs arbitrary: s out)
  case Nil
  then show ?case by simp
next
  case (Cons ev evs)
  obtain xs where xs: "outputs (bus_step ev (sc_handler s)) = outputs (sc_handler s) @ xs"
    using bus_step_appends by blast
  have feed_app: "\<exists>ys. outputs (feed evs h) = outputs h @ ys" for h
  proof (induction evs arbitrary: h)
    case (Cons e es)
    then show ?case using bus_step_appends [of e h] by (metis append.assoc feed_simps(2))
  qed simp
  let ?t = "sched_bus_event w ev s"
  have h: "sc_handler ?t = bus_step ev (sc_handler s)" by (simp add: sched_bus_event_def Let_def)
  obtain ys where ys: "outputs (feed evs (sc_handler ?t)) = outputs (sc_handler ?t) @ ys" using feed_app by blast
  have out: "out = xs @ ys" using Cons.prems(3) xs ys h by simp
  have "map event_view (events ?t) = map event_view (events s) @ concat (map (event_of (current_session_id s)) xs)"
    using Cons.prems(1,2) xs
    by (simp add: sched_bus_event_def Let_def fold_deliver_view)
  then show ?case
    using Cons.IH [of ?t ys] Cons.prems(1,2) ys out by simp
qed

lemma sched_feed_frame:
  "scheduled_items (fold (\<lambda>ev. sched_bus_event w ev) evs s) = scheduled_items s"
  "active_item (fold (\<lambda>ev. sched_bus_event w ev) evs s) = active_item s"
  by (induction evs arbitrary: s) simp_all

section \<open>A single message\<close>

lemma enqueue_first:
  assumes "scheduled_items s = []"
  shows "enqueue prio msg poll s = (next_session_id s,
    s\<lparr>sc_handler := (sc_handler s)\<lparr>clk_reads := clk_reads (sc_handler s) + 1\<rparr>,
      next_session_id := next_session_id s + 1, max_queue_size := max 1 (max_queue_size s),
      scheduled_items := [\<lparr>it_priority = prio, it_due = now (sc_handler s), it_session_id = next_session_id s,
        it_poll_id = poll, it_attempts = 0, it_message = seq_assign seq_nil msg False\<rparr>]\<rparr>)"
  using assms push_heap_heap_id [of Compare "[x]" for x]
  by (simp add: enqueue_def enqueueAt_def sched_now_def pushItem_def vec_push_back_def scheduler_max_items_def
      heap_inv_def is_heap_def Let_def)

lemma sendActiveMessage_outputs: "outputs (snd (sendActiveMessage msg h)) = outputs h"
  by (simp add: sendActiveMessage_def bump_defs monitor_ops Let_def)

lemma short_parts:
  assumes "master_part_ok m" "slave_part_ok r"
  shows "static_assign model_capacity m = m" "static_assign model_capacity r = r"
  using assms by (simp_all add: master_part_ok_def slave_part_ok_def static_assign_def model_capacity_def
    max_data_bytes_def word_le_nat_alt)

lemma sample_clk: "clk (sample_handler a) n = 0"
  by (simp add: sample_handler_def handler_new_def setSourceAddress_def request_new_def sample_env_def
    env.defs request.defs handler.defs Let_def)

lemma event_of_writes: "concat (map (event_of sid) (map BusWrite bs)) = []"
  by (induction bs) (simp_all add: event_of_def)

lemma time_wraps:
  assumes "0 < t" "t < 2 ^ 63"
  shows "time_add t time_max < 0"
proof -
  have "time_add t time_max = (t + time_max + 2 ^ 63) mod 2 ^ 64 - 2 ^ 63"
    using int_word_sint [of "t + time_max", where 'a = 64] by (simp add: time_add_def)
  also have "(t + time_max + 2 ^ 63) mod 2 ^ 64 = t - 1"
    using assms mod_pos_pos_trivial [of "t - 1" "2 ^ 64"] mod_add_self2 [of "t - 1" "2 ^ 64"] by (simp add: time_max_def)
  finally show ?thesis using assms by simp
qed

section \<open>Properties\<close>

text \<open>
  C8: In every state a scheduler can reach, by any sequence of its operations and of bus
  events, the queue is a heap of at most eight items, and taking the items out one after
  the other gives all of them, by due bucket, then priority, then age.
\<close>

theorem scheduler_queue:
  assumes "sched_step\<^sup>*\<^sup>* (scheduler_new h) s"
  shows "heap_inv Compare (scheduled_items s) \<and> length (scheduled_items s) \<le> scheduler_max_items
    \<and> mset (item_queue.drain (length (scheduled_items s)) (scheduled_items s)) = mset (scheduled_items s)
    \<and> sorted_wrt (\<lambda>x y. \<not> Compare x y) (item_queue.drain (length (scheduled_items s)) (scheduled_items s))"
  using sched_reachable_inv [OF assms] by (simp add: sched_inv_def item_queue.drain_mset item_queue.drain_sorted)

theorem scheduler_queue_witness:
  "length (scheduled_items (snd (enqueueAt 7 [0x08] 0 0 (scheduler_new (sample_handler 0x31))))) \<le> scheduler_max_items"
  using scheduler_queue [OF r_into_rtranclp [of sched_step, OF step_enqueueAt]] by blast

text \<open>
  C12: When nothing is being sent, the handler is free and the head of the queue is due, a tick
  starts an item that no queued item should precede, takes exactly this one out of the
  queue, and hands its bytes to the handler; the events that follow carry its session.
\<close>

theorem tick_starts_first:
  assumes "sched_inv s" "active_item s = None" "scheduled_items s \<noteq> []"
    "it_due (hd (scheduled_items s)) \<le> now (sc_handler s)" "\<not> active_message (sc_handler s)"
  shows "\<exists>it. it \<in> set (scheduled_items s) \<and> (\<forall>y \<in> set (scheduled_items s). \<not> Compare it y)
    \<and> mset (scheduled_items s) = add_mset it (mset (scheduled_items (snd (sched_tick s))))
    \<and> map_option aa_item (active_item (snd (sched_tick s))) = Some it
    \<and> current_session_id (snd (sched_tick s)) = it_session_id it
    \<and> sc_handler (snd (sched_tick s)) = snd (sendActiveMessage (sq_bytes (it_message it))
        ((sc_handler s)\<lparr>clk_reads := clk_reads (sc_handler s) + 2\<rparr>))"
proof -
  let ?it = "hd (scheduled_items s)"
  note t = tick_starts [OF assms(2-5)]
  have h: "heap_inv Compare (scheduled_items s)" using assms(1) by (simp add: sched_inv_def)
  have "\<forall>y \<in> set (scheduled_items s). \<not> Compare ?it y"
    using item_queue.pop_best [OF h] heap_pop_parts(1) [OF assms(3), of Compare] by simp
  moreover have "map_option aa_item (active_item (starts ?it s)) = Some ?it"
    using starts_simps(4) [of ?it s] by auto
  ultimately show ?thesis
    using assms(3) heap_pop_parts(2) [OF assms(3), of Compare]
    by (intro exI [of _ ?it]) (simp add: t starts_simps)
qed

definition sample_item :: "nat \<Rightarrow> Item" where
  "sample_item n = \<lparr>it_priority = 0, it_due = 0, it_session_id = of_nat n, it_poll_id = 0, it_attempts = 0,
     it_message = seq_of [0x08, 0xb5, 0x09, 0x00] False\<rparr>"

definition sample_scheduler :: "nat \<Rightarrow> scheduler" where
  "sample_scheduler n = (scheduler_new ((sample_handler 0x31)\<lparr>mon := Some (monitor_init 0)\<rparr>))
     \<lparr>scheduled_items := replicate n (sample_item 1), event_sink := True\<rparr>"

lemma sample_scheduler_inv: "n \<le> 8 \<Longrightarrow> sched_inv (sample_scheduler n)"
  by (auto simp: sched_inv_def sample_scheduler_def scheduler_new_def pending_def sample_item_def heap_inv_def
      is_heap_def scheduler_max_items_def Compare_iff less_trans [OF parent_less])

lemma sample_now: "now (sc_handler (sample_scheduler n)) = 0" "\<not> active_message (sc_handler (sample_scheduler n))"
  using sample_listening by (simp_all add: sample_scheduler_def scheduler_new_def now_def sample_handler_def
    handler_new_def setSourceAddress_def request_new_def sample_env_def env.defs request.defs handler.defs
    Let_def listening_def)

theorem tick_starts_first_witness:
  "\<exists>it. it \<in> set (scheduled_items (sample_scheduler 1))
    \<and> current_session_id (snd (sched_tick (sample_scheduler 1))) = it_session_id it"
proof -
  have "active_item (sample_scheduler 1) = None" "scheduled_items (sample_scheduler 1) = [sample_item 1]"
    by (simp_all add: sample_scheduler_def scheduler_new_def)
  moreover have "it_due (sample_item 1) = 0" by (simp add: sample_item_def)
  ultimately show ?thesis
    using tick_starts_first [OF sample_scheduler_inv [of 1]] sample_now by auto
qed

text \<open>
  C25: Attempts are bounded: a tick neither loses nor duplicates a message, and every event that
  ends an attempt, with success or not, uses up one unit of what the pending messages had
  left, which is one for each message and one for each attempt allowed to it.
\<close>

theorem attempts_bounded:
  assumes "sched_inv s"
  shows "pending (snd (sched_tick s)) = pending s \<and> credit (snd (sched_tick s)) = credit s
    \<and> (\<forall>a ev r s'. active_item s = Some a \<and> pe_session_id ev = aa_session_id a \<and> pe_type ev \<noteq> ev_won
        \<and> injectProtocolEvent ev s = Some (r, s') \<longrightarrow> credit s' < credit s)"
  using pending_tick credit_tick credit_inject [OF assms] by blast

theorem attempts_bounded_witness:
  "sched_inv (sample_scheduler 3) \<and> pending (snd (sched_tick (sample_scheduler 3))) = pending (sample_scheduler 3)"
  using attempts_bounded [OF sample_scheduler_inv [of 3]] sample_scheduler_inv [of 3] by simp

definition sample_active :: "nat \<Rightarrow> scheduler" where
  "sample_active n = (sample_scheduler n)
     \<lparr>active_item := Some \<lparr>aa_item = sample_item 9, aa_start_time = 0, aa_session_id = 9\<rparr>\<rparr>"

lemma sample_active_inv: "n \<le> 8 \<Longrightarrow> sched_inv (sample_active n)"
  using sample_scheduler_inv [of n] by (simp add: sample_active_def sched_inv_def pending_def sample_scheduler_def
    scheduler_new_def sample_item_def)

text \<open>
  When the queue has filled up in the meantime, a message that may be tried again is lost:
  the result of \<open>push_back\<close> is ignored, the queue stays as it is and nothing is left of the
  message, although attempts remain and the caller is told that the event was handled.
\<close>

theorem retry_lost_when_full:
  assumes "sched_inv s" "length (scheduled_items s) = scheduler_max_items" "active_item s = Some a"
    "pe_session_id ev = aa_session_id a" "pe_type ev = ev_lost"
    "it_attempts (aa_item a) + 1 < max_attempts s" "mon (sc_handler s) \<noteq> None"
  shows "\<exists>s'. injectProtocolEvent ev s = Some (True, s') \<and> scheduled_items s' = scheduled_items s \<and> active_item s' = None"
proof -
  have "injectProtocolEvent ev s = Some (True, reschedule (retried a) s)"
    using assms(3-7) by (auto simp: injectProtocolEvent_def retried_def Let_def)
  moreover have "scheduled_items (reschedule (retried a) s) = scheduled_items s"
    using assms(1,2) bounded_push(5) [of "scheduled_items s" "backed_off (retried a) s"]
    by (simp add: reschedule_items sched_inv_def)
  ultimately show ?thesis by simp
qed

theorem retry_lost_when_full_witness:
  "\<exists>s'. injectProtocolEvent (ProtocolEvent_init\<lparr>pe_type := ev_lost, pe_session_id := 9\<rparr>) (sample_active 8) = Some (True, s')
    \<and> scheduled_items s' = scheduled_items (sample_active 8)"
proof -
  have "length (scheduled_items (sample_active 8)) = scheduler_max_items"
    "active_item (sample_active 8) = Some \<lparr>aa_item = sample_item 9, aa_start_time = 0, aa_session_id = 9\<rparr>"
    "max_attempts (sample_active 8) = 3" "mon (sc_handler (sample_active 8)) \<noteq> None"
    by (simp_all add: sample_active_def sample_scheduler_def scheduler_new_def scheduler_max_items_def)
  with retry_lost_when_full [OF sample_active_inv [of 8] this(1,2), of "ProtocolEvent_init\<lparr>pe_type := ev_lost, pe_session_id := 9\<rparr>"]
  show ?thesis by (auto simp: sample_item_def)
qed

text \<open>
  The delay before attempt number \<open>k + 1\<close> is the base delay doubled \<open>k - 1\<close> times, for up to
  ten attempts. From the eleventh on the delay is the largest duration there is, and adding
  it to the current time overflows: the due time lies in the past, so that the message is
  not delayed at all.
\<close>

theorem backoff_doubles_then_overflows:
  assumes "0 < now (sc_handler s)" "now (sc_handler s) < 2 ^ 63"
  shows "(\<forall>k \<in> {1 .. 10}. backoffDuration (int k) s = base_backoff s * 2 ^ (k - 1))
    \<and> (\<forall>it. 10 < it_attempts it \<longrightarrow> it_due (backed_off it s) < 0)"
proof
  have "\<forall>j \<in> {0 ..< 10}. [1, 2, 4, 8, 16, 32, 64, 128, 256, 512] ! j = (2 :: int) ^ j" by code_simp
  moreover have "nat (int k - 1) = k - 1" for k by simp
  ultimately show "\<forall>k \<in> {1 .. 10}. backoffDuration (int k) s = base_backoff s * 2 ^ (k - 1)"
    unfolding backoffDuration_def Let_def by (auto simp: Ball_def)
  show "\<forall>it. 10 < it_attempts it \<longrightarrow> it_due (backed_off it s) < 0"
  proof (intro allI impI)
    fix it :: Item
    assume "10 < it_attempts it"
    then have "10 < uint (it_attempts it)" by (simp add: word_less_def)
    then have "backoffDuration (uint (it_attempts it)) s = time_max" by (simp add: backoffDuration_def Let_def)
    then show "it_due (backed_off it s) < 0"
      using assms time_wraps by (simp add: backed_off_def)
  qed
qed

theorem backoff_doubles_then_overflows_witness:
  "it_due (backed_off ((sample_item 1)\<lparr>it_attempts := 11\<rparr>)
     ((sample_scheduler 0)\<lparr>sc_handler := (sample_handler 0x31)\<lparr>clk := \<lambda>_. 5\<rparr>\<rparr>)) < 0"
  using backoff_doubles_then_overflows [of "(sample_scheduler 0)\<lparr>sc_handler := (sample_handler 0x31)\<lparr>clk := \<lambda>_. 5\<rparr>\<rparr>"]
  by (simp add: now_def)

text \<open>
  A message that is queued reaches the bus and comes back: \<open>enqueue\<close> gives it a session, the
  next tick hands it to the handler, the exchange on the bus produces one event for the bus
  won and one for the telegram, both with this session, the telegram with the parts that
  were exchanged, and feeding that event back ends the attempt and leaves nothing pending.
\<close>

theorem scheduled_message_sent:
  fixes s :: scheduler and msg r :: bytes and prio :: u8 and poll :: u16 and w :: u64 and e1 e2 :: BusEvent
    and evs :: "BusEvent list"
  defines "sid \<equiv> next_session_id s" and "h \<equiv> sc_handler s"
  defines "m \<equiv> source_address h # msg"
  defines "s1 \<equiv> snd (enqueue prio msg poll s)"
  defines "s2 \<equiv> snd (sched_tick s1)"
  assumes q: "scheduled_items s = []" "active_item s = None" "event_sink s" "sid \<noteq> 0"
    and h: "free h" "clk h (clk_reads h) \<le> clk h (clk_reads h + 1)"
    and m: "master_part_ok m" "typeOf (m ! 1) = master_slave" "slave_part_ok r"
    and e: "plain e1" "ev_byte e1 = syn" "ev_bus_request e2" "\<not> ev_start_bit e2" "ev_byte e2 = syn"
    and evs: "map ev_byte evs = exchange_wire m r" "\<forall>ev \<in> set evs. plain ev"
  defines "s3 \<equiv> fold (\<lambda>ev. sched_bus_event w ev) (e1 # e2 # evs) s2"
  shows "fst (enqueue prio msg poll s) = sid \<and> fst (sched_tick s1)
    \<and> map event_view (events s3) = map event_view (events s) @ [(ev_won, sid, [], []), (ev_telegram, sid, m, r)]
    \<and> (\<forall>ev. event_view ev = (ev_telegram, sid, m, r) \<longrightarrow>
        (\<exists>s4. injectProtocolEvent ev s3 = Some (True, s4) \<and> pending s4 = {#} \<and> current_session_id s4 = 0))"
proof -
  define it where "it = \<lparr>it_priority = prio, it_due = now h, it_session_id = sid, it_poll_id = poll,
    it_attempts = 0, it_message = seq_assign seq_nil msg False\<rparr>"
  note e1 = enqueue_first [OF q(1), of prio msg poll, folded h_def sid_def, folded it_def]
  have s1: "scheduled_items s1 = [it]" "active_item s1 = None" "event_sink s1" "events s1 = events s"
      "sc_handler s1 = h\<lparr>clk_reads := clk_reads h + 1\<rparr>"
    using e1 q by (simp_all add: s1_def)
  have tick: "sched_tick s1 = (True, starts it s1)"
    using tick_starts [of s1] s1 h by (simp add: it_def now_def free_def listening_def)
  define g where "g = h\<lparr>clk_reads := Suc (Suc (Suc (clk_reads h)))\<rparr>"
  have g: "free g" "source_address g = source_address h" "outputs g = outputs h"
    using h(1) by (simp_all add: g_def free_def listening_def idle_def)
  have msg: "sq_bytes (it_message it) = msg" by (simp add: it_def seq_assign_def seq_of_def)
  have fed: "fst (sendActiveMessage msg g)"
      "outputs (feed (e1 # e2 # evs) (snd (sendActiveMessage msg g))) =
         outputs h @ [RequestWon] @ active_outputs True m r @ [BusWrite syn]"
    using message_exchanged [of g msg r e1 e2 evs] g m e evs by (simp_all add: m_def)
  have s2: "current_session_id s2 = sid" "event_sink s2" "sc_handler s2 = snd (sendActiveMessage msg g)"
      "events s2 = events s" "scheduled_items s2 = []"
    using tick starts_simps [of it s1] s1 msg fed(1) heap_pop_parts(3) [of "[it]" Compare]
    by (simp_all add: s2_def g_def it_def)
  have out: "outputs (snd (sendActiveMessage msg g)) = outputs h"
    using g(3) by (simp add: sendActiveMessage_outputs)
  have "map event_view (events s3) = map event_view (events s) @
      concat (map (event_of sid) ([RequestWon] @ active_outputs True m r @ [BusWrite syn]))"
    using sched_feed_view [of s2 "e1 # e2 # evs"] s2 q(4) fed(2) out by (simp add: s3_def)
  also have "\<dots> = map event_view (events s) @ [(ev_won, sid, [], []), (ev_telegram, sid, m, r)]"
    using m short_parts [OF m(1,3)]
    by (simp add: active_outputs_def event_of_def telegram_info_def ProtocolInfo_init_def Let_def event_of_writes)
  finally have view: "map event_view (events s3) = \<dots>" .
  obtain t where act: "active_item s3 = Some \<lparr>aa_item = it, aa_start_time = t, aa_session_id = sid\<rparr>"
    using starts_simps(4) [of it s1] tick by (auto simp: s3_def s2_def it_def sched_feed_frame)
  have "scheduled_items s3 = []" using s2(5) by (simp add: s3_def sched_feed_frame)
  then have "injectProtocolEvent ev s3 = Some (True, forget_attempt s3) \<and> pending (forget_attempt s3) = {#}"
    if "event_view ev = (ev_telegram, sid, m, r)" for ev
    using act that by (simp add: injectProtocolEvent_def event_view_def pending_def)
  then show ?thesis using view e1 tick by (auto simp: s1_def)
qed

definition sample_sender :: scheduler where
  "sample_sender = (scheduler_new ((sample_handler 0x31)\<lparr>lock_counter := 0\<rparr>))\<lparr>event_sink := True\<rparr>"

theorem scheduled_message_sent_witness:
  "(let msg = [0x08, 0xb5, 0x09, 0x01, 0xaa]; r = [0x01, 0xa9]; m = [0x31, 0x08, 0xb5, 0x09, 0x01, 0xaa];
        wire = event syn # (event syn)\<lparr>ev_bus_request := True\<rparr> # map event (exchange_wire m r);
        s1 = snd (enqueue 5 msg 0 sample_sender)
    in map event_view (events (fold (\<lambda>ev. sched_bus_event 0 ev) wire (snd (sched_tick s1))))
      = [(ev_won, 1, [], []), (ev_telegram, 1, m, r)])"
proof -
  let ?m = "[0x31, 0x08, 0xb5, 0x09, 0x01, 0xaa]" and ?h = "(sample_handler 0x31)\<lparr>lock_counter := 0\<rparr>"
  have k: "isMaster 0x31" "master_part_ok ?m" "slave_part_ok [0x01, 0xa9]" "typeOf (?m ! 1) = master_slave"
    by code_simp+
  have s: "scheduled_items sample_sender = []" "active_item sample_sender = None" "event_sink sample_sender"
      "next_session_id sample_sender = 1" "sc_handler sample_sender = ?h" "events sample_sender = []"
    by (simp_all add: sample_sender_def scheduler_new_def)
  have h: "free ?h" "source_address ?h = 0x31" "clk ?h n = 0" for n
    using k(1) sample_listening by (simp_all add: free_def listening_def idle_def sample_clk)
  have e: "plain (event syn)" "ev_byte (event syn) = syn" "ev_bus_request ((event syn)\<lparr>ev_bus_request := True\<rparr>)"
    "\<not> ev_start_bit ((event syn)\<lparr>ev_bus_request := True\<rparr>)" "ev_byte ((event syn)\<lparr>ev_bus_request := True\<rparr>) = syn"
    by (simp_all add: event_def plain_def)
  from scheduled_message_sent [OF s(1-3) _ _ _ _ _ k(3) e, where evs = "map event (exchange_wire ?m [0x01, 0xa9])"
      and msg = "[0x08, 0xb5, 0x09, 0x01, 0xaa]" and w = 0 and prio = 5 and poll = 0]
  show ?thesis using k s h event_map by (simp add: Let_def del: fold_simps)
qed

end
