(* ===== verification/Poll_Manager.thy ===== *)
theory Poll_Manager
  imports Scheduler
begin

text \<open>
  \<open>PollManager\<close> (\<open>src/ebus/app/poll_manager.hpp\<close>, \<open>.cpp\<close>): recurring commands, each with an
  interval and the time it is due next, in the vector of a binary heap (\<open>Heap_Queue\<close>)
  with the earliest item in front. The clock is a sequence of readings, as for the handler;
  the predicate that tells whether the system is busy is a sequence of answers, and the
  callback that gets a due item is the list \<open>polled\<close>. Points in time are microseconds in a
  signed 64-bit representation (\<open>time_add\<close>), intervals are milliseconds. \<open>mergeFromJson\<close>
  calls \<open>addPollItem\<close> for what a JSON document lists and is not modelled; neither is the mutex.
\<close>

section \<open>Data\<close>

record PollItem =
  pl_poll_id :: u16
  pl_priority :: u8
  pl_message :: sequence
  pl_interval :: int
  pl_next_due :: int

definition Greater :: "PollItem \<Rightarrow> PollItem \<Rightarrow> bool" where
  "Greater lhs rhs =
     (if pl_next_due lhs \<noteq> pl_next_due rhs then pl_next_due lhs > pl_next_due rhs
      else pl_poll_id lhs > pl_poll_id rhs)"

definition poll_max_items :: nat where
  "poll_max_items = 64"

record poll_manager =
  pl_items :: "PollItem list"
  own_address :: u8
  is_busy :: "(nat \<Rightarrow> bool) option"
  max_item_count :: nat
  next_poll_id :: u16
  pl_clock :: "nat \<Rightarrow> int"
  pl_clk_reads :: nat
  pl_busy_reads :: nat
  polled :: "PollItem list"

definition poll_manager_new :: "(nat \<Rightarrow> int) \<Rightarrow> poll_manager" where
  "poll_manager_new readings =
     \<lparr>pl_items = [], own_address = 0xff, is_busy = None, max_item_count = 0, next_poll_id = 1,
      pl_clock = readings, pl_clk_reads = 0, pl_busy_reads = 0, polled = []\<rparr>"

definition pl_now :: "poll_manager \<Rightarrow> int \<times> poll_manager" where
  "pl_now p = (pl_clock p (pl_clk_reads p), p\<lparr>pl_clk_reads := pl_clk_reads p + 1\<rparr>)"

definition pl_ask_busy :: "poll_manager \<Rightarrow> bool \<times> poll_manager" where
  "pl_ask_busy p =
     (case is_busy p of
        None \<Rightarrow> (False, p)
      | Some answers \<Rightarrow> (answers (pl_busy_reads p), p\<lparr>pl_busy_reads := pl_busy_reads p + 1\<rparr>))"

section \<open>Configuration and items\<close>

text \<open>The loop that erases while it walks through the vector; an erased position is visited again.\<close>

definition polls :: "u8 \<Rightarrow> PollItem \<Rightarrow> bool" where
  "polls own_slave it \<longleftrightarrow> sq_bytes (pl_message it) \<noteq> [] \<and> sq_bytes (pl_message it) ! 0 = own_slave"

function erase_polls :: "u8 \<Rightarrow> nat \<Rightarrow> PollItem list \<Rightarrow> PollItem list" where
  "erase_polls own_slave i items =
     (if i < length items
      then if polls own_slave (items ! i) then erase_polls own_slave i (vec_erase i items)
           else erase_polls own_slave (i + 1) items
      else items)"
  by pat_completeness auto
termination by (relation "measure (\<lambda>(a, i, items). length items - i)") (auto simp: vec_erase_def)

declare erase_polls.simps [simp del]

definition setOwnAddress :: "u8 \<Rightarrow> poll_manager \<Rightarrow> poll_manager" where
  "setOwnAddress address p =
     p\<lparr>own_address := address, pl_items := erase_polls (slaveOf address) 0 (pl_items p)\<rparr>"

definition setBusyPredicate :: "(nat \<Rightarrow> bool) option \<Rightarrow> poll_manager \<Rightarrow> poll_manager" where
  "setBusyPredicate pred p = p\<lparr>is_busy := pred\<rparr>"

definition new_poll_id :: "poll_manager \<Rightarrow> u16 \<times> poll_manager" where
  "new_poll_id p =
     (let i = next_poll_id p; p1 = p\<lparr>next_poll_id := i + 1\<rparr>
      in if i = 0 then (next_poll_id p1, p1\<lparr>next_poll_id := next_poll_id p1 + 1\<rparr>) else (i, p1))"

definition addPollItem :: "u8 \<Rightarrow> bytes \<Rightarrow> u32 \<Rightarrow> poll_manager \<Rightarrow> u16 \<times> poll_manager" where
  "addPollItem priority message interval_ms p =
     (let interval_ms = (if interval_ms = 0 then 1 else interval_ms)
      in if message \<noteq> [] \<and> message ! 0 = slaveOf (own_address p) then (0, p)
         else if length (pl_items p) \<ge> poll_max_items then (0, p)
         else
           (let (i, p1) = new_poll_id p; (t, p2) = pl_now p1;
                it = \<lparr>pl_poll_id = i, pl_priority = priority, pl_message = seq_assign seq_nil message False,
                      pl_interval = uint interval_ms, pl_next_due = t\<rparr>;
                items = snd (vec_push_back poll_max_items it (pl_items p2))
            in (i, p2\<lparr>max_item_count := (if length items > max_item_count p2 then length items else max_item_count p2),
                      pl_items := push_heap Greater items\<rparr>)))"

fun find_index :: "('a \<Rightarrow> bool) \<Rightarrow> 'a list \<Rightarrow> nat" where
  "find_index P [] = 0"
| "find_index P (x # xs) = (if P x then 0 else Suc (find_index P xs))"

definition removePollItem :: "u16 \<Rightarrow> poll_manager \<Rightarrow> poll_manager" where
  "removePollItem i p =
     (let pos = find_index (\<lambda>it. pl_poll_id it = i) (pl_items p)
      in if pos \<noteq> length (pl_items p) then p\<lparr>pl_items := vec_erase pos (pl_items p)\<rparr> else p)"

definition poll_clear :: "poll_manager \<Rightarrow> poll_manager" where
  "poll_clear p = p\<lparr>pl_items := vec_clear (pl_items p)\<rparr>"

section \<open>Processing\<close>

definition poll_item :: "poll_manager \<Rightarrow> poll_manager" where
  "poll_item p =
     (let (it, items) = heap_pop Greater (pl_items p);
          p1 = p\<lparr>pl_items := items, polled := polled p @ [it]\<rparr>;
          (t, p2) = pl_now p1;
          due = time_add t (1000 * pl_interval it);
          due = (if due \<le> t then time_add t 1000 else due);
          it = it\<lparr>pl_next_due := due\<rparr>
      in p2\<lparr>pl_items := push_heap Greater (snd (vec_push_back poll_max_items it (pl_items p2)))\<rparr>)"

text \<open>
  The loop; its second result tells what it wrote to the activity flag. Nothing bounds the
  number of rounds but the clock, so not returning is the value \<open>None\<close>.
\<close>

partial_function (option) process_loop :: "bool \<Rightarrow> poll_manager \<Rightarrow> (bool \<times> poll_manager) option" where
  "process_loop act p =
     (if pl_items p = [] then Some (act, p)
      else
        (let (t, p1) = pl_now p
         in if pl_next_due (hd (pl_items p1)) \<le> t
            then (let (busy, p2) = pl_ask_busy p1
                  in if busy then Some (act, p2) else process_loop True (poll_item p2))
            else Some (act, p1)))"

definition processDueItems :: "bool option \<Rightarrow> poll_manager \<Rightarrow> (bool option \<times> poll_manager) option" where
  "processDueItems activity p =
     (case process_loop False p of
        None \<Rightarrow> None
      | Some (act, p1) \<Rightarrow> Some (map_option (\<lambda>old. old \<or> act) activity, p1))"

definition poll_nextDueTime :: "poll_manager \<Rightarrow> int \<times> poll_manager" where
  "poll_nextDueTime p =
     (let (busy, p1) = pl_ask_busy p
      in (if busy then time_max else if pl_items p1 = [] then time_max else pl_next_due (hd (pl_items p1)), p1))"

definition poll_resetPeakMetrics :: "poll_manager \<Rightarrow> poll_manager" where
  "poll_resetPeakMetrics p = p\<lparr>max_item_count := length (pl_items p)\<rparr>"

definition poll_fetchStatus :: "poll_manager \<Rightarrow> nat \<times> nat \<times> nat" where
  "poll_fetchStatus p = (length (pl_items p), max_item_count p, poll_max_items)"

section \<open>The heap of the items\<close>

lemma Greater_iff:
  "Greater a b \<longleftrightarrow> pl_next_due b < pl_next_due a \<or> pl_next_due b = pl_next_due a \<and> pl_poll_id b < pl_poll_id a"
  by (auto simp: Greater_def)

interpretation poll_order: heap_order Greater
  by unfold_locales (auto simp: Greater_iff)

interpretation poll_queue: priority_queue Greater "heap_inv Greater" mset "heap_push Greater" "heap_pop Greater"
  by (rule poll_order.heap_queue)

lemma front_earliest:
  "heap_inv Greater items \<Longrightarrow> it \<in> set items \<Longrightarrow> pl_next_due (hd items) \<le> pl_next_due it"
  using poll_queue.pop_best [of items it] heap_pop_parts(1) [of items Greater]
  by (cases "items = []") (auto simp: Greater_iff)

lemma pl_now_simps [simp]:
  "fst (pl_now p) = pl_clock p (pl_clk_reads p)" "pl_items (snd (pl_now p)) = pl_items p"
  "own_address (snd (pl_now p)) = own_address p" "is_busy (snd (pl_now p)) = is_busy p"
  "max_item_count (snd (pl_now p)) = max_item_count p" "next_poll_id (snd (pl_now p)) = next_poll_id p"
  "pl_clock (snd (pl_now p)) = pl_clock p" "pl_clk_reads (snd (pl_now p)) = pl_clk_reads p + 1"
  "pl_busy_reads (snd (pl_now p)) = pl_busy_reads p" "polled (snd (pl_now p)) = polled p"
  by (simp_all add: pl_now_def)

lemma pl_ask_busy_simps [simp]:
  "pl_items (snd (pl_ask_busy p)) = pl_items p" "own_address (snd (pl_ask_busy p)) = own_address p"
  "is_busy (snd (pl_ask_busy p)) = is_busy p" "max_item_count (snd (pl_ask_busy p)) = max_item_count p"
  "next_poll_id (snd (pl_ask_busy p)) = next_poll_id p" "pl_clock (snd (pl_ask_busy p)) = pl_clock p"
  "pl_clk_reads (snd (pl_ask_busy p)) = pl_clk_reads p" "polled (snd (pl_ask_busy p)) = polled p"
  by (simp_all add: pl_ask_busy_def split: option.split)

lemma new_poll_id_simps [simp]:
  "pl_items (snd (new_poll_id p)) = pl_items p" "own_address (snd (new_poll_id p)) = own_address p"
  "is_busy (snd (new_poll_id p)) = is_busy p" "max_item_count (snd (new_poll_id p)) = max_item_count p"
  "pl_clock (snd (new_poll_id p)) = pl_clock p" "pl_clk_reads (snd (new_poll_id p)) = pl_clk_reads p"
  "polled (snd (new_poll_id p)) = polled p" "fst (new_poll_id p) \<noteq> 0"
  by (simp_all add: new_poll_id_def Let_def)

text \<open>What one round of the loop does to the items.\<close>

definition rescheduled :: "int \<Rightarrow> PollItem \<Rightarrow> PollItem" where
  "rescheduled t it =
     it\<lparr>pl_next_due := (let due = time_add t (1000 * pl_interval it) in if due \<le> t then time_add t 1000 else due)\<rparr>"

lemma rescheduled_simps [simp]:
  "pl_poll_id (rescheduled t it) = pl_poll_id it" "pl_message (rescheduled t it) = pl_message it"
  "pl_interval (rescheduled t it) = pl_interval it" "pl_priority (rescheduled t it) = pl_priority it"
  by (simp_all add: rescheduled_def)

lemma poll_item_simps [simp]:
  "own_address (poll_item p) = own_address p" "is_busy (poll_item p) = is_busy p"
  "max_item_count (poll_item p) = max_item_count p" "next_poll_id (poll_item p) = next_poll_id p"
  "pl_clock (poll_item p) = pl_clock p" "pl_clk_reads (poll_item p) = pl_clk_reads p + 1"
  "pl_busy_reads (poll_item p) = pl_busy_reads p"
  by (simp_all add: poll_item_def split_beta Let_def)

lemma poll_item_effect:
  assumes "pl_items p \<noteq> []" "length (pl_items p) \<le> poll_max_items"
  defines "it \<equiv> hd (pl_items p)" and "t \<equiv> pl_clock p (pl_clk_reads p)"
  shows "polled (poll_item p) = polled p @ [it]"
    and "pl_items (poll_item p) = heap_push Greater (rescheduled t it) (snd (heap_pop Greater (pl_items p)))"
    and "mset (pl_items (poll_item p)) = add_mset (rescheduled t it) (mset (pl_items p) - {#it#})"
    and "length (pl_items (poll_item p)) = length (pl_items p)"
proof -
  note parts = heap_pop_parts [OF assms(1), of Greater]
  have len: "length (snd (heap_pop Greater (pl_items p))) < poll_max_items"
    using parts(3) assms(1,2) by (cases "pl_items p") auto
  show "polled (poll_item p) = polled p @ [it]"
    using parts(1) by (simp add: poll_item_def split_beta Let_def it_def)
  show items: "pl_items (poll_item p) = heap_push Greater (rescheduled t it) (snd (heap_pop Greater (pl_items p)))"
    using len parts(1) by (simp add: poll_item_def split_beta Let_def heap_push_def vec_push_back_def
        rescheduled_def it_def t_def)
  show m: "mset (pl_items (poll_item p)) = add_mset (rescheduled t it) (mset (pl_items p) - {#it#})"
    using parts(2) by (simp add: items heap_push_def push_heap_mset it_def)
  show "length (pl_items (poll_item p)) = length (pl_items p)"
    using parts(3) assms(1) by (simp add: items heap_push_def heap_lengths)
qed

section \<open>Invariant\<close>

definition poll_inv :: "poll_manager \<Rightarrow> bool" where
  "poll_inv p \<longleftrightarrow> length (pl_items p) \<le> max_item_count p \<and> max_item_count p \<le> poll_max_items
     \<and> (\<forall>it \<in> set (pl_items p). pl_poll_id it \<noteq> 0 \<and> 1 \<le> pl_interval it \<and> pl_interval it < 2 ^ 32
          \<and> \<not> polls (slaveOf (own_address p)) it)"

lemma poll_inv_cong:
  "pl_items q = pl_items p \<Longrightarrow> own_address q = own_address p \<Longrightarrow> max_item_count q = max_item_count p
    \<Longrightarrow> poll_inv q = poll_inv p"
  by (simp add: poll_inv_def)

lemma erase_polls_filter:
  "erase_polls a i items = take i items @ filter (\<lambda>it. \<not> polls a it) (drop i items)"
proof (induction a i items rule: erase_polls.induct)
  case (1 a i items)
  show ?case
  proof (cases "i < length items")
    case True
    have d: "drop i items = items ! i # drop (Suc i) items" using True by (rule Cons_nth_drop_Suc [symmetric])
    show ?thesis
      using True 1 by (subst erase_polls.simps)
        (auto simp: vec_erase_def d take_Suc_conv_app_nth)
  qed (subst erase_polls.simps, simp)
qed

lemma vec_erase_set: "set (vec_erase i xs) \<subseteq> set xs"
  using set_take_subset [of i xs] set_drop_subset [of "i + 1" xs] by (auto simp: vec_erase_def)

lemma vec_erase_length: "length (vec_erase i xs) \<le> length xs"
  by (simp add: vec_erase_def)

lemma setOwnAddress_inv: "poll_inv p \<Longrightarrow> poll_inv (setOwnAddress a p)"
  by (auto simp: poll_inv_def setOwnAddress_def erase_polls_filter intro: le_trans [OF length_filter_le])

lemma poll_inv_fewer:
  "poll_inv p \<Longrightarrow> set items \<subseteq> set (pl_items p) \<Longrightarrow> length items \<le> length (pl_items p)
    \<Longrightarrow> poll_inv (p\<lparr>pl_items := items\<rparr>)"
  by (simp add: poll_inv_def subset_iff)

lemma removePollItem_inv: "poll_inv p \<Longrightarrow> poll_inv (removePollItem i p)"
  by (simp add: removePollItem_def Let_def poll_inv_fewer vec_erase_set vec_erase_length)

lemma push_heap_set: "set (push_heap lt xs) = set xs"
  by (rule mset_eq_setD [OF push_heap_mset])

lemma addPollItem_inv:
  assumes "poll_inv p"
  shows "poll_inv (snd (addPollItem prio m ms p))"
proof -
  have pos: "1 \<le> uint ms" if "ms \<noteq> 0" using that word_gt_0 [of ms] by (simp add: word_less_def)
  have bound: "uint ms < 2 ^ 32" using uint_lt2p [of ms] by simp
  show ?thesis
    using assms pos bound
    by (auto simp: poll_inv_def addPollItem_def split_beta Let_def vec_push_back_def heap_lengths
        polls_def seq_assign_def push_heap_set)
qed

lemma poll_item_inv:
  assumes "poll_inv p" "pl_items p \<noteq> []"
  shows "poll_inv (poll_item p)"
proof -
  have len: "length (pl_items p) \<le> poll_max_items" using assms(1) by (simp add: poll_inv_def)
  note e = poll_item_effect(3,4) [OF assms(2) len]
  have "set (pl_items (poll_item p)) \<subseteq> insert (rescheduled (pl_clock p (pl_clk_reads p)) (hd (pl_items p))) (set (pl_items p))"
    using arg_cong [OF e(1), of set_mset] by (auto dest: in_diffD)
  then show ?thesis
    using assms e(2) hd_in_set [OF assms(2)] by (fastforce simp: poll_inv_def polls_def)
qed

lemma poll_item_heap:
  assumes "poll_inv p" "pl_items p \<noteq> []" "heap_inv Greater (pl_items p)"
  shows "heap_inv Greater (pl_items (poll_item p))"
  using assms poll_item_effect(2) [of p] poll_queue.push_invar poll_queue.pop_invar [of "pl_items p"]
  by (simp add: poll_inv_def)

lemma process_loop_invariant:
  assumes "process_loop act p = Some r" "I p"
    and "\<And>q. I q \<Longrightarrow> I (snd (pl_now q))" "\<And>q. I q \<Longrightarrow> I (snd (pl_ask_busy q))"
    and "\<And>q. I q \<Longrightarrow> pl_items q \<noteq> [] \<Longrightarrow> I (poll_item q)"
  shows "I (snd r)"
proof -
  have "I p \<longrightarrow> I (snd r)"
    using _ assms(1)
  proof (rule process_loop.raw_induct)
    fix loop and act :: bool and q :: poll_manager and y :: "bool \<times> poll_manager"
    assume IH: "\<And>(a :: bool) q (y :: bool \<times> poll_manager). loop a q = Some y \<Longrightarrow> I q \<longrightarrow> I (snd y)"
    assume "(if pl_items q = [] then Some (act, q)
      else let (t, q1) = pl_now q
        in if pl_next_due (hd (pl_items q1)) \<le> t
           then let (busy, q2) = pl_ask_busy q1 in if busy then Some (act, q2) else loop True (poll_item q2)
           else Some (act, q1)) = Some y"
    then show "I q \<longrightarrow> I (snd y)"
      using IH assms(3,4) assms(5) [OF assms(4) [OF assms(3)]]
      by (auto simp: split_beta Let_def split: if_splits)
  qed
  with assms(2) show ?thesis by blast
qed

lemma processDueItems_inv:
  assumes "processDueItems act p = Some r" "poll_inv p"
  shows "poll_inv (snd r)"
proof -
  from assms(1) obtain r' where r': "process_loop False p = Some r'" "snd r = snd r'"
    by (auto simp: processDueItems_def split: option.splits)
  have "poll_inv (snd r')"
    using r'(1) assms(2) by (rule process_loop_invariant) (simp_all add: poll_item_inv, simp_all add: poll_inv_def)
  then show ?thesis using r'(2) by simp
qed

inductive poll_step :: "poll_manager \<Rightarrow> poll_manager \<Rightarrow> bool" where
  step_setOwnAddress: "poll_step p (setOwnAddress a p)"
| step_setBusyPredicate: "poll_step p (setBusyPredicate f p)"
| step_addPollItem: "poll_step p (snd (addPollItem prio m ms p))"
| step_removePollItem: "poll_step p (removePollItem i p)"
| step_processDueItems: "processDueItems act p = Some r \<Longrightarrow> poll_step p (snd r)"
| step_poll_clear: "poll_step p (poll_clear p)"
| step_poll_nextDueTime: "poll_step p (snd (poll_nextDueTime p))"
| step_poll_resetPeakMetrics: "poll_step p (poll_resetPeakMetrics p)"

lemma poll_step_inv: "poll_step p q \<Longrightarrow> poll_inv p \<Longrightarrow> poll_inv q"
proof (induction rule: poll_step.induct)
  case (step_processDueItems act p r)
  then show ?case by (rule processDueItems_inv)
qed (simp_all add: setOwnAddress_inv addPollItem_inv removePollItem_inv, simp_all add: poll_inv_def
    setBusyPredicate_def poll_clear_def vec_clear_eq poll_nextDueTime_def split_beta poll_resetPeakMetrics_def)

lemma poll_reachable_inv: "poll_step\<^sup>*\<^sup>* (poll_manager_new c) p \<Longrightarrow> poll_inv p"
proof (induction rule: rtranclp_induct)
  case base
  then show ?case by (simp add: poll_inv_def poll_manager_new_def)
qed (rule poll_step_inv)

section \<open>The loop returns\<close>

text \<open>
  The clock readings of a call lie between \<open>t0\<close> and \<open>t0 + d\<close>, where no interval is shorter than
  \<open>d\<close>: then no item can become due twice.
\<close>

definition steady :: "int \<Rightarrow> int \<Rightarrow> nat \<Rightarrow> poll_manager \<Rightarrow> bool" where
  "steady t0 d n p \<longleftrightarrow> (\<forall>j < n. t0 \<le> pl_clock p (pl_clk_reads p + j) \<and> pl_clock p (pl_clk_reads p + j) < t0 + d)
     \<and> (\<forall>it \<in> set (pl_items p). d \<le> 1000 * pl_interval it) \<and> - (2 ^ 63) \<le> t0 \<and> t0 + d < 2 ^ 62"

definition due_before :: "int \<Rightarrow> poll_manager \<Rightarrow> nat" where
  "due_before t p = size (filter_mset (\<lambda>it. pl_next_due it < t) (mset (pl_items p)))"

lemma time_add_in_range: "- (2 ^ 63) \<le> t + d \<Longrightarrow> t + d < 2 ^ 63 \<Longrightarrow> time_add t d = t + d"
  using int_word_sint [of "t + d", where 'a = 64] by (simp add: time_add_def)

lemma rescheduled_due:
  assumes "- (2 ^ 63) \<le> t" "t < 2 ^ 62" "1 \<le> pl_interval it" "pl_interval it < 2 ^ 32"
  shows "pl_next_due (rescheduled t it) = t + 1000 * pl_interval it"
  using assms time_add_in_range [of t "1000 * pl_interval it"] by (simp add: rescheduled_def Let_def)


text \<open>
  What a call does: it polls \<open>ps\<close>, in the order of the due times, and puts each of them back
  as of the time at which its callback returned.
\<close>

text \<open>The busy predicate, asked once before each item: whether it stops the call after \<open>n\<close> items.\<close>

definition held_back :: "poll_manager \<Rightarrow> nat \<Rightarrow> bool" where
  "held_back p n \<longleftrightarrow> (case is_busy p of None \<Rightarrow> False | Some answers \<Rightarrow> answers (pl_busy_reads p + n))"

definition poll_round :: "int \<Rightarrow> int \<Rightarrow> poll_manager \<Rightarrow> PollItem list \<Rightarrow> int list \<Rightarrow> poll_manager \<Rightarrow> bool" where
  "poll_round t0 d p ps ts p' \<longleftrightarrow>
     polled p' = polled p @ ps \<and> mset ps \<subseteq># mset (pl_items p) \<and> sorted_wrt (\<lambda>x y. \<not> Greater x y) ps
     \<and> (\<forall>x \<in> set ps. pl_next_due x < t0 + d)
     \<and> (\<forall>k < length ps. \<not> held_back p k)
     \<and> (held_back p (length ps) \<or> (\<forall>x \<in># mset (pl_items p) - mset ps. t0 < pl_next_due x))
     \<and> length ts = length ps \<and> (\<forall>t \<in> set ts. t0 \<le> t \<and> t < t0 + d)
     \<and> mset (pl_items p') = mset (pl_items p) - mset ps + mset (map2 rescheduled ts ps)
     \<and> heap_inv Greater (pl_items p')"

lemma poll_round_stop:
  assumes "heap_inv Greater (pl_items p)" "polled p' = polled p" "pl_items p' = pl_items p"
    and "\<not> held_back p 0 \<Longrightarrow> pl_items p \<noteq> [] \<Longrightarrow> t0 < pl_next_due (hd (pl_items p))"
  shows "poll_round t0 d p [] [] p'"
  using assms front_earliest [OF assms(1)]
  by (cases "pl_items p = []") (force simp: poll_round_def)+

lemma poll_round_step:
  assumes round: "poll_round t0 d q ps ts p'"
    and q: "polled q = polled p @ [it]" "mset (pl_items q) = add_mset (rescheduled t it) (mset (pl_items p) - {#it#})"
      "\<And>n. held_back q n = held_back p (Suc n)" "\<not> held_back p 0"
    and it: "it \<in># mset (pl_items p)" "pl_next_due it < t0 + d" "\<forall>y \<in> set (pl_items p). \<not> Greater it y"
    and t: "t0 \<le> t" "t < t0 + d" "t0 + d \<le> pl_next_due (rescheduled t it)"
  shows "poll_round t0 d p (it # ps) (t # ts) p'"
proof -
  let ?rest = "mset (pl_items p) - {#it#}"
  have new: "rescheduled t it \<notin># mset ps" using round t(3) by (force simp: poll_round_def)
  have "mset ps \<subseteq># add_mset (rescheduled t it) ?rest" using round q(2) by (simp add: poll_round_def)
  with new have sub: "mset ps \<subseteq># ?rest"
    by (metis inter_add_left1 subset_mset.inf.absorb_iff2 subset_mset.inf.orderE)
  have diff: "mset (pl_items q) - mset ps = add_mset (rescheduled t it) (?rest - mset ps)"
    using new q(2) by (simp add: add_mset_diff_bothsides diff_add_mset_swap)
  have "mset (it # ps) \<subseteq># mset (pl_items p)" using sub it(1) by (simp add: insert_subset_eq_iff)
  moreover have "\<not> Greater it y" if "y \<in> set ps" for y
    using that sub it(3) by (metis in_diffD mset_subset_eqD set_mset_mset)
  ultimately show ?thesis
    using round q(1,3,4) it(2) t(1,2) diff unfolding poll_round_def by (auto simp: less_Suc_eq_0_disj)
qed

lemma due_before_pos:
  assumes "pl_items p \<noteq> []" "pl_next_due (hd (pl_items p)) < t"
  shows "0 < due_before t p"
proof -
  have "hd (pl_items p) \<in># filter_mset (\<lambda>it. pl_next_due it < t) (mset (pl_items p))" using assms by simp
  then show ?thesis unfolding due_before_def by (metis gr0I multi_member_split size_add_mset nat.distinct(1))
qed

lemma steady_mono: "steady t0 d m p \<Longrightarrow> n \<le> m \<Longrightarrow> steady t0 d n p"
  by (simp add: steady_def)

lemma steady_reading:
  assumes "steady t0 d n p" "j < n"
  shows "t0 \<le> pl_clock p (pl_clk_reads p + j)" "pl_clock p (pl_clk_reads p + j) < t0 + d"
  using assms by (simp_all add: steady_def)

lemma poll_item_due:
  fixes p
  defines "p2 \<equiv> snd (pl_ask_busy (snd (pl_now p)))"
  assumes "poll_inv p" "heap_inv Greater (pl_items p)" "pl_items p \<noteq> []" "pl_next_due (hd (pl_items p)) < t0 + d"
    and "steady t0 d (2 * due_before (t0 + d) p + 1) p"
  shows "due_before (t0 + d) (poll_item p2) < due_before (t0 + d) p"
    and "steady t0 d (2 * due_before (t0 + d) (poll_item p2) + 1) (poll_item p2)"
    and "poll_round t0 d (poll_item p2) ps ts p' \<Longrightarrow> \<not> held_back p 0 \<Longrightarrow>
      poll_round t0 d p (hd (pl_items p) # ps) (pl_clock p (pl_clk_reads p + 1) # ts) p'"
proof -
  let ?it = "hd (pl_items p)" and ?t = "pl_clock p (pl_clk_reads p + 1)" and ?q = "poll_item p2"
  have p2: "pl_items p2 = pl_items p" "pl_clock p2 = pl_clock p" "pl_clk_reads p2 = pl_clk_reads p + 1"
    "polled p2 = polled p" "is_busy p2 = is_busy p"
    by (simp_all add: p2_def)
  have it: "?it \<in> set (pl_items p)" "1 \<le> pl_interval ?it" "pl_interval ?it < 2 ^ 32"
    using assms(2,4) by (auto simp: poll_inv_def)
  have pos: "0 < due_before (t0 + d) p" using due_before_pos assms(4,5) by blast
  then have t: "t0 \<le> ?t" "?t < t0 + d" using steady_reading [OF assms(6), of 1] by simp_all
  moreover have "- (2 ^ 63) \<le> t0" "t0 + d < 2 ^ 62" "d \<le> 1000 * pl_interval ?it"
    using assms(6) it(1) by (simp_all add: steady_def)
  ultimately have range: "- (2 ^ 63) \<le> ?t" "?t < 2 ^ 62" "d \<le> 1000 * pl_interval ?it" by simp_all
  have due: "t0 + d \<le> pl_next_due (rescheduled ?t ?it)"
    unfolding rescheduled_due [OF range(1,2) it(2,3)] using t(1) range(3) by simp
  note e = poll_item_effect [of p2, unfolded p2, OF assms(4)]
  have len: "length (pl_items p) \<le> poll_max_items" using assms(2) by (simp add: poll_inv_def)
  have m: "mset (pl_items ?q) = add_mset (rescheduled ?t ?it) (mset (pl_items p) - {#?it#})" using e(3) len by simp
  have "due_before (t0 + d) p = Suc (due_before (t0 + d) ?q)"
  proof -
    obtain rest where rest: "mset (pl_items p) = add_mset ?it rest" using it(1) by (metis multi_member_split set_mset_mset)
    then show ?thesis using due assms(5) by (simp add: due_before_def m)
  qed
  then show less: "due_before (t0 + d) ?q < due_before (t0 + d) p" by simp
  have "set (pl_items ?q) \<subseteq> insert (rescheduled ?t ?it) (set (pl_items p))"
    using arg_cong [OF m, of set_mset] by (auto dest: in_diffD)
  then have "\<forall>x \<in> set (pl_items ?q). d \<le> 1000 * pl_interval x" using assms(6) range(3) by (force simp: steady_def)
  moreover have "t0 \<le> pl_clock p (pl_clk_reads p + 2 + j) \<and> pl_clock p (pl_clk_reads p + 2 + j) < t0 + d"
    if "j < 2 * due_before (t0 + d) ?q + 1" for j
    using steady_reading [OF assms(6), of "j + 2"] that less by (simp add: add.assoc)
  ultimately show "steady t0 d (2 * due_before (t0 + d) ?q + 1) ?q"
    using assms(6) by (simp add: steady_def p2 numeral_2_eq_2)
  have "\<forall>y \<in> set (pl_items p). \<not> Greater ?it y"
    using poll_queue.pop_best [OF assms(3)] heap_pop_parts(1) [OF assms(4), of Greater] by simp
  moreover have "held_back ?q n = held_back p (Suc n)" for n
    by (simp add: held_back_def p2 p2_def pl_ask_busy_def split: option.split)
  ultimately show "poll_round t0 d p (?it # ps) (?t # ts) p'" if "poll_round t0 d ?q ps ts p'" "\<not> held_back p 0"
    using that(2) e(1) len it(1) assms(5) t(1,2) due p2
    by (intro poll_round_step [OF that(1) _ m]) simp_all
qed

lemma process_loop_round:
  assumes "poll_inv p" "heap_inv Greater (pl_items p)" "steady t0 d (2 * due_before (t0 + d) p + 1) p"
  shows "\<exists>ps ts p'. process_loop act p = Some (act \<or> ps \<noteq> [], p') \<and> poll_round t0 d p ps ts p'"
  using assms
proof (induction "due_before (t0 + d) p" arbitrary: act p rule: less_induct)
  case (less p)
  let ?t = "pl_clock p (pl_clk_reads p)" and ?b = "pl_ask_busy (snd (pl_now p))"
  have t: "t0 \<le> ?t" "?t < t0 + d" using steady_reading [OF less.prems(3), of 0] by simp_all
  consider (idle) p' where "process_loop act p = Some (act, p')" "polled p' = polled p" "pl_items p' = pl_items p"
      "\<not> held_back p 0 \<Longrightarrow> pl_items p \<noteq> [] \<Longrightarrow> t0 < pl_next_due (hd (pl_items p))"
    | (again) "pl_items p \<noteq> []" "pl_next_due (hd (pl_items p)) \<le> ?t"
      "process_loop act p = process_loop True (poll_item (snd ?b))" "\<not> held_back p 0"
  proof (cases "pl_items p \<noteq> [] \<and> pl_next_due (hd (pl_items p)) \<le> ?t \<and> \<not> fst ?b")
    case True
    moreover from this have "process_loop act p = process_loop True (poll_item (snd ?b))"
      by (subst process_loop.simps) (simp add: split_beta)
    moreover have "\<not> held_back p 0" using True by (auto simp: held_back_def pl_ask_busy_def split: option.splits)
    ultimately show ?thesis using again by blast
  next
    case False
    let ?p' = "if pl_items p = [] then p else if pl_next_due (hd (pl_items p)) \<le> ?t then snd ?b else snd (pl_now p)"
    have "process_loop act p = Some (act, ?p')"
      using False by (subst process_loop.simps) (auto simp: split_beta)
    moreover have "\<not> held_back p 0 \<Longrightarrow> \<not> fst ?b" by (simp add: pl_ask_busy_def held_back_def split: option.splits)
    ultimately show ?thesis using False t by (intro idle [of ?p']) (auto split: if_splits)
  qed
  then show ?case
  proof cases
    case idle
    then show ?thesis using poll_round_stop [OF less.prems(2) idle(2,3)] by fastforce
  next
    case again
    have front: "pl_next_due (hd (pl_items p)) < t0 + d" using again(2) t(2) by simp
    let ?p2 = "snd ?b"
    have "poll_inv ?p2" "pl_items ?p2 \<noteq> []" "heap_inv Greater (pl_items ?p2)"
      using less.prems(1,2) again(1) by (simp_all add: poll_inv_def)
    then have q: "poll_inv (poll_item ?p2)" "heap_inv Greater (pl_items (poll_item ?p2))"
      by (simp_all add: poll_item_inv poll_item_heap)
    note due = poll_item_due [OF less.prems(1,2) again(1) front less.prems(3)]
    from less.hyps [OF due(1) q due(2), of True] show ?thesis
      using due(3) again(3,4) by fastforce
  qed
qed

section \<open>The order of the items\<close>

text \<open>Adding, processing and clearing keep the heap; erasing does not (see below).\<close>

lemma addPollItem_heap:
  assumes "poll_inv p" "heap_inv Greater (pl_items p)"
  shows "heap_inv Greater (pl_items (snd (addPollItem prio m ms p)))"
  using assms poll_queue.push_invar [of "pl_items p"]
  by (simp add: addPollItem_def split_beta Let_def vec_push_back_def heap_push_def)

lemma processDueItems_heap:
  assumes "processDueItems act p = Some r" "poll_inv p" "heap_inv Greater (pl_items p)"
  shows "heap_inv Greater (pl_items (snd r))"
proof -
  from assms(1) obtain r' where r': "process_loop False p = Some r'" "snd r = snd r'"
    by (auto simp: processDueItems_def split: option.splits)
  have "poll_inv (snd r') \<and> heap_inv Greater (pl_items (snd r'))"
    using r'(1) by (rule process_loop_invariant)
      (use assms(2,3) in \<open>simp_all add: poll_item_inv poll_item_heap, simp_all add: poll_inv_def\<close>)
  then show ?thesis using r'(2) by simp
qed

text \<open>A step that erases no single item: everything but a removal that finds one.\<close>

definition keeping_step :: "poll_manager \<Rightarrow> poll_manager \<Rightarrow> bool" where
  "keeping_step p q \<longleftrightarrow> poll_step p q \<and> (pl_items q = [] \<or> length (pl_items p) \<le> length (pl_items q))"

lemma filter_whole: "length xs \<le> length (filter P xs) \<Longrightarrow> filter P xs = xs"
  by (metis filter_id_conv length_filter_less not_le)

lemma no_items_heap: "heap_inv Greater []"
  by (simp add: heap_inv_def is_heap_def)

lemma find_index_le: "find_index P xs \<le> length xs"
  by (induction xs) auto

lemma keeping_heap:
  assumes "keeping_step p q" "poll_inv p" "heap_inv Greater (pl_items p)"
  shows "heap_inv Greater (pl_items q)"
proof -
  have "poll_step p q" "pl_items q = [] \<or> length (pl_items p) \<le> length (pl_items q)"
    using assms(1) by (simp_all add: keeping_step_def)
  then show ?thesis using assms(2,3)
  proof (induction rule: poll_step.induct)
    case (step_setOwnAddress p a)
    let ?f = "filter (\<lambda>it. \<not> polls (slaveOf a) it) (pl_items p)"
    have "?f = [] \<or> ?f = pl_items p"
      using step_setOwnAddress(1) filter_whole [of "pl_items p"] by (auto simp: setOwnAddress_def erase_polls_filter)
    with step_setOwnAddress(3) show ?case
      by (auto simp: setOwnAddress_def erase_polls_filter no_items_heap simp del: filter_empty_conv)
  next
    case (step_addPollItem p prio m ms)
    then show ?case by (simp add: addPollItem_heap)
  next
    case (step_removePollItem p i)
    let ?n = "find_index (\<lambda>it. pl_poll_id it = i) (pl_items p)"
    have "?n = length (pl_items p) \<or> vec_erase ?n (pl_items p) = []"
      using step_removePollItem(1) find_index_le [of "\<lambda>it. pl_poll_id it = i" "pl_items p"]
      by (auto simp: removePollItem_def vec_erase_def Let_def split: if_splits)
    with step_removePollItem(3) show ?case by (auto simp: removePollItem_def no_items_heap Let_def)
  next
    case (step_processDueItems act p r)
    then show ?case by (simp add: processDueItems_heap)
  qed (simp_all add: setBusyPredicate_def poll_clear_def vec_clear_eq poll_nextDueTime_def split_beta poll_resetPeakMetrics_def
      no_items_heap)
qed

lemma keeping_add: "keeping_step p (snd (addPollItem prio m ms p))"
  unfolding keeping_step_def
  by (rule conjI, rule step_addPollItem)
    (simp add: addPollItem_def split_beta Let_def vec_push_back_def heap_lengths)

lemma keeping_busy: "keeping_step p (setBusyPredicate f p)"
  unfolding keeping_step_def by (rule conjI, rule step_setBusyPredicate) (simp add: setBusyPredicate_def)

lemma keeping_reachable:
  assumes "keeping_step\<^sup>*\<^sup>* (poll_manager_new readings) p"
  shows "poll_inv p \<and> heap_inv Greater (pl_items p)"
  using assms
proof (induction rule: rtranclp_induct)
  case base
  then show ?case by (simp add: poll_inv_def poll_manager_new_def no_items_heap)
next
  case (step p q)
  then show ?case using keeping_heap [of p q] poll_step_inv [of p q] by (auto simp: keeping_step_def)
qed

declare process_loop.simps [code]

definition sample_readings :: "nat \<Rightarrow> int" where
  "sample_readings n = (if n < 10 then int n else 7000)"

definition sample_polls :: poll_manager where
  "sample_polls =
     snd (addPollItem 5 [0x08] 6
       (snd (addPollItem 5 [0x15] 9
         (snd (addPollItem 5 [0x26] 1
           (poll_manager_new sample_readings))))))"

definition sample_polled :: poll_manager where
  "sample_polled = snd (the (processDueItems None sample_polls))"

definition sample_poll :: "u16 \<Rightarrow> u8 \<Rightarrow> int \<Rightarrow> int \<Rightarrow> PollItem" where
  "sample_poll i addr ms due = \<lparr>pl_poll_id = i, pl_priority = 5, pl_message = seq_of [addr] False,
     pl_interval = ms, pl_next_due = due\<rparr>"

lemma sample_processed:
  "processDueItems None sample_polls = Some (None, sample_polled)"
  "pl_items sample_polled = [sample_poll 1 0x26 1 1004, sample_poll 2 0x15 9 9006, sample_poll 3 0x08 6 6008]"
  "pl_clk_reads sample_polled = 10" "is_busy sample_polled = None" "pl_clock sample_polled = sample_readings"
proof -
  let ?r = "processDueItems None sample_polls"
  have r: "map_option (\<lambda>r. (fst r, pl_items (snd r), pl_clk_reads (snd r))) ?r = Some (None,
      [sample_poll 1 0x26 1 1004, sample_poll 2 0x15 9 9006, sample_poll 3 0x08 6 6008], 10)"
    by code_simp
  then obtain p' where p': "?r = Some (None, p')" "sample_polled = p'" by (auto simp: sample_polled_def)
  then show "?r = Some (None, sample_polled)" by simp
  show "pl_items sample_polled = [sample_poll 1 0x26 1 1004, sample_poll 2 0x15 9 9006, sample_poll 3 0x08 6 6008]"
    "pl_clk_reads sample_polled = 10"
    using r p' by simp_all
  obtain r' where r': "process_loop False sample_polls = Some r'" "p' = snd r'"
    using p'(1) by (auto simp: processDueItems_def split: option.splits)
  have "is_busy (snd r') = None \<and> pl_clock (snd r') = sample_readings"
    using r'(1) by (rule process_loop_invariant)
      (simp_all add: sample_polls_def addPollItem_def split_beta Let_def poll_manager_new_def poll_max_items_def)
  then show "is_busy sample_polled = None" "pl_clock sample_polled = sample_readings" using p'(2) r'(2) by simp_all
qed

lemma sample_reachable: "poll_step\<^sup>*\<^sup>* (poll_manager_new sample_readings) (removePollItem 1 sample_polled)"
proof -
  have "poll_step\<^sup>*\<^sup>* (poll_manager_new sample_readings) sample_polls"
    unfolding sample_polls_def
    by (rule rtranclp.rtrancl_into_rtrancl, rule rtranclp.rtrancl_into_rtrancl, rule r_into_rtranclp)
      (rule step_addPollItem)+
  moreover have "poll_step sample_polls sample_polled" using step_processDueItems [OF sample_processed(1)] by simp
  ultimately show ?thesis using step_removePollItem by (meson rtranclp.rtrancl_into_rtrancl)
qed

section \<open>Properties\<close>

text \<open>
  C39: In every state a poll manager can reach there are at most 64 items, the peak counter is
  between their number and 64, no item has the reserved number 0 or an interval of zero,
  and none is addressed to the device itself, whatever the own address was when it was added.
\<close>

theorem poll_items_valid:
  assumes "poll_step\<^sup>*\<^sup>* (poll_manager_new readings) p"
  shows "length (pl_items p) \<le> max_item_count p \<and> max_item_count p \<le> poll_max_items
    \<and> (\<forall>it \<in> set (pl_items p). pl_poll_id it \<noteq> 0 \<and> 1 \<le> pl_interval it
        \<and> \<not> (sq_bytes (pl_message it) \<noteq> [] \<and> sq_bytes (pl_message it) ! 0 = slaveOf (own_address p)))"
  using poll_reachable_inv [OF assms] by (simp add: poll_inv_def polls_def)

theorem poll_items_valid_witness:
  "length (pl_items (setOwnAddress 0x31 (poll_manager_new int))) \<le> poll_max_items"
  using poll_items_valid [OF r_into_rtranclp [of poll_step, OF step_setOwnAddress]] by (meson le_trans)

lemma due_items_round:
  assumes "poll_inv p" "heap_inv Greater (pl_items p)"
    and "\<forall>j \<le> 2 * length (pl_items p). t0 \<le> pl_clock p (pl_clk_reads p + j) \<and> pl_clock p (pl_clk_reads p + j) < t0 + d"
    and "\<forall>it \<in> set (pl_items p). d \<le> 1000 * pl_interval it" "- (2 ^ 63) \<le> t0" "t0 + d < 2 ^ 62"
  shows "\<exists>ps ts p'. processDueItems activity p = Some (map_option (\<lambda>old. old \<or> ps \<noteq> []) activity, p')
    \<and> polled p' = polled p @ ps \<and> mset ps \<subseteq># mset (pl_items p) \<and> sorted_wrt (\<lambda>x y. \<not> Greater x y) ps
    \<and> (\<forall>x \<in> set ps. pl_next_due x < t0 + d)
    \<and> (\<forall>k < length ps. \<not> held_back p k)
    \<and> (held_back p (length ps) \<or> (\<forall>x \<in># mset (pl_items p) - mset ps. t0 < pl_next_due x))
    \<and> length ts = length ps \<and> (\<forall>t \<in> set ts. t0 \<le> t \<and> t < t0 + d)
    \<and> mset (pl_items p') = mset (pl_items p) - mset ps
        + mset (map2 (\<lambda>t x. x\<lparr>pl_next_due := t + 1000 * pl_interval x\<rparr>) ts ps)
    \<and> heap_inv Greater (pl_items p')"
proof -
  have "due_before (t0 + d) p \<le> length (pl_items p)"
    unfolding due_before_def by (metis size_filter_mset_lesseq size_mset)
  then have "steady t0 d (2 * due_before (t0 + d) p + 1) p"
    using assms(3-6) by (simp add: steady_def)
  from process_loop_round [OF assms(1,2) this, of False] obtain ps ts p' where
    loop: "process_loop False p = Some (ps \<noteq> [], p')" and round: "poll_round t0 d p ps ts p'" by auto
  have "rescheduled t x = x\<lparr>pl_next_due := t + 1000 * pl_interval x\<rparr>" if "(t, x) \<in> set (zip ts ps)" for t x
  proof -
    have "t \<in> set ts" "x \<in> set ps" using that by (auto dest: set_zip_leftD set_zip_rightD)
    moreover from this have "x \<in> set (pl_items p)"
      using round mset_subset_eqD [of "mset ps" "mset (pl_items p)" x] by (simp add: poll_round_def)
    ultimately have "t \<in> set ts" "x \<in> set (pl_items p)" by blast+
    then have "pl_next_due (rescheduled t x) = t + 1000 * pl_interval x"
      using round assms(1,5,6) by (intro rescheduled_due) (force simp: poll_round_def poll_inv_def)+
    then show ?thesis by (simp add: rescheduled_def)
  qed
  then have moved: "map2 rescheduled ts ps = map2 (\<lambda>t x. x\<lparr>pl_next_due := t + 1000 * pl_interval x\<rparr>) ts ps" by auto
  have "processDueItems activity p = Some (map_option (\<lambda>old. old \<or> ps \<noteq> []) activity, p')"
    using loop by (simp add: processDueItems_def)
  from conjI [OF this round [unfolded poll_round_def moved]] show ?thesis by (intro exI)
qed

text \<open>
  C26: In every state the manager reaches without erasing a single item (\<open>removePollItem\<close>, and
  \<open>setOwnAddress\<close> when items poll the new address, erase without restoring the heap, and can hide
  due items), a call of \<open>processDueItems\<close> during which the clock, within its range, advances by less than the
  shortest interval returns. It passes the items \<open>ps\<close> to the callback in the order of their due
  times, each at most once, puts each back one interval after its callback returned, and leaves
  all other items alone. The busy predicate, if one is set, is asked before each item: it has
  answered "not busy" before every item of \<open>ps\<close>, and unless it answered "busy" right after them, no
  item that was due when the call began is missed.
\<close>

theorem due_items_polled_once:
  assumes "keeping_step\<^sup>*\<^sup>* (poll_manager_new readings) p"
    and "\<forall>j \<le> 2 * length (pl_items p). t0 \<le> pl_clock p (pl_clk_reads p + j) \<and> pl_clock p (pl_clk_reads p + j) < t0 + d"
    and "\<forall>it \<in> set (pl_items p). d \<le> 1000 * pl_interval it" "- (2 ^ 63) \<le> t0" "t0 + d < 2 ^ 62"
  shows "\<exists>ps ts p'. processDueItems activity p = Some (map_option (\<lambda>old. old \<or> ps \<noteq> []) activity, p')
    \<and> polled p' = polled p @ ps \<and> mset ps \<subseteq># mset (pl_items p) \<and> sorted_wrt (\<lambda>x y. \<not> Greater x y) ps
    \<and> (\<forall>x \<in> set ps. pl_next_due x < t0 + d)
    \<and> (\<forall>k < length ps. \<not> held_back p k)
    \<and> (held_back p (length ps) \<or> (\<forall>x \<in># mset (pl_items p) - mset ps. t0 < pl_next_due x))
    \<and> length ts = length ps \<and> (\<forall>t \<in> set ts. t0 \<le> t \<and> t < t0 + d)
    \<and> mset (pl_items p') = mset (pl_items p) - mset ps
        + mset (map2 (\<lambda>t x. x\<lparr>pl_next_due := t + 1000 * pl_interval x\<rparr>) ts ps)
    \<and> heap_inv Greater (pl_items p')"
  using due_items_round [of p t0 d activity] keeping_reachable [OF assms(1)] assms(2-5) by blast

definition sample_busy :: poll_manager where
  "sample_busy = setBusyPredicate (Some (\<lambda>k. 2 \<le> k)) sample_polls"

theorem due_items_polled_once_witness:
  "\<exists>ps p'. processDueItems None sample_busy = Some (None, p') \<and> polled p' = polled sample_busy @ ps
    \<and> (\<forall>k < length ps. \<not> held_back sample_busy k)
    \<and> (held_back sample_busy (length ps) \<or> (\<forall>x \<in># mset (pl_items sample_busy) - mset ps. 0 < pl_next_due x))"
proof -
  have r: "keeping_step\<^sup>*\<^sup>* (poll_manager_new sample_readings) sample_busy"
    unfolding sample_busy_def sample_polls_def
    by (rule rtranclp.rtrancl_into_rtrancl, rule rtranclp.rtrancl_into_rtrancl, rule rtranclp.rtrancl_into_rtrancl,
        rule r_into_rtranclp) (rule keeping_add keeping_busy)+
  have "list_all (\<lambda>it. 1000 \<le> 1000 * pl_interval it) (pl_items sample_busy)" by code_simp
  then have "\<forall>it \<in> set (pl_items sample_busy). 1000 \<le> 1000 * pl_interval it" by (simp add: list_all_iff)
  moreover have "list_all (\<lambda>j. 0 \<le> pl_clock sample_busy (pl_clk_reads sample_busy + j)
      \<and> pl_clock sample_busy (pl_clk_reads sample_busy + j) < 0 + 1000) [0..<7]" "length (pl_items sample_busy) = 3"
    by code_simp+
  ultimately show ?thesis
    using due_items_polled_once [OF r, of 0 1000 None] by (auto simp: list_all_iff)
qed

text \<open>
  Removing an item can break the order of the heap: there is a reachable state, with a clock
  that never goes back and no busy predicate, in which an item is due and yet
  \<open>processDueItems\<close> polls nothing and \<open>nextDueTime\<close> names a later time.
\<close>

theorem removal_hides_due_item:
  "\<exists>readings p it p'. mono readings \<and> poll_step\<^sup>*\<^sup>* (poll_manager_new readings) p \<and> is_busy p = None
    \<and> it \<in> set (pl_items p) \<and> pl_next_due it \<le> pl_clock p (pl_clk_reads p)
    \<and> processDueItems None p = Some (None, p') \<and> polled p' = polled p
    \<and> pl_clock p (pl_clk_reads p) < fst (poll_nextDueTime p)"
proof -
  let ?p = "removePollItem 1 sample_polled"
  have p: "pl_items ?p = [sample_poll 2 0x15 9 9006, sample_poll 3 0x08 6 6008]" "pl_clk_reads ?p = 10"
    "is_busy ?p = None" "pl_clock ?p = sample_readings"
    by (simp_all add: removePollItem_def sample_processed Let_def sample_poll_def vec_erase_def)
  have "mono sample_readings" by (auto simp: mono_def sample_readings_def)
  moreover have "sample_poll 3 0x08 6 6008 \<in> set (pl_items ?p)"
    "pl_next_due (sample_poll 3 0x08 6 6008) \<le> pl_clock ?p (pl_clk_reads ?p)"
    "pl_clock ?p (pl_clk_reads ?p) < fst (poll_nextDueTime ?p)"
    by (simp_all add: p sample_readings_def poll_nextDueTime_def pl_ask_busy_def sample_poll_def)
  moreover have "processDueItems None ?p = Some (None, snd (pl_now ?p))"
    unfolding processDueItems_def by (subst process_loop.simps) (simp add: split_beta p sample_readings_def sample_poll_def)
  ultimately show ?thesis using sample_reachable p(3) pl_now_simps(10) by blast
qed

end

