(* ===== verification/Bridge_Client.thy ===== *)
theory Bridge_Client
  imports Protocol_Handler Containers
begin

text \<open>
  The clients of the network bridge: the two-byte codes of the enhanced protocol
  (\<open>src/ebus/app/enhanced_protocol.hpp\<close>) and the three kinds of clients (\<open>src/ebus/app/client.hpp\<close>,
  \<open>.cpp\<close>). A client has a ring of bytes for its socket, the same structure as the circular
  buffer of \<open>Containers\<close>, and a queue of 32 bytes for the bus. The queue blocks when it is full,
  and the methods that fill and empty it hold the same mutex: a full queue can never be
  emptied, which the model shows as the result \<open>None\<close>. Of the socket the model keeps
  the descriptor, -1 once it is closed; what the operating system accepts of a write is a parameter. The size
  of the ring is positive (\<open>ConfigValidator\<close> refuses 0). Where a method of the class hierarchy is
  virtual the definition branches on the type of the client.
\<close>

section \<open>The enhanced protocol\<close>

definition cmd_init :: u8 where "cmd_init = 0x00"
definition cmd_send :: u8 where "cmd_send = 0x01"
definition cmd_start :: u8 where "cmd_start = 0x02"
definition cmd_info :: u8 where "cmd_info = 0x03"

definition res_resetted :: u8 where "res_resetted = 0x00"
definition res_received :: u8 where "res_received = 0x01"
definition res_started :: u8 where "res_started = 0x02"
definition res_info :: u8 where "res_info = 0x03"
definition res_failed :: u8 where "res_failed = 0x0a"
definition res_error_ebus :: u8 where "res_error_ebus = 0x0b"
definition res_error_host :: u8 where "res_error_host = 0x0c"

definition err_framing :: u8 where "err_framing = 0x00"

lemmas code_defs = cmd_init_def cmd_send_def cmd_start_def cmd_info_def res_resetted_def res_received_def
  res_started_def res_info_def res_failed_def res_error_ebus_def res_error_host_def err_framing_def

definition enh_encode :: "u8 \<Rightarrow> u8 \<Rightarrow> bytes" where
  "enh_encode cmd val = [0xc0 OR push_bit 2 cmd OR drop_bit 6 val, 0x80 OR (val AND 0x3f)]"

definition enh_decode :: "u8 \<Rightarrow> u8 \<Rightarrow> u8 \<times> u8" where
  "enh_decode b0 b1 = (drop_bit 2 b0 AND 0x0f, push_bit 6 (b0 AND 0x03) OR (b1 AND 0x3f))"

definition isValidSequence :: "u8 \<Rightarrow> u8 \<Rightarrow> bool" where
  "isValidSequence b1 b2 \<longleftrightarrow> b1 AND 0xc0 = 0xc0 \<and> b2 AND 0xc0 = 0x80"

section \<open>Clients\<close>

datatype BridgeAction = keep_active | stop_session | bypass_wait

definition max_sequence_len :: nat where "max_sequence_len = 2"
definition data_threshold :: u8 where "data_threshold = 0x80"
definition inbound_capacity :: nat where "inbound_capacity = 32"

text \<open>\<open>cl_out\<close> is \<open>outbound_buffer_\<close> with \<open>head_\<close> and \<open>count_\<close>; \<open>cl_sent\<close> is what the socket accepted.\<close>

record client =
  cl_type :: ClientType
  cl_fd :: int
  write_capable :: bool
  cl_out :: "u8 cbuf"
  cl_in :: bytes
  cl_last_sent :: u8
  incoming_buf :: bytes
  cl_sent :: bytes

definition cl_valid :: "client \<Rightarrow> bool" where
  "cl_valid c \<longleftrightarrow> cl_fd c \<noteq> -1"

definition createClient :: "ClientType \<Rightarrow> int \<Rightarrow> nat \<Rightarrow> client" where
  "createClient ty fd max_buffer =
     \<lparr>cl_type = ty, cl_fd = fd, write_capable = (ty \<noteq> client_read_only),
      cl_out = cb_new max_buffer 0, cl_in = [], cl_last_sent = 0, incoming_buf = [], cl_sent = []\<rparr>"

definition cl_stop :: "client \<Rightarrow> client" where
  "cl_stop c = c\<lparr>cl_fd := -1\<rparr>"

subsection \<open>The ring of outgoing bytes\<close>

text \<open>Arithmetic of \<open>size_t\<close>.\<close>

definition size_add :: "nat \<Rightarrow> nat \<Rightarrow> nat" where
  "size_add a b = (a + b) mod 2 ^ 64"

definition size_sub :: "nat \<Rightarrow> nat \<Rightarrow> nat" where
  "size_sub a b = (if b \<le> a then a - b else 2 ^ 64 + a - b)"

definition ring_store :: "u8 \<Rightarrow> u8 cbuf \<Rightarrow> u8 cbuf" where
  "ring_store b r = r\<lparr>cb_buffer := (cb_buffer r)[size_add (cb_head r) (cb_size r) mod cb_cap r := b],
     cb_size := size_add (cb_size r) 1\<rparr>"

definition ring_drop :: "nat \<Rightarrow> u8 cbuf \<Rightarrow> u8 cbuf" where
  "ring_drop n r = r\<lparr>cb_head := size_add (cb_head r) n mod cb_cap r, cb_size := size_sub (cb_size r) n\<rparr>"

definition ring_enqueue :: "bytes \<Rightarrow> u8 cbuf \<Rightarrow> u8 cbuf" where
  "ring_enqueue data r =
     (let r = (if size_add (cb_size r) (length data) > cb_cap r
               then ring_drop (size_sub (size_add (cb_size r) (length data)) (cb_cap r)) r else r)
      in fold ring_store data r)"

definition pushByte :: "u8 \<Rightarrow> u8 cbuf \<Rightarrow> u8 cbuf" where
  "pushByte b r = ring_store b (if cb_size r \<ge> cb_cap r then ring_drop 1 r else r)"

function make_room :: "u8 cbuf \<Rightarrow> u8 cbuf" where
  "make_room r = (if size_add (cb_size r) max_sequence_len > cb_cap r then make_room (ring_drop 1 r) else r)"
  by pat_completeness auto
termination
proof (relation "measure (\<lambda>r. size_add (cb_size r) max_sequence_len)")
  fix r :: "u8 cbuf"
  assume "cb_cap r < size_add (cb_size r) max_sequence_len"
  then have "0 < (cb_size r + 2) mod 2 ^ 64" by (simp add: size_add_def max_sequence_len_def)
  moreover have "(n + 2) mod 2 ^ 64 = Suc ((size_sub n 1 + 2) mod 2 ^ 64)" if "0 < (n + 2) mod 2 ^ 64" for n :: nat
    using that by (cases "n = 0") (simp_all add: size_sub_def mod_Suc split: if_splits)
  ultimately have "(size_sub (cb_size r) 1 + 2) mod 2 ^ 64 < (cb_size r + 2) mod 2 ^ 64" by (metis lessI)
  then show "(ring_drop 1 r, r) \<in> measure (\<lambda>r. size_add (cb_size r) max_sequence_len)"
    by (simp add: ring_drop_def size_add_def max_sequence_len_def)
qed simp

declare make_room.simps [simp del]

definition enh_enqueue :: "bytes \<Rightarrow> u8 cbuf \<Rightarrow> u8 cbuf" where
  "enh_enqueue data r =
     (let (cmd, val) = (if length data = 1 then (res_received, data ! 0) else (data ! 0, data ! 1));
          r = make_room r
      in if cmd = res_received \<and> val < data_threshold then pushByte val r
         else (let out = enh_encode cmd val in pushByte (out ! 1) (pushByte (out ! 0) r)))"

definition enqueueOutgoingData :: "bytes \<Rightarrow> client \<Rightarrow> client" where
  "enqueueOutgoingData data c =
     (if \<not> cl_valid c \<or> data = [] then c
      else c\<lparr>cl_out := (if cl_type c = client_enhanced then enh_enqueue data (cl_out c)
                        else ring_enqueue data (cl_out c))\<rparr>)"

definition createEnhancedResponse :: "u8 \<Rightarrow> u8 \<Rightarrow> client \<Rightarrow> client" where
  "createEnhancedResponse res val = enqueueOutgoingData [res, val]"

definition hasPendingOutgoingData :: "client \<Rightarrow> bool" where
  "hasPendingOutgoingData c \<longleftrightarrow> cb_size (cl_out c) > 0"

text \<open>
  The result of one write: the number of bytes accepted, or a negative number, and whether
  the error is one after which the write may be tried again. \<open>os\<close> gives it for every call
  from the bytes offered. It never accepts more than it is offered, so that the loop goes on
  exactly when all was accepted.
\<close>

type_synonym writer = "nat \<Rightarrow> bytes \<Rightarrow> int \<times> bool"

definition offered :: "u8 cbuf \<Rightarrow> bytes" where
  "offered r = take (min (cb_size r) (cb_cap r - cb_head r)) (drop (cb_head r) (cb_buffer r))"

lemma length_offered: "length (offered r) \<le> cb_size r"
  by (simp add: offered_def)

lemma size_sub_less: "0 < m \<Longrightarrow> m \<le> n \<Longrightarrow> size_sub n m < n"
  by (simp add: size_sub_def)

function flush_loop :: "writer \<Rightarrow> nat \<Rightarrow> client \<Rightarrow> bool \<times> client" where
  "flush_loop os k c =
     (let r = cl_out c; part = offered r; (n, again) = os k part
      in if cb_size r = 0 then (True, c)
         else if n > 0
         then (let c' = c\<lparr>cl_out := ring_drop (nat n) r, cl_sent := cl_sent c @ take (nat n) part\<rparr>
               in if nat n \<noteq> length part then (True, c') else flush_loop os (k + 1) c')
         else if n = 0 then (True, c)
         else if again then (True, c)
         else (False, cl_stop c))"
  by pat_completeness auto
termination
  by (relation "measure (\<lambda>(os, k, c). cb_size (cl_out c))") (auto simp: ring_drop_def length_offered intro!: size_sub_less)

declare flush_loop.simps [simp del]

definition flushOutgoingData :: "writer \<Rightarrow> client \<Rightarrow> bool \<times> client" where
  "flushOutgoingData os c =
     (if \<not> cl_valid c then (False, c) else if cb_size (cl_out c) = 0 then (True, c) else flush_loop os 0 c)"

subsection \<open>Bytes from the socket\<close>

definition push_inbound :: "u8 \<Rightarrow> client \<Rightarrow> client option" where
  "push_inbound b c = (if length (cl_in c) < inbound_capacity then Some (c\<lparr>cl_in := cl_in c @ [b]\<rparr>) else None)"

fun push_inbound_all :: "bytes \<Rightarrow> client \<Rightarrow> client option" where
  "push_inbound_all [] c = Some c"
| "push_inbound_all (b # bs) c = (case push_inbound b c of None \<Rightarrow> None | Some c \<Rightarrow> push_inbound_all bs c)"

text \<open>
  The loop of the enhanced client over the bytes received. It ends early (first component)
  when a byte pair is not a valid sequence. The other components are the answers due and
  the arbitration machine, which a \<open>start\<close> with a SYN resets; \<open>None\<close> is a null pointer.
\<close>

definition enh_command ::
  "u8 \<Rightarrow> u8 \<Rightarrow> bool \<times> bool \<times> client \<times> 'a request_scheme option \<Rightarrow> (bool \<times> bool \<times> client \<times> 'a request_scheme option) option" where
  "enh_command cmd val st =
     (case st of (need_reset, need_info, c, req) \<Rightarrow>
        if cmd = cmd_init then Some (True, need_info, c, req)
        else if cmd = cmd_send then
          (if write_capable c
           then map_option (\<lambda>c. (need_reset, need_info, c\<lparr>cl_last_sent := val\<rparr>, req)) (push_inbound val c)
           else Some (need_reset, need_info, c, req))
        else if cmd = cmd_start then
          (if val = syn \<and> req \<noteq> None then Some (need_reset, need_info, c, map_option request_reset req)
           else if write_capable c
           then map_option (\<lambda>c. (need_reset, need_info, c\<lparr>cl_last_sent := val\<rparr>, req)) (push_inbound val c)
           else Some (need_reset, need_info, c, req))
        else if cmd = cmd_info then Some (need_reset, True, c, req)
        else Some (need_reset, need_info, c, req))"

definition enh_step ::
  "u8 \<Rightarrow> bool \<times> bool \<times> client \<times> 'a request_scheme option
    \<Rightarrow> (bool \<times> bool \<times> bool \<times> client \<times> 'a request_scheme option) option" where
  "enh_step b st =
     (case st of (need_reset, need_info, c, req) \<Rightarrow>
        let buf = incoming_buf c @ [b]; c' = c\<lparr>incoming_buf := []\<rparr>
        in if buf ! 0 < data_threshold
           then (if write_capable c
                 then map_option (\<lambda>c'. (False, need_reset, need_info, c', req)) (push_inbound (buf ! 0) c')
                 else Some (False, need_reset, need_info, c', req))
           else if length buf < max_sequence_len then Some (False, need_reset, need_info, c\<lparr>incoming_buf := buf\<rparr>, req)
           else if \<not> isValidSequence (buf ! 0) (buf ! 1)
           then Some (True, need_reset, need_info, cl_stop (createEnhancedResponse res_error_host err_framing c'), req)
           else (let (cmd, val) = enh_decode (buf ! 0) (buf ! 1)
                 in map_option (Pair False) (enh_command cmd val (need_reset, need_info, c', req))))"

fun enh_loop ::
  "bytes \<Rightarrow> bool \<times> bool \<times> client \<times> 'a request_scheme option
    \<Rightarrow> (bool \<times> bool \<times> bool \<times> client \<times> 'a request_scheme option) option" where
  "enh_loop [] st = Some (False, st)"
| "enh_loop (b # bs) st =
     (case enh_step b st of
        None \<Rightarrow> None
      | Some (True, st) \<Rightarrow> Some (True, st)
      | Some (False, st) \<Rightarrow> enh_loop bs st)"

definition info_bytes :: bytes where
  "info_bytes = [0x08, 0x11, 0x07, 0x9a, 0xeb, 0x0b, 0x21, 0xc4, 0x31]"

definition enh_responses :: "bool \<Rightarrow> bool \<Rightarrow> client \<Rightarrow> client" where
  "enh_responses need_reset need_info c =
     (let c = (if need_reset then createEnhancedResponse res_resetted 0x00 c else c)
      in if need_info then fold (createEnhancedResponse res_info) info_bytes c else c)"

definition handleIncomingStream ::
  "bytes \<Rightarrow> client \<Rightarrow> 'a request_scheme option \<Rightarrow> (client \<times> 'a request_scheme option) option" where
  "handleIncomingStream data c req =
     (case cl_type c of
        client_read_only \<Rightarrow> Some (c, req)
      | client_regular \<Rightarrow>
          if \<not> cl_valid c \<or> \<not> write_capable c \<or> data = [] then Some (c, req)
          else map_option (\<lambda>c. (c, req)) (push_inbound_all data c)
      | client_enhanced \<Rightarrow>
          if \<not> cl_valid c \<or> data = [] then Some (c, req)
          else (case enh_loop data (False, False, c, req) of
                  None \<Rightarrow> None
                | Some (True, _, _, c, req) \<Rightarrow> Some (c, req)
                | Some (False, need_reset, need_info, c, req) \<Rightarrow> Some (enh_responses need_reset need_info c, req)))"

definition hasPendingIncomingData :: "client \<Rightarrow> bool" where
  "hasPendingIncomingData c \<longleftrightarrow> cl_type c \<noteq> client_read_only \<and> cl_in c \<noteq> []"

definition popPendingIncomingData :: "client \<Rightarrow> u8 option \<times> client" where
  "popPendingIncomingData c =
     (if cl_type c = client_read_only \<or> cl_in c = [] then (None, c)
      else (Some (hd (cl_in c)), c\<lparr>cl_in := tl (cl_in c), cl_last_sent := hd (cl_in c)\<rparr>))"

definition onSessionStart :: "client \<Rightarrow> client" where
  "onSessionStart c = (if cl_type c = client_enhanced then c\<lparr>incoming_buf := []\<rparr> else c)"

subsection \<open>Bytes from the bus\<close>

definition regular_onBusByte :: "u8 \<Rightarrow> RequestResult \<Rightarrow> client \<Rightarrow> BridgeAction \<times> client" where
  "regular_onBusByte byte result c =
     (if result = first_won \<or> result = second_won then (bypass_wait, enqueueOutgoingData [byte] c)
      else if result = first_lost \<or> result = second_lost \<or> result = first_error \<or> result = second_error
        \<or> result = retry_error then (stop_session, c)
      else if result = observe_data then
        (if byte \<noteq> cl_last_sent c then (stop_session, c) else (bypass_wait, enqueueOutgoingData [byte] c))
      else (keep_active, enqueueOutgoingData [byte] c))"

definition enhanced_onBusByte :: "u8 \<Rightarrow> RequestResult \<Rightarrow> client \<Rightarrow> BridgeAction \<times> client" where
  "enhanced_onBusByte byte result c =
     (if result = first_lost \<or> result = second_lost then (stop_session, createEnhancedResponse res_failed byte c)
      else if result = first_error \<or> result = retry_error \<or> result = second_error
      then (stop_session, createEnhancedResponse res_error_ebus err_framing c)
      else if result = first_won \<or> result = second_won then (bypass_wait, createEnhancedResponse res_started byte c)
      else if result = observe_data then
        (if byte = cl_last_sent c then bypass_wait else keep_active, createEnhancedResponse res_received byte c)
      else (keep_active, createEnhancedResponse res_received byte c))"

definition onBusByte :: "u8 \<Rightarrow> RequestResult \<Rightarrow> client \<Rightarrow> BridgeAction \<times> client" where
  "onBusByte byte result c =
     (if \<not> cl_valid c then (stop_session, c)
      else case cl_type c of
             client_read_only \<Rightarrow> (stop_session, c)
           | client_regular \<Rightarrow> regular_onBusByte byte result c
           | client_enhanced \<Rightarrow> enhanced_onBusByte byte result c)"

subsection \<open>What is reported of a client\<close>

record client_info =
  ci_fd :: int
  ci_type :: string
  ci_connected :: bool
  ci_write_capable :: bool
  ci_usage :: nat

definition getClientInfo :: "client \<Rightarrow> client_info" where
  "getClientInfo c =
     \<lparr>ci_fd = cl_fd c,
      ci_type = (case cl_type c of client_read_only \<Rightarrow> ''read_only'' | client_regular \<Rightarrow> ''regular''
                 | client_enhanced \<Rightarrow> ''enhanced''),
      ci_connected = cl_valid c, ci_write_capable = write_capable c, ci_usage = cb_size (cl_out c)\<rparr>"

section \<open>The codes are reversible\<close>

lemma enh_codes:
  assumes "cmd < 16"
  shows "enh_decode (enh_encode cmd val ! 0) (enh_encode cmd val ! 1) = (cmd, val)"
    and "isValidSequence (enh_encode cmd val ! 0) (enh_encode cmd val ! 1)"
    and "\<not> enh_encode cmd val ! 0 < data_threshold" "length (enh_encode cmd val) = 2"
proof -
  let ?ok = "\<lambda>c t. drop_bit 2 (0xc0 OR push_bit 2 c OR t) AND 0x0f = (c :: u8) \<and> (0xc0 OR push_bit 2 c OR t) AND 0x03 = t
      \<and> (0xc0 OR push_bit 2 c OR t) AND 0xc0 = 0xc0 \<and> \<not> 0xc0 OR push_bit 2 c OR t < data_threshold"
  have pairs: "list_all (\<lambda>c. list_all (?ok c) [0, 1, 2, 3]) (map of_nat [0..<16])" by code_simp
  have "all_u8 (\<lambda>v. drop_bit 6 v \<in> set [0, 1, 2, 3] \<and> push_bit 6 (drop_bit 6 v) OR (v AND 0x3f) = v
      \<and> (0x80 OR (v AND 0x3f)) AND 0x3f = v AND 0x3f \<and> (0x80 OR (v AND 0x3f)) AND 0xc0 = 0x80)"
    by code_simp
  from all_u8D [OF this, of val] have v: "drop_bit 6 val \<in> set [0, 1, 2, 3]"
    "push_bit 6 (drop_bit 6 val) OR (val AND 0x3f) = val" "(0x80 OR (val AND 0x3f)) AND 0x3f = val AND 0x3f"
    "(0x80 OR (val AND 0x3f)) AND 0xc0 = 0x80"
    by blast+
  have "unat cmd \<in> set [0..<16]" using assms by (simp add: word_less_nat_alt del: upt_rec_numeral)
  then have "cmd \<in> set (map of_nat [0..<16])" unfolding set_map by (intro image_eqI [of _ _ "unat cmd"]) simp_all
  with pairs v(1) have "?ok cmd (drop_bit 6 val)" unfolding list_all_iff by blast
  then show "enh_decode (enh_encode cmd val ! 0) (enh_encode cmd val ! 1) = (cmd, val)"
    "isValidSequence (enh_encode cmd val ! 0) (enh_encode cmd val ! 1)"
    "\<not> enh_encode cmd val ! 0 < data_threshold" "length (enh_encode cmd val) = 2"
    using v by (simp_all add: enh_encode_def enh_decode_def isValidSequence_def)
qed

section \<open>The ring keeps the latest bytes\<close>

definition ring_ok :: "u8 cbuf \<Rightarrow> bool" where
  "ring_ok r \<longleftrightarrow> cb_inv r \<and> cb_cap r < 2 ^ 63"

lemma ring_sizes:
  assumes "ring_ok r" "n \<le> cb_cap r"
  shows "size_add (cb_head r) n = cb_head r + n" "size_add (cb_size r) n = cb_size r + n"
  using assms by (simp_all add: ring_ok_def cb_inv_def size_add_def)

lemma ring_drop_entries:
  assumes "ring_ok r" "n \<le> cb_size r"
  shows "cb_forEach (ring_drop n r) = drop n (cb_forEach r)" "ring_ok (ring_drop n r)" "cb_cap (ring_drop n r) = cb_cap r"
proof -
  have "n \<le> cb_cap r" using assms by (simp add: ring_ok_def cb_inv_def)
  note s = ring_sizes [OF assms(1) this]
  have e: "ring_drop n r = r\<lparr>cb_head := (cb_head r + n) mod cb_cap r, cb_size := cb_size r - n\<rparr>"
    using assms(2) by (simp add: ring_drop_def s size_sub_def)
  show "cb_cap (ring_drop n r) = cb_cap r" by (simp add: e cb_cap_def)
  show "ring_ok (ring_drop n r)" using assms(1) by (auto simp: e ring_ok_def cb_inv_def cb_cap_def)
  have "((cb_head r + n) mod cb_cap r + i) mod cb_cap r = (cb_head r + (n + i)) mod cb_cap r" for i
    unfolding mod_add_left_eq by (simp add: ac_simps)
  then show "cb_forEach (ring_drop n r) = drop n (cb_forEach r)"
    by (intro nth_equalityI) (simp_all add: e cb_forEach_def cb_cap_def less_diff_conv add.commute)
qed

lemma pushByte_push_back:
  assumes "ring_ok r"
  shows "pushByte b r = snd (cb_push_back b r)"
proof (cases "cb_size r = cb_cap r")
  case True
  have c: "0 < cb_cap r" "cb_head r < cb_cap r" "cb_cap r < 2 ^ 63" using assms by (simp_all add: ring_ok_def cb_inv_def)
  have m: "((cb_head r + 1) mod cb_cap r + (cb_cap r - 1)) mod cb_cap r = cb_head r"
    using cb_slot_Suc [of "cb_head r" "cb_cap r" "cb_cap r - 1"] c by simp
  have "(cb_head r + 1) mod cb_cap r < cb_cap r" using c by simp
  moreover have "2 * 2 ^ 63 = (2 ^ 64 :: nat)" by simp
  ultimately have "(cb_head r + 1) mod cb_cap r + (cb_cap r - 1) < 2 ^ 64" using c by linarith
  then show ?thesis
    using True c m ring_sizes(1) [OF assms, of 1]
    by (simp add: pushByte_def ring_store_def ring_drop_def size_sub_def cb_push_back_def size_add_def cb_cap_def)
next
  case False
  then show ?thesis
    using assms ring_sizes [OF assms, of "cb_size r"] ring_sizes [OF assms, of 1]
    by (simp add: pushByte_def ring_store_def cb_push_back_def ring_ok_def cb_inv_def)
qed

lemma pushByte_entries:
  assumes "ring_ok r"
  shows "ring_ok (pushByte b r)" "cb_cap (pushByte b r) = cb_cap r"
    and "cb_forEach (pushByte b r) = latest (cb_cap r) (cb_forEach r @ [b])"
proof -
  obtain ow r' where p: "cb_push_back b r = (ow, r')" by fastforce
  have inv: "cb_inv r" using assms by (simp add: ring_ok_def)
  have r': "pushByte b r = r'" using pushByte_push_back [OF assms] p by simp
  show "ring_ok (pushByte b r)" "cb_cap (pushByte b r) = cb_cap r"
    using ring.inv_push [OF inv p] ring.cap_push [OF inv p] assms by (simp_all add: r' ring_ok_def)
  show "cb_forEach (pushByte b r) = latest (cb_cap r) (cb_forEach r @ [b])"
    using ring.entries_push_all [OF inv, of "[b]"] p by (simp add: r')
qed

lemma ring_enqueue_byte:
  assumes "ring_ok r"
  shows "ring_enqueue [b] r = pushByte b r"
proof -
  have "1 \<le> cb_cap r" "cb_size r \<le> cb_cap r" using assms by (auto simp: ring_ok_def cb_inv_def)
  then show ?thesis
    using ring_sizes(2) [OF assms, of 1] by (auto simp: ring_enqueue_def pushByte_def size_sub_def)
qed

lemma latest_drop: "n < length xs \<Longrightarrow> latest n (drop 1 xs) = latest n xs"
  by (cases xs) (auto simp: latest_def Suc_diff_le)

lemma make_room_entries:
  assumes "ring_ok r" "2 \<le> cb_cap r"
  shows "ring_ok (make_room r) \<and> cb_cap (make_room r) = cb_cap r
    \<and> cb_forEach (make_room r) = latest (cb_cap r - 2) (cb_forEach r)"
  using assms
proof (induction r rule: make_room.induct)
  case (1 r)
  note s = ring_sizes(2) [OF 1(2), of 2]
  show ?case
  proof (cases "cb_size r + 2 > cb_cap r")
    case True
    then have one: "1 \<le> cb_size r" using 1(3) by simp
    note d = ring_drop_entries [OF 1(2) one]
    have "latest (cb_cap r - 2) (drop 1 (cb_forEach r)) = latest (cb_cap r - 2) (cb_forEach r)"
      using True 1(3) one by (intro latest_drop) simp
    moreover have "size_add (cb_size r) max_sequence_len > cb_cap r" using True s 1(3) by (simp add: max_sequence_len_def)
    ultimately show ?thesis
      using 1(1) d 1(3) by (subst (1 2 3) make_room.simps) simp
  next
    case False
    then show ?thesis
      using 1(2,3) s by (subst (1 2 3) make_room.simps) (simp add: max_sequence_len_def latest_def)
  qed
qed

text \<open>What an enhanced client gets for a code.\<close>

definition wire_of :: "u8 \<times> u8 \<Rightarrow> bytes" where
  "wire_of x = (if fst x = res_received \<and> snd x < data_threshold then [snd x] else enh_encode (fst x) (snd x))"

lemma enh_enqueue_entries:
  assumes "ring_ok r" "2 \<le> cb_cap r"
  shows "ring_ok (enh_enqueue [cmd, val] r) \<and> cb_cap (enh_enqueue [cmd, val] r) = cb_cap r
    \<and> cb_forEach (enh_enqueue [cmd, val] r) = latest (cb_cap r - 2) (cb_forEach r) @ wire_of (cmd, val)"
proof -
  let ?m = "make_room r"
  have m: "ring_ok ?m" "cb_cap ?m = cb_cap r" "cb_forEach ?m = latest (cb_cap r - 2) (cb_forEach r)"
    using make_room_entries [OF assms] by blast+
  have len: "length (cb_forEach ?m) \<le> cb_cap r - 2" unfolding m(3) by (simp add: latest_def)
  have push: "cb_forEach (pushByte b x) = cb_forEach x @ [b]" if "ring_ok x" "length (cb_forEach x) < cb_cap x" for b x
    using pushByte_entries(3) [OF that(1)] that(2) by (simp add: latest_def)
  have one: "ring_ok (pushByte b ?m)" "cb_cap (pushByte b ?m) = cb_cap r" "cb_forEach (pushByte b ?m) = cb_forEach ?m @ [b]" for b
    using pushByte_entries(1,2) [OF m(1)] m(2) push [OF m(1)] len assms(2) by simp_all
  have two: "ring_ok (pushByte b' (pushByte b ?m))" "cb_cap (pushByte b' (pushByte b ?m)) = cb_cap r"
    "cb_forEach (pushByte b' (pushByte b ?m)) = cb_forEach ?m @ [b, b']" for b b'
    using pushByte_entries(1,2) [OF one(1)] one(2,3) push [OF one(1)] len assms(2) by simp_all
  show ?thesis
    using one two by (simp add: enh_enqueue_def Let_def wire_of_def m(3) enh_encode_def)
qed

text \<open>The reader at the other end of the socket.\<close>

fun enh_parse :: "bytes \<Rightarrow> (u8 \<times> u8) list option" where
  "enh_parse [] = Some []"
| "enh_parse (b # bs) =
     (if b < data_threshold then map_option ((#) (res_received, b)) (enh_parse bs)
      else (case bs of
              [] \<Rightarrow> None
            | b' # bs' \<Rightarrow>
                if isValidSequence b b' then map_option ((#) (enh_decode b b')) (enh_parse bs') else None))"

lemma enh_encode_list: "enh_encode cmd val = [enh_encode cmd val ! 0, enh_encode cmd val ! 1]"
  by (simp add: enh_encode_def)

lemma enh_parse_wire:
  "fst x < 16 \<Longrightarrow> enh_parse (wire_of x @ ys) = map_option ((#) x) (enh_parse ys)"
proof (cases "fst x = res_received \<and> snd x < data_threshold")
  case True
  then show ?thesis by (cases x) (simp add: wire_of_def)
next
  case False
  assume "fst x < 16"
  note c = enh_codes [OF this, of "snd x", simplified]
  have "enh_parse (enh_encode (fst x) (snd x) @ ys) = map_option ((#) x) (enh_parse ys)"
    by (subst enh_encode_list) (simp add: c)
  then show ?thesis using False by (auto simp: wire_of_def)
qed

lemma enh_parse_append:
  "enh_parse xs = Some old \<Longrightarrow> enh_parse (xs @ ys) = map_option ((@) old) (enh_parse ys)"
proof (induction xs arbitrary: old rule: enh_parse.induct)
  case 1
  then show ?case by (cases "enh_parse ys") simp_all
next
  case (2 b bs)
  show ?case
  proof (cases "b < data_threshold")
    case True
    with "2.prems" obtain o' where "enh_parse bs = Some o'" "old = (res_received, b) # o'" by (cases "enh_parse bs") auto
    then show ?thesis using 2(1) [OF True] True by (cases "enh_parse ys") simp_all
  next
    case False
    with "2.prems" obtain b' bs' o' where o: "bs = b' # bs'" "isValidSequence b b'" "enh_parse bs' = Some o'"
        "old = enh_decode b b' # o'"
      by (auto split: list.splits if_splits)
    then show ?thesis using 2(2) [OF False o(1,2)] False by (cases "enh_parse ys") simp_all
  qed
qed

lemma enh_parse_wires:
  "list_all (\<lambda>x. fst x < 16) xs \<Longrightarrow> enh_parse (concat (map wire_of xs)) = Some xs"
  by (induction xs) (simp_all add: enh_parse_wire)

definition send_responses :: "(u8 \<times> u8) list \<Rightarrow> client \<Rightarrow> client" where
  "send_responses xs c = fold (\<lambda>x. createEnhancedResponse (fst x) (snd x)) xs c"

lemma cl_valid_frame [simp]:
  "cl_valid (c\<lparr>cl_out := a\<rparr>) = cl_valid c" "cl_valid (c\<lparr>cl_in := b\<rparr>) = cl_valid c"
  "cl_valid (c\<lparr>cl_last_sent := d\<rparr>) = cl_valid c" "cl_valid (c\<lparr>incoming_buf := e\<rparr>) = cl_valid c"
  "cl_valid (c\<lparr>cl_sent := f\<rparr>) = cl_valid c" "\<not> cl_valid (cl_stop c)"
  "cl_valid (createClient ty fd n) \<longleftrightarrow> fd \<noteq> -1"
  by (simp_all add: cl_valid_def cl_stop_def createClient_def)

lemma enqueueOutgoingData_frame [simp]:
  "cl_type (enqueueOutgoingData d c) = cl_type c" "cl_valid (enqueueOutgoingData d c) = cl_valid c"
  "cl_in (enqueueOutgoingData d c) = cl_in c" "write_capable (enqueueOutgoingData d c) = write_capable c"
  "cl_last_sent (enqueueOutgoingData d c) = cl_last_sent c" "cl_sent (enqueueOutgoingData d c) = cl_sent c"
  "cl_fd (enqueueOutgoingData d c) = cl_fd c"
  by (simp_all add: enqueueOutgoingData_def)

section \<open>Streams\<close>

lemma push_inbound_all_eq:
  "push_inbound_all bs c =
     (if bs = [] \<or> length (cl_in c) + length bs \<le> inbound_capacity then Some (c\<lparr>cl_in := cl_in c @ bs\<rparr>) else None)"
  by (induction bs arbitrary: c) (auto simp: push_inbound_def split: option.splits)

lemma enh_loop_append:
  "enh_loop (xs @ ys) st =
     (case enh_loop xs st of
        None \<Rightarrow> None
      | Some (True, st) \<Rightarrow> Some (True, st)
      | Some (False, st) \<Rightarrow> enh_loop ys st)"
  by (induction xs arbitrary: st) (simp_all split: option.split bool.split)

text \<open>How a client sends a byte for the bus: as it is or as a \<open>send\<close> command.\<close>

definition send_code :: "u8 \<Rightarrow> bytes" where
  "send_code b = (if b < data_threshold then [b] else enh_encode cmd_send b)"

fun receive_chunks ::
  "bytes list \<Rightarrow> client \<Rightarrow> 'a request_scheme option \<Rightarrow> (client \<times> 'a request_scheme option) option" where
  "receive_chunks [] c req = Some (c, req)"
| "receive_chunks (d # ds) c req =
     (case handleIncomingStream d c req of None \<Rightarrow> None | Some (c, req) \<Rightarrow> receive_chunks ds c req)"

text \<open>
  While a client receives the codes of some bytes: \<open>whole\<close> is what will be in the queue in
  the end, \<open>rest\<close> what is still to come, possibly from the middle of a code on.
\<close>

definition stream_inv :: "bytes \<Rightarrow> client \<Rightarrow> bytes \<Rightarrow> bool" where
  "stream_inv whole c rest \<longleftrightarrow> cl_type c = client_enhanced \<and> cl_valid c \<and> write_capable c
     \<and> length (cl_in c) \<le> inbound_capacity
     \<and> (\<exists>bs. whole = cl_in c @ bs \<and> incoming_buf c = [] \<and> rest = concat (map send_code bs)
        \<or> (\<exists>b. whole = cl_in c @ b # bs \<and> \<not> b < data_threshold \<and> incoming_buf c = [enh_encode cmd_send b ! 0]
             \<and> rest = enh_encode cmd_send b ! 1 # concat (map send_code bs)))"

lemma send_codes: "cmd_send < 16"
  by (simp add: cmd_send_def)

lemma send_code_not_nil [simp]: "send_code b \<noteq> []"
  by (simp add: send_code_def enh_encode_def)

lemma stream_push:
  assumes "length (cl_in c) \<le> inbound_capacity" "cl_type c = client_enhanced" "cl_valid c" "write_capable c"
    and "incoming_buf c = []" "whole = cl_in c @ b # bs" "l = (\<lambda>c. c\<lparr>cl_last_sent := x\<rparr>) \<or> l = id"
  shows "(\<exists>c'. map_option l (push_inbound b c) = Some c' \<and> stream_inv whole c' (concat (map send_code bs)))
    \<or> (map_option l (push_inbound b c) = None \<and> inbound_capacity < length whole)"
  using assms by (auto simp: push_inbound_def stream_inv_def)

lemma stream_step:
  assumes "stream_inv whole c (x # rest)"
  shows "(\<exists>c'. enh_step x (False, False, c, req) = Some (False, False, False, c', req) \<and> stream_inv whole c' rest)
    \<or> (enh_step x (False, False, c, req) = None \<and> inbound_capacity < length whole)"
proof -
  have c: "cl_type c = client_enhanced" "cl_valid c" "write_capable c" "length (cl_in c) \<le> inbound_capacity"
    using assms by (simp_all add: stream_inv_def)
  let ?c0 = "c\<lparr>incoming_buf := []\<rparr>"
  from assms consider
      (short) b bs where "whole = cl_in c @ b # bs" "incoming_buf c = []" "b < data_threshold" "x = b" "rest = concat (map send_code bs)"
    | (first) b bs where "whole = cl_in c @ b # bs" "incoming_buf c = []" "\<not> b < data_threshold" "x = enh_encode cmd_send b ! 0"
        "rest = enh_encode cmd_send b ! 1 # concat (map send_code bs)"
    | (second) b bs where "whole = cl_in c @ b # bs" "\<not> b < data_threshold" "incoming_buf c = [enh_encode cmd_send b ! 0]"
        "x = enh_encode cmd_send b ! 1" "rest = concat (map send_code bs)"
  proof -
    from assms obtain bs where "(whole = cl_in c @ bs \<and> incoming_buf c = [] \<and> x # rest = concat (map send_code bs))
        \<or> (\<exists>b. whole = cl_in c @ b # bs \<and> \<not> b < data_threshold \<and> incoming_buf c = [enh_encode cmd_send b ! 0]
             \<and> x # rest = enh_encode cmd_send b ! 1 # concat (map send_code bs))"
      by (auto simp: stream_inv_def)
    then show thesis
      using short first second enh_encode_list [of cmd_send]
      by (cases bs) (auto simp: send_code_def enh_encode_def split: if_splits)
  qed
  then show ?thesis
  proof cases
    case short
    then have "enh_step x (False, False, c, req) = map_option (\<lambda>c'. (False, False, False, c', req)) (map_option id (push_inbound b ?c0))"
      using c by (simp add: enh_step_def Let_def option.map_id)
    then show ?thesis using stream_push [of ?c0 whole b bs id] c short by fastforce
  next
    case first
    then have "enh_step x (False, False, c, req) = Some (False, False, False, c\<lparr>incoming_buf := [x]\<rparr>, req)"
      using enh_codes(3) [OF send_codes, of b] by (simp add: enh_step_def Let_def max_sequence_len_def)
    moreover have "stream_inv whole (c\<lparr>incoming_buf := [x]\<rparr>) rest" using c first unfolding stream_inv_def by auto
    ultimately show ?thesis by blast
  next
    case second
    let ?l = "\<lambda>c. c\<lparr>cl_last_sent := b\<rparr>"
    have "enh_step x (False, False, c, req) = map_option (\<lambda>c'. (False, False, False, c', req)) (map_option ?l (push_inbound b ?c0))"
      using second c enh_codes [OF send_codes, of b, simplified]
      by (simp add: enh_step_def Let_def max_sequence_len_def enh_command_def code_defs option.map_comp comp_def)
    then show ?thesis using stream_push [of ?c0 whole b bs ?l b] c second by fastforce
  qed
qed

lemma stream_chunk:
  assumes "stream_inv whole c (d @ rest)"
  shows "(\<exists>c'. enh_loop d (False, False, c, req) = Some (False, False, False, c', req) \<and> stream_inv whole c' rest)
    \<or> (enh_loop d (False, False, c, req) = None \<and> inbound_capacity < length whole)"
  using assms
proof (induction d arbitrary: c)
  case (Cons x d)
  then show ?case using stream_step [of whole c x "d @ rest" req] by fastforce
qed simp

lemma stream_chunks:
  assumes "stream_inv whole c (concat ds)"
  shows "(\<exists>c'. receive_chunks ds c req = Some (c', req) \<and> cl_in c' = whole \<and> length whole \<le> inbound_capacity)
    \<or> (receive_chunks ds c req = None \<and> inbound_capacity < length whole)"
  using assms
proof (induction ds arbitrary: c)
  case Nil
  then have "whole = cl_in c" "length (cl_in c) \<le> inbound_capacity" by (auto simp: stream_inv_def)
  then show ?case by simp
next
  case (Cons d ds)
  have h: "handleIncomingStream d c req = (case enh_loop d (False, False, c, req) of
      None \<Rightarrow> None | Some (True, _, _, c, req) \<Rightarrow> Some (c, req)
    | Some (False, nr, ni, c, req) \<Rightarrow> Some (enh_responses nr ni c, req))"
    using Cons.prems by (auto simp: handleIncomingStream_def stream_inv_def enh_responses_def split: option.split bool.split)
  from Cons.prems have "stream_inv whole c (d @ concat ds)" by simp
  from stream_chunk [OF this, of req] show ?case
  proof
    assume "\<exists>c'. enh_loop d (False, False, c, req) = Some (False, False, False, c', req) \<and> stream_inv whole c' (concat ds)"
    then obtain c' where "handleIncomingStream d c req = Some (c', req)" "stream_inv whole c' (concat ds)"
      using h by (auto simp: enh_responses_def)
    then show ?thesis using Cons.IH [of c'] by simp
  qed (simp add: h)
qed

lemma regular_chunks:
  assumes "cl_type c = client_regular" "cl_valid c" "write_capable c" "length (cl_in c) \<le> inbound_capacity"
  shows "receive_chunks ds c req = (if length (cl_in c) + length (concat ds) \<le> inbound_capacity
    then Some (c\<lparr>cl_in := cl_in c @ concat ds\<rparr>, req) else None)"
  using assms
proof (induction ds arbitrary: c)
  case (Cons d ds)
  have "handleIncomingStream d c req = (if length (cl_in c) + length d \<le> inbound_capacity
      then Some (c\<lparr>cl_in := cl_in c @ d\<rparr>, req) else None)"
    using Cons.prems by (auto simp: handleIncomingStream_def push_inbound_all_eq)
  then show ?case using Cons.IH [of "c\<lparr>cl_in := cl_in c @ d\<rparr>"] Cons.prems by auto
qed simp

section \<open>Flushing\<close>

definition writer_ok :: "writer \<Rightarrow> bool" where
  "writer_ok os \<longleftrightarrow> (\<forall>k part. fst (os k part) \<le> int (length part))"

lemma offered_prefix:
  assumes "ring_ok r"
  shows "offered r = take (length (offered r)) (cb_forEach r)"
proof (rule nth_equalityI)
  have c: "cb_head r < length (cb_buffer r)" "cb_cap r = length (cb_buffer r)"
    using assms by (simp_all add: ring_ok_def cb_inv_def cb_cap_def)
  fix i assume i: "i < length (offered r)"
  then have "i < cb_size r" "cb_head r + i < cb_cap r" using c by (auto simp: offered_def)
  then show "offered r ! i = take (length (offered r)) (cb_forEach r) ! i"
    using i c by (simp add: offered_def cb_forEach_nth)
qed (simp add: length_offered)

lemma flush_loop_unfold:
  assumes "os k (offered (cl_out c)) = (n, again)"
  shows "flush_loop os k c = (let c' = c\<lparr>cl_out := ring_drop (nat n) (cl_out c), cl_sent := cl_sent c @ take (nat n) (offered (cl_out c))\<rparr>
      in if cb_size (cl_out c) = 0 then (True, c)
      else if 0 < n then if nat n \<noteq> length (offered (cl_out c)) then (True, c') else flush_loop os (k + 1) c'
      else if n = 0 \<or> again then (True, c) else (False, cl_stop c))"
  using assms by (simp add: flush_loop.simps [of os k c] Let_def)

lemma flush_loop_order:
  assumes "writer_ok os" "ring_ok (cl_out c)"
  shows "cl_sent (snd (flush_loop os k c)) @ cb_forEach (cl_out (snd (flush_loop os k c)))
    = cl_sent c @ cb_forEach (cl_out c)"
  using assms
proof (induction os k c rule: flush_loop.induct)
  case (1 os k c)
  let ?r = "cl_out c" and ?part = "offered (cl_out c)"
  obtain n again where os: "os k ?part = (n, again)" by (cases "os k ?part")
  let ?c = "c\<lparr>cl_out := ring_drop (nat n) ?r, cl_sent := cl_sent c @ take (nat n) ?part\<rparr>"
  have "fst (os k ?part) \<le> int (length ?part)" using 1(2) by (simp add: writer_ok_def)
  then have n: "nat n \<le> length ?part" using os by simp
  then have d: "ring_ok (ring_drop (nat n) ?r)" "cb_forEach (ring_drop (nat n) ?r) = drop (nat n) (cb_forEach ?r)"
    using ring_drop_entries [OF 1(3), of "nat n"] length_offered [of ?r] by simp_all
  have "take (nat n) ?part = take (nat n) (cb_forEach ?r)"
    using offered_prefix [OF 1(3)] n by (metis min.absorb1 take_take)
  then have step: "cl_sent ?c @ cb_forEach (cl_out ?c) = cl_sent c @ cb_forEach ?r" using d(2) by simp
  note fl = flush_loop_unfold [where os = os and k = k and c = c, OF os, unfolded Let_def]
  consider (stop) "snd (flush_loop os k c) = c \<or> snd (flush_loop os k c) = cl_stop c"
    | (some) "snd (flush_loop os k c) = ?c"
    | (all) "0 < cb_size ?r" "0 < n" "nat n = length ?part" "flush_loop os k c = flush_loop os (k + 1) ?c"
    by (cases "cb_size ?r = 0"; cases "0 < n"; cases "nat n = length ?part"; cases "n = 0 \<or> again") (simp_all add: fl)
  then show ?case
  proof cases
    case all
    then show ?thesis using 1(1) [OF refl refl os [symmetric]] 1(2) d(1) step by simp
  qed (use step in \<open>auto simp: cl_stop_def\<close>)
qed

lemma flush_order:
  "writer_ok os \<Longrightarrow> ring_ok (cl_out c) \<Longrightarrow>
    cl_sent (snd (flushOutgoingData os c)) @ cb_forEach (cl_out (snd (flushOutgoingData os c))) = cl_sent c @ cb_forEach (cl_out c)"
  using flush_loop_order by (simp add: flushOutgoingData_def)

text \<open>A flush keeps the ring in order, wherever its head is.\<close>

lemma flush_loop_ring:
  assumes "writer_ok os" "ring_ok (cl_out c)"
  shows "ring_ok (cl_out (snd (flush_loop os k c))) \<and> cb_cap (cl_out (snd (flush_loop os k c))) = cb_cap (cl_out c)
    \<and> cl_type (snd (flush_loop os k c)) = cl_type c"
  using assms
proof (induction os k c rule: flush_loop.induct)
  case (1 os k c)
  let ?r = "cl_out c" and ?part = "offered (cl_out c)"
  obtain n again where os: "os k ?part = (n, again)" by (cases "os k ?part")
  have "fst (os k ?part) \<le> int (length ?part)" using 1(2) by (simp add: writer_ok_def)
  then have d: "ring_ok (ring_drop (nat n) ?r)" "cb_cap (ring_drop (nat n) ?r) = cb_cap ?r"
    using ring_drop_entries(2,3) [OF 1(3), of "nat n"] length_offered [of ?r] os by simp_all
  note fl = flush_loop_unfold [where os = os and k = k and c = c, OF os, unfolded Let_def]
  show ?case
  proof (cases "0 < cb_size ?r \<and> 0 < n \<and> nat n = length ?part")
    case True
    then show ?thesis using 1(1) [OF refl refl os [symmetric]] 1(2) d fl by simp
  next
    case False
    then show ?thesis using d 1(3) by (auto simp: fl cl_stop_def)
  qed
qed

text \<open>
  What happens to an enhanced client: responses are put into its ring, and the ring is flushed. The
  responses that count are those made before the socket is closed.
\<close>

datatype client_event = Respond u8 u8 | Flush writer

fun client_next :: "client_event \<Rightarrow> client \<Rightarrow> client" where
  "client_next (Respond res val) c = createEnhancedResponse res val c"
| "client_next (Flush os) c = snd (flushOutgoingData os c)"

definition client_end :: "client_event list \<Rightarrow> client \<Rightarrow> client" where
  "client_end es c = fold client_next es c"

fun responded :: "client_event list \<Rightarrow> client \<Rightarrow> (u8 \<times> u8) list" where
  "responded [] c = []"
| "responded (e # es) c =
     (case e of Respond res val \<Rightarrow> if cl_valid c then [(res, val)] else [] | Flush os \<Rightarrow> []) @ responded es (client_next e c)"

text \<open>Whenever there is a response, the ring has room for the two bytes of a code; a write accepts no more than it is offered.\<close>

fun with_room :: "client_event list \<Rightarrow> client \<Rightarrow> bool" where
  "with_room [] c \<longleftrightarrow> True"
| "with_room (e # es) c \<longleftrightarrow>
     (case e of
        Respond res val \<Rightarrow> cl_valid c \<longrightarrow> cb_size (cl_out c) + max_sequence_len \<le> cb_cap (cl_out c)
      | Flush os \<Rightarrow> writer_ok os)
     \<and> with_room es (client_next e c)"

text \<open>All that the client has been sent and will be sent.\<close>

definition cl_stream :: "client \<Rightarrow> bytes" where
  "cl_stream c = cl_sent c @ cb_forEach (cl_out c)"

lemma respond_stream:
  fixes res val :: u8
  assumes "cl_type c = client_enhanced" "ring_ok (cl_out c)" "2 \<le> cb_cap (cl_out c)"
    and "cl_valid c \<longrightarrow> cb_size (cl_out c) + max_sequence_len \<le> cb_cap (cl_out c)"
  defines "c' \<equiv> createEnhancedResponse res val c"
  shows "cl_stream c' = cl_stream c @ (if cl_valid c then wire_of (res, val) else [])"
    and "ring_ok (cl_out c')" "cb_cap (cl_out c') = cb_cap (cl_out c)" "cl_type c' = client_enhanced"
proof -
  have "cl_valid c \<Longrightarrow> latest (cb_cap (cl_out c) - 2) (cb_forEach (cl_out c)) = cb_forEach (cl_out c)"
    using assms(4) by (simp add: latest_def max_sequence_len_def)
  then have "if cl_valid c then cb_forEach (cl_out c') = cb_forEach (cl_out c) @ wire_of (res, val) else c' = c"
    and "ring_ok (cl_out c')" "cb_cap (cl_out c') = cb_cap (cl_out c)"
    using enh_enqueue_entries [OF assms(2,3), of res val] assms(1,2)
    by (simp_all add: c'_def createEnhancedResponse_def enqueueOutgoingData_def)
  then show "cl_stream c' = cl_stream c @ (if cl_valid c then wire_of (res, val) else [])"
    "ring_ok (cl_out c')" "cb_cap (cl_out c') = cb_cap (cl_out c)"
    by (auto simp: cl_stream_def c'_def createEnhancedResponse_def split: if_splits)
  show "cl_type c' = client_enhanced" using assms(1) by (simp add: c'_def createEnhancedResponse_def)
qed

lemma flush_stream:
  assumes "writer_ok os" "ring_ok (cl_out c)"
  defines "c' \<equiv> snd (flushOutgoingData os c)"
  shows "cl_stream c' = cl_stream c" "ring_ok (cl_out c')" "cb_cap (cl_out c') = cb_cap (cl_out c)" "cl_type c' = cl_type c"
  using flush_order [OF assms(1,2)] flush_loop_ring [OF assms(1,2), of 0] assms(2)
  by (simp_all add: c'_def cl_stream_def flushOutgoingData_def)

lemma client_stream:
  assumes "cl_type c = client_enhanced" "ring_ok (cl_out c)" "2 \<le> cb_cap (cl_out c)" "with_room es c"
  shows "cl_stream (client_end es c) = cl_stream c @ concat (map wire_of (responded es c))"
  using assms
proof (induction es arbitrary: c)
  case (Cons e es)
  show ?case
  proof (cases e)
    case (Respond res val)
    have "cl_valid c \<longrightarrow> cb_size (cl_out c) + max_sequence_len \<le> cb_cap (cl_out c)"
      using Cons.prems(4) Respond by simp
    note r = respond_stream [OF Cons.prems(1-3) this, of res val]
    have "cl_stream (client_end es (client_next e c))
        = cl_stream (client_next e c) @ concat (map wire_of (responded es (client_next e c)))"
      using Cons.prems r(2-4) Respond by (intro Cons.IH) simp_all
    then show ?thesis using r(1) Respond by (simp add: client_end_def)
  next
    case (Flush os)
    have "writer_ok os" using Cons.prems(4) Flush by simp
    note f = flush_stream [OF this Cons.prems(2)]
    have "cl_stream (client_end es (client_next e c))
        = cl_stream (client_next e c) @ concat (map wire_of (responded es (client_next e c)))"
      using Cons.prems f(2-4) Flush by (intro Cons.IH) simp_all
    then show ?thesis using f(1) Flush by (simp add: client_end_def)
  qed
qed (simp add: client_end_def)

section \<open>Properties\<close>

text \<open>
  C29: Whatever the pieces in which the bytes of a client arrive, in plain form from a regular
  client or as codes from an enhanced one, they end up in its queue for the bus in order,
  unless the queue runs full: then the call never returns, since it waits for room while
  it holds the lock that taking a byte out needs.
\<close>

theorem client_bytes_queued_or_stuck:
  assumes "cl_valid c" "write_capable c" "length (cl_in c) \<le> inbound_capacity" "incoming_buf c = []"
    and "cl_type c = client_regular \<and> concat ds = bs \<or> cl_type c = client_enhanced \<and> concat ds = concat (map send_code bs)"
  shows "if length (cl_in c) + length bs \<le> inbound_capacity
    then \<exists>c'. receive_chunks ds c req = Some (c', req) \<and> cl_in c' = cl_in c @ bs
    else receive_chunks ds c req = None"
proof (cases "cl_type c = client_regular")
  case True
  then show ?thesis using regular_chunks [OF True assms(1-3), of ds req] assms(5) by auto
next
  case False
  then have "stream_inv (cl_in c @ bs) c (concat ds)" using assms unfolding stream_inv_def by auto
  from stream_chunks [OF this, of req] show ?thesis by auto
qed

theorem client_bytes_queued_or_stuck_witness:
  "receive_chunks [replicate 33 0x55] (createClient client_regular 5 4096) (None :: request option) = None"
  using client_bytes_queued_or_stuck [of "createClient client_regular 5 4096" "[replicate 33 0x55]" "replicate 33 0x55" "None :: request option"]
  by (simp add: createClient_def cl_valid_def inbound_capacity_def)

text \<open>
  C30: What an enhanced client is sent can be read back. Take any enhanced client, with its ring at any
  place and what it was sent so far readable, and let responses and flushes follow in any order,
  each flush accepting as much as it likes or failing, the ring wrapping as often as it
  does: if the ring has room for a code whenever a response is made, then the bytes that the
  socket has accepted and those still in the ring are together readable, and they read as what was sent before
  followed by exactly the responses made while the socket was open, in order.
\<close>

theorem enhanced_responses_readable:
  assumes "cl_type c = client_enhanced" "ring_ok (cl_out c)" "2 \<le> cb_cap (cl_out c)" "enh_parse (cl_stream c) = Some old"
    and "with_room es c" "list_all (\<lambda>x. fst x < 16) (responded es c)"
  shows "enh_parse (cl_stream (client_end es c)) = Some (old @ responded es c)"
  using client_stream [OF assms(1-3,5)] enh_parse_append [OF assms(4)] enh_parse_wires [OF assms(6)] by simp

text \<open>A ring of four bytes, filled and emptied until it wraps inside a code.\<close>

definition sample_events :: "client_event list" where
  "sample_events = [Respond res_started 0x31, Flush (\<lambda>_ part. (int (length part), False)), Respond res_received 0x15,
     Respond res_received 0xfe, Flush (\<lambda>_ part. (min 1 (int (length part)), False)), Respond res_failed 0x10, Flush (\<lambda>_ part. (int (length part), False)),
     Respond res_received 0x16]"

lemmas client_defs = createEnhancedResponse_def enqueueOutgoingData_def createClient_def cl_valid_def enh_enqueue_def
  enh_encode_def make_room.simps size_add_def size_sub_def cb_new_def cb_cap_def cb_forEach_def ring_drop_def ring_store_def
  pushByte_def max_sequence_len_def data_threshold_def code_defs Let_def flushOutgoingData_def flush_loop.simps offered_def

theorem enhanced_responses_readable_witness:
  "enh_parse (cl_stream (client_end sample_events (createClient client_enhanced 7 4)))
     = Some [(res_started, 0x31), (res_received, 0x15), (res_received, 0xfe), (res_failed, 0x10), (res_received, 0x16)]"
proof -
  let ?c = "createClient client_enhanced 7 4"
  have "with_room sample_events ?c" 
    by (simp add: sample_events_def writer_ok_def client_defs)
  moreover have "responded sample_events ?c
      = [(res_started, 0x31), (res_received, 0x15), (res_received, 0xfe), (res_failed, 0x10), (res_received, 0x16)]"
    by (simp add: sample_events_def writer_ok_def client_defs)
  ultimately show ?thesis
    using enhanced_responses_readable [of ?c "[]" sample_events]
    by (simp add: createClient_def ring_ok_def cb_inv_def cb_new_def cb_cap_def cb_forEach_def cl_stream_def code_defs)
qed
text \<open>
  Without room the codes are cut: the oldest byte is dropped alone, also when it is the
  first half of a code, and what follows can no longer be read.
\<close>

theorem dropped_byte_breaks_code:
  "let c = send_responses [(res_received, 0xfe), (res_received, 0x01), (res_received, 0x02)] (createClient client_enhanced 7 4)
   in cb_forEach (cl_out c) = [0xbe, 0x01, 0x02] \<and> enh_parse (cb_forEach (cl_out c)) = None"
  by (simp add: send_responses_def client_defs) code_simp

end
