(* ===== verification/Client_Manager.thy ===== *)
theory Client_Manager
  imports Bridge_Client Bus_Handler "HOL-Library.Sublist" "HOL-Library.Multiset"
begin

text \<open>
  \<open>ClientManager\<close> (\<open>src/ebus/app/client_manager.hpp\<close>, \<open>.cpp\<close>): the slots of the bridge's clients,
  the session in which one client at a time uses the bus, the forwarding of every bus byte, and
  the rounds of the socket thread. The clients are shared objects (\<open>std::shared_ptr\<close>): the model
  keeps them in a store, and the slots and the active sender name them by their
  position in it, so that a client taken from its slot can still be the active sender. The
  arbitration machine \<open>request_\<close> is shared with the bus handler and is passed beside the state.
  Each call of the manager is one step; where two threads can meet inside a call, the parts
  between two locks are definitions of their own. The clock is a sequence of readings, in
  microseconds. What the operating system reports (the ready descriptors, what a \<open>recv\<close>, \<open>accept\<close>
  or \<open>write\<close> gives) is a parameter. The result \<open>None\<close> is a call that never returns.
\<close>

section \<open>State\<close>

definition max_clients :: nat where "max_clients = 4"

record client_manager =
  cm_running :: bool
  cm_state :: SessionState
  cm_changed :: int
  cm_clock :: "nat \<Rightarrow> int"
  cm_reads :: nat
  cm_regular :: "nat option list"
  cm_readonly :: "nat option list"
  cm_enhanced :: "nat option list"
  cm_objects :: "client list"
  cm_counter :: u32
  cm_active :: "nat option"
  cm_last_sent :: u8
  cm_error :: string
  cm_session_timeout :: u32
  cm_transmit_timeout :: u32
  cm_buffer_size :: nat
  cm_listen_regular :: int
  cm_listen_readonly :: int
  cm_listen_enhanced :: int
  cm_wakeup :: int
  cm_bus :: bytes
  cm_closes :: "int list"

text \<open>
  The constructor, with the defaults of \<open>RuntimeConfig\<close>. A descriptor of -1 is a socket that is
  not there. \<open>cm_bus\<close> is what was written to the bus, \<open>cm_closes\<close> the descriptors that
  \<open>addClient\<close> and \<open>acceptNewConnections\<close> have closed.
\<close>

definition client_manager_new :: "(nat \<Rightarrow> int) \<Rightarrow> int \<Rightarrow> client_manager" where
  "client_manager_new clock wakeup =
     \<lparr>cm_running = False, cm_state = session_idle, cm_changed = clock 0, cm_clock = clock, cm_reads = 1,
      cm_regular = replicate max_clients None, cm_readonly = replicate max_clients None,
      cm_enhanced = replicate max_clients None, cm_objects = [], cm_counter = 0, cm_active = None,
      cm_last_sent = 0, cm_error = '''', cm_session_timeout = 500, cm_transmit_timeout = 250,
      cm_buffer_size = 4096, cm_listen_regular = -1, cm_listen_readonly = -1, cm_listen_enhanced = -1,
      cm_wakeup = wakeup, cm_bus = [], cm_closes = []\<rparr>"

type_synonym 'a bridge = "client_manager \<times> 'a request_scheme"

definition object :: "nat \<Rightarrow> client_manager \<Rightarrow> client" where
  "object i cm = cm_objects cm ! i"

definition put :: "nat \<Rightarrow> client \<Rightarrow> client_manager \<Rightarrow> client_manager" where
  "put i c cm = cm\<lparr>cm_objects := (cm_objects cm)[i := c]\<rparr>"

definition isConnected :: "nat \<Rightarrow> client_manager \<Rightarrow> bool" where
  "isConnected i cm \<longleftrightarrow> cl_valid (object i cm)"

definition stop_client :: "nat \<Rightarrow> client_manager \<Rightarrow> client_manager" where
  "stop_client i cm = put i (cl_stop (object i cm)) cm"

fun slots :: "ClientType \<Rightarrow> client_manager \<Rightarrow> nat option list" where
  "slots client_regular cm = cm_regular cm"
| "slots client_read_only cm = cm_readonly cm"
| "slots client_enhanced cm = cm_enhanced cm"

fun set_slots :: "ClientType \<Rightarrow> nat option list \<Rightarrow> client_manager \<Rightarrow> client_manager" where
  "set_slots client_regular xs cm = cm\<lparr>cm_regular := xs\<rparr>"
| "set_slots client_read_only xs cm = cm\<lparr>cm_readonly := xs\<rparr>"
| "set_slots client_enhanced xs cm = cm\<lparr>cm_enhanced := xs\<rparr>"

definition all_slots :: "client_manager \<Rightarrow> nat option list" where
  "all_slots cm = cm_regular cm @ cm_readonly cm @ cm_enhanced cm"

definition present :: "nat option list \<Rightarrow> nat list" where
  "present xs = map the (filter (\<lambda>x. x \<noteq> None) xs)"

section \<open>Configuration and lifecycle\<close>

definition setSessionTimeout :: "u32 \<Rightarrow> client_manager \<Rightarrow> client_manager" where
  "setSessionTimeout timeout_ms cm = cm\<lparr>cm_session_timeout := timeout_ms\<rparr>"

definition setTransmitTimeout :: "u32 \<Rightarrow> client_manager \<Rightarrow> client_manager" where
  "setTransmitTimeout timeout_ms cm = cm\<lparr>cm_transmit_timeout := timeout_ms\<rparr>"

definition setOutgoingBufferSize :: "nat \<Rightarrow> client_manager \<Rightarrow> client_manager" where
  "setOutgoingBufferSize n cm = cm\<lparr>cm_buffer_size := n\<rparr>"

text \<open>\<open>listen\<close> gives the descriptor of a listening socket for a port, or -1.\<close>

definition cm_start :: "(nat \<Rightarrow> int) \<Rightarrow> bool \<Rightarrow> nat \<times> nat \<times> nat \<Rightarrow> client_manager \<Rightarrow> client_manager" where
  "cm_start listen enable_server ports cm =
     (case ports of (port_regular, port_readonly, port_enhanced) \<Rightarrow>
        if cm_running cm then cm
        else (if enable_server
              then cm\<lparr>cm_listen_regular := listen port_regular, cm_listen_readonly := listen port_readonly,
                      cm_listen_enhanced := listen port_enhanced\<rparr>
              else cm)\<lparr>cm_running := True\<rparr>)"

definition transitSessionState :: "SessionState \<Rightarrow> client_manager \<Rightarrow> client_manager" where
  "transitSessionState state cm =
     cm\<lparr>cm_state := state, cm_changed := cm_clock cm (cm_reads cm), cm_reads := cm_reads cm + 1\<rparr>"

definition stopActiveSession :: "'a bridge \<Rightarrow> 'a bridge" where
  "stopActiveSession b =
     (case b of (cm, rq) \<Rightarrow>
        case cm_active cm of
          None \<Rightarrow> (cm, rq)
        | Some i \<Rightarrow>
            (stop_client i (cm\<lparr>cm_active := None, cm_state := session_idle,
               cm_error := ''Session stopped by ClientManager.''\<rparr>), request_reset rq))"

definition cm_stop :: "'a bridge \<Rightarrow> 'a bridge" where
  "cm_stop b =
     (case b of (cm, rq) \<Rightarrow>
        case stopActiveSession (cm\<lparr>cm_running := False\<rparr>, rq) of (cm, rq) \<Rightarrow>
          (cm\<lparr>cm_listen_regular := -1, cm_listen_readonly := -1, cm_listen_enhanced := -1\<rparr>, rq))"

section \<open>Clients come and go\<close>

text \<open>Stopping a client whose socket is closed already has no effect.\<close>

definition evict :: "ClientType \<Rightarrow> client_manager \<Rightarrow> client_manager" where
  "evict ty cm =
     set_slots ty (map (\<lambda>x. case x of None \<Rightarrow> None | Some i \<Rightarrow> if isConnected i cm then Some i else None) (slots ty cm)) cm"

definition free_slot :: "ClientType \<Rightarrow> client_manager \<Rightarrow> nat option" where
  "free_slot ty cm = find (\<lambda>k. slots ty cm ! k = None) [0..<max_clients]"

definition register :: "ClientType \<Rightarrow> client \<Rightarrow> client_manager \<Rightarrow> bool \<times> client_manager" where
  "register ty c cm =
     (let cm = evict ty cm
      in case free_slot ty cm of
           Some k \<Rightarrow> (True, set_slots ty ((slots ty cm)[k := Some (length (cm_objects cm))])
                             (cm\<lparr>cm_objects := cm_objects cm @ [c]\<rparr>))
         | None \<Rightarrow> (False, cm\<lparr>cm_closes := cm_closes cm @ [cl_fd c]\<rparr>))"

definition addClient :: "int \<Rightarrow> ClientType \<Rightarrow> client_manager \<Rightarrow> bool \<times> client_manager" where
  "addClient fd ty cm = register ty (createClient ty fd (cm_buffer_size cm)) cm"

text \<open>The overload for an existing client takes it for a regular one.\<close>

definition addClient_object :: "client option \<Rightarrow> client_manager \<Rightarrow> bool \<times> client_manager" where
  "addClient_object client cm = (case client of None \<Rightarrow> (False, cm) | Some c \<Rightarrow> register client_regular c cm)"

definition findClientByFd :: "int \<Rightarrow> client_manager \<Rightarrow> nat option" where
  "findClientByFd fd cm = find (\<lambda>i. cl_fd (object i cm) = fd) (present (all_slots cm))"

fun removeFromArray :: "nat \<Rightarrow> nat option list \<Rightarrow> nat option list" where
  "removeFromArray i [] = []"
| "removeFromArray i (x # xs) = (if x = Some i then None # xs else x # removeFromArray i xs)"

definition removeClientByFd :: "int \<Rightarrow> client_manager \<Rightarrow> client_manager" where
  "removeClientByFd fd cm =
     (case findClientByFd fd cm of
        None \<Rightarrow> cm
      | Some i \<Rightarrow> stop_client i (cm\<lparr>cm_regular := removeFromArray i (cm_regular cm),
            cm_readonly := removeFromArray i (cm_readonly cm), cm_enhanced := removeFromArray i (cm_enhanced cm)\<rparr>))"

definition removeDisconnectedClients :: "client_manager \<Rightarrow> client_manager" where
  "removeDisconnectedClients cm = evict client_enhanced (evict client_read_only (evict client_regular cm))"

definition isSessionActive :: "client_manager \<Rightarrow> bool" where
  "isSessionActive cm \<longleftrightarrow> cm_state cm \<noteq> session_idle"

record client_manager_status =
  st_active :: bool
  st_session :: string
  st_error :: string
  st_clients :: "client_info list"

text \<open>The list of the status has room for \<open>max_clients\<close>; what does not fit is dropped.\<close>

definition cm_fetchStatus :: "client_manager \<Rightarrow> client_manager_status" where
  "cm_fetchStatus cm =
     \<lparr>st_active = (cm_active cm \<noteq> None), st_session = toString_SessionState (cm_state cm), st_error = cm_error cm,
      st_clients = take max_clients (map (\<lambda>i. getClientInfo (object i cm)) (present (all_slots cm)))\<rparr>"

section \<open>Sessions\<close>

definition cm_onBusRequested :: "client_manager \<Rightarrow> client_manager" where
  "cm_onBusRequested cm =
     (if cm_state cm = session_request \<and> cm_active cm \<noteq> None then transitSessionState session_response cm else cm)"

definition handleBusAvailableForSession :: "'a bridge \<Rightarrow> 'a bridge" where
  "handleBusAvailableForSession b =
     (case b of (cm, rq) \<Rightarrow>
        case cm_active cm of
          None \<Rightarrow> (cm, rq)
        | Some i \<Rightarrow>
            if cm_state cm \<noteq> session_request \<or> \<not> isConnected i cm then (cm, rq)
            else if busAvailable rq
            then (case popPendingIncomingData (object i cm) of
                    (Some first_byte, c) \<Rightarrow>
                      (transitSessionState session_response ((put i c cm)\<lparr>cm_last_sent := first_byte\<rparr>),
                       snd (requestBus first_byte True rq))
                  | (None, c) \<Rightarrow>
                      stopActiveSession (cm\<lparr>cm_error := ''Client sent no data for bus request.''\<rparr>, rq))
            else (cm, rq))"

definition tryStartSessionForClient :: "nat \<Rightarrow> client_manager \<Rightarrow> client_manager" where
  "tryStartSessionForClient i cm =
     (let c = object i cm
      in if \<not> cl_valid c \<or> \<not> write_capable c \<or> \<not> hasPendingIncomingData c then cm
         else if cm_active cm \<noteq> None \<or> cm_state cm \<noteq> session_idle then cm
         else put i (onSessionStart c)
                (transitSessionState session_request (cm\<lparr>cm_active := Some i, cm_counter := cm_counter cm + 1\<rparr>)))"

definition trySendNextByte :: "nat \<Rightarrow> client_manager \<Rightarrow> client_manager" where
  "trySendNextByte i cm =
     (if \<not> isConnected i cm then cm
      else case popPendingIncomingData (object i cm) of
             (None, c) \<Rightarrow> cm
           | (Some send_byte, c) \<Rightarrow>
               let cm = (put i c cm)\<lparr>cm_bus := cm_bus cm @ [send_byte], cm_last_sent := send_byte\<rparr>
               in if send_byte = syn then (transitSessionState session_idle cm)\<lparr>cm_active := None\<rparr>
                  else transitSessionState session_response cm)"

definition checkSessionTimeout :: "'a bridge \<Rightarrow> 'a bridge" where
  "checkSessionTimeout b =
     (case b of (cm, rq) \<Rightarrow>
        case cm_active cm of
          None \<Rightarrow> (cm, rq)
        | Some i \<Rightarrow>
            let elapsed = cm_clock cm (cm_reads cm) - cm_changed cm;
                timeout = (if cm_state cm = session_transmit then cm_transmit_timeout cm else cm_session_timeout cm);
                cm = cm\<lparr>cm_reads := cm_reads cm + 1\<rparr>
            in if elapsed > uint timeout * 1000
               then (case stopActiveSession (cm\<lparr>cm_error := ''Session timed out.''\<rparr>, rq) of (cm, rq) \<Rightarrow>
                       (cm, updateRequest (\<lambda>m. m\<lparr>session_timeouts := session_timeouts m + 1\<rparr>) rq))
               else (cm, rq))"

definition handleActiveSenderDisconnected :: "'a bridge \<Rightarrow> 'a bridge" where
  "handleActiveSenderDisconnected b =
     (case b of (cm, rq) \<Rightarrow>
        case cm_active cm of
          None \<Rightarrow> (cm, rq)
        | Some i \<Rightarrow>
            if isConnected i cm then (cm, rq)
            else (stop_client i (cm\<lparr>cm_active := None, cm_state := session_idle, cm_error := ''Client disconnected.''\<rparr>),
                  request_reset rq))"

subsection \<open>A byte from the bus\<close>

definition refresh_session :: "client_manager \<Rightarrow> client_manager" where
  "refresh_session cm =
     (if cm_state cm \<noteq> session_idle then cm\<lparr>cm_changed := cm_clock cm (cm_reads cm), cm_reads := cm_reads cm + 1\<rparr> else cm)"

definition perform_action :: "BridgeAction \<Rightarrow> nat \<Rightarrow> 'a bridge \<Rightarrow> 'a bridge" where
  "perform_action action i b =
     (case b of (cm, rq) \<Rightarrow>
        case action of
          keep_active \<Rightarrow> (cm, rq)
        | stop_session \<Rightarrow>
            stopActiveSession (cm, updateRequest (\<lambda>m. m\<lparr>bus_request_blocked := bus_request_blocked m + 1\<rparr>) rq)
        | bypass_wait \<Rightarrow> (trySendNextByte i (transitSessionState session_transmit cm), rq))"

definition active_byte :: "u8 \<Rightarrow> RequestResult \<Rightarrow> nat \<Rightarrow> 'a bridge \<Rightarrow> 'a bridge" where
  "active_byte byte result i b =
     (case b of (cm, rq) \<Rightarrow>
        case onBusByte byte result (object i cm) of (action, c) \<Rightarrow>
          let b = perform_action action i (put i c cm, rq)
          in if cm_state (fst b) = session_request then handleBusAvailableForSession b else b)"

definition forward_byte :: "u8 \<Rightarrow> nat option \<Rightarrow> nat \<Rightarrow> client_manager \<Rightarrow> client_manager" where
  "forward_byte byte sender j cm =
     (if Some j = sender \<or> \<not> isConnected j cm then cm else put j (enqueueOutgoingData [byte] (object j cm)) cm)"

definition onBusEventInfo :: "u8 \<Rightarrow> RequestResult \<Rightarrow> 'a bridge \<Rightarrow> 'a bridge" where
  "onBusEventInfo byte result b =
     (case b of (cm, rq) \<Rightarrow>
        if \<not> cm_running cm then (cm, rq)
        else let sender = cm_active cm;
                 all_clients = filter (\<lambda>i. isConnected i cm) (present (all_slots cm));
                 cm = refresh_session cm;
                 (cm, rq) = (case sender of
                               Some i \<Rightarrow> if isConnected i cm then active_byte byte result i (cm, rq) else (cm, rq)
                             | None \<Rightarrow> (cm, rq))
             in (fold (forward_byte byte sender) all_clients cm, rq))"

section \<open>The socket thread\<close>

text \<open>\<open>recv_bytes []\<close> is a connection closed by the peer. After the results given the call would block.\<close>

datatype recv_result = recv_bytes bytes | recv_again | recv_failed

fun handleSocketInput :: "recv_result list \<Rightarrow> nat \<Rightarrow> 'a bridge \<Rightarrow> (bool \<times> 'a bridge) option" where
  "handleSocketInput [] i b = Some (False, b)"
| "handleSocketInput (recv_again # rs) i b = Some (False, b)"
| "handleSocketInput (recv_failed # rs) i b = Some (True, b)"
| "handleSocketInput (recv_bytes data # rs) i (cm, rq) =
     (if data = [] then Some (True, (cm, rq))
      else case handleIncomingStream data (object i cm) (Some rq) of
             None \<Rightarrow> None
           | Some (c, rq') \<Rightarrow>
               let cm = put i c cm;
                   cm = (if cm_active cm = Some i \<and> cm_state cm = session_transmit then trySendNextByte i cm
                         else tryStartSessionForClient i cm)
               in handleSocketInput rs i (cm, the rq'))"

definition handleSocketOutput :: "writer \<Rightarrow> nat \<Rightarrow> client_manager \<Rightarrow> bool \<times> client_manager" where
  "handleSocketOutput os i cm =
     (case flushOutgoingData os (object i cm) of (ok, c) \<Rightarrow> (\<not> ok, put i c cm))"

record io_ready =
  rd_fds :: "int list"
  wr_fds :: "int list"
  ex_fds :: "int list"
  io_recv :: "int \<Rightarrow> recv_result list"
  io_write :: "int \<Rightarrow> writer"
  io_accept :: "int \<Rightarrow> int"

text \<open>The activity of the client in one slot; the first component says whether it is taken out.\<close>

definition client_activity :: "io_ready \<Rightarrow> nat \<Rightarrow> 'a bridge \<Rightarrow> (bool \<times> 'a bridge) option" where
  "client_activity io i b =
     (case b of (cm, rq) \<Rightarrow>
        let fd = cl_fd (object i cm)
        in if fd \<in> set (ex_fds io) then Some (True, (cm, rq))
           else case (if fd \<in> set (rd_fds io) then handleSocketInput (io_recv io fd) i (cm, rq) else Some (False, (cm, rq))) of
                  None \<Rightarrow> None
                | Some (True, b) \<Rightarrow> Some (True, b)
                | Some (False, (cm, rq)) \<Rightarrow>
                    if fd \<in> set (wr_fds io)
                    then (case handleSocketOutput (io_write io fd) i cm of (gone, cm) \<Rightarrow> Some (gone, (cm, rq)))
                    else Some (False, (cm, rq)))"

fun handleClientActivity ::
  "io_ready \<Rightarrow> ClientType \<Rightarrow> nat list \<Rightarrow> nat list \<Rightarrow> 'a bridge \<Rightarrow> (nat list \<times> 'a bridge) option" where
  "handleClientActivity io ty [] to_stop b = Some (to_stop, b)"
| "handleClientActivity io ty (k # ks) to_stop (cm, rq) =
     (case slots ty cm ! k of
        None \<Rightarrow> handleClientActivity io ty ks to_stop (cm, rq)
      | Some i \<Rightarrow>
          if \<not> isConnected i cm then handleClientActivity io ty ks to_stop (cm, rq)
          else case client_activity io i (cm, rq) of
                 None \<Rightarrow> None
               | Some (False, b) \<Rightarrow> handleClientActivity io ty ks to_stop b
               | Some (True, (cm, rq)) \<Rightarrow>
                   handleClientActivity io ty ks (to_stop @ [i]) (set_slots ty ((slots ty cm)[k := None]) cm, rq))"

fun handle_arrays :: "io_ready \<Rightarrow> ClientType list \<Rightarrow> nat list \<Rightarrow> 'a bridge \<Rightarrow> (nat list \<times> 'a bridge) option" where
  "handle_arrays io [] to_stop b = Some (to_stop, b)"
| "handle_arrays io (ty # tys) to_stop b =
     (case handleClientActivity io ty [0..<max_clients] to_stop b of
        None \<Rightarrow> None
      | Some (to_stop, b) \<Rightarrow> handle_arrays io tys to_stop b)"

definition handleClientIO :: "io_ready \<Rightarrow> 'a bridge \<Rightarrow> 'a bridge option" where
  "handleClientIO io b =
     (case handle_arrays io [client_regular, client_read_only, client_enhanced] [] b of
        None \<Rightarrow> None
      | Some (to_stop, (cm, rq)) \<Rightarrow> Some (fold stop_client to_stop cm, rq))"

definition try_accept :: "io_ready \<Rightarrow> int \<Rightarrow> ClientType \<Rightarrow> client_manager \<Rightarrow> client_manager" where
  "try_accept io listen_fd ty cm =
     (if listen_fd = -1 \<or> listen_fd \<notin> set (rd_fds io) then cm
      else let client_fd = io_accept io listen_fd
           in if client_fd \<ge> 0
              then (case addClient client_fd ty cm of
                      (True, cm) \<Rightarrow> cm
                    | (False, cm) \<Rightarrow> cm\<lparr>cm_closes := cm_closes cm @ [client_fd]\<rparr>)
              else cm)"

definition acceptNewConnections :: "io_ready \<Rightarrow> client_manager \<Rightarrow> client_manager" where
  "acceptNewConnections io cm =
     (let cm = try_accept io (cm_listen_regular cm) client_regular cm;
          cm = try_accept io (cm_listen_readonly cm) client_read_only cm
      in try_accept io (cm_listen_enhanced cm) client_enhanced cm)"

definition addClientFdsToSet :: "nat option list \<Rightarrow> client_manager \<Rightarrow> int list \<times> int list \<times> int list \<Rightarrow> int list \<times> int list \<times> int list" where
  "addClientFdsToSet clients cm fds =
     (case fds of (readfds, writefds, exceptfds) \<Rightarrow>
        let cs = filter cl_valid (map (\<lambda>i. object i cm) (present clients))
        in (readfds @ map cl_fd cs, writefds @ map cl_fd (filter hasPendingOutgoingData cs), exceptfds @ map cl_fd cs))"

definition prepareFileDescriptors :: "client_manager \<Rightarrow> int list \<times> int list \<times> int list" where
  "prepareFileDescriptors cm =
     (let wakeup = (if cm_wakeup cm \<ge> 0 then [cm_wakeup cm] else []);
          listeners = filter (\<lambda>fd. fd \<noteq> -1) [cm_listen_regular cm, cm_listen_readonly cm, cm_listen_enhanced cm]
      in addClientFdsToSet (cm_enhanced cm) cm
           (addClientFdsToSet (cm_readonly cm) cm
             (addClientFdsToSet (cm_regular cm) cm (wakeup @ listeners, [], []))))"

datatype select_result =
    select_interrupted
  | select_bad_descriptor
  | select_failed
  | select_timeout
  | select_ready io_ready

definition io_timeout :: "'a bridge \<Rightarrow> 'a bridge" where
  "io_timeout b =
     (case handleActiveSenderDisconnected (checkSessionTimeout b) of (cm, rq) \<Rightarrow>
        let cm = removeDisconnectedClients cm
        in if cm_state cm = session_request \<and> cm_active cm \<noteq> None then handleBusAvailableForSession (cm, rq) else (cm, rq))"

text \<open>
  One round of \<open>clientIoLoop\<close>; the first component says whether the loop goes on. \<open>sel\<close> is
  \<open>select\<close>, applied to the descriptors the round asks for.
\<close>

definition io_round ::
  "(int list \<times> int list \<times> int list \<Rightarrow> select_result) \<Rightarrow> 'a bridge \<Rightarrow> (bool \<times> 'a bridge) option" where
  "io_round sel b =
     (case b of (cm, rq) \<Rightarrow>
        if \<not> cm_running cm then Some (False, b)
        else let fds = prepareFileDescriptors cm
             in if fst fds = [] then Some (True, b)
                else case sel fds of
                       select_interrupted \<Rightarrow> Some (True, b)
                     | select_bad_descriptor \<Rightarrow> Some (True, (removeDisconnectedClients cm, rq))
                     | select_failed \<Rightarrow> Some (False, b)
                     | select_timeout \<Rightarrow> Some (True, io_timeout b)
                     | select_ready io \<Rightarrow>
                         map_option (\<lambda>(cm, rq). (True, (removeDisconnectedClients cm, rq)))
                           (handleClientIO io (acceptNewConnections io cm, rq)))"

section \<open>What the operations keep of a client\<close>

text \<open>
  Between two takings from its queue a client keeps its kind, and its queue only grows, within
  its bound.
\<close>

definition client_ok :: "client \<Rightarrow> bool" where
  "client_ok c \<longleftrightarrow> (write_capable c \<longleftrightarrow> cl_type c \<noteq> client_read_only) \<and> length (cl_in c) \<le> inbound_capacity"

definition grown :: "client \<Rightarrow> client \<Rightarrow> bool" where
  "grown c c' \<longleftrightarrow> cl_type c' = cl_type c \<and> write_capable c' = write_capable c \<and> (\<exists>ys. cl_in c' = cl_in c @ ys)
     \<and> (client_ok c \<longrightarrow> client_ok c')"

lemma grown_refl [simp]: "grown c c"
  by (simp add: grown_def)

lemma grown_trans: "grown a b \<Longrightarrow> grown b c \<Longrightarrow> grown a c"
  by (auto simp: grown_def)

lemma grown_same:
  "cl_type c' = cl_type c \<Longrightarrow> write_capable c' = write_capable c \<Longrightarrow> cl_in c' = cl_in c \<Longrightarrow> grown c c'"
  by (simp add: grown_def client_ok_def)

lemma grown_update [simp]:
  "grown c (z\<lparr>cl_last_sent := v\<rparr>) = grown c z" "grown c (z\<lparr>incoming_buf := x\<rparr>) = grown c z"
  by (simp_all add: grown_def client_ok_def)

lemma grown_simple:
  "grown c (cl_stop c)" "grown c (enqueueOutgoingData d c)" "grown c (createEnhancedResponse r v c)"
  "grown c (onSessionStart c)"
  by (rule grown_same; simp add: cl_stop_def createEnhancedResponse_def onSessionStart_def)+

lemma grown_fold: "(\<And>x c. grown c (f x c)) \<Longrightarrow> grown c (fold f xs c)"
  by (induction xs arbitrary: c) (auto intro: grown_trans)

lemma grown_flush_loop: "grown c (snd (flush_loop os k c))"
proof (induction os k c rule: flush_loop.induct)
  case (1 os k c)
  obtain n again where os: "os k (offered (cl_out c)) = (n, again)" by fastforce
  let ?c = "c\<lparr>cl_out := ring_drop (nat n) (cl_out c), cl_sent := cl_sent c @ take (nat n) (offered (cl_out c))\<rparr>"
  have "grown c ?c" by (rule grown_same) simp_all
  then show ?case
    using 1 [OF refl refl os [symmetric]] grown_simple(1) [of c] grown_trans [of c ?c]
    by (simp add: flush_loop_unfold [where os = os and k = k and c = c, OF os] Let_def)
qed

lemma grown_flush: "grown c (snd (flushOutgoingData os c))"
  by (simp add: flushOutgoingData_def grown_flush_loop)

lemma grown_push: "push_inbound b c = Some c' \<Longrightarrow> grown c c'"
  by (auto simp: push_inbound_def grown_def client_ok_def split: if_splits)

lemma grown_push_all: "push_inbound_all bs c = Some c' \<Longrightarrow> grown c c'"
  by (induction bs arbitrary: c) (auto split: option.splits dest: grown_push intro: grown_trans)

lemma grown_responses: "grown c (enh_responses r i c)"
  unfolding enh_responses_def Let_def
  by (auto intro!: grown_fold grown_simple intro: grown_trans [OF grown_simple(3)])

lemma grown_command:
  "enh_command cmd v (nr, ni, c, req) = Some (nr', ni', c', req') \<Longrightarrow> grown c c' \<and> (req' = None \<longleftrightarrow> req = None)"
  by (auto simp: enh_command_def split: if_splits dest!: grown_push)

lemma grown_step:
  assumes "enh_step b (nr, ni, c, req) = Some (stop, nr', ni', c', req')"
  shows "grown c c' \<and> (req' = None \<longleftrightarrow> req = None)"
proof -
  have g: "grown c (c\<lparr>incoming_buf := x\<rparr>)" for x by (rule grown_same) simp_all
  show ?thesis
    using assms
    by (auto simp: enh_step_def Let_def split_beta split: if_splits
        dest!: grown_push grown_command intro: g grown_trans [OF g] grown_trans [OF g grown_trans [OF grown_simple(3) grown_simple(1)]])
qed

lemma grown_loop:
  "enh_loop bs (nr, ni, c, req) = Some (stop, nr', ni', c', req') \<Longrightarrow> grown c c' \<and> (req' = None \<longleftrightarrow> req = None)"
proof (induction bs arbitrary: nr ni c req)
  case (Cons b bs)
  from Cons.prems obtain e nr1 ni1 c1 req1 where st: "enh_step b (nr, ni, c, req) = Some (e, nr1, ni1, c1, req1)"
    by (cases "enh_step b (nr, ni, c, req)") auto
  note g = grown_step [OF st]
  show ?case
    using Cons.prems st g Cons.IH [of nr1 ni1 c1 req1] grown_trans by (cases e) auto
qed simp

lemma grown_stream:
  assumes "handleIncomingStream d c req = Some (c', req')"
  shows "grown c c' \<and> (req' = None \<longleftrightarrow> req = None)"
  using assms
  by (cases "cl_type c")
    (auto simp: handleIncomingStream_def split: if_splits option.splits bool.splits
      dest!: grown_push_all grown_loop intro: grown_trans [OF _ grown_responses])

lemma grown_bus: "grown c (snd (onBusByte b r c))"
  by (cases "cl_type c") (simp_all add: onBusByte_def regular_onBusByte_def enhanced_onBusByte_def grown_simple)

lemma grown_ok: "grown c c' \<Longrightarrow> client_ok c \<Longrightarrow> client_ok c'"
  by (simp add: grown_def)

lemma popped:
  "popPendingIncomingData c = (Some b, c') \<Longrightarrow>
    cl_in c = b # cl_in c' \<and> cl_type c' = cl_type c \<and> write_capable c' = write_capable c \<and> cl_fd c' = cl_fd c
    \<and> cl_last_sent c' = b \<and> cl_out c' = cl_out c \<and> (client_ok c \<longrightarrow> client_ok c')"
  by (auto simp: popPendingIncomingData_def client_ok_def split: if_splits)

section \<open>The invariant\<close>

definition slots_ok :: "nat \<Rightarrow> nat option list \<Rightarrow> bool" where
  "slots_ok n xs \<longleftrightarrow> distinct (present xs) \<and> set (present xs) \<subseteq> {..<n}"

definition vacated :: "nat option list \<Rightarrow> nat option list \<Rightarrow> bool" where
  "vacated xs ys \<longleftrightarrow> list_all2 (\<lambda>x y. y = None \<or> y = x) xs ys"

lemma present_simps [simp]:
  "present [] = []" "present (None # xs) = present xs" "present (Some i # xs) = i # present xs"
  "present (xs @ ys) = present xs @ present ys"
  by (simp_all add: present_def)

lemma present_replicate [simp]: "present (replicate n None) = []"
  by (induction n) simp_all

lemma present_set: "i \<in> set (present xs) \<longleftrightarrow> Some i \<in> set xs"
  by (force simp: present_def)

lemma vacated_refl [simp]: "vacated xs xs"
  by (simp add: vacated_def list_all2_refl)

lemma vacated_append: "vacated xs xs' \<Longrightarrow> vacated ys ys' \<Longrightarrow> vacated (xs @ ys) (xs' @ ys')"
  by (simp add: vacated_def list_all2_appendI)

lemma vacated_present:
  assumes "vacated xs ys" shows "subseq (present ys) (present xs)"
  using assms unfolding vacated_def
proof (induction rule: list_all2_induct)
  case (Cons x xs y ys)
  then show ?case by (cases x) auto
qed simp

lemma vacated_slots_ok:
  assumes "vacated xs ys" "slots_ok n xs"
  shows "slots_ok n ys"
proof -
  from vacated_present [OF assms(1)] obtain N where "present ys = nths (present xs) N" unfolding subseq_conv_nths by blast
  then show ?thesis using assms(2) set_nths_subset [of "present xs" N] by (auto simp: slots_ok_def)
qed

lemma vacated_simps:
  "vacated xs (removeFromArray i xs)"
  "vacated xs (map (\<lambda>x. case x of None \<Rightarrow> None | Some i \<Rightarrow> if P i then Some i else None) xs)"
  "vacated xs (xs[k := None])"
proof -
  show "vacated xs (removeFromArray i xs)" by (induction xs) (auto simp: vacated_def list_all2_refl)
  show "vacated xs (map (\<lambda>x. case x of None \<Rightarrow> None | Some i \<Rightarrow> if P i then Some i else None) xs)"
    by (auto simp: vacated_def list_all2_conv_all_nth split: option.split)
  show "vacated xs (xs[k := None])"
    by (cases "k < length xs") (auto simp: vacated_def list_all2_conv_all_nth nth_list_update)
qed

lemma present_update:
  "k < length xs \<Longrightarrow> xs ! k = None \<Longrightarrow> mset (present (xs[k := Some i])) = add_mset i (mset (present xs))"
proof (induction xs arbitrary: k)
  case (Cons x xs)
  then show ?case by (cases x; cases k) auto
qed simp

definition session_ok :: "client_manager \<Rightarrow> bool" where
  "session_ok cm \<longleftrightarrow> (case cm_active cm of
     None \<Rightarrow> cm_state cm = session_idle
   | Some i \<Rightarrow> cm_state cm \<noteq> session_idle \<and> i < length (cm_objects cm) \<and> write_capable (object i cm)
       \<and> (cm_state cm = session_request \<longrightarrow> cl_in (object i cm) \<noteq> []))"

definition cm_inv :: "client_manager \<Rightarrow> bool" where
  "cm_inv cm \<longleftrightarrow> length (cm_regular cm) = max_clients \<and> length (cm_readonly cm) = max_clients
     \<and> length (cm_enhanced cm) = max_clients \<and> slots_ok (length (cm_objects cm)) (all_slots cm)
     \<and> list_all client_ok (cm_objects cm) \<and> session_ok cm"

lemmas inv_defs = cm_inv_def session_ok_def all_slots_def object_def

lemma object_put [simp]:
  "object j (put i c cm) = (if j = i \<and> i < length (cm_objects cm) then c else object j cm)"
  by (cases "i < length (cm_objects cm)") (auto simp: object_def put_def list_update_beyond)

lemma put_frame [simp]:
  "cm_active (put i c cm) = cm_active cm" "cm_state (put i c cm) = cm_state cm" "cm_running (put i c cm) = cm_running cm"
  "slots ty (put i c cm) = slots ty cm" "all_slots (put i c cm) = all_slots cm" "cm_bus (put i c cm) = cm_bus cm"
  "length (cm_objects (put i c cm)) = length (cm_objects cm)" "cm_regular (put i c cm) = cm_regular cm"
  "cm_readonly (put i c cm) = cm_readonly cm" "cm_enhanced (put i c cm) = cm_enhanced cm"
  by (cases ty; simp add: put_def all_slots_def)+

lemma put_outside: "\<not> i < length (cm_objects cm) \<Longrightarrow> put i c cm = cm"
  by (simp add: put_def list_update_beyond)

lemma clients_ok_update: "list_all client_ok cs \<Longrightarrow> client_ok c \<Longrightarrow> list_all client_ok (cs[i := c])"
  by (cases "i < length cs") (auto simp: list_all_length nth_list_update list_update_beyond)

lemma objects_ok: "cm_inv cm \<Longrightarrow> i < length (cm_objects cm) \<Longrightarrow> client_ok (object i cm)"
  by (simp add: cm_inv_def object_def list_all_length)

lemma inv_put:
  assumes "cm_inv cm" "grown (object i cm) c"
  shows "cm_inv (put i c cm)"
proof (cases "i < length (cm_objects cm)")
  case True
  then have "client_ok c" using objects_ok [OF assms(1)] assms(2) grown_ok by blast
  then have "list_all client_ok ((cm_objects cm)[i := c])"
    using assms(1) by (simp add: cm_inv_def clients_ok_update)
  moreover have "session_ok (put i c cm)"
    using assms by (auto simp: cm_inv_def session_ok_def grown_def split: option.splits)
  ultimately show ?thesis using assms(1) by (simp add: cm_inv_def put_def all_slots_def)
qed (use assms in \<open>simp add: put_outside\<close>)

lemma inv_stop_client: "cm_inv cm \<Longrightarrow> cm_inv (stop_client i cm)"
  unfolding stop_client_def by (rule inv_put [OF _ grown_simple(1)])

lemma inv_stop_clients: "cm_inv cm \<Longrightarrow> cm_inv (fold stop_client is cm)"
  by (induction "is" arbitrary: cm) (auto intro: inv_stop_client)

lemma inv_end_session: "cm_inv cm \<Longrightarrow> cm_inv (cm\<lparr>cm_active := None, cm_state := session_idle, cm_error := e\<rparr>)"
  by (simp add: inv_defs)

lemma inv_irrelevant [simp]:
  "cm_inv (cm\<lparr>cm_error := e\<rparr>) = cm_inv cm" "cm_inv (cm\<lparr>cm_running := r\<rparr>) = cm_inv cm"
  "cm_inv (cm\<lparr>cm_reads := n\<rparr>) = cm_inv cm" "cm_inv (cm\<lparr>cm_changed := t\<rparr>) = cm_inv cm"
  "cm_inv (cm\<lparr>cm_closes := xs\<rparr>) = cm_inv cm" "cm_inv (cm\<lparr>cm_counter := u\<rparr>) = cm_inv cm"
  "cm_inv (cm\<lparr>cm_listen_regular := l\<rparr>) = cm_inv cm" "cm_inv (cm\<lparr>cm_listen_readonly := l\<rparr>) = cm_inv cm"
  "cm_inv (cm\<lparr>cm_listen_enhanced := l\<rparr>) = cm_inv cm" "cm_inv (cm\<lparr>cm_session_timeout := u\<rparr>) = cm_inv cm"
  "cm_inv (cm\<lparr>cm_transmit_timeout := u\<rparr>) = cm_inv cm" "cm_inv (cm\<lparr>cm_buffer_size := n\<rparr>) = cm_inv cm"
  by (auto simp: inv_defs split: option.splits)

lemma inv_stopActiveSession: "cm_inv (fst b) \<Longrightarrow> cm_inv (fst (stopActiveSession b))"
  by (auto simp: stopActiveSession_def split: prod.split option.split intro!: inv_stop_client inv_end_session)

lemma inv_cm_stop: "cm_inv (fst b) \<Longrightarrow> cm_inv (fst (cm_stop b))"
  using inv_stopActiveSession [of "((fst b)\<lparr>cm_running := False\<rparr>, snd b)"]
  by (auto simp: cm_stop_def split: prod.splits)

lemma inv_transit:
  "cm_inv cm \<Longrightarrow> cm_active cm \<noteq> None \<Longrightarrow> st = session_transmit \<or> st = session_response \<Longrightarrow> cm_inv (transitSessionState st cm)"
  by (auto simp: transitSessionState_def inv_defs split: option.splits)

lemma inv_onBusRequested: "cm_inv cm \<Longrightarrow> cm_inv (cm_onBusRequested cm)"
  by (simp add: cm_onBusRequested_def inv_transit)

text \<open>A byte is taken from the active sender, whose session leaves the state \<open>request\<close>.\<close>

lemma inv_take:
  assumes "cm_inv cm" "cm_active cm = Some i" "popPendingIncomingData (object i cm) = (Some b, c)"
    and new: "cm_objects cm' = (cm_objects cm)[i := c]" "cm_regular cm' = cm_regular cm" "cm_readonly cm' = cm_readonly cm"
      "cm_enhanced cm' = cm_enhanced cm"
      "cm_active cm' = Some i \<and> (cm_state cm' = session_transmit \<or> cm_state cm' = session_response)
        \<or> cm_active cm' = None \<and> cm_state cm' = session_idle"
  shows "cm_inv cm'"
proof -
  have i: "i < length (cm_objects cm)" "write_capable (object i cm)"
    using assms(1,2) by (simp_all add: cm_inv_def session_ok_def)
  note p = popped [OF assms(3)]
  have "client_ok c" using objects_ok [OF assms(1) i(1)] p by blast
  then have "list_all client_ok ((cm_objects cm)[i := c])"
    using assms(1) by (simp add: cm_inv_def clients_ok_update)
  then show ?thesis
    using assms(1) new i p by (auto simp: cm_inv_def session_ok_def put_def all_slots_def object_def)
qed

lemma inv_trySendNextByte:
  assumes "cm_inv cm" "cm_active cm = Some i"
  shows "cm_inv (trySendNextByte i cm)"
proof (cases "\<not> isConnected i cm \<or> fst (popPendingIncomingData (object i cm)) = None")
  case False
  then obtain b c where p: "popPendingIncomingData (object i cm) = (Some b, c)"
    by (cases "popPendingIncomingData (object i cm)") auto
  show ?thesis
    using False by (intro inv_take [OF assms p]) (auto simp: trySendNextByte_def p transitSessionState_def put_def Let_def assms(2))
qed (use assms in \<open>auto simp: trySendNextByte_def split: prod.split\<close>)

lemma inv_handleBusAvailable:
  assumes "cm_inv (fst b)"
  shows "cm_inv (fst (handleBusAvailableForSession b))"
proof -
  obtain cm rq where b: "b = (cm, rq)" by fastforce
  show ?thesis
  proof (cases "\<exists>i. cm_active cm = Some i \<and> cm_state cm = session_request \<and> isConnected i cm \<and> busAvailable rq")
    case True
    then obtain i where t: "cm_active cm = Some i" "cm_state cm = session_request" "isConnected i cm" "busAvailable rq" by blast
    obtain x c where p: "popPendingIncomingData (object i cm) = (x, c)" by fastforce
    show ?thesis
    proof (cases x)
      case None
      then show ?thesis
        using assms t p inv_stopActiveSession [of "(cm\<lparr>cm_error := e\<rparr>, rq)" for e]
        by (simp add: b handleBusAvailableForSession_def)
    next
      case (Some y)
      then have y: "cm_inv cm" "popPendingIncomingData (object i cm) = (Some y, c)" using assms p by (simp_all add: b)
      show ?thesis
        by (rule inv_take [OF y(1) t(1) y(2)]) (simp_all add: b t y handleBusAvailableForSession_def transitSessionState_def put_def)
    qed
  qed (use assms in \<open>auto simp: b handleBusAvailableForSession_def split: option.split\<close>)
qed

lemma inv_tryStart:
  assumes "cm_inv cm" "i < length (cm_objects cm)"
  shows "cm_inv (tryStartSessionForClient i cm)"
proof -
  let ?c = "object i cm" and ?cm = "transitSessionState session_request (cm\<lparr>cm_active := Some i, cm_counter := cm_counter cm + 1\<rparr>)"
  have "cm_inv ?cm" if "write_capable ?c" "hasPendingIncomingData ?c"
    using assms that by (auto simp: transitSessionState_def inv_defs hasPendingIncomingData_def)
  then have "cm_inv (put i (onSessionStart ?c) ?cm)" if "write_capable ?c" "hasPendingIncomingData ?c"
    using that by (intro inv_put) (simp_all add: transitSessionState_def object_def grown_simple)
  then show ?thesis using assms by (simp add: tryStartSessionForClient_def Let_def)
qed

lemma inv_checkSessionTimeout:
  assumes "cm_inv (fst b)"
  shows "cm_inv (fst (checkSessionTimeout b))"
proof -
  obtain cm rq where b: "b = (cm, rq)" by fastforce
  have "cm_inv (fst (stopActiveSession (cm\<lparr>cm_reads := n, cm_error := e\<rparr>, rq)))" for n e
    using assms by (intro inv_stopActiveSession) (simp add: b)
  then show ?thesis
    using assms by (auto simp: b checkSessionTimeout_def Let_def split_beta split: option.split)
qed

lemma inv_handleDisconnected: "cm_inv (fst b) \<Longrightarrow> cm_inv (fst (handleActiveSenderDisconnected b))"
  by (auto simp: handleActiveSenderDisconnected_def split: prod.split option.split intro!: inv_stop_client inv_end_session)

lemma inv_forward: "cm_inv cm \<Longrightarrow> cm_inv (forward_byte b s j cm)"
  by (simp add: forward_byte_def inv_put grown_simple)

lemma inv_forward_all: "cm_inv cm \<Longrightarrow> cm_inv (fold (forward_byte b s) js cm)"
  by (induction js arbitrary: cm) (simp_all add: inv_forward)

lemma stop_session_frame:
  "cm_active (fst (stopActiveSession b)) = None"
  "cm_state (fst (stopActiveSession b)) = (if cm_active (fst b) = None then cm_state (fst b) else session_idle)"
  by (auto simp: stopActiveSession_def stop_client_def split: prod.split option.split)

lemma inv_perform_action:
  assumes "cm_inv (fst b)" "cm_active (fst b) = Some i"
  shows "cm_inv (fst (perform_action action i b))"
proof -
  obtain cm rq where b: "b = (cm, rq)" by fastforce
  have p: "cm_inv cm" "cm_active cm = Some i" using assms by (simp_all add: b)
  show ?thesis
    using p inv_stopActiveSession [of "(cm, r)" for r] inv_trySendNextByte [OF inv_transit [OF p(1)], of session_transmit i]
    by (cases action) (simp_all add: perform_action_def b transitSessionState_def)
qed

lemma inv_active_byte:
  assumes "cm_inv (fst b)" "cm_active (fst b) = Some i"
  shows "cm_inv (fst (active_byte byte result i b))"
proof -
  obtain cm rq where b: "b = (cm, rq)" by fastforce
  have "cm_inv (put i (snd (onBusByte byte result (object i cm))) cm)"
    using inv_put [OF _ grown_bus] assms(1) by (simp add: b)
  then show ?thesis
    using assms(2) by (simp add: active_byte_def b split_beta Let_def inv_perform_action inv_handleBusAvailable)
qed

lemma refresh_session_frame [simp]:
  "cm_inv (refresh_session cm) = cm_inv cm" "cm_active (refresh_session cm) = cm_active cm"
  "cm_state (refresh_session cm) = cm_state cm" "object i (refresh_session cm) = object i cm"
  "isConnected i (refresh_session cm) = isConnected i cm" "cm_bus (refresh_session cm) = cm_bus cm"
  "cm_objects (refresh_session cm) = cm_objects cm" "all_slots (refresh_session cm) = all_slots cm"
  by (simp_all add: refresh_session_def object_def isConnected_def all_slots_def)

lemma inv_onBusEventInfo:
  assumes "cm_inv (fst b)"
  shows "cm_inv (fst (onBusEventInfo byte result b))"
proof -
  obtain cm rq where b: "b = (cm, rq)" by fastforce
  show ?thesis
    using assms inv_active_byte [of "(refresh_session cm, rq)"]
    by (auto simp: b onBusEventInfo_def Let_def split_beta split: option.split intro!: inv_forward_all)
qed

subsection \<open>Slots\<close>

lemma inv_slots:
  assumes "cm_inv cm" "vacated (slots ty cm) xs"
  shows "cm_inv (set_slots ty xs cm)"
proof -
  have "length xs = max_clients" using assms by (cases ty) (simp_all add: cm_inv_def vacated_def list_all2_lengthD)
  moreover have "vacated (all_slots cm) (all_slots (set_slots ty xs cm))"
    using assms(2) by (cases ty) (simp_all add: all_slots_def vacated_append)
  with assms(1) have "slots_ok (length (cm_objects cm)) (all_slots (set_slots ty xs cm))"
    by (auto simp: cm_inv_def elim: vacated_slots_ok)
  ultimately show ?thesis using assms(1) by (cases ty) (auto simp: cm_inv_def session_ok_def object_def split: option.splits)
qed

lemma inv_evict: "cm_inv cm \<Longrightarrow> cm_inv (evict ty cm)"
  unfolding evict_def by (rule inv_slots [OF _ vacated_simps(2)])

lemma free_slot_Some: "free_slot ty cm = Some k \<Longrightarrow> k < max_clients \<and> slots ty cm ! k = None"
  by (auto simp: free_slot_def find_Some_iff)

lemma inv_register:
  assumes "cm_inv cm" "client_ok c"
  shows "cm_inv (snd (register ty c cm))"
proof (cases "free_slot ty (evict ty cm)")
  case (Some k)
  let ?e = "evict ty cm" and ?n = "length (cm_objects (evict ty cm))"
  let ?cm = "set_slots ty ((slots ty ?e)[k := Some ?n]) (?e\<lparr>cm_objects := cm_objects ?e @ [c]\<rparr>)"
  have e: "cm_inv ?e" using assms(1) by (rule inv_evict)
  have k: "k < length (slots ty ?e)" "slots ty ?e ! k = None"
    using free_slot_Some [OF Some] e by (cases ty; simp add: cm_inv_def)+
  have "mset (present (all_slots ?cm)) = mset (?n # present (all_slots ?e))"
    using present_update [OF k, of ?n] by (cases ty) (simp_all add: all_slots_def)
  from mset_eq_imp_distinct_iff [OF this] mset_eq_setD [OF this] e
  have "slots_ok (Suc ?n) (all_slots ?cm)" by (auto simp: cm_inv_def slots_ok_def)
  moreover have "session_ok ?cm"
    using e by (cases ty) (auto simp: cm_inv_def session_ok_def object_def nth_append split: option.splits)
  moreover have "snd (register ty c cm) = ?cm" using Some by (simp add: register_def Let_def)
  ultimately show ?thesis using e assms(2) by (cases ty) (simp_all add: cm_inv_def)
next
  case None
  then show ?thesis using inv_evict [OF assms(1)] by (simp add: register_def Let_def)
qed

lemma new_client_ok [simp]: "client_ok (createClient ty fd n)"
  by (simp add: createClient_def client_ok_def)

subsection \<open>The socket thread\<close>

lemma objects_kept [simp]:
  "length (cm_objects (transitSessionState st cm)) = length (cm_objects cm)"
  "length (cm_objects (trySendNextByte i cm)) = length (cm_objects cm)"
  "length (cm_objects (tryStartSessionForClient i cm)) = length (cm_objects cm)"
  "length (cm_objects (fst (stopActiveSession b))) = length (cm_objects (fst b))"
  "length (cm_objects (fst (handleBusAvailableForSession b))) = length (cm_objects (fst b))"
  by (auto simp: transitSessionState_def trySendNextByte_def tryStartSessionForClient_def put_def Let_def
      stopActiveSession_def stop_client_def handleBusAvailableForSession_def split: prod.split option.split)

lemma slot_bound:
  assumes "cm_inv cm" "k < max_clients" "slots ty cm ! k = Some i"
  shows "i < length (cm_objects cm)"
proof -
  have "k < length (slots ty cm)" using assms(1,2) by (cases ty) (simp_all add: cm_inv_def)
  then have "Some i \<in> set (slots ty cm)" using assms(3) by (metis nth_mem)
  then have "i \<in> set (present (all_slots cm))" by (cases ty) (simp_all add: all_slots_def present_set)
  then show ?thesis using assms(1) by (auto simp: cm_inv_def slots_ok_def)
qed

section \<open>Runs of the bridge\<close>

text \<open>
  Runs in which calls do not overlap (\<open>Bridge_Sections\<close> has the runs in which they do): a step is one whole
  call into the manager, by the bus thread (a byte with the result the arbitration
  machine gave it, or the notice that the bus was requested), the socket thread, or the
  application; in between anything may happen to the arbitration machine.
\<close>

inductive bridge_step :: "'a bridge \<Rightarrow> 'a bridge \<Rightarrow> bool" where
  bus_byte: "bridge_step b (onBusEventInfo byte result b)"
| bus_requested: "bridge_step (cm, rq) (cm_onBusRequested cm, rq)"
| arbitration: "bridge_step (cm, rq) (cm, rq')"
| round: "io_round sel b = Some (go, b') \<Longrightarrow> bridge_step b b'"
| add: "bridge_step (cm, rq) (snd (addClient fd ty cm), rq)"
| add_object: "client_ok c \<Longrightarrow> bridge_step (cm, rq) (snd (addClient_object (Some c) cm), rq)"
| remove: "bridge_step (cm, rq) (removeClientByFd fd cm, rq)"
| session_timeout: "bridge_step (cm, rq) (setSessionTimeout ms cm, rq)"
| transmit_timeout: "bridge_step (cm, rq) (setTransmitTimeout ms cm, rq)"
| buffer_size: "bridge_step (cm, rq) (setOutgoingBufferSize n cm, rq)"
| start: "bridge_step (cm, rq) (cm_start listen srv ports cm, rq)"
| stop: "bridge_step b (cm_stop b)"

text \<open>
  What is to be shown of the parts of the code for a property to hold throughout a run: the
  rounds of the socket thread, with their loops over slots and received pieces, are
  walked through once, for every such property.
\<close>

locale bridge_property =
  fixes P :: "'a bridge \<Rightarrow> bool" and ok :: "nat \<Rightarrow> client_manager \<Rightarrow> bool"
  assumes of_request: "P (cm, rq) \<Longrightarrow> P (cm, rq')"
    and of_put: "P (cm, rq) \<Longrightarrow> grown (object i cm) c \<Longrightarrow> P (put i c cm, rq)"
    and of_slots: "P (cm, rq) \<Longrightarrow> vacated (slots ty cm) xs \<Longrightarrow> P (set_slots ty xs cm, rq)"
    and of_register: "P (cm, rq) \<Longrightarrow> client_ok c \<Longrightarrow> P (snd (register ty c cm), rq)"
    and of_closes: "P (cm, rq) \<Longrightarrow> P (cm\<lparr>cm_closes := fds\<rparr>, rq)"
    and of_send: "P (cm, rq) \<Longrightarrow> cm_active cm = Some i \<Longrightarrow> P (trySendNextByte i cm, rq)"
    and of_start: "P (cm, rq) \<Longrightarrow> ok i cm \<Longrightarrow> P (tryStartSessionForClient i cm, rq)"
    and of_timeout: "P b \<Longrightarrow> P (checkSessionTimeout b)"
    and of_disconnect: "P b \<Longrightarrow> P (handleActiveSenderDisconnected b)"
    and of_available: "P b \<Longrightarrow> P (handleBusAvailableForSession b)"
    and of_byte: "P b \<Longrightarrow> P (onBusEventInfo byte result b)"
    and of_requested: "P (cm, rq) \<Longrightarrow> P (cm_onBusRequested cm, rq)"
    and of_stop: "P b \<Longrightarrow> P (cm_stop b)"
    and of_settings: "P (cm, rq) \<Longrightarrow> P (setSessionTimeout ms cm, rq)" "P (cm, rq) \<Longrightarrow> P (setTransmitTimeout ms cm, rq)"
      "P (cm, rq) \<Longrightarrow> P (setOutgoingBufferSize n cm, rq)" "P (cm, rq) \<Longrightarrow> P (cm_start listen srv ports cm, rq)"
    and slot_ok: "P (cm, rq) \<Longrightarrow> k < max_clients \<Longrightarrow> slots ty cm ! k = Some i \<Longrightarrow> ok i cm"
    and ok_kept: "ok i cm \<Longrightarrow> ok i (put i c cm)" "ok i cm \<Longrightarrow> ok i (trySendNextByte i cm)"
      "ok i cm \<Longrightarrow> ok i (tryStartSessionForClient i cm)"
begin

lemma of_stop_client: "P (cm, rq) \<Longrightarrow> P (stop_client i cm, rq)"
  unfolding stop_client_def by (rule of_put [OF _ grown_simple(1)])

lemma of_stop_clients: "P (cm, rq) \<Longrightarrow> P (fold stop_client is cm, rq)"
  by (induction "is" arbitrary: cm) (simp_all add: of_stop_client)

lemma of_evict: "P (cm, rq) \<Longrightarrow> P (evict ty cm, rq)"
  unfolding evict_def by (rule of_slots [OF _ vacated_simps(2)])

lemma of_removeDisconnected: "P (cm, rq) \<Longrightarrow> P (removeDisconnectedClients cm, rq)"
  by (simp add: removeDisconnectedClients_def of_evict)

lemma of_removeClientByFd:
  assumes "P (cm, rq)"
  shows "P (removeClientByFd fd cm, rq)"
proof -
  have "P (set_slots client_enhanced (removeFromArray i (cm_enhanced cm))
      (set_slots client_read_only (removeFromArray i (cm_readonly cm))
        (set_slots client_regular (removeFromArray i (cm_regular cm)) cm)), rq)" for i
    by (intro of_slots) (simp_all add: assms vacated_simps)
  then show ?thesis using assms by (auto simp: removeClientByFd_def split: option.split intro!: of_stop_client)
qed

lemma of_accept: "P (cm, rq) \<Longrightarrow> P (acceptNewConnections io cm, rq)"
proof -
  have "P (try_accept io l ty cm, rq)" if "P (cm, rq)" for l ty cm
    using of_register [OF that new_client_ok, of ty ty "io_accept io l" "cm_buffer_size cm"] of_closes that
    by (auto simp: try_accept_def addClient_def Let_def split: prod.split bool.split)
  then show "P (cm, rq) \<Longrightarrow> P (acceptNewConnections io cm, rq)" by (simp add: acceptNewConnections_def Let_def)
qed

lemma of_input:
  assumes "handleSocketInput rs i b = Some (gone, b')" "P b" "ok i (fst b)"
  shows "P b'"
  using assms
proof (induction rs i b rule: handleSocketInput.induct)
  case (4 data rs i cm rq)
  show ?case
  proof (cases "data = []")
    case False
    with "4.prems"(1) obtain c rq' where h: "handleIncomingStream data (object i cm) (Some rq) = Some (c, rq')"
      by (auto split: option.splits)
    let ?p = "put i c cm"
    let ?cm = "if cm_active ?p = Some i \<and> cm_state ?p = session_transmit then trySendNextByte i ?p else tryStartSessionForClient i ?p"
    have p: "P (?p, rq)" "ok i ?p" using of_put grown_stream [OF h] "4.prems"(2,3) ok_kept(1) by simp_all
    then have "P (?cm, rq)" "ok i ?cm" using of_send [of ?p rq i] of_start [of ?p rq i] ok_kept(2,3) [of i ?p] by simp_all
    then have "P (?cm, the rq')" "ok i ?cm" using of_request by blast+
    moreover have "handleSocketInput rs i (?cm, the rq') = Some (gone, b')" using "4.prems"(1) False h by (simp add: Let_def)
    ultimately show ?thesis using 4(1) [OF False h refl refl refl] by simp
  qed (use 4 in auto)
qed auto

lemma of_output: "P (cm, rq) \<Longrightarrow> P (snd (handleSocketOutput os i cm), rq)"
  using of_put [OF _ grown_flush] by (simp add: handleSocketOutput_def split_beta)

lemma of_activity:
  assumes "client_activity io i b = Some (gone, b')" "P b" "ok i (fst b)"
  shows "P b'"
proof -
  obtain cm rq where b: "b = (cm, rq)" by fastforce
  let ?in = "if cl_fd (object i cm) \<in> set (rd_fds io) then handleSocketInput (io_recv io (cl_fd (object i cm))) i (cm, rq)
      else Some (False, (cm, rq))"
  have i: "P x" if "?in = Some (g, x)" for g x
    using that assms(2,3) of_input [of _ i "(cm, rq)" g x] by (auto simp: b split: if_splits)
  with assms of_output show ?thesis
    by (auto simp: client_activity_def b Let_def split_beta split: if_splits option.splits bool.splits)
qed

lemma of_activities:
  assumes "handleClientActivity io ty ks xs b = Some (ys, b')" "P b" "\<forall>k \<in> set ks. k < max_clients"
  shows "P b'"
  using assms
proof (induction io ty ks xs b rule: handleClientActivity.induct)
  case (2 io ty k ks xs cm rq)
  show ?case
  proof (cases "\<exists>i. slots ty cm ! k = Some i \<and> isConnected i cm")
    case True
    then obtain i where i: "slots ty cm ! k = Some i" "isConnected i cm" by blast
    then have l: "ok i cm" using slot_ok [of cm rq k ty i] "2.prems"(2,3) by simp
    obtain g cm1 rq1 where a: "client_activity io i (cm, rq) = Some (g, (cm1, rq1))"
      using "2.prems"(1) i by (cases "client_activity io i (cm, rq)") auto
    have p: "P (cm1, rq1)" using of_activity [OF a] "2.prems"(2) l by simp
    show ?thesis
      using 2 i a p of_slots [OF p vacated_simps(3)] by (cases g) auto
  next
    case False
    then show ?thesis using 2 by (cases "slots ty cm ! k") auto
  qed
qed simp

lemma of_arrays: "handle_arrays io tys xs b = Some (ys, b') \<Longrightarrow> P b \<Longrightarrow> P b'"
proof (induction io tys xs b rule: handle_arrays.induct)
  case (2 io ty tys xs b)
  from "2.prems"(1) obtain zs b1 where h: "handleClientActivity io ty [0..<max_clients] xs b = Some (zs, b1)"
    by (auto split: option.splits)
  then have "P b1" using of_activities [OF h "2.prems"(2)] by simp
  then show ?case using 2(1) [OF h refl] "2.prems"(1) h by simp
qed simp

lemma of_round:
  assumes "io_round sel b = Some (go, b')" "P b"
  shows "P b'"
proof -
  obtain cm rq where b: "b = (cm, rq)" by fastforce
  have io: "P x" if "handleClientIO io (acceptNewConnections io cm, rq) = Some x" for io x
    using that of_accept [of cm rq io] assms(2) of_arrays of_stop_clients
    by (auto simp: b handleClientIO_def simp del: handle_arrays.simps split: option.splits)
  have "P (handleActiveSenderDisconnected (checkSessionTimeout b))" using assms(2) of_timeout of_disconnect by blast
  then have "P (io_timeout b)"
    using of_removeDisconnected of_available by (auto simp: io_timeout_def Let_def split: prod.splits)
  then show ?thesis
    using assms io by (auto simp: io_round_def b Let_def of_removeDisconnected split: if_splits select_result.splits)
qed

lemma of_step: "bridge_step b b' \<Longrightarrow> P b \<Longrightarrow> P b'"
proof (induction rule: bridge_step.induct)
  case (add cm rq fd ty)
  then show ?case unfolding addClient_def by (rule of_register) simp
next
  case (add_object c cm rq)
  then show ?case by (simp add: addClient_object_def of_register)
qed (fact of_byte of_requested of_request of_round of_removeClientByFd of_settings of_stop)+

lemma of_run: "bridge_step\<^sup>*\<^sup>* b b' \<Longrightarrow> P b \<Longrightarrow> P b'"
  by (induction rule: rtranclp_induct) (auto intro: of_step)

end

lemma cm_inv_new: "cm_inv (client_manager_new clock wakeup)"
  by (simp add: client_manager_new_def inv_defs slots_ok_def)

interpretation bridge: bridge_property "\<lambda>b. cm_inv (fst b)" "\<lambda>i cm. i < length (cm_objects cm)"
  by unfold_locales
    (simp_all add: inv_put inv_slots inv_register inv_trySendNextByte inv_tryStart inv_checkSessionTimeout inv_handleDisconnected
      inv_handleBusAvailable inv_onBusEventInfo inv_onBusRequested inv_cm_stop slot_bound setSessionTimeout_def
      setTransmitTimeout_def setOutgoingBufferSize_def cm_start_def split: prod.split)

section \<open>Forwarding\<close>

lemma object_transit [simp]: "object j (transitSessionState st cm) = object j cm"
  by (simp add: object_def transitSessionState_def)

lemma object_update [simp]:
  "object j (cm\<lparr>cm_error := e\<rparr>) = object j cm" "object j (cm\<lparr>cm_active := a\<rparr>) = object j cm"
  "object j (cm\<lparr>cm_state := st\<rparr>) = object j cm" "object j (cm\<lparr>cm_bus := w\<rparr>) = object j cm"
  "object j (cm\<lparr>cm_changed := t\<rparr>) = object j cm" "object j (cm\<lparr>cm_reads := n\<rparr>) = object j cm"
  "object j (cm\<lparr>cm_counter := u\<rparr>) = object j cm"
  "object j (cm\<lparr>cm_last_sent := l\<rparr>) = object j cm" "object j (cm\<lparr>cm_running := r\<rparr>) = object j cm"
  by (simp_all add: object_def)

lemma object_others:
  "j \<noteq> i \<Longrightarrow> object j (trySendNextByte i cm) = object j cm"
  "cm_active (fst b) = Some i \<or> cm_active (fst b) = None \<Longrightarrow> j \<noteq> i \<Longrightarrow> object j (fst (stopActiveSession b)) = object j (fst b)"
  "cm_active (fst b) = Some i \<or> cm_active (fst b) = None \<Longrightarrow> j \<noteq> i \<Longrightarrow> object j (fst (handleBusAvailableForSession b)) = object j (fst b)"
  by (auto simp: trySendNextByte_def stopActiveSession_def stop_client_def handleBusAvailableForSession_def Let_def
      split: prod.split option.split)

lemma active_trySend: "cm_active cm = Some i \<Longrightarrow> cm_active (trySendNextByte i cm) = Some i \<or> cm_active (trySendNextByte i cm) = None"
  by (auto simp: trySendNextByte_def transitSessionState_def Let_def split: prod.split option.split)

lemma perform_action_others:
  assumes "cm_active (fst b) = Some i"
  shows "cm_active (fst (perform_action a i b)) = Some i \<or> cm_active (fst (perform_action a i b)) = None"
    and "j \<noteq> i \<Longrightarrow> object j (fst (perform_action a i b)) = object j (fst b)"
    and "length (cm_objects (fst (perform_action a i b))) = length (cm_objects (fst b))"
proof -
  obtain cm rq where b: "b = (cm, rq)" by fastforce
  show "cm_active (fst (perform_action a i b)) = Some i \<or> cm_active (fst (perform_action a i b)) = None"
    using assms active_trySend [of "transitSessionState session_transmit cm" i]
    by (cases a) (simp_all add: perform_action_def b stop_session_frame transitSessionState_def)
  show "j \<noteq> i \<Longrightarrow> object j (fst (perform_action a i b)) = object j (fst b)"
    using assms by (cases a) (simp_all add: perform_action_def b object_others)
  show "length (cm_objects (fst (perform_action a i b))) = length (cm_objects (fst b))"
    by (cases a) (simp_all add: perform_action_def b)
qed

lemma active_byte_others:
  assumes "cm_active (fst b) = Some i"
  shows "j \<noteq> i \<Longrightarrow> object j (fst (active_byte byte result i b)) = object j (fst b)"
    and "length (cm_objects (fst (active_byte byte result i b))) = length (cm_objects (fst b))"
proof -
  obtain cm rq where b: "b = (cm, rq)" by fastforce
  let ?p = "(put i (snd (onBusByte byte result (object i cm))) cm, rq)"
  note o = perform_action_others [of ?p i]
  show "j \<noteq> i \<Longrightarrow> object j (fst (active_byte byte result i b)) = object j (fst b)"
    using assms o object_others(3) [of "perform_action (fst (onBusByte byte result (object i cm))) i ?p" i j]
    by (simp add: active_byte_def b split_beta Let_def)
  show "length (cm_objects (fst (active_byte byte result i b))) = length (cm_objects (fst b))"
    using assms o by (simp add: active_byte_def b split_beta Let_def)
qed

lemma forward_byte_frame [simp]:
  "cm_active (forward_byte b s i cm) = cm_active cm" "cm_state (forward_byte b s i cm) = cm_state cm"
  "cm_bus (forward_byte b s i cm) = cm_bus cm" "length (cm_objects (forward_byte b s i cm)) = length (cm_objects cm)"
  "all_slots (forward_byte b s i cm) = all_slots cm" "cm_running (forward_byte b s i cm) = cm_running cm"
  by (simp_all add: forward_byte_def)

lemma forward_fold_frame [simp]:
  "cm_active (fold (forward_byte b s) js cm) = cm_active cm" "cm_state (fold (forward_byte b s) js cm) = cm_state cm"
  "cm_bus (fold (forward_byte b s) js cm) = cm_bus cm" "length (cm_objects (fold (forward_byte b s) js cm)) = length (cm_objects cm)"
  "all_slots (fold (forward_byte b s) js cm) = all_slots cm" "cm_running (fold (forward_byte b s) js cm) = cm_running cm"
  by (induction js arbitrary: cm) simp_all

lemma object_forward:
  "j < length (cm_objects cm) \<Longrightarrow> object j (forward_byte b s i cm) =
    (if j = i \<and> Some j \<noteq> s \<and> isConnected j cm then enqueueOutgoingData [b] (object j cm) else object j cm)"
  by (auto simp: forward_byte_def)

lemma object_forward_all:
  assumes "distinct js" "j < length (cm_objects cm)"
  shows "object j (fold (forward_byte b s) js cm) =
    (if j \<in> set js \<and> Some j \<noteq> s \<and> isConnected j cm then enqueueOutgoingData [b] (object j cm) else object j cm)"
  using assms
proof (induction js arbitrary: cm)
  case (Cons i js)
  have "isConnected j (forward_byte b s i cm) = isConnected j cm"
    using Cons.prems by (simp add: isConnected_def object_forward cl_valid_def)
  then show ?case using Cons by (auto simp: object_forward)
qed simp

lemma bus_event_others:
  assumes "cm_inv cm" "cm_running cm" "j \<in> set (present (all_slots cm))" "isConnected j cm" "cm_active cm \<noteq> Some j"
  shows "object j (fst (onBusEventInfo byte result (cm, rq))) = enqueueOutgoingData [byte] (object j cm)"
proof -
  let ?js = "filter (\<lambda>i. isConnected i cm) (present (all_slots cm))"
  define b where "b = (case cm_active cm of Some i \<Rightarrow> if isConnected i (refresh_session cm)
      then active_byte byte result i (refresh_session cm, rq) else (refresh_session cm, rq) | None \<Rightarrow> (refresh_session cm, rq))"
  have e: "fst (onBusEventInfo byte result (cm, rq)) = fold (forward_byte byte (cm_active cm)) ?js (fst b)"
    using assms(2) by (simp add: onBusEventInfo_def b_def Let_def split_beta del: refresh_session_frame)
  have "object j (fst b) = object j cm"
    using assms(5) by (auto simp: b_def active_byte_others split: option.split)
  moreover have "j < length (cm_objects (fst b))"
    using assms(1,3) by (auto simp: b_def active_byte_others cm_inv_def slots_ok_def split: option.split)
  moreover have "distinct ?js" using assms(1) by (simp add: cm_inv_def slots_ok_def)
  ultimately show ?thesis
    using object_forward_all [of ?js j "fst b"] assms(3,4,5) by (simp add: e isConnected_def)
qed

section \<open>A session without a sender\<close>

text \<open>
  A state that no call sequence reaches, but two threads can: the session is not idle, and
  nobody is its sender. Every call leaves it as it is.
\<close>

definition wedged :: "client_manager \<Rightarrow> client_manager \<Rightarrow> bool" where
  "wedged cm cm' \<longleftrightarrow> cm_active cm = None \<and> cm_state cm \<noteq> session_idle \<and> cm_active cm' = None
     \<and> cm_state cm' = cm_state cm \<and> cm_bus cm' = cm_bus cm"

lemma wedged_active: "wedged a cm \<Longrightarrow> cm_active cm = None"
  by (simp add: wedged_def)

lemma wedged_refl: "wedged cm cm \<longleftrightarrow> cm_active cm = None \<and> cm_state cm \<noteq> session_idle"
  by (auto simp: wedged_def)

lemma wedged_update [simp]:
  "wedged a (cm\<lparr>cm_running := r\<rparr>) = wedged a cm" "wedged a (cm\<lparr>cm_closes := xs\<rparr>) = wedged a cm"
  "wedged a (cm\<lparr>cm_session_timeout := u\<rparr>) = wedged a cm" "wedged a (cm\<lparr>cm_transmit_timeout := u\<rparr>) = wedged a cm"
  "wedged a (cm\<lparr>cm_buffer_size := n\<rparr>) = wedged a cm" "wedged a (cm\<lparr>cm_listen_regular := l\<rparr>) = wedged a cm"
  "wedged a (cm\<lparr>cm_listen_readonly := l\<rparr>) = wedged a cm" "wedged a (cm\<lparr>cm_listen_enhanced := l\<rparr>) = wedged a cm"
  "wedged a (put i c cm) = wedged a cm" "wedged a (set_slots ty ys cm) = wedged a cm"
  "wedged a (stop_client i cm) = wedged a cm" "wedged a (evict ty cm) = wedged a cm"
  "wedged a (removeDisconnectedClients cm) = wedged a cm" "wedged a (removeClientByFd fd cm) = wedged a cm"
  by (cases ty; simp add: wedged_def stop_client_def evict_def removeDisconnectedClients_def removeClientByFd_def split: option.split)+

lemma wedged_register: "wedged a (snd (register ty c cm)) = wedged a cm"
proof -
  have "wedged a (set_slots ty xs (e\<lparr>cm_objects := ys\<rparr>)) = wedged a e" for xs e ys by (cases ty) (simp_all add: wedged_def)
  then show ?thesis by (simp add: register_def Let_def split: option.split)
qed

lemma wedged_sessions:
  assumes "wedged a cm"
  shows "tryStartSessionForClient i cm = cm" "stopActiveSession (cm, rq) = (cm, rq)"
    "handleBusAvailableForSession (cm, rq) = (cm, rq)" "checkSessionTimeout (cm, rq) = (cm, rq)"
    "handleActiveSenderDisconnected (cm, rq) = (cm, rq)" "cm_onBusRequested cm = cm"
  using assms by (auto simp: wedged_def tryStartSessionForClient_def stopActiveSession_def handleBusAvailableForSession_def
      checkSessionTimeout_def handleActiveSenderDisconnected_def cm_onBusRequested_def Let_def)

lemma wedged_byte:
  assumes "wedged a (fst b)"
  shows "wedged a (fst (onBusEventInfo byte result b))"
proof -
  obtain cm rq where b: "b = (cm, rq)" by fastforce
  have "cm_active cm = None" using assms by (simp add: b wedged_def)
  then show ?thesis
    using assms by (simp add: b onBusEventInfo_def Let_def) (simp add: wedged_def)
qed

interpretation wedge: bridge_property "\<lambda>b. wedged a (fst b)" "\<lambda>i cm. True"
  by unfold_locales
    (auto simp: wedged_register wedged_sessions wedged_byte cm_stop_def setSessionTimeout_def
      setTransmitTimeout_def setOutgoingBufferSize_def cm_start_def split: prod.split dest: wedged_active)

section \<open>Properties\<close>

text \<open>
  C31: A byte of the bus reaches every connected client except the active sender once, in the
  form its kind of client is sent bytes, and whatever the session does with the byte.
\<close>

theorem bus_byte_forwarded:
  assumes "cm_inv cm" "cm_running cm" "j \<in> set (present (all_slots cm))" "isConnected j cm" "cm_active cm \<noteq> Some j"
  shows "object j (fst (onBusEventInfo byte result (cm, rq))) = enqueueOutgoingData [byte] (object j cm)"
  by (rule bus_event_others [OF assms])

definition sample_manager :: client_manager where
  "sample_manager = (snd (addClient 6 client_read_only (snd (addClient 5 client_regular (client_manager_new (\<lambda>_. 0) 3)))))
     \<lparr>cm_running := True\<rparr>"

lemma sample_manager_inv: "cm_inv sample_manager"
  by (simp add: sample_manager_def addClient_def inv_register cm_inv_new)

lemma sample_manager_slots:
  "all_slots sample_manager = [Some 0, None, None, None, Some 1, None, None, None, None, None, None, None]"
  "cm_objects sample_manager = [createClient client_regular 5 4096, createClient client_read_only 6 4096]"
  "cm_active sample_manager = None" "cm_running sample_manager" "cm_state sample_manager = session_idle"
  by (simp_all add: sample_manager_def addClient_def register_def evict_def free_slot_def client_manager_new_def max_clients_def
      all_slots_def Let_def numeral_eq_Suc upt_rec isConnected_def object_def)

theorem bus_byte_forwarded_witness:
  "object 1 (fst (onBusEventInfo 0x31 observe_data (sample_manager, undefined :: request)))
    = enqueueOutgoingData [0x31] (createClient client_read_only 6 4096)"
  using bus_byte_forwarded [of sample_manager 1 "0x31" observe_data "undefined :: request"]
  by (simp add: sample_manager_inv sample_manager_slots isConnected_def object_def)

text \<open>
  C40: Two threads can end the bridge for good: when the socket thread stops a session (its
  timeout, its client gone) after the bus thread has accepted a byte for it and before the
  bus thread enters the transmit state, the session is left without a sender, and whatever
  happens afterwards, no client can start a session or put a byte on the bus any more.
\<close>

theorem session_race_ends_bridge:
  assumes "cm_inv cm" "cm_active cm = Some i" "onBusByte byte result (object i cm) = (bypass_wait, c)"
    and "cm1 = trySendNextByte i (transitSessionState session_transmit (fst (stopActiveSession (put i c cm, rq))))"
    and "bridge_step\<^sup>*\<^sup>* (cm1, rq1) (cm2, rq2)"
  shows "cm_state cm2 = session_transmit \<and> cm_active cm2 = None \<and> cm_bus cm2 = cm_bus cm"
proof -
  let ?cm = "transitSessionState session_transmit (fst (stopActiveSession (put i c cm, rq)))"
  have s: "cm_active ?cm = None" "cm_state ?cm = session_transmit" "cm_bus ?cm = cm_bus cm"
    using assms(2) by (simp_all add: transitSessionState_def stop_session_frame stopActiveSession_def stop_client_def)
  have "i < length (cm_objects cm)" using assms(1,2) by (simp add: cm_inv_def session_ok_def)
  then have "\<not> isConnected i ?cm"
    using assms(2) by (simp add: isConnected_def stopActiveSession_def stop_client_def)
  then have e: "cm1 = ?cm" using assms(4) by (simp add: trySendNextByte_def)
  then have "wedged cm1 cm1" using s by (simp add: wedged_refl)
  then have "wedged cm1 cm2" using wedge.of_run [OF assms(5), of cm1] by simp
  then show ?thesis using s e by (simp add: wedged_def)
qed

definition sample_session :: client_manager where
  "sample_session = tryStartSessionForClient 0
     (put 0 ((createClient client_regular 5 4096)\<lparr>cl_in := [0x31, 0xfe]\<rparr>) sample_manager)"

lemma sample_session:
  "cm_inv sample_session" "cm_active sample_session = Some 0" "cm_running sample_session"
  "object 0 sample_session = (createClient client_regular 5 4096)\<lparr>cl_in := [0x31, 0xfe]\<rparr>"
  "cm_state sample_session = session_request" "cm_bus sample_session = []"
proof -
  let ?c = "(createClient client_regular 5 4096)\<lparr>cl_in := [0x31, 0xfe]\<rparr>"
  have "grown (object 0 sample_manager) ?c"
    by (simp add: sample_manager_slots object_def grown_def client_ok_def createClient_def inbound_capacity_def)
  then have "cm_inv (put 0 ?c sample_manager)" using inv_put sample_manager_inv by blast
  then show "cm_inv sample_session"
    unfolding sample_session_def by (rule inv_tryStart) (simp add: sample_manager_slots)
  have o: "object 0 (put 0 ?c sample_manager) = ?c" by (simp add: sample_manager_slots)
  have b: "cm_bus sample_manager = []"
    by (simp add: sample_manager_def addClient_def register_def evict_def free_slot_def client_manager_new_def Let_def split: option.split)
  have e: "sample_session = put 0 (onSessionStart ?c) (transitSessionState session_request
      ((put 0 ?c sample_manager)\<lparr>cm_active := Some 0, cm_counter := cm_counter (put 0 ?c sample_manager) + 1\<rparr>))"
    unfolding sample_session_def tryStartSessionForClient_def o Let_def
    by (simp add: cl_valid_def createClient_def hasPendingIncomingData_def sample_manager_slots)
  show "cm_active sample_session = Some 0" "cm_running sample_session" "object 0 sample_session = ?c"
    "cm_state sample_session = session_request" "cm_bus sample_session = []"
    unfolding e by (simp_all add: transitSessionState_def sample_manager_slots onSessionStart_def createClient_def put_def object_def b)
qed

theorem session_race_ends_bridge_witness:
  "let c = snd (onBusByte 0x31 first_won (object 0 sample_session));
       cm1 = trySendNextByte 0 (transitSessionState session_transmit (fst (stopActiveSession (put 0 c sample_session, undefined :: request))))
   in cm_state cm1 = session_transmit \<and> cm_active cm1 = None"
proof -
  let ?c = "snd (onBusByte 0x31 first_won (object 0 sample_session))"
  have "onBusByte 0x31 first_won (object 0 sample_session) = (bypass_wait, ?c)"
    by (simp add: sample_session onBusByte_def regular_onBusByte_def createClient_def cl_valid_def)
  from session_race_ends_bridge [where rq = "undefined :: request",
      OF sample_session(1,2) this refl rtranclp.rtrancl_refl]
  show ?thesis by (simp add: Let_def)
qed

text \<open>
  A client whose session waits for the bus can put a byte into the telegram of somebody else:
  a byte of that telegram which equals the last byte the client sent (0 for a new
  client) is taken for the echo of its own byte, and its next byte is written to
  the bus without any arbitration.
\<close>

theorem waiting_session_writes:
  assumes "cm_inv cm" "cm_running cm" "cm_active cm = Some i" "cm_state cm = session_request" "isConnected i cm"
    and "cl_in (object i cm) = b # bs" "byte = cl_last_sent (object i cm)"
  shows "cm_bus (fst (onBusEventInfo byte observe_data (cm, rq))) = cm_bus cm @ [b]
    \<and> snd (onBusEventInfo byte observe_data (cm, rq)) = rq"
proof -
  have i: "i < length (cm_objects cm)" "client_ok (object i cm)" "write_capable (object i cm)"
    using assms(1,3) objects_ok by (auto simp: cm_inv_def session_ok_def)
  let ?c = "object i (refresh_session cm)"
  have t: "cl_type ?c \<noteq> client_read_only" "cl_valid ?c" using i assms(5) by (simp_all add: client_ok_def isConnected_def)
  have a: "fst (onBusByte byte observe_data ?c) = bypass_wait"
    using t assms(7) by (cases "cl_type ?c") (simp_all add: onBusByte_def regular_onBusByte_def enhanced_onBusByte_def)
  let ?d = "snd (onBusByte byte observe_data ?c)"
  have d: "cl_in ?d = b # bs" "cl_type ?d \<noteq> client_read_only" "cl_valid ?d"
    using t assms(6,7) by (cases "cl_type ?c"; simp add: onBusByte_def regular_onBusByte_def enhanced_onBusByte_def createEnhancedResponse_def)+
  have "cm_bus (fst (active_byte byte observe_data i (refresh_session cm, rq))) = cm_bus cm @ [b]
      \<and> snd (active_byte byte observe_data i (refresh_session cm, rq)) = rq"
    using a d i by (simp add: active_byte_def split_beta Let_def perform_action_def trySendNextByte_def isConnected_def
        popPendingIncomingData_def transitSessionState_def)
  then show ?thesis
    using assms(2,3,5) by (simp add: onBusEventInfo_def Let_def split_beta)
qed

theorem waiting_session_writes_witness:
  "cm_bus (fst (onBusEventInfo 0x00 observe_data (sample_session, undefined :: request))) = [0x31]"
  using waiting_session_writes [of sample_session 0 "0x31" "[0xfe]" 0 "undefined :: request"]
  by (simp add: sample_session isConnected_def createClient_def cl_valid_def)

end
