(* ===== verification/Bridge_Session.thy ===== *)
theory Bridge_Session
  imports Client_Manager Exchanges
begin

text \<open>
  The bridge and the bus handler together: what one event of the physical layer does to the
  client manager and to the arbitration and protocol machines it shares the event with
  (\<open>BusHandler::onBusEvent\<close> with the callbacks the \<open>ClientManager\<close> constructor installs). Shown is the
  whole of a session: a client's bytes win the bus and go out one after the other.
\<close>

section \<open>The protocol machine leaves the arbitration machine alone\<close>

definition rq_part :: "handler \<Rightarrow> RequestState \<times> RequestResult \<times> u8 \<times> u8 \<times> u32 \<times> u8 \<times> bool \<times> bool" where
  "rq_part s = (rq_state s, rq_result s, lock_counter s, lock_counter_max s, bytes_since_syn s, request_address s,
     bus_request s, external_bus_request s)"

text \<open>Without a message of its own the handler neither asks for the bus nor gets a message.\<close>

definition aside :: "handler \<Rightarrow> handler \<Rightarrow> bool" where
  "aside s s' \<longleftrightarrow> rq_part s' = rq_part s \<and> (active_message s' \<longrightarrow> active_message s)"

lemma aside_refl [simp]: "aside s s"
  by (simp add: aside_def)

named_theorems aside_step

lemma aside_monitor [aside_step]:
  "aside s (update_mon f t) = aside s t" "aside s (update_mon_clk g t) = aside s t" "aside s (updateHandler h t) = aside s t"
  "aside s (recordBusError t) = aside s t" "aside s (recordHandlerError a t) = aside s t" "aside s (recordHandlerSuccess a t) = aside s t"
  "aside s (logHandlerTransition x y t) = aside s t" "aside s (logPassiveReset t) = aside s t" "aside s (logActiveReset t) = aside s t"
  by (simp_all add: aside_def rq_part_def monitor_ops)

lemma aside_record [aside_step]:
  "aside s (t\<lparr>passive_telegram := a1\<rparr>) = aside s t" "aside s (t\<lparr>passive_master := a2\<rparr>) = aside s t"
  "aside s (t\<lparr>passive_master_dbx := a3\<rparr>) = aside s t" "aside s (t\<lparr>passive_master_repeated := a4\<rparr>) = aside s t"
  "aside s (t\<lparr>passive_slave := a5\<rparr>) = aside s t" "aside s (t\<lparr>passive_slave_dbx := a6\<rparr>) = aside s t"
  "aside s (t\<lparr>passive_slave_index := a7\<rparr>) = aside s t" "aside s (t\<lparr>passive_slave_repeated := a8\<rparr>) = aside s t"
  "aside s (t\<lparr>active_telegram := a9\<rparr>) = aside s t" "aside s (t\<lparr>active_master := b1\<rparr>) = aside s t"
  "aside s (t\<lparr>active_master_index := b2\<rparr>) = aside s t" "aside s (t\<lparr>active_master_repeated := b3\<rparr>) = aside s t"
  "aside s (t\<lparr>active_slave := b4\<rparr>) = aside s t" "aside s (t\<lparr>active_slave_dbx := b5\<rparr>) = aside s t"
  "aside s (t\<lparr>active_slave_repeated := b6\<rparr>) = aside s t" "aside s (t\<lparr>h_state := b7\<rparr>) = aside s t"
  "aside s (t\<lparr>pending_write := b8\<rparr>) = aside s t" "aside s (t\<lparr>outputs := b9\<rparr>) = aside s t"
  "aside s (t\<lparr>last_result := c1\<rparr>) = aside s t" "aside s (t\<lparr>last_point := c2\<rparr>) = aside s t"
  "aside s (t\<lparr>measure_sync := c3\<rparr>) = aside s t" "aside s t \<Longrightarrow> aside s (t\<lparr>active_message := False\<rparr>)"
  by (simp_all add: aside_def rq_part_def)

lemma aside_helpers [aside_step]:
  "aside s (emit x t) = aside s t" "aside s (callWrite b t) = aside s t" "aside s (callPassiveReset t) = aside s t"
  "aside s t \<Longrightarrow> aside s (callActiveReset t)" "aside s (callOnBusRequestWon t) = aside s t"
  "aside s (callOnBusRequestLost t) = aside s t" "aside s (callOnTelegram mt tt mv sv t) = aside s t"
  "aside s (callOnError lv er st mv sv t) = aside s t" "aside s (flush_write t) = aside s t"
  by (simp_all add: emit_def callWrite_def callPassiveReset_def callActiveReset_def callOnBusRequestWon_def
      callOnBusRequestLost_def callOnTelegram_def callOnError_def flush_write_def aside_step Let_def split: option.split)

lemma aside_reports [aside_step]:
  "aside s (passive_error lv er st t) = aside s t" "aside s (active_error lv er st t) = aside s t"
  "aside s (passive_report mt tt t) = aside s t" "aside s (active_report tt t) = aside s t"
  "aside s (bump_invalid t) = aside s t" "aside s (bump_error_passive t) = aside s t" "aside s (bump_error_reactive t) = aside s t"
  "aside s (bump_error_active t) = aside s t" "aside s (bump_messages_passive t) = aside s t"
  "aside s (bump_messages_reactive t) = aside s t" "aside s (bump_messages_active t) = aside s t"
  by (simp_all add: passive_error_def active_error_def passive_report_def active_report_def bump_invalid_def bump_error_passive_def
      bump_error_reactive_def bump_error_active_def bump_messages_passive_def bump_messages_reactive_def bump_messages_active_def
      aside_step)

lemma aside_moves [aside_step]:
  "aside s (h_transitionTo st t) = aside s t" "aside s t \<Longrightarrow> aside s (checkPassiveBuffers t)"
  "aside s t \<Longrightarrow> aside s (checkActiveBuffers t)" "aside s t \<Longrightarrow> aside s (finish_active t)" "aside s (reject_slave t) = aside s t"
  "aside s (store_passive_master b t) = aside s t" "aside s (store_passive_slave b t) = aside s t"
  "aside s (store_active_slave b t) = aside s t" "aside s (record_timing info t) = aside s t"
  by (simp_all add: h_transitionTo_def checkPassiveBuffers_def checkActiveBuffers_def finish_active_def reject_slave_def
      store_passive_master_def store_passive_slave_def store_active_slave_def record_timing_def mark_begins_def mark_ends_def
      aside_step Let_def)

lemma aside_completed [aside_step]:
  "aside s t \<Longrightarrow> aside s (passive_master_complete t)" "aside s t \<Longrightarrow> aside s (passive_slave_complete t)"
  "aside s t \<Longrightarrow> aside s (active_slave_complete t)" "aside s t \<Longrightarrow> aside s (request_won t)" "aside s t \<Longrightarrow> aside s (request_error t)"
  "aside s t \<Longrightarrow> aside s (request_lost b t)"
  by (simp_all add: passive_master_complete_def passive_slave_complete_def active_slave_complete_def request_won_def
      request_error_def request_lost_def aside_step Let_def split_beta)

lemma aside_states:
  assumes "\<not> active_message s"
  shows "aside s (state_handlers st b s)"
proof (cases st)
  case passive_receive_master
  have "aside s (checkActiveBuffers (checkPassiveBuffers s))" by (simp add: aside_step)
  then have "\<not> active_message (checkActiveBuffers (checkPassiveBuffers s))" using assms by (simp add: aside_def)
  then show ?thesis
    using passive_receive_master by (simp add: passiveReceiveMaster_def aside_step Let_def)
qed (simp_all add: passiveReceiveMasterAcknowledge_def passiveReceiveSlave_def passiveReceiveSlaveAcknowledge_def
    reactiveSendMasterPositiveAcknowledge_def reactiveSendMasterNegativeAcknowledge_def reactiveSendSlave_def
    reactiveReceiveSlaveAcknowledge_def h_requestBus_def activeSendMaster_def activeReceiveMasterAcknowledge_def
    activeReceiveSlave_def activeSendSlavePositiveAcknowledge_def activeSendSlaveNegativeAcknowledge_def releaseBus_def
    aside_step Let_def split: RequestResult.split)

lemma aside_run:
  assumes "\<not> active_message s"
  shows "aside s (handler_run info s)"
proof -
  let ?s = "(record_timing info (s\<lparr>last_result := bi_result info\<rparr>))\<lparr>pending_write := None\<rparr>"
  have "aside s ?s" by (simp add: aside_step)
  moreover have "aside ?s (state_handlers (h_state ?s) (bi_byte info) ?s)"
    using \<open>aside s ?s\<close> assms by (intro aside_states) (simp add: aside_def)
  ultimately have "aside s (state_handlers (h_state ?s) (bi_byte info) ?s)" by (simp add: aside_def)
  then show ?thesis by (simp add: handler_run_def aside_step Let_def)
qed

section \<open>A client that sends\<close>

text \<open>What the manager relies on in the client of a session, whatever its kind.\<close>

locale sender =
  fixes ok :: "client \<Rightarrow> bool"
  assumes valid: "ok c \<Longrightarrow> cl_valid c"
    and won: "ok c \<Longrightarrow> r = first_won \<or> r = second_won \<Longrightarrow> fst (onBusByte b r c) = bypass_wait"
    and echo: "ok c \<Longrightarrow> fst (onBusByte (cl_last_sent c) observe_data c) = bypass_wait"
    and syns: "ok c \<Longrightarrow> r = observe_syn \<or> r = first_syn \<Longrightarrow> fst (onBusByte b r c) = keep_active"
    and kept: "ok c \<Longrightarrow> ok (snd (onBusByte b r c))" "ok c \<Longrightarrow> cl_in (snd (onBusByte b r c)) = cl_in c"
      "ok c \<Longrightarrow> cl_last_sent (snd (onBusByte b r c)) = cl_last_sent c"
    and pop: "ok c \<Longrightarrow> cl_in c = b # bs \<Longrightarrow>
      popPendingIncomingData c = (Some b, c\<lparr>cl_in := bs, cl_last_sent := b\<rparr>) \<and> ok (c\<lparr>cl_in := bs, cl_last_sent := b\<rparr>)"
    and empty: "ok c \<Longrightarrow> cl_in c = [] \<Longrightarrow> fst (popPendingIncomingData c) = None"
    and changed: "ok c \<Longrightarrow> b \<noteq> cl_last_sent c \<Longrightarrow>
      fst (onBusByte b observe_data c) = keep_active \<or> fst (onBusByte b observe_data c) = stop_session"

text \<open>A running session of client \<open>i\<close> with the bytes \<open>q\<close> still to send and \<open>w\<close> on the bus.\<close>

definition session_at :: "(client \<Rightarrow> bool) \<Rightarrow> nat \<Rightarrow> SessionState \<Rightarrow> bytes \<Rightarrow> bytes \<Rightarrow> client_manager \<Rightarrow> bool" where
  "session_at ok i st q w cm \<longleftrightarrow> cm_running cm \<and> i < length (cm_objects cm) \<and> cm_active cm = Some i \<and> ok (object i cm)
     \<and> cm_state cm = st \<and> cl_in (object i cm) = q \<and> cm_bus cm = w"

lemma refresh_running [simp]: "cm_running (refresh_session cm) = cm_running cm"
  by (simp add: refresh_session_def)

lemma forward_sender: "object i (fold (forward_byte b (Some i)) js cm) = object i cm"
proof (induction js arbitrary: cm)
  case (Cons j js)
  then show ?case by (cases "j = i") (simp_all add: forward_byte_def)
qed simp

lemma forward_bus [simp]: "cm_bus (fold (forward_byte b x) js cm) = cm_bus cm"
  by (induction js arbitrary: cm) (simp_all add: forward_byte_def)

context sender
begin

lemma session_event:
  assumes "session_at ok i st q w cm" "active_byte byte result i (refresh_session cm, rq) = (cm', rq')"
    and "session_at ok i st' q' w' cm'"
  shows "session_at ok i st' q' w' (fst (onBusEventInfo byte result (cm, rq)))" "snd (onBusEventInfo byte result (cm, rq)) = rq'"
    "cl_last_sent (object i (fst (onBusEventInfo byte result (cm, rq)))) = cl_last_sent (object i cm')"
  using assms valid by (simp_all add: onBusEventInfo_def session_at_def isConnected_def Let_def forward_sender)

lemma session_sends:
  assumes s: "session_at ok i st (b # bs) w cm" "b \<noteq> syn"
    and r: "result = first_won \<or> result = second_won \<or> result = observe_data \<and> byte = cl_last_sent (object i cm)"
  shows "session_at ok i session_response bs (w @ [b]) (fst (onBusEventInfo byte result (cm, rq)))"
    "snd (onBusEventInfo byte result (cm, rq)) = rq" "cl_last_sent (object i (fst (onBusEventInfo byte result (cm, rq)))) = b"
proof -
  let ?cm = "refresh_session cm" and ?d = "snd (onBusByte byte result (object i cm))"
  let ?e = "?d\<lparr>cl_in := bs, cl_last_sent := b\<rparr>"
  have i: "i < length (cm_objects cm)" "ok (object i cm)" using s by (simp_all add: session_at_def)
  have a: "fst (onBusByte byte result (object i cm)) = bypass_wait" using r won echo i(2) by blast
  have d: "ok ?d" "cl_in ?d = b # bs" using kept i(2) s by (simp_all add: session_at_def)
  note p = pop [OF d]
  have e: "active_byte byte result i (?cm, rq) = (transitSessionState session_response
      ((put i ?e (transitSessionState session_transmit (put i ?d ?cm)))\<lparr>cm_bus := cm_bus cm @ [b], cm_last_sent := b\<rparr>), rq)"
    using a i(1) p s(2) valid [OF d(1)]
    by (simp add: active_byte_def split_beta Let_def perform_action_def trySendNextByte_def isConnected_def transitSessionState_def)
  have "object i (put i ?e (transitSessionState session_transmit (put i ?d ?cm))) = ?e" using i(1) by simp
  with s p session_event [OF s(1) e, of session_response bs "w @ [b]"]
  show "session_at ok i session_response bs (w @ [b]) (fst (onBusEventInfo byte result (cm, rq)))"
    "snd (onBusEventInfo byte result (cm, rq)) = rq" "cl_last_sent (object i (fst (onBusEventInfo byte result (cm, rq)))) = b"
    by (simp_all add: session_at_def transitSessionState_def)
qed

lemma session_waits:
  assumes s: "session_at ok i st [] w cm"
    and r: "result = first_won \<or> result = second_won \<or> result = observe_data \<and> byte = cl_last_sent (object i cm)"
  shows "session_at ok i session_transmit [] w (fst (onBusEventInfo byte result (cm, rq)))"
    "snd (onBusEventInfo byte result (cm, rq)) = rq"
proof -
  let ?cm = "refresh_session cm" and ?d = "snd (onBusByte byte result (object i cm))"
  have i: "i < length (cm_objects cm)" "ok (object i cm)" using s by (simp_all add: session_at_def)
  have a: "fst (onBusByte byte result (object i cm)) = bypass_wait" using r won echo i(2) by blast
  have d: "ok ?d" "cl_in ?d = []" using kept i(2) s by (simp_all add: session_at_def)
  have e: "active_byte byte result i (?cm, rq) = (transitSessionState session_transmit (put i ?d ?cm), rq)"
    using a i(1) empty [OF d] valid [OF d(1)]
    by (auto simp add: active_byte_def split_beta Let_def perform_action_def trySendNextByte_def isConnected_def transitSessionState_def
        split: prod.split)
  show "session_at ok i session_transmit [] w (fst (onBusEventInfo byte result (cm, rq)))"
    "snd (onBusEventInfo byte result (cm, rq)) = rq"
    using s d session_event [OF s(1) e, of session_transmit "[]" w] by (simp_all add: session_at_def transitSessionState_def)
qed

text \<open>A SYN in the state \<open>request\<close>, with the bus available, asks for the bus with the first byte.\<close>

lemma session_asks:
  assumes s: "session_at ok i session_request (b # bs) w cm" and r: "busAvailable rq"
  shows "session_at ok i session_response bs w (fst (onBusEventInfo byte observe_syn (cm, rq)))"
    "snd (onBusEventInfo byte observe_syn (cm, rq)) = snd (requestBus b True rq)"
proof -
  let ?cm = "refresh_session cm" and ?d = "snd (onBusByte byte observe_syn (object i cm))"
  let ?e = "?d\<lparr>cl_in := bs, cl_last_sent := b\<rparr>"
  have i: "i < length (cm_objects cm)" "ok (object i cm)" using s by (simp_all add: session_at_def)
  have a: "fst (onBusByte byte observe_syn (object i cm)) = keep_active" using syns i(2) by blast
  have d: "ok ?d" "cl_in ?d = b # bs" using kept i(2) s by (simp_all add: session_at_def)
  note p = pop [OF d]
  have e: "active_byte byte observe_syn i (?cm, rq) = (transitSessionState session_response
      ((put i ?e (put i ?d ?cm))\<lparr>cm_last_sent := b\<rparr>), snd (requestBus b True rq))"
    using a s p r valid [OF d(1)]
    by (simp add: session_at_def active_byte_def split_beta Let_def perform_action_def handleBusAvailableForSession_def isConnected_def)
  have "object i (put i ?e (put i ?d ?cm)) = ?e" using i(1) by simp
  with s p session_event [OF s e, of session_response bs w]
  show "session_at ok i session_response bs w (fst (onBusEventInfo byte observe_syn (cm, rq)))"
    "snd (onBusEventInfo byte observe_syn (cm, rq)) = snd (requestBus b True rq)"
    by (simp_all add: session_at_def transitSessionState_def)
qed

lemma session_keeps:
  assumes s: "session_at ok i session_response q w cm" and r: "result = first_syn \<or> result = observe_syn"
  shows "session_at ok i session_response q w (fst (onBusEventInfo byte result (cm, rq)))"
    "snd (onBusEventInfo byte result (cm, rq)) = rq"
proof -
  let ?cm = "refresh_session cm" and ?d = "snd (onBusByte byte result (object i cm))"
  have i: "i < length (cm_objects cm)" "ok (object i cm)" using s by (simp_all add: session_at_def)
  have a: "fst (onBusByte byte result (object i cm)) = keep_active" using syns i(2) r by blast
  have e: "active_byte byte result i (?cm, rq) = (put i ?d ?cm, rq)"
    using a s by (simp add: session_at_def active_byte_def split_beta Let_def perform_action_def)
  have "object i (put i ?d ?cm) = ?d" "cm_running (put i ?d ?cm) = cm_running cm" using i(1) by simp_all
  with s i kept session_event [OF s e, of session_response q w]
  show "session_at ok i session_response q w (fst (onBusEventInfo byte result (cm, rq)))"
    "snd (onBusEventInfo byte result (cm, rq)) = rq"
    by (simp_all add: session_at_def)
qed

end

section \<open>One event for the whole of the program\<close>

text \<open>
  \<open>BusHandler::onBusEvent\<close> with the client manager attached: the callback of a completed external
  request, then the two machines, then the manager with the result of the arbitration.
\<close>

definition bridge_event :: "BusEvent \<Rightarrow> client_manager \<times> handler \<Rightarrow> client_manager \<times> handler" where
  "bridge_event ev st =
     (case st of (cm, h) \<Rightarrow>
        let cm = (if ev_bus_request ev \<and> external_bus_request h then cm_onBusRequested cm else cm);
            (info, h) = onBusEvent ev h
        in onBusEventInfo (bi_byte info) (bi_result info) (cm, h))"

definition bridge_feed :: "BusEvent list \<Rightarrow> client_manager \<times> handler \<Rightarrow> client_manager \<times> handler" where
  "bridge_feed evs st = fold bridge_event evs st"

definition quiet_handler :: "handler \<Rightarrow> bool" where
  "quiet_handler h \<longleftrightarrow> rq_state h = observe \<and> \<not> active_message h \<and> \<not> bus_request h"

lemma event_result:
  assumes "\<not> ev_start_bit ev" "\<not> active_message (snd (request_run (ev_byte ev) (if ev_bus_request ev then request_completed h else h)))"
  shows "bi_byte (fst (onBusEvent ev h)) = ev_byte ev"
    "bi_result (fst (onBusEvent ev h)) = fst (request_run (ev_byte ev) (if ev_bus_request ev then request_completed h else h))"
    "aside (snd (request_run (ev_byte ev) (if ev_bus_request ev then request_completed h else h))) (snd (onBusEvent ev h))"
  using assms aside_run by (simp_all add: onBusEvent_def Let_def split_beta)

lemma aside_fields:
  assumes "aside s s'"
  shows "rq_state s' = rq_state s" "rq_result s' = rq_result s" "lock_counter s' = lock_counter s"
    "request_address s' = request_address s" "bus_request s' = bus_request s"
    "external_bus_request s' = external_bus_request s" "active_message s' \<Longrightarrow> active_message s"
  using assms by (simp_all add: aside_def rq_part_def)

lemma active_message_more: "request.more s = request.more t \<Longrightarrow> active_message s = active_message t"
  for s t :: handler
  by (cases s; cases t) simp

lemma run_active: "active_message (snd (request_run b s)) = active_message s" for s :: handler
  by (rule active_message_more) simp

lemma quiet_data:
  assumes "quiet_handler h" "plain ev" "ev_byte ev \<noteq> syn"
  shows "bi_byte (fst (onBusEvent ev h)) = ev_byte ev" "bi_result (fst (onBusEvent ev h)) = observe_data"
    "quiet_handler (snd (onBusEvent ev h))"
proof -
  let ?r = "request_run (ev_byte ev) h"
  have r: "fst ?r = observe_data" "rq_state (snd ?r) = observe" "\<not> bus_request (snd ?r)"
    using assms by (simp_all add: quiet_handler_def request_run_def rq_observe_def Let_def)
  have e: "\<not> ev_start_bit ev" "\<not> ev_bus_request ev" "\<not> active_message (snd ?r)"
    using assms by (simp_all add: plain_def quiet_handler_def run_active)
  note t = event_result [of ev h, OF e(1)]
  show "bi_byte (fst (onBusEvent ev h)) = ev_byte ev" "bi_result (fst (onBusEvent ev h)) = observe_data"
    "quiet_handler (snd (onBusEvent ev h))"
    using t e r aside_fields [of "snd ?r" "snd (onBusEvent ev h)"] by (auto simp: quiet_handler_def)
qed

lemma quiet_syn:
  assumes "quiet_handler h" "plain ev" "ev_byte ev = syn" "lock_counter h = 0"
  shows "bi_byte (fst (onBusEvent ev h)) = syn" "bi_result (fst (onBusEvent ev h)) = observe_syn"
    "quiet_handler (snd (onBusEvent ev h))" "busAvailable (snd (onBusEvent ev h))"
proof -
  let ?r = "request_run syn h"
  have r: "fst ?r = observe_syn" "rq_state (snd ?r) = observe" "\<not> bus_request (snd ?r)" "lock_counter (snd ?r) = 0"
    "rq_result (snd ?r) = observe_syn"
    using assms by (simp_all add: quiet_handler_def request_run_def rq_observe_def Let_def)
  have e: "\<not> ev_start_bit ev" "\<not> ev_bus_request ev" "\<not> active_message (snd ?r)"
    using assms by (simp_all add: plain_def quiet_handler_def run_active)
  note t = event_result [of ev h, OF e(1)]
  show "bi_byte (fst (onBusEvent ev h)) = syn" "bi_result (fst (onBusEvent ev h)) = observe_syn"
    "quiet_handler (snd (onBusEvent ev h))" "busAvailable (snd (onBusEvent ev h))"
    using t e r assms(3) aside_fields [of "snd ?r" "snd (onBusEvent ev h)"] by (auto simp: quiet_handler_def busAvailable_def)
qed

lemma quiet_any_syn:
  assumes "quiet_handler h" "plain ev" "ev_byte ev = syn"
  shows "bi_byte (fst (onBusEvent ev h)) = syn" "bi_result (fst (onBusEvent ev h)) = observe_syn"
proof -
  have r: "fst (request_run syn h) = observe_syn"
    using assms by (simp add: quiet_handler_def request_run_def rq_observe_def Let_def)
  have "\<not> ev_start_bit ev" "\<not> ev_bus_request ev" "\<not> active_message (snd (request_run syn h))"
    using assms by (simp_all add: plain_def quiet_handler_def run_active)
  then show "bi_byte (fst (onBusEvent ev h)) = syn" "bi_result (fst (onBusEvent ev h)) = observe_syn"
    using event_result [of ev h] r assms(3) by simp_all
qed

text \<open>The handler's state while the bus is asked for with address \<open>a\<close> and while it is waited for.\<close>

definition asking :: "u8 \<Rightarrow> handler \<Rightarrow> bool" where
  "asking a h \<longleftrightarrow> rq_state h = observe \<and> \<not> active_message h \<and> external_bus_request h \<and> request_address h = a"

definition arbitrating :: "u8 \<Rightarrow> handler \<Rightarrow> bool" where
  "arbitrating a h \<longleftrightarrow> rq_state h = first \<and> \<not> active_message h \<and> \<not> bus_request h \<and> request_address h = a"

lemma requested_asking: "quiet_handler h \<Longrightarrow> busAvailable h \<Longrightarrow> asking a (snd (requestBus a True h))"
  by (simp add: quiet_handler_def asking_def requestBus_def Let_def)

lemma asking_syn:
  assumes "asking a h" "ev_bus_request ev" "\<not> ev_start_bit ev" "ev_byte ev = syn"
  shows "bi_byte (fst (onBusEvent ev h)) = syn" "bi_result (fst (onBusEvent ev h)) = first_syn"
    "arbitrating a (snd (onBusEvent ev h))"
proof -
  let ?c = "request_completed h" and ?r = "request_run syn (request_completed h)"
  have c: "rq_state ?c = first" "\<not> bus_request ?c" "request_address ?c = a" "active_message ?c = active_message h"
    using assms(1) active_message_more [of ?c h]
    by (simp_all add: asking_def request_completed_def busRequestCompleted_def emit_def rq_transitionTo_state request_allowed_iff Let_def
        active_message_more [OF rq_transitionTo_frame(8)])
  have r: "fst ?r = first_syn" "rq_state (snd ?r) = first" "\<not> bus_request (snd ?r)" "request_address (snd ?r) = a"
    using c by (simp_all add: request_run_def rq_first_def rq_transitionTo_state Let_def)
  have "\<not> active_message (snd ?r)" using c assms(1) by (simp add: run_active asking_def)
  with event_result [of ev h, OF assms(3)] r assms(2,4) aside_fields [of "snd ?r" "snd (onBusEvent ev h)"]
  show "bi_byte (fst (onBusEvent ev h)) = syn" "bi_result (fst (onBusEvent ev h)) = first_syn"
    "arbitrating a (snd (onBusEvent ev h))"
    by (auto simp: arbitrating_def)
qed

lemma arbitrating_won:
  assumes "arbitrating a h" "plain ev" "ev_byte ev = a" "a \<noteq> syn"
  shows "bi_byte (fst (onBusEvent ev h)) = a" "bi_result (fst (onBusEvent ev h)) = first_won"
    "quiet_handler (snd (onBusEvent ev h))"
proof -
  let ?r = "request_run a h"
  have r: "fst ?r = first_won" "rq_state (snd ?r) = observe" "\<not> bus_request (snd ?r)"
    using assms by (simp_all add: arbitrating_def request_run_def rq_first_def rq_transitionTo_state request_allowed_iff Let_def)
  have e: "\<not> ev_start_bit ev" "\<not> ev_bus_request ev" "\<not> active_message (snd ?r)"
    using assms by (simp_all add: plain_def arbitrating_def run_active)
  with event_result [of ev h, OF e(1)] r assms(3) aside_fields [of "snd ?r" "snd (onBusEvent ev h)"]
  show "bi_byte (fst (onBusEvent ev h)) = a" "bi_result (fst (onBusEvent ev h)) = first_won"
    "quiet_handler (snd (onBusEvent ev h))"
    by (auto simp: quiet_handler_def)
qed

section \<open>Those who listen\<close>

lemma slots_kept:
  "all_slots (fst (stopActiveSession b)) = all_slots (fst b)" "all_slots (trySendNextByte i cm) = all_slots cm"
  "all_slots (fst (handleBusAvailableForSession b)) = all_slots (fst b)"
proof -
  have t: "all_slots (transitSessionState st cm) = all_slots cm" for st cm
    by (simp add: transitSessionState_def all_slots_def)
  have u: "all_slots (cm\<lparr>cm_bus := w\<rparr>) = all_slots cm" "all_slots (cm\<lparr>cm_last_sent := l\<rparr>) = all_slots cm"
    "all_slots (cm\<lparr>cm_active := a\<rparr>) = all_slots cm" "all_slots (cm\<lparr>cm_error := e\<rparr>) = all_slots cm"
    "all_slots (cm\<lparr>cm_state := st\<rparr>) = all_slots cm" for cm w l a e st
    by (simp_all add: all_slots_def)
  show *: "all_slots (fst (stopActiveSession b)) = all_slots (fst b)" for b :: "'b bridge"
    by (simp add: stopActiveSession_def stop_client_def u split: prod.split option.split)
  show "all_slots (trySendNextByte i cm) = all_slots cm"
    by (simp add: trySendNextByte_def t u Let_def split: prod.split option.split)
  show "all_slots (fst (handleBusAvailableForSession b)) = all_slots (fst b)"
    by (simp add: handleBusAvailableForSession_def t u * split: prod.split option.split)
qed

lemma slots_event: "all_slots (fst (onBusEventInfo byte result b)) = all_slots (fst b)"
proof -
  have t: "all_slots (transitSessionState st cm) = all_slots cm" for st cm
    by (simp add: transitSessionState_def all_slots_def)
  have "all_slots (fst (perform_action a i b)) = all_slots (fst b)" for a i and b :: "'a bridge"
    by (cases a) (simp_all add: perform_action_def slots_kept t split: prod.split)
  then have "all_slots (fst (active_byte byte result i b)) = all_slots (fst b)" for i and b :: "'a bridge"
    by (simp add: active_byte_def slots_kept Let_def split: prod.split)
  then show ?thesis by (simp add: onBusEventInfo_def Let_def split_beta split: prod.split option.split)
qed

text \<open>Client \<open>j\<close> is connected and in a slot, and has come to be \<open>c\<close>.\<close>

definition listens :: "nat \<Rightarrow> client \<Rightarrow> client_manager \<Rightarrow> bool" where
  "listens j c cm \<longleftrightarrow> cm_inv cm \<and> j \<in> set (present (all_slots cm)) \<and> isConnected j cm \<and> object j cm = c"

definition hear :: "bytes \<Rightarrow> client \<Rightarrow> client" where
  "hear bytes c = fold (\<lambda>b. enqueueOutgoingData [b]) bytes c"

lemma listens_event:
  assumes "listens j c cm" "cm_running cm" "cm_active cm \<noteq> Some j"
  shows "listens j (hear [byte] c) (fst (onBusEventInfo byte result (cm, rq)))"
proof -
  have o: "object j (fst (onBusEventInfo byte result (cm, rq))) = enqueueOutgoingData [byte] c"
    using assms bus_event_others [of cm j byte result rq] by (auto simp: listens_def)
  then have "isConnected j (fst (onBusEventInfo byte result (cm, rq)))"
    using assms(1) by (auto simp: isConnected_def listens_def)
  then show ?thesis using assms(1) o inv_onBusEventInfo [of "(cm, rq)" byte result] by (simp add: listens_def slots_event hear_def)
qed

definition all_hear :: "nat \<Rightarrow> bytes \<Rightarrow> client_manager \<Rightarrow> client_manager \<Rightarrow> bool" where
  "all_hear i bytes cm cm' \<longleftrightarrow> (\<forall>j c. j \<noteq> i \<longrightarrow> listens j c cm \<longrightarrow> listens j (hear bytes c) cm')"

lemma all_hear_trans: "all_hear i xs a b \<Longrightarrow> all_hear i ys b c \<Longrightarrow> all_hear i (xs @ ys) a c"
  by (simp add: all_hear_def hear_def)

lemma all_hear_event:
  "cm_running cm \<Longrightarrow> cm_active cm = Some i \<Longrightarrow> all_hear i [byte] cm (fst (onBusEventInfo byte result (cm, rq)))"
  by (auto simp: all_hear_def intro!: listens_event)

section \<open>The session, from the request to the last echo\<close>

lemma bridge_feed_simps [simp]:
  "bridge_feed [] st = st" "bridge_feed (ev # evs) st = bridge_feed evs (bridge_event ev st)"
  by (simp_all add: bridge_feed_def)

lemma bridge_event_plain:
  "plain ev \<Longrightarrow> bridge_event ev (cm, h) =
    onBusEventInfo (bi_byte (fst (onBusEvent ev h))) (bi_result (fst (onBusEvent ev h))) (cm, snd (onBusEvent ev h))"
  by (simp add: bridge_event_def plain_def split_beta)

context sender
begin

lemma session_echo:
  assumes s: "session_at ok i st q w cm" "quiet_handler h"
    and ev: "plain ev" "ev_byte ev = cl_last_sent (object i cm)" "ev_byte ev \<noteq> syn" "q = [] \<or> hd q \<noteq> syn"
  shows "session_at ok i (if q = [] then session_transmit else session_response) (tl q) (w @ take 1 q) (fst (bridge_event ev (cm, h)))
    \<and> quiet_handler (snd (bridge_event ev (cm, h))) \<and> all_hear i [ev_byte ev] cm (fst (bridge_event ev (cm, h)))
    \<and> (q \<noteq> [] \<longrightarrow> cl_last_sent (object i (fst (bridge_event ev (cm, h)))) = hd q)"
proof -
  note d = quiet_data [OF s(2) ev(1,3)]
  have e: "bridge_event ev (cm, h) = onBusEventInfo (ev_byte ev) observe_data (cm, snd (onBusEvent ev h))"
    using bridge_event_plain [OF ev(1)] d by simp
  have l: "all_hear i [ev_byte ev] cm (fst (bridge_event ev (cm, h)))"
    unfolding e using s by (intro all_hear_event) (simp_all add: session_at_def)
  show ?thesis
  proof (cases q)
    case Nil
    with session_waits [of i st w cm observe_data "ev_byte ev" "snd (onBusEvent ev h)"] s(1) ev(2) d l show ?thesis
      by (simp add: e)
  next
    case (Cons b bs)
    with session_sends [of i st b bs w cm observe_data "ev_byte ev" "snd (onBusEvent ev h)"] s(1) ev d l show ?thesis
      by (simp add: e)
  qed
qed

lemma session_echoes:
  assumes "session_at ok i st q w cm" "quiet_handler h"
    and "map ev_byte evs = cl_last_sent (object i cm) # q" "\<forall>ev \<in> set evs. plain ev" "syn \<notin> set (map ev_byte evs)"
  shows "session_at ok i session_transmit [] (w @ q) (fst (bridge_feed evs (cm, h)))
    \<and> all_hear i (map ev_byte evs) cm (fst (bridge_feed evs (cm, h)))"
  using assms
proof (induction q arbitrary: st w cm h evs)
  case Nil
  then obtain ev where evs: "evs = [ev]" by auto
  show ?case using session_echo [OF Nil.prems(1,2), of ev] Nil.prems(3-5) by (auto simp: evs)
next
  case (Cons b q)
  then obtain ev evs' where evs: "evs = ev # evs'" by auto
  obtain cm' h' where b: "bridge_event ev (cm, h) = (cm', h')" by fastforce
  note e = session_echo [OF Cons.prems(1,2), of ev, unfolded b]
  have "session_at ok i session_transmit [] ((w @ [b]) @ q) (fst (bridge_feed evs' (cm', h')))
      \<and> all_hear i (map ev_byte evs') cm' (fst (bridge_feed evs' (cm', h')))"
    using e Cons.prems(3-5) by (intro Cons.IH [of session_response "w @ [b]" cm' h']) (auto simp: evs)
  then show ?case
    using e Cons.prems(3-5) all_hear_trans [of i "[ev_byte ev]" cm cm' "map ev_byte evs'"] by (auto simp: evs b)
qed

lemma session_wins:
  assumes s: "session_at ok i session_response q w cm" "arbitrating a h"
    and evs: "map ev_byte evs = a # q" "\<forall>ev \<in> set evs. plain ev" "syn \<notin> set (a # q)"
  shows "session_at ok i session_transmit [] (w @ q) (fst (bridge_feed evs (cm, h)))
    \<and> all_hear i (a # q) cm (fst (bridge_feed evs (cm, h)))"
proof -
  obtain ev evs' where v: "evs = ev # evs'" "ev_byte ev = a" "map ev_byte evs' = q" using evs(1) by (cases evs) auto
  have pl: "plain ev" "a \<noteq> syn" "syn \<notin> set q" using evs v by auto
  note h1 = arbitrating_won [OF s(2) pl(1) v(2) pl(2)]
  let ?h = "snd (onBusEvent ev h)" and ?cm = "fst (onBusEventInfo a first_won (cm, snd (onBusEvent ev h)))"
  have b: "bridge_event ev (cm, h) = onBusEventInfo a first_won (cm, ?h)"
    using bridge_event_plain [OF pl(1)] h1 by simp
  have a: "all_hear i [a] cm ?cm" using s(1) by (intro all_hear_event) (simp_all add: session_at_def)
  show ?thesis
  proof (cases q)
    case Nil
    then show ?thesis using session_waits [of i session_response w cm first_won a ?h] s(1) a v b by simp
  next
    case (Cons x xs)
    note t = session_sends [of i session_response x xs w cm first_won a ?h]
    have p: "onBusEventInfo a first_won (cm, ?h) = (?cm, ?h)" using t s(1) pl(3) Cons by (auto simp: prod_eq_iff)
    have "session_at ok i session_transmit [] ((w @ [x]) @ xs) (fst (bridge_feed evs' (?cm, ?h)))
        \<and> all_hear i (map ev_byte evs') ?cm (fst (bridge_feed evs' (?cm, ?h)))"
      using t s(1) pl(3) Cons v evs(2) h1(3) by (intro session_echoes [of i session_response]) auto
    then show ?thesis using all_hear_trans [OF a, of "map ev_byte evs'"] v Cons b p by auto
  qed
qed

lemma session_echo_prefix:
  assumes "session_at ok i session_response q w cm" "quiet_handler h"
    and "map ev_byte evs = take (length evs) (cl_last_sent (object i cm) # q)" "length evs \<le> length q"
    and "\<forall>ev \<in> set evs. plain ev" "cl_last_sent (object i cm) \<noteq> syn" "syn \<notin> set q"
    and "bridge_feed evs (cm, h) = (cm', h')"
  shows "session_at ok i session_response (drop (length evs) q) (w @ take (length evs) q) cm' \<and> quiet_handler h'
    \<and> cl_last_sent (object i cm') = (cl_last_sent (object i cm) # q) ! length evs"
  using assms
proof (induction evs arbitrary: q w cm h)
  case (Cons ev evs)
  obtain b bs where q: "q = b # bs" using Cons.prems(4) by (cases q) auto
  obtain cm1 h1 where e: "bridge_event ev (cm, h) = (cm1, h1)" by fastforce
  have "session_at ok i session_response bs (w @ [b]) cm1" "quiet_handler h1" "cl_last_sent (object i cm1) = b"
    using session_echo [OF Cons.prems(1,2), of ev, unfolded e] Cons.prems(3,5-7) by (auto simp: q)
  note IH = Cons.IH [OF this(1,2)] and last = this(3)
  show ?case using IH Cons.prems(3-8) by (auto simp: q e last)
qed simp

lemma session_asked:
  assumes s: "session_at ok i session_request (a # q) w cm" "quiet_handler h" "lock_counter h = 0"
    and e: "plain e1" "ev_byte e1 = syn" "ev_bus_request e2" "\<not> ev_start_bit e2" "ev_byte e2 = syn"
  shows "session_at ok i session_response q w (fst (bridge_feed [e1, e2] (cm, h)))"
    "arbitrating a (snd (bridge_feed [e1, e2] (cm, h)))"
    "all_hear i [syn, syn] cm (fst (bridge_feed [e1, e2] (cm, h)))"
proof -
  note y = quiet_syn [OF s(2) e(1,2) s(3)]
  obtain cm1 h1 where b1: "bridge_event e1 (cm, h) = (cm1, h1)" by fastforce
  have b1': "bridge_event e1 (cm, h) = onBusEventInfo syn observe_syn (cm, snd (onBusEvent e1 h))"
    using bridge_event_plain [OF e(1)] y by simp
  have s1: "session_at ok i session_response q w cm1" "h1 = snd (requestBus a True (snd (onBusEvent e1 h)))"
    using session_asks [OF s(1) y(4), of syn, folded b1'] by (simp_all add: b1)
  have a1: "all_hear i [syn] cm cm1"
    using all_hear_event [of cm i syn observe_syn "snd (onBusEvent e1 h)", folded b1'] s(1)
    by (simp add: b1 session_at_def)
  have "asking a h1" using requested_asking y by (simp add: s1(2))
  note h2 = asking_syn [OF this e(3-5)]
  have b2: "bridge_event e2 (cm1, h1) = onBusEventInfo syn first_syn (cm1, snd (onBusEvent e2 h1))"
    using h2 s1(1) by (simp add: bridge_event_def split_beta cm_onBusRequested_def session_at_def)
  have "all_hear i [syn] cm1 (fst (bridge_event e2 (cm1, h1)))"
    unfolding b2 using s1(1) by (intro all_hear_event) (simp_all add: session_at_def)
  with session_keeps [OF s1(1), of first_syn syn "snd (onBusEvent e2 h1)", simplified] h2(3) all_hear_trans [OF a1, of "[syn]"]
  show "session_at ok i session_response q w (fst (bridge_feed [e1, e2] (cm, h)))"
    "arbitrating a (snd (bridge_feed [e1, e2] (cm, h)))"
    "all_hear i [syn, syn] cm (fst (bridge_feed [e1, e2] (cm, h)))"
    by (simp_all add: b1 b2)
qed

lemma session_prefix:
  assumes s: "session_at ok i session_request (a # q) w cm" "quiet_handler h" "lock_counter h = 0"
    and e: "plain e1" "ev_byte e1 = syn" "ev_bus_request e2" "\<not> ev_start_bit e2" "ev_byte e2 = syn"
    and evs: "map ev_byte evs = take (length evs) (a # q)" "\<forall>ev \<in> set evs. plain ev" "syn \<notin> set (a # q)" "length evs \<le> length q"
    and f: "bridge_feed (e1 # e2 # evs) (cm, h) = (cm', h')"
  shows "session_at ok i session_response (drop (length evs) q) (w @ take (length evs) q) cm'
    \<and> (evs \<noteq> [] \<longrightarrow> quiet_handler h' \<and> cl_last_sent (object i cm') = q ! (length evs - 1))"
proof -
  obtain cm2 h2 where b2: "bridge_feed [e1, e2] (cm, h) = (cm2, h2)" by fastforce
  have s2: "session_at ok i session_response q w cm2" "arbitrating a h2"
    using session_asked [OF s e] b2 by simp_all
  show ?thesis
  proof (cases evs)
    case (Cons ev es)
    obtain x xs where q: "q = x # xs" using evs(4) Cons by (cases q) auto
    have pl: "plain ev" "ev_byte ev = a" "a \<noteq> syn" using evs Cons by auto
    obtain cm3 h3 where b3: "bridge_event ev (cm2, h2) = (cm3, h3)" by fastforce
    note w3 = arbitrating_won [OF s2(2) pl]
    have "onBusEventInfo a first_won (cm2, snd (onBusEvent ev h2)) = (cm3, h3)"
      using bridge_event_plain [OF pl(1)] w3 b3 by simp
    then have "session_at ok i session_response xs (w @ [x]) cm3" "h3 = snd (onBusEvent ev h2)"
        "cl_last_sent (object i cm3) = x"
      using session_sends [of i session_response x xs w cm2 first_won a "snd (onBusEvent ev h2)"] s2(1) evs(3)
      by (auto simp: q)
    from session_echo_prefix [OF this(1), of h3 es cm' h'] this(2,3) show ?thesis
      using f b2 b3 w3(3) evs by (auto simp: Cons q)
  qed (use s2 f b2 in simp)
qed

lemma session_bad_echo:
  assumes s: "session_at ok i session_response q w cm" "quiet_handler h"
    and ev: "plain ev" "ev_byte ev \<noteq> cl_last_sent (object i cm)"
  shows "cm_bus (fst (bridge_event ev (cm, h))) = w"
proof (cases "ev_byte ev = syn")
  case True
  then have "bridge_event ev (cm, h) = onBusEventInfo syn observe_syn (cm, snd (onBusEvent ev h))"
    using bridge_event_plain [OF ev(1)] quiet_any_syn [OF s(2) ev(1)] by simp
  then show ?thesis
    using session_keeps(1) [OF s(1), of observe_syn syn "snd (onBusEvent ev h)"] by (simp add: session_at_def)
next
  case False
  let ?cm = "refresh_session cm" and ?rq = "snd (onBusEvent ev h)"
  have "cm_bus (fst (active_byte (ev_byte ev) observe_data i (?cm, ?rq))) = w"
    using changed [of "object i cm" "ev_byte ev"] s(1) ev(2)
    by (auto simp: session_at_def active_byte_def split_beta Let_def perform_action_def stopActiveSession_def stop_client_def
        handleBusAvailableForSession_def)
  then show ?thesis
    using bridge_event_plain [OF ev(1)] quiet_data [OF s(2) ev(1) False] s(1) valid
    by (simp add: onBusEventInfo_def session_at_def isConnected_def Let_def split_beta)
qed

lemma session_run:
  assumes s: "session_at ok i session_request (a # q) w cm" "quiet_handler h" "lock_counter h = 0"
    and e: "plain e1" "ev_byte e1 = syn" "ev_bus_request e2" "\<not> ev_start_bit e2" "ev_byte e2 = syn"
    and evs: "map ev_byte evs = a # q" "\<forall>ev \<in> set evs. plain ev" "syn \<notin> set (a # q)"
  shows "session_at ok i session_transmit [] (w @ q) (fst (bridge_feed (e1 # e2 # evs) (cm, h)))
    \<and> all_hear i (syn # syn # a # q) cm (fst (bridge_feed (e1 # e2 # evs) (cm, h)))"
proof -
  obtain cm2 h2 where b: "bridge_feed [e1, e2] (cm, h) = (cm2, h2)" by fastforce
  note a = session_asked [OF s e, unfolded b fst_conv snd_conv]
  have "bridge_feed (e1 # e2 # evs) (cm, h) = bridge_feed evs (cm2, h2)" using b by simp
  then show ?thesis
    using session_wins [OF a(1,2) evs] all_hear_trans [OF a(3), of "a # q"] by (simp del: bridge_feed_simps)
qed

lemma session_run_changed:
  assumes s: "session_at ok i session_request (a # q) w cm" "quiet_handler h" "lock_counter h = 0"
    and e: "plain e1" "ev_byte e1 = syn" "ev_bus_request e2" "\<not> ev_start_bit e2" "ev_byte e2 = syn"
    and evs: "map ev_byte evs = a # q" "\<forall>ev \<in> set evs. plain ev" "syn \<notin> set (a # q)"
    and k: "k \<le> length q"
  shows "cm_bus (fst (bridge_feed (e1 # e2 # take k evs) (cm, h))) = w @ take k q"
    "\<lbrakk>0 < k; plain ev; ev_byte ev \<noteq> q ! (k - 1)\<rbrakk> \<Longrightarrow>
      cm_bus (fst (bridge_feed (e1 # e2 # take k evs @ [ev]) (cm, h))) = w @ take k q"
    "0 < k \<Longrightarrow> \<exists>cm' h'. bridge_feed (e1 # e2 # take k evs) (cm, h) = (cm', h') \<and> quiet_handler h' \<and>
      session_at ok i session_response (drop k q) (w @ take k q) cm' \<and> cl_last_sent (object i cm') = q ! (k - 1)"
proof -
  obtain cm' h' where f: "bridge_feed (e1 # e2 # take k evs) (cm, h) = (cm', h')" by fastforce
  have len: "length evs = Suc (length q)" using arg_cong [OF evs(1), of length] by simp
  have t: "map ev_byte (take k evs) = take (length (take k evs)) (a # q)" "\<forall>ev \<in> set (take k evs). plain ev"
      "length (take k evs) = k"
    using evs len k by (auto simp: take_map [symmetric] dest: in_set_takeD)
  have p: "session_at ok i session_response (drop k q) (w @ take k q) cm'"
      "0 < k \<Longrightarrow> quiet_handler h' \<and> cl_last_sent (object i cm') = q ! (k - 1)"
    using session_prefix [OF s e t(1,2) evs(3) _ f] k t(3) by auto
  then show "cm_bus (fst (bridge_feed (e1 # e2 # take k evs) (cm, h))) = w @ take k q"
    unfolding f by (simp add: session_at_def)
  show "\<exists>cm' h'. bridge_feed (e1 # e2 # take k evs) (cm, h) = (cm', h') \<and> quiet_handler h' \<and>
      session_at ok i session_response (drop k q) (w @ take k q) cm' \<and> cl_last_sent (object i cm') = q ! (k - 1)" if "0 < k"
    using p that f by blast
  have r: "bridge_feed (e1 # e2 # take k evs @ [ev]) (cm, h) = bridge_event ev (cm', h')"
    using f by (simp add: bridge_feed_def)
  show "cm_bus (fst (bridge_feed (e1 # e2 # take k evs @ [ev]) (cm, h))) = w @ take k q"
    if "0 < k" "plain ev" "ev_byte ev \<noteq> q ! (k - 1)"
    unfolding r using session_bad_echo [OF p(1) _ that(2)] p(2) that by simp
qed

lemma session_message:
  assumes s: "session_at ok i session_request (a # q) w cm" "quiet_handler h" "lock_counter h = 0"
    and e: "plain e1" "ev_byte e1 = syn" "ev_bus_request e2" "\<not> ev_start_bit e2" "ev_byte e2 = syn"
    and evs: "map ev_byte evs = a # q" "\<forall>ev \<in> set evs. plain ev" "syn \<notin> set (a # q)"
    and run: "\<And>es. run es = fst (bridge_feed (e1 # e2 # es) (cm, h))"
  shows "(\<forall>k \<le> length q. cm_bus (run (take k evs)) = w @ take k q)
    \<and> (\<forall>k ev. 0 < k \<and> k \<le> length q \<and> plain ev \<and> ev_byte ev \<noteq> q ! (k - 1) \<longrightarrow>
        cm_bus (run (take k evs @ [ev])) = w @ take k q)
    \<and> cm_bus (run evs) = w @ q \<and> cl_in (object i (run evs)) = [] \<and> cm_active (run evs) = Some i
    \<and> cm_state (run evs) = session_transmit \<and> all_hear i (syn # syn # a # q) cm (run evs)"
  using session_run_changed(1,2) [OF s e evs, folded run] session_run [OF s e evs, folded run]
  by (simp add: session_at_def)

end

abbreviation regular_ok :: "client \<Rightarrow> bool" where
  "regular_ok c \<equiv> cl_valid c \<and> cl_type c = client_regular"

abbreviation enhanced_ok :: "client \<Rightarrow> bool" where
  "enhanced_ok c \<equiv> cl_valid c \<and> cl_type c = client_enhanced"

text \<open>Both kinds of clients that may write are senders.\<close>

interpretation regular: sender regular_ok
  by unfold_locales
    (auto simp: onBusByte_def regular_onBusByte_def popPendingIncomingData_def)

interpretation enhanced: sender enhanced_ok
  by unfold_locales
    (auto simp: onBusByte_def enhanced_onBusByte_def createEnhancedResponse_def popPendingIncomingData_def)

lemma regular_bad_echo:
  assumes s: "session_at regular_ok i st q w cm" "quiet_handler h"
    and ev: "plain ev" "ev_byte ev \<noteq> cl_last_sent (object i cm)" "ev_byte ev \<noteq> syn"
  shows "cm_active (fst (bridge_event ev (cm, h))) = None \<and> \<not> isConnected i (fst (bridge_event ev (cm, h)))"
proof -
  let ?rq = "snd (onBusEvent ev h)"
  have i: "i < length (cm_objects cm)" "cm_active cm = Some i" "cm_running cm" "cl_valid (object i cm)"
      "cl_type (object i cm) = client_regular"
    using s(1) by (simp_all add: session_at_def)
  have o: "onBusByte (ev_byte ev) observe_data (object i cm) = (stop_session, object i cm)"
    using i(4,5) ev(2) by (simp add: onBusByte_def regular_onBusByte_def)
  let ?b = "active_byte (ev_byte ev) observe_data i (refresh_session cm, ?rq)"
  have "cm_active (fst ?b) = None \<and> \<not> cl_valid (object i (fst ?b))"
    using i(1,2) by (simp add: active_byte_def o perform_action_def stopActiveSession_def stop_client_def Let_def)
  then show ?thesis
    using bridge_event_plain [OF ev(1)] quiet_data [OF s(2) ev(1,3)] i
    by (simp add: onBusEventInfo_def isConnected_def Let_def split_beta forward_sender)
qed

section \<open>Properties\<close>

text \<open>
  C23: The bytes of a client reach the bus one at a time: a client, regular or enhanced, whose
  session waits with the bytes of a message, is given the bus by the next arbitration with its
  first byte as the address. Nothing is written for it before the address has been read back, and
  when the address and further bytes, \<open>k\<close> in all, have been read back unchanged, exactly the first \<open>k\<close> of
  its bytes after the address have been written. A byte that comes back changed makes the manager
  write nothing, and a regular client then loses its session and its connection unless the byte is a
  SYN. When all have come back, all are
  written, in order and exactly once, the session waits for more, and every other connected client
  has been sent the whole of it, the SYN symbols, the address and the bytes.
\<close>

theorem client_message_sent:
  assumes cm: "cm_inv cm" "cm_running cm" "cm_active cm = Some i" "cm_state cm = session_request" "isConnected i cm"
    and q: "cl_in (object i cm) = a # q" "syn \<notin> set (a # q)"
    and h: "quiet_handler h" "lock_counter h = 0"
    and e: "plain e1" "ev_byte e1 = syn" "ev_bus_request e2" "\<not> ev_start_bit e2" "ev_byte e2 = syn"
    and evs: "map ev_byte evs = a # q" "\<forall>ev \<in> set evs. plain ev"
  defines "run es \<equiv> fst (bridge_feed (e1 # e2 # es) (cm, h))"
  shows "(\<forall>k \<le> length q. cm_bus (run (take k evs)) = cm_bus cm @ take k q)
    \<and> (\<forall>k ev. 0 < k \<and> k \<le> length q \<and> plain ev \<and> ev_byte ev \<noteq> q ! (k - 1) \<longrightarrow>
        cm_bus (run (take k evs @ [ev])) = cm_bus cm @ take k q
        \<and> (cl_type (object i cm) = client_regular \<and> ev_byte ev \<noteq> syn \<longrightarrow>
            cm_active (run (take k evs @ [ev])) = None \<and> \<not> isConnected i (run (take k evs @ [ev]))))
    \<and> cm_bus (run evs) = cm_bus cm @ q \<and> cl_in (object i (run evs)) = [] \<and> cm_active (run evs) = Some i
    \<and> cm_state (run evs) = session_transmit
    \<and> (\<forall>j \<in> set (present (all_slots cm)). j \<noteq> i \<longrightarrow> isConnected j cm \<longrightarrow>
        object j (run evs) = hear (syn # syn # a # q) (object j cm))"
proof -
  have i: "i < length (cm_objects cm)" "write_capable (object i cm)" using cm(1,3) by (simp_all add: cm_inv_def session_ok_def)
  then have "cl_type (object i cm) \<noteq> client_read_only" using objects_ok [OF cm(1)] by (simp add: client_ok_def)
  then consider (reg) "session_at regular_ok i session_request (a # q) (cm_bus cm) cm"
    | (enh) "session_at enhanced_ok i session_request (a # q) (cm_bus cm) cm" "cl_type (object i cm) \<noteq> client_regular"
    using cm i q by (cases "cl_type (object i cm)") (auto simp: session_at_def isConnected_def)
  then show ?thesis
  proof cases
    case reg
    have "cm_active (run (take k evs @ [ev])) = None \<and> \<not> isConnected i (run (take k evs @ [ev]))"
      if k: "0 < k" "k \<le> length q" and ev: "plain ev" "ev_byte ev \<noteq> q ! (k - 1)" "ev_byte ev \<noteq> syn" for k ev
      using regular.session_run_changed(3) [OF reg h e evs q(2) k(2,1)] regular_bad_echo [OF _ _ ev(1) _ ev(3)] ev(2)
      by (fastforce simp: run_def bridge_feed_def)
    with regular.session_message [OF reg h e evs q(2), of run] run_def cm(1) show ?thesis
      by (simp add: all_hear_def listens_def)
  next
    case enh
    with enhanced.session_message [OF enh(1) h e evs q(2), of run] run_def cm(1) show ?thesis
      by (simp add: all_hear_def listens_def)
  qed
qed

lemma sample_quiet: "quiet_handler ((sample_handler a)\<lparr>lock_counter := n\<rparr>)"
  using sample_listening [of a] by (simp add: quiet_handler_def listening_def idle_def)

theorem client_message_sent_witness:
  "(let run = (\<lambda>es. fst (bridge_feed (event syn # (event syn)\<lparr>ev_bus_request := True\<rparr> # es)
        (sample_session, (sample_handler 0x31)\<lparr>lock_counter := 0\<rparr>))) in
    cm_bus (run []) = [] \<and> cm_bus (run [event 0x31]) = [0xfe] \<and> cm_bus (run [event 0x31, event 0x12]) = [0xfe]
    \<and> cm_bus (run [event 0x31, event 0xfe]) = [0xfe] \<and> cm_state (run [event 0x31, event 0xfe]) = session_transmit)"
proof -
  have e: "ev_bus_request ((event syn)\<lparr>ev_bus_request := True\<rparr>)" "\<not> ev_start_bit ((event syn)\<lparr>ev_bus_request := True\<rparr>)"
    "ev_byte ((event syn)\<lparr>ev_bus_request := True\<rparr>) = syn" "plain (event 0x12)" "ev_byte (event 0x12) = 0x12"
    by (simp_all add: event_def plain_def)
  have c: "isConnected 0 sample_session" "cl_in (object 0 sample_session) = [0x31, 0xfe]" "syn \<notin> set [0x31, 0xfe]"
    by (simp_all add: isConnected_def sample_session createClient_def cl_valid_def syn_def)
  have l: "lock_counter ((sample_handler 0x31)\<lparr>lock_counter := 0\<rparr>) = 0" by simp
  note m = client_message_sent [OF sample_session(1,3,2,5) c sample_quiet l event_map(4) event_map(3) e(1-3) event_map(1) event_map(2),
      unfolded sample_session append_Nil]
  note p = m [THEN conjunct1, rule_format] and b = m [THEN conjunct2, THEN conjunct1, rule_format, of 1 "event 0x12"]
  show ?thesis
    using p [of 0] p [of 1] b e(4,5) m by (simp add: Let_def del: bridge_feed_simps)
qed

text \<open>
  The manager does not ask whose arbitration was won: when the program's own message wins the bus
  while the session of a client waits, the first byte of the client is written into it.
\<close>

theorem own_arbitration_starts_client:
  assumes cm: "cm_inv cm" "cm_running cm" "cm_active cm = Some i" "cm_state cm = session_request" "isConnected i cm"
    and q: "cl_in (object i cm) = a # q" "a \<noteq> syn"
    and h: "rq_state h = first" "\<not> external_bus_request h"
    and ev: "plain ev" "ev_byte ev = request_address h" "ev_byte ev \<noteq> syn"
  shows "cm_bus (fst (bridge_event ev (cm, h))) = cm_bus cm @ [a]"
proof -
  have i: "i < length (cm_objects cm)" "write_capable (object i cm)" using cm(1,3) by (simp_all add: cm_inv_def session_ok_def)
  then have t: "cl_type (object i cm) \<noteq> client_read_only" using objects_ok [OF cm(1)] by (simp add: client_ok_def)
  have "bi_byte (fst (onBusEvent ev h)) = ev_byte ev" "bi_result (fst (onBusEvent ev h)) = first_won"
    using ev h by (simp_all add: onBusEvent_def plain_def Let_def split_beta request_run_result)
  then have e: "bridge_event ev (cm, h) = onBusEventInfo (ev_byte ev) first_won (cm, snd (onBusEvent ev h))"
    using bridge_event_plain [OF ev(1)] by simp
  show ?thesis
    using t regular.session_sends [of i session_request a q "cm_bus cm" cm first_won "ev_byte ev" "snd (onBusEvent ev h)"]
      enhanced.session_sends [of i session_request a q "cm_bus cm" cm first_won "ev_byte ev" "snd (onBusEvent ev h)"] cm i q
    by (cases "cl_type (object i cm)") (simp_all add: e session_at_def isConnected_def)
qed

text \<open>
  A regular client is cut off by the first byte of the bus that is not the echo of its last byte, so
  also by the answer to its own message: the session ends and its socket is closed.
\<close>

theorem answer_ends_regular_session:
  assumes cm: "cm_inv cm" "cm_running cm" "cm_active cm = Some i" "isConnected i cm" "cl_type (object i cm) = client_regular"
    and b: "byte \<noteq> cl_last_sent (object i cm)"
  shows "cm_active (fst (onBusEventInfo byte observe_data (cm, rq))) = None
    \<and> \<not> isConnected i (fst (onBusEventInfo byte observe_data (cm, rq)))"
proof -
  have i: "i < length (cm_objects cm)" using cm(1,3) by (simp add: cm_inv_def session_ok_def)
  have o: "onBusByte byte observe_data (object i cm) = (stop_session, object i cm)"
    using cm(4,5) b by (simp add: onBusByte_def regular_onBusByte_def isConnected_def)
  let ?b = "active_byte byte observe_data i (refresh_session cm, rq)"
  have "cm_active (fst ?b) = None \<and> \<not> cl_valid (object i (fst ?b))"
    using cm(3) i by (simp add: active_byte_def o perform_action_def stopActiveSession_def stop_client_def Let_def)
  then show ?thesis
    using cm(2-4) by (simp add: onBusEventInfo_def isConnected_def Let_def split_beta forward_sender)
qed

end
