(* ===== verification/Bridge_Sections.thy ===== *)
theory Bridge_Sections
  imports Client_Manager
begin

text \<open>
  The bridge under two threads. The bus thread (\<open>onBusEventInfo\<close>), the socket thread (\<open>clientIoLoop\<close>) and
  the application interleave wherever \<open>ClientManager\<close> does not hold its mutex: between the sections
  below. Every call of \<open>Client_Manager\<close> is a sequence of sections; what holds after every sequence
  of sections, whoever runs them and in whatever order, holds for every interleaving.
\<close>

section \<open>The locked sections\<close>

text \<open>The end of \<open>trySendNextByte\<close>: the byte taken from a client is written and the state follows it.\<close>

definition send_section :: "u8 \<Rightarrow> client_manager \<Rightarrow> client_manager" where
  "send_section send_byte cm =
     (let cm = cm\<lparr>cm_bus := cm_bus cm @ [send_byte], cm_last_sent := send_byte\<rparr>
      in if send_byte = syn then (transitSessionState session_idle cm)\<lparr>cm_active := None\<rparr>
         else transitSessionState session_response cm)"

text \<open>The end of \<open>handleBusAvailableForSession\<close>: the session may have changed since the byte was taken.\<close>

definition request_section :: "nat \<Rightarrow> u8 \<Rightarrow> 'a bridge \<Rightarrow> 'a bridge" where
  "request_section active_sender first_byte b =
     (case b of (cm, rq) \<Rightarrow>
        if cm_state cm \<noteq> session_request \<or> cm_active cm \<noteq> Some active_sender then (cm, rq)
        else (transitSessionState session_response (cm\<lparr>cm_last_sent := first_byte\<rparr>), snd (requestBus first_byte True rq)))"

text \<open>The second half of \<open>tryStartSessionForClient\<close>, for a client that has passed the first.\<close>

definition start_section :: "nat \<Rightarrow> client_manager \<Rightarrow> client_manager" where
  "start_section i cm =
     (if cm_active cm \<noteq> None \<or> cm_state cm \<noteq> session_idle then cm
      else put i (onSessionStart (object i cm))
             (transitSessionState session_request (cm\<lparr>cm_active := Some i, cm_counter := cm_counter cm + 1\<rparr>)))"

text \<open>The first half of \<open>stopActiveSession\<close>; the client is closed and the arbitration reset afterwards.\<close>

definition stop_section :: "client_manager \<Rightarrow> client_manager" where
  "stop_section cm =
     (if cm_active cm = None then cm
      else cm\<lparr>cm_active := None, cm_state := session_idle, cm_error := ''Session stopped by ClientManager.''\<rparr>)"

definition disconnect_section :: "client_manager \<Rightarrow> client_manager" where
  "disconnect_section cm =
     (case cm_active cm of
        None \<Rightarrow> cm
      | Some i \<Rightarrow>
          if isConnected i cm then cm
          else cm\<lparr>cm_active := None, cm_state := session_idle, cm_error := ''Client disconnected.''\<rparr>)"

text \<open>
  The sections, with the accesses outside the mutex as sections of their own: what a client does under
  its own lock (its queue of bytes to send only grows, except when one byte is taken), what happens to
  the arbitration machine, the slots (which only the socket thread fills), and single assignments.
\<close>

inductive bridge_section :: "'a bridge \<Rightarrow> 'a bridge \<Rightarrow> bool" where
  arbitration: "bridge_section (cm, rq) (cm, rq')"
| client: "grown (object i cm) c \<Longrightarrow> bridge_section (cm, rq) (put i c cm, rq)"
| take_byte: "popPendingIncomingData (object i cm) = (x, c) \<Longrightarrow> bridge_section (cm, rq) (put i c cm, rq)"
| snapshot: "bridge_section (cm, rq) (refresh_session cm, rq)"
| transmit: "bridge_section (cm, rq) (transitSessionState session_transmit cm, rq)"
| send: "bridge_section (cm, rq) (send_section byte cm, rq)"
| request: "bridge_section b (request_section i byte b)"
| requested: "bridge_section (cm, rq) (cm_onBusRequested cm, rq)"
| start: "i < length (cm_objects cm) \<Longrightarrow> write_capable (object i cm) \<Longrightarrow> bridge_section (cm, rq) (start_section i cm, rq)"
| stop: "bridge_section (cm, rq) (stop_section cm, rq)"
| disconnect: "bridge_section (cm, rq) (disconnect_section cm, rq)"
| vacate: "vacated (slots ty cm) xs \<Longrightarrow> bridge_section (cm, rq) (set_slots ty xs cm, rq)"
| register: "client_ok c \<Longrightarrow> bridge_section (cm, rq) (snd (register ty c cm), rq)"
| closes: "bridge_section (cm, rq) (cm\<lparr>cm_closes := fds\<rparr>, rq)"
| error: "bridge_section (cm, rq) (cm\<lparr>cm_error := e\<rparr>, rq)"
| clock: "bridge_section (cm, rq) (cm\<lparr>cm_reads := n\<rparr>, rq)"
| running: "bridge_section (cm, rq) (cm\<lparr>cm_running := r\<rparr>, rq)"
| listeners: "bridge_section (cm, rq)
    (cm\<lparr>cm_listen_regular := l1, cm_listen_readonly := l2, cm_listen_enhanced := l3\<rparr>, rq)"
| session_timeout: "bridge_section (cm, rq) (setSessionTimeout ms cm, rq)"
| transmit_timeout: "bridge_section (cm, rq) (setTransmitTimeout ms cm, rq)"
| buffer_size: "bridge_section (cm, rq) (setOutgoingBufferSize n cm, rq)"

section \<open>What every section keeps\<close>

definition sender_ok :: "client_manager \<Rightarrow> bool" where
  "sender_ok cm \<longleftrightarrow> (case cm_active cm of
     None \<Rightarrow> cm_state cm \<noteq> session_request
   | Some i \<Rightarrow> cm_state cm \<noteq> session_idle \<and> i < length (cm_objects cm) \<and> write_capable (object i cm))"

definition section_inv :: "client_manager \<Rightarrow> bool" where
  "section_inv cm \<longleftrightarrow> length (cm_regular cm) = max_clients \<and> length (cm_readonly cm) = max_clients
     \<and> length (cm_enhanced cm) = max_clients \<and> slots_ok (length (cm_objects cm)) (all_slots cm)
     \<and> list_all client_ok (cm_objects cm) \<and> sender_ok cm"

lemmas section_defs = section_inv_def sender_ok_def all_slots_def object_def

lemma inv_section_inv: "cm_inv cm \<Longrightarrow> section_inv cm"
  by (auto simp: cm_inv_def section_inv_def session_ok_def sender_ok_def split: option.splits)

text \<open>The invariant of calls is the one of sections with an idle session: the slots and clients behave alike.\<close>

lemma section_put:
  assumes "section_inv cm" "cl_type c = cl_type (object i cm)" "write_capable c = write_capable (object i cm)"
    "client_ok (object i cm) \<Longrightarrow> client_ok c"
  shows "section_inv (put i c cm)"
proof (cases "i < length (cm_objects cm)")
  case True
  then have "client_ok c" using assms(1,4) by (simp add: section_inv_def object_def list_all_length)
  then have "list_all client_ok ((cm_objects cm)[i := c])"
    using assms(1) by (simp add: section_inv_def clients_ok_update)
  moreover have "sender_ok (put i c cm)"
    using assms by (auto simp: section_inv_def sender_ok_def split: option.splits)
  ultimately show ?thesis using assms(1) by (simp add: section_inv_def put_def all_slots_def)
qed (use assms in \<open>simp add: put_outside\<close>)

lemma section_idle:
  "section_inv cm \<Longrightarrow> cm_inv (cm\<lparr>cm_active := None, cm_state := session_idle\<rparr>)"
  by (simp add: section_defs inv_defs)

lemma section_slots:
  assumes "section_inv cm" "vacated (slots ty cm) xs"
  shows "section_inv (set_slots ty xs cm)"
proof -
  have "cm_inv (set_slots ty xs (cm\<lparr>cm_active := None, cm_state := session_idle\<rparr>))"
    using assms section_idle by (intro inv_slots) (cases ty; simp)+
  then show ?thesis using assms(1) by (cases ty) (auto simp: section_defs inv_defs split: option.splits)
qed

lemma section_register:
  assumes "section_inv cm" "client_ok c"
  shows "section_inv (snd (register ty c cm))"
proof -
  let ?f = "\<lambda>cm. cm\<lparr>cm_active := None, cm_state := session_idle\<rparr>"
  have f: "snd (register ty c (?f cm)) = ?f (snd (register ty c cm))"
    by (cases ty) (simp_all add: register_def evict_def free_slot_def isConnected_def object_def Let_def split: option.split)
  have "cm_inv (?f (snd (register ty c cm)))" using inv_register [OF section_idle [OF assms(1)] assms(2), of ty] by (simp add: f)
  moreover have "sender_ok (snd (register ty c cm))"
    using assms(1) by (cases ty) (auto simp: register_def evict_def Let_def sender_ok_def section_inv_def object_def nth_append
      split: option.splits)
  ultimately show ?thesis by (simp add: section_inv_def cm_inv_def all_slots_def)
qed

lemma section_kept:
  assumes "bridge_section b b'" "section_inv (fst b)"
  shows "section_inv (fst b')"
  using assms
proof (induction rule: bridge_section.induct)
  case (client i cm c rq)
  then show ?case by (simp add: section_put grown_def)
next
  case (take_byte i cm x c rq)
  then show ?case unfolding fst_conv
    by (intro section_put) (auto simp: popPendingIncomingData_def client_ok_def split: if_splits)
next
  case (start i cm rq)
  let ?cm = "transitSessionState session_request (cm\<lparr>cm_active := Some i, cm_counter := cm_counter cm + 1\<rparr>)"
  have "section_inv ?cm" using start by (simp add: transitSessionState_def section_defs)
  then have "section_inv (put i (onSessionStart (object i cm)) ?cm)"
    by (rule section_put) (auto simp: onSessionStart_def client_ok_def object_def transitSessionState_def)
  then show ?case using start by (simp add: start_section_def)
next
  case (request b i byte)
  then show ?case
    by (auto simp: request_section_def transitSessionState_def section_defs split: prod.splits option.splits if_splits)
next
  case (vacate ty cm xs rq)
  then show ?case by (simp add: section_slots)
next
  case (register c cm rq ty)
  then show ?case by (simp add: section_register)
qed (auto simp: refresh_session_def transitSessionState_def send_section_def cm_onBusRequested_def
      stop_section_def disconnect_section_def setSessionTimeout_def setTransmitTimeout_def setOutgoingBufferSize_def
      section_defs Let_def split: option.splits)

section \<open>Calls are sequences of sections\<close>

abbreviation sections :: "'a bridge \<Rightarrow> 'a bridge \<Rightarrow> bool" where
  "sections \<equiv> bridge_section\<^sup>*\<^sup>*"

lemma sectionI: "sections b b' \<Longrightarrow> bridge_section b' b'' \<Longrightarrow> sections b b''"
  by (rule rtranclp.rtrancl_into_rtrancl)

lemma sections_client: "sections b (cm, rq) \<Longrightarrow> grown (object i cm) c \<Longrightarrow> sections b (put i c cm, rq)"
  by (rule sectionI) (auto intro: client)

lemma sections_arbitration: "sections b (cm, rq) \<Longrightarrow> sections b (cm, rq')"
  by (rule sectionI) (auto intro: arbitration)

lemma sections_stop:
  assumes "sections b (cm, rq)"
  shows "sections b (stopActiveSession (cm, rq))"
proof (cases "cm_active cm")
  case (Some i)
  have "sections b (stop_section cm, rq)" using assms by (rule sectionI) (rule stop)
  then have "sections b (stop_client i (stop_section cm), rq)"
    unfolding stop_client_def by (rule sections_client) (rule grown_simple)
  then show ?thesis using Some by (auto simp: stopActiveSession_def stop_section_def intro: sections_arbitration)
qed (use assms in \<open>simp add: stopActiveSession_def\<close>)

lemma sections_send:
  assumes "sections b (cm, rq)"
  shows "sections b (trySendNextByte i cm, rq)"
proof -
  obtain x c where p: "popPendingIncomingData (object i cm) = (x, c)" by fastforce
  have "sections b (put i c cm, rq)" using assms by (rule sectionI) (rule take_byte [OF p])
  then have "sections b (send_section y (put i c cm), rq)" for y by (rule sectionI) (rule send)
  with assms show ?thesis
    by (cases x) (auto simp: trySendNextByte_def p send_section_def Let_def)
qed

lemma sections_available:
  assumes "sections b (cm, rq)"
  shows "sections b (handleBusAvailableForSession (cm, rq))"
proof (cases "cm_active cm")
  case (Some i)
  obtain x c where p: "popPendingIncomingData (object i cm) = (x, c)" by fastforce
  have "sections b (put i c cm, rq)" using assms by (rule sectionI) (rule take_byte [OF p])
  then have "sections b (request_section i y (put i c cm, rq))" for y by (rule sectionI) (rule request)
  moreover have "sections b (cm\<lparr>cm_error := e\<rparr>, rq)" for e using assms by (rule sectionI) (rule error)
  then have "sections b (stopActiveSession (cm\<lparr>cm_error := e\<rparr>, rq))" for e by (rule sections_stop)
  ultimately show ?thesis
    using assms Some by (cases x) (auto simp: handleBusAvailableForSession_def p request_section_def split: if_splits)
qed (use assms in \<open>simp add: handleBusAvailableForSession_def\<close>)

lemma sections_start:
  assumes "sections b (cm, rq)" "i < length (cm_objects cm)"
  shows "sections b (tryStartSessionForClient i cm, rq)"
proof (cases "write_capable (object i cm)")
  case True
  have "sections b (start_section i cm, rq)" using assms(1) by (rule sectionI) (rule start [OF assms(2) True])
  then show ?thesis using assms(1) by (simp add: tryStartSessionForClient_def start_section_def Let_def)
qed (use assms in \<open>simp add: tryStartSessionForClient_def\<close>)

lemma sections_timeout:
  assumes "sections b (cm, rq)"
  shows "sections b (checkSessionTimeout (cm, rq))"
proof -
  have c: "sections b (cm\<lparr>cm_reads := n\<rparr>, rq)" for n using assms by (rule sectionI) (rule clock)
  then have "sections b ((cm\<lparr>cm_reads := n\<rparr>)\<lparr>cm_error := e\<rparr>, rq)" for n e by (rule sectionI) (rule error)
  then have "sections b (stopActiveSession ((cm\<lparr>cm_reads := n\<rparr>)\<lparr>cm_error := e\<rparr>, rq))" for n e by (rule sections_stop)
  then have "sections b (fst (stopActiveSession ((cm\<lparr>cm_reads := n\<rparr>)\<lparr>cm_error := e\<rparr>, rq)), rq')" for n e rq'
    by (metis sections_arbitration prod.collapse)
  then show ?thesis
    using assms c by (auto simp: checkSessionTimeout_def Let_def split_beta split: option.split)
qed

lemma sections_disconnect:
  assumes "sections b (cm, rq)"
  shows "sections b (handleActiveSenderDisconnected (cm, rq))"
proof -
  have "sections b (disconnect_section cm, rq)" using assms by (rule sectionI) (rule disconnect)
  then have "sections b (stop_client i (disconnect_section cm), rq)" for i
    unfolding stop_client_def by (rule sections_client) (rule grown_simple)
  then have "sections b (stop_client i (disconnect_section cm), rq')" for i rq' by (rule sections_arbitration)
  then show ?thesis
    using assms by (auto simp: handleActiveSenderDisconnected_def disconnect_section_def split: option.splits if_splits)
qed

lemma sections_action:
  assumes "sections b (cm, rq)"
  shows "sections b (perform_action action i (cm, rq))"
proof (cases action)
  case bypass_wait
  have "sections b (transitSessionState session_transmit cm, rq)" using assms by (rule sectionI) (rule transmit)
  then show ?thesis using bypass_wait by (simp add: perform_action_def sections_send)
qed (use assms in \<open>auto simp: perform_action_def intro: sections_stop sections_arbitration\<close>)

lemma sections_forward: "sections b (cm, rq) \<Longrightarrow> sections b (fold (forward_byte byte s) js cm, rq)"
  by (induction js arbitrary: cm) (auto simp: forward_byte_def intro: sections_client grown_simple)

lemma sections_byte:
  assumes "sections b (cm, rq)"
  shows "sections b (onBusEventInfo byte result (cm, rq))"
proof -
  have r: "sections b (refresh_session cm, rq)" using assms by (rule sectionI) (rule snapshot)
  have "sections b (active_byte byte result i (refresh_session cm, rq))" for i
  proof -
    let ?o = "onBusByte byte result (object i (refresh_session cm))"
    obtain cm1 rq1 where a: "perform_action (fst ?o) i (put i (snd ?o) (refresh_session cm), rq) = (cm1, rq1)" by fastforce
    have "sections b (put i (snd ?o) (refresh_session cm), rq)" using r grown_bus by (rule sections_client)
    then have "sections b (cm1, rq1)" using sections_action a by metis
    with sections_available [OF this] show ?thesis
      using a by (simp add: active_byte_def split_beta Let_def)
  qed
  with r have "sections b (case cm_active cm of Some i \<Rightarrow> if isConnected i (refresh_session cm)
      then active_byte byte result i (refresh_session cm, rq) else (refresh_session cm, rq) | None \<Rightarrow> (refresh_session cm, rq))"
    by (auto split: option.split)
  from sections_forward [of b "fst x" "snd x" for x, simplified, OF this] show ?thesis
    using assms by (simp add: onBusEventInfo_def Let_def split_beta)
qed

lemma sections_cm_stop:
  assumes "sections b (cm, rq)"
  shows "sections b (cm_stop (cm, rq))"
proof -
  obtain cm1 rq1 where s: "stopActiveSession (cm\<lparr>cm_running := False\<rparr>, rq) = (cm1, rq1)" by fastforce
  have "sections b (cm\<lparr>cm_running := False\<rparr>, rq)" using assms by (rule sectionI) (rule running)
  then have "sections b (cm1, rq1)" using sections_stop s by metis
  then have "sections b (cm1\<lparr>cm_listen_regular := -1, cm_listen_readonly := -1, cm_listen_enhanced := -1\<rparr>, rq1)"
    by (rule sectionI) (rule listeners)
  then show ?thesis by (simp add: cm_stop_def s)
qed

lemma sections_cm_start:
  assumes "sections b (cm, rq)"
  shows "sections b (cm_start listen srv ports cm, rq)"
proof -
  have l: "sections b (cm\<lparr>cm_listen_regular := l1, cm_listen_readonly := l2, cm_listen_enhanced := l3\<rparr>, rq)" for l1 l2 l3
    using assms by (rule sectionI) (rule listeners)
  have "sections b (cm'\<lparr>cm_running := True\<rparr>, rq)" if "sections b (cm', rq)" for cm'
    using that by (rule sectionI) (rule running)
  from this [OF assms] this [OF l] show ?thesis
    using assms by (auto simp: cm_start_def split: prod.split)
qed

text \<open>A run of calls is a run of sections.\<close>

lemma section_slot:
  assumes "section_inv cm" "k < max_clients" "slots ty cm ! k = Some i"
  shows "i < length (cm_objects cm)"
proof -
  have "cm_inv (cm\<lparr>cm_active := None, cm_state := session_idle\<rparr>)" using assms(1) by (rule section_idle)
  moreover have "slots ty (cm\<lparr>cm_active := None, cm_state := session_idle\<rparr>) = slots ty cm" by (cases ty) simp_all
  ultimately show ?thesis using slot_bound [of _ k ty i] assms(2,3) by fastforce
qed

lemma sections_kept: "sections b b' \<Longrightarrow> section_inv (fst b) \<Longrightarrow> section_inv (fst b')"
  by (induction rule: rtranclp_induct) (auto intro: section_kept)

interpretation calls: bridge_property "\<lambda>b. section_inv (fst b0) \<and> sections b0 b" "\<lambda>i cm. i < length (cm_objects cm)"
proof (unfold_locales, goal_cases)
  case (1 cm rq rq')
  then show ?case using sections_arbitration by blast
next
  case (2 cm rq i c)
  then show ?case using sections_client by blast
next
  case (3 cm rq ty xs)
  then show ?case using sectionI vacate by blast
next
  case (4 cm rq c ty)
  then show ?case using sectionI register by blast
next
  case (5 cm rq fds)
  then show ?case using sectionI closes by blast
next
  case (6 cm rq i)
  then show ?case using sections_send by blast
next
  case (7 cm rq i)
  then show ?case using sections_start by blast
next
  case (8 b)
  then show ?case using sections_timeout by (cases b) blast
next
  case (9 b)
  then show ?case using sections_disconnect by (cases b) blast
next
  case (10 b)
  then show ?case using sections_available by (cases b) blast
next
  case (11 b byte result)
  then show ?case using sections_byte by (cases b) blast
next
  case (12 cm rq)
  then show ?case using sectionI requested by blast
next
  case (13 b)
  then show ?case using sections_cm_stop by (cases b) blast
next
  case (14 cm rq ms)
  then show ?case using sectionI session_timeout by blast
next
  case (15 cm rq ms)
  then show ?case using sectionI transmit_timeout by blast
next
  case (16 cm rq n)
  then show ?case using sectionI buffer_size by blast
next
  case (17 cm rq listen srv ports)
  then show ?case using sections_cm_start by blast
next
  case (18 cm rq k ty i)
  then show ?case using sections_kept [of b0 "(cm, rq)"] section_slot by simp
qed simp_all

lemma calls_are_sections:
  assumes "bridge_step\<^sup>*\<^sup>* b b'" "section_inv (fst b)"
  shows "sections b b'"
  using calls.of_run [OF assms(1)] assms(2) by blast

section \<open>Properties\<close>

text \<open>
  C24: In every interleaving of the bus thread, the socket thread and the application, at the
  granularity of the sections the mutex of the manager (and the lock of each client) makes atomic:
  each kind of client has four slots and no client is in two of them; the sender of a session may
  write, and its session is not idle; a session that asks for the bus has a sender; no client has
  more bytes waiting than its queue holds. When the calls do not overlap, a session without a
  sender is idle too and a session that asks for the bus has a byte to send; overlapping calls can
  break these two. Every run of calls is a run of sections.
\<close>

theorem interleaved_sessions_consistent:
  assumes "bridge_section\<^sup>*\<^sup>* (client_manager_new clock wakeup, rq) (cm, rq')"
  shows "length (slots ty cm) = max_clients \<and> distinct (present (all_slots cm))
    \<and> (\<forall>i. cm_active cm = Some i \<longrightarrow> cm_state cm \<noteq> session_idle \<and> write_capable (object i cm))
    \<and> (cm_state cm = session_request \<longrightarrow> cm_active cm \<noteq> None)
    \<and> (\<forall>c \<in> set (cm_objects cm). length (cl_in c) \<le> inbound_capacity)
    \<and> (bridge_step\<^sup>*\<^sup>* (client_manager_new clock wakeup, rq) (cm, rq') \<longrightarrow>
        (cm_active cm = None \<longrightarrow> cm_state cm = session_idle)
        \<and> (\<forall>i. cm_active cm = Some i \<and> cm_state cm = session_request \<longrightarrow> cl_in (object i cm) \<noteq> []))
    \<and> (\<forall>b. bridge_step\<^sup>*\<^sup>* (cm, rq') b \<longrightarrow> bridge_section\<^sup>*\<^sup>* (cm, rq') b)"
proof -
  have s: "section_inv cm" using sections_kept [OF assms] inv_section_inv [OF cm_inv_new] by simp
  have "cm_inv cm" if "bridge_step\<^sup>*\<^sup>* (client_manager_new clock wakeup, rq) (cm, rq')"
    using bridge.of_run [OF that] cm_inv_new by simp
  then have "bridge_step\<^sup>*\<^sup>* (client_manager_new clock wakeup, rq) (cm, rq') \<longrightarrow>
      (cm_active cm = None \<longrightarrow> cm_state cm = session_idle)
      \<and> (\<forall>i. cm_active cm = Some i \<and> cm_state cm = session_request \<longrightarrow> cl_in (object i cm) \<noteq> [])"
    by (auto simp: cm_inv_def session_ok_def)
  moreover have "\<forall>b. bridge_step\<^sup>*\<^sup>* (cm, rq') b \<longrightarrow> bridge_section\<^sup>*\<^sup>* (cm, rq') b"
    using calls_are_sections [of "(cm, rq')"] s by auto
  ultimately show ?thesis
    using s by (cases ty) (auto simp: section_inv_def slots_ok_def sender_ok_def client_ok_def list_all_iff split: option.splits)
qed

definition sample_started :: client_manager where
  "sample_started = start_section 0 (put 0 ((createClient client_regular 5 4096)\<lparr>cl_in := [0x31, 0xfe]\<rparr>)
     (snd (register client_regular (createClient client_regular 5 4096) (client_manager_new (\<lambda>_. 0) 3))))"

definition sample_raced :: client_manager where
  "sample_raced = transitSessionState session_transmit (stop_section sample_started)"

lemma sample_runs:
  "bridge_section\<^sup>*\<^sup>* (client_manager_new (\<lambda>_. 0) 3, rq) (sample_started, rq)"
  "bridge_section\<^sup>*\<^sup>* (client_manager_new (\<lambda>_. 0) 3, rq) (sample_raced, rq)"
  "cm_active sample_started = Some 0" "cm_active sample_raced = None" "cm_state sample_raced = session_transmit"
proof -
  let ?n = "client_manager_new (\<lambda>_. 0) 3" and ?c = "createClient client_regular 5 4096"
  let ?r = "snd (register client_regular ?c ?n)" and ?d = "?c\<lparr>cl_in := [0x31, 0xfe]\<rparr>"
  have o: "cm_objects ?r = [?c]" "cm_active ?r = None" "cm_state ?r = session_idle"
    by (simp_all add: register_def evict_def free_slot_def client_manager_new_def max_clients_def Let_def numeral_eq_Suc upt_rec)
  have "object 0 ?r = ?c" by (simp add: o object_def)
  then have g: "grown (object 0 ?r) ?d"
    by (simp add: grown_def client_ok_def) (simp add: createClient_def inbound_capacity_def)
  have "bridge_section\<^sup>*\<^sup>* (?n, rq) (?r, rq)" using register [of ?c] by (blast intro: new_client_ok)
  then have "bridge_section\<^sup>*\<^sup>* (?n, rq) (put 0 ?d ?r, rq)" using g by (rule sections_client)
  moreover have "0 < length (cm_objects (put 0 ?d ?r))" "write_capable (object 0 (put 0 ?d ?r))"
    by (simp_all add: o put_def object_def) (simp add: createClient_def)
  ultimately show r: "bridge_section\<^sup>*\<^sup>* (?n, rq) (sample_started, rq)"
    unfolding sample_started_def using sectionI start by blast
  have "bridge_section\<^sup>*\<^sup>* (?n, rq) (stop_section sample_started, rq)" using r by (rule sectionI) (rule stop)
  then show "bridge_section\<^sup>*\<^sup>* (?n, rq) (sample_raced, rq)" unfolding sample_raced_def by (rule sectionI) (rule transmit)
  show "cm_active sample_started = Some 0" "cm_active sample_raced = None" "cm_state sample_raced = session_transmit"
    by (simp_all add: sample_started_def sample_raced_def start_section_def stop_section_def transitSessionState_def o)
qed

theorem interleaved_sessions_consistent_witness:
  "cm_active sample_started = Some 0 \<and> cm_state sample_started \<noteq> session_idle \<and> write_capable (object 0 sample_started)
    \<and> cm_active sample_raced = None \<and> cm_state sample_raced = session_transmit \<and> distinct (present (all_slots sample_raced))"
  using interleaved_sessions_consistent [OF sample_runs(1)] interleaved_sessions_consistent [OF sample_runs(2)] sample_runs(3-5)
  by blast

end
