(* ===== verification/Device_Manager.thy ===== *)
theory Device_Manager
  imports Bus_Monitor Byte_Sequence
begin

text \<open>
  The devices seen on the bus: \<open>Device\<close> (\<open>src/ebus/models/device.hpp\<close>, \<open>.cpp\<close>), what is known of
  one device from the answers to the identification commands, and \<open>DeviceManager\<close>
  (\<open>src/ebus/app/device_manager.hpp\<close>, \<open>.cpp\<close>), a pool of devices with a map from slave addresses
  to places in the pool. Of the monitor only the device metrics are part of the state, \<open>None\<close>
  standing for a missing monitor. A \<open>std::bitset<256>\<close> is the set of its bits. The
  manager reads the first two bytes of a telegram without looking at its length; the bytes
  come from zero-filled buffers of 24 bytes (\<open>ProtocolEvent\<close>), so that a missing byte reads as 0.
  The mutex is not modelled, nor is the output as JSON.
\<close>

section \<open>Views of bytes\<close>

definition view_at :: "bytes \<Rightarrow> nat \<Rightarrow> u8" where
  "view_at v i = (if i < length v then v ! i else 0)"

definition range_view :: "bytes \<Rightarrow> nat \<Rightarrow> nat \<Rightarrow> bytes" where
  "range_view container index len =
     (if index \<ge> length container then []
      else (let count = min len (length container - index) in take count (drop index container)))"

definition matches :: "bytes \<Rightarrow> bytes \<Rightarrow> nat \<Rightarrow> bool" where
  "matches container search index \<longleftrightarrow>
     (if length search = 0 then True
      else if index \<ge> length container \<or> index + length search > length container then False
      else list_all (\<lambda>i. container ! (index + i) = search ! i) [0..<length search])"

section \<open>Manufacturers\<close>

text \<open>The entries of the table that are not null, with their positions; the table has 239 initialisers.\<close>

definition manufacturer_table :: "(u8 \<times> string) list" where
  "manufacturer_table =
     [(0x03, ''Junkers''), (0x04, ''Bosch''), (0x05, ''Buderus''), (0x06, ''Dungs''), (0x08, ''Siemens''),
      (0x0b, ''Danfoss''), (0x0f, ''FH Ostfalia''), (0x10, ''TEM''), (0x11, ''Lamberti''), (0x14, ''CEB''),
      (0x15, ''Landis-Staefa''), (0x16, ''FERRO''), (0x17, ''MONDIAL''), (0x18, ''Wikon''), (0x19, ''Wolf''),
      (0x1a, ''Elco''), (0x1f, ''RAWE''), (0x30, ''Satronic''), (0x40, ''ENCON''), (0x46, ''Paradigma''),
      (0x47, ''Ochsner''), (0x50, ''Kromschroeder''), (0x60, ''Eberle''), (0x65, ''EBV''),
      (0x76, ''Graesslin''), (0x80, ''Gira''), (0x86, ''ebm-papst''), (0x94, ''SIG''), (0xa0, ''Theben''),
      (0xa2, ''Thermowatt''), (0xb4, ''Vaillant''), (0xb6, ''Protherm''), (0xba, ''Saunier Duval''),
      (0xbf, ''Toby''), (0xc4, ''Weishaupt''), (0xca, ''Honeywell''), (0xd3, ''Wolf''),
      (0xd9, ''danman.eu''), (0xec, ''ebusd.eu'')]"

definition manufacturerName :: "u8 \<Rightarrow> string" where
  "manufacturerName i = (case map_of manufacturer_table i of Some name \<Rightarrow> name | None \<Rightarrow> ''Unknown'')"

section \<open>A device\<close>

definition vendor_vaillant :: u8 where
  "vendor_vaillant = 0xb5"

definition vec_070400 :: bytes where "vec_070400 = [0x07, 0x04, 0x00]"
definition vec_b5090124 :: bytes where "vec_b5090124 = [0xb5, 0x09, 0x01, 0x24]"
definition vec_b5090125 :: bytes where "vec_b5090125 = [0xb5, 0x09, 0x01, 0x25]"
definition vec_b5090126 :: bytes where "vec_b5090126 = [0xb5, 0x09, 0x01, 0x26]"
definition vec_b5090127 :: bytes where "vec_b5090127 = [0xb5, 0x09, 0x01, 0x27]"

lemmas vec_defs = vec_070400_def vec_b5090124_def vec_b5090125_def vec_b5090126_def vec_b5090127_def

record Device =
  dv_slave :: u8
  dv_identified :: bool
  dv_message_count :: u32
  dv_070400 :: sequence
  dv_b5090124 :: sequence
  dv_b5090125 :: sequence
  dv_b5090126 :: sequence
  dv_b5090127 :: sequence

definition Device_new :: Device where
  "Device_new = \<lparr>dv_slave = 0, dv_identified = False, dv_message_count = 0, dv_070400 = seq_nil,
     dv_b5090124 = seq_nil, dv_b5090125 = seq_nil, dv_b5090126 = seq_nil, dv_b5090127 = seq_nil\<rparr>"

definition push_all :: "bytes \<Rightarrow> sequence \<Rightarrow> sequence" where
  "push_all xs s = fold (\<lambda>b. seq_push_back b False) xs s"

definition createScanCommand :: "u8 \<Rightarrow> sequence" where
  "createScanCommand slave = push_all vec_070400 (seq_push_back slave False seq_nil)"

definition Device_update :: "u8 \<Rightarrow> bytes \<Rightarrow> bytes \<Rightarrow> Device \<Rightarrow> Device" where
  "Device_update slave_addr master_view slave_view d =
     (let d = d\<lparr>dv_slave := slave_addr, dv_message_count := dv_message_count d + 1\<rparr>
      in if slave_view = [] then d
         else
           (let d =
              (if matches master_view vec_070400 2 then d\<lparr>dv_070400 := seq_assign (dv_070400 d) slave_view False\<rparr>
               else if matches master_view vec_b5090124 2
                 then d\<lparr>dv_b5090124 := seq_assign (dv_b5090124 d) slave_view False\<rparr>
               else if matches master_view vec_b5090125 2
                 then d\<lparr>dv_b5090125 := seq_assign (dv_b5090125 d) slave_view False\<rparr>
               else if matches master_view vec_b5090126 2
                 then d\<lparr>dv_b5090126 := seq_assign (dv_b5090126 d) slave_view False\<rparr>
               else if matches master_view vec_b5090127 2
                 then d\<lparr>dv_b5090127 := seq_assign (dv_b5090127 d) slave_view False\<rparr>
               else d)
            in if seq_size (dv_070400 d) \<noteq> 0 then d\<lparr>dv_identified := True\<rparr> else d))"

definition isVaillant :: "Device \<Rightarrow> bool" where
  "isVaillant d \<longleftrightarrow> seq_size (dv_070400 d) > 1 \<and> sq_bytes (dv_070400 d) ! 1 = vendor_vaillant"

definition isVaillantValid :: "Device \<Rightarrow> bool" where
  "isVaillantValid d \<longleftrightarrow> seq_size (dv_b5090124 d) > 0 \<and> seq_size (dv_b5090125 d) > 0
     \<and> seq_size (dv_b5090126 d) > 0 \<and> seq_size (dv_b5090127 d) > 0"

definition storage_fields :: "Device \<Rightarrow> sequence list" where
  "storage_fields d = [dv_b5090124 d, dv_b5090125 d, dv_b5090126 d, dv_b5090127 d]"

definition command_prefixes :: "bytes list" where
  "command_prefixes = [vec_b5090124, vec_b5090125, vec_b5090126, vec_b5090127]"

definition vendor_command :: "Device \<Rightarrow> nat \<Rightarrow> sequence" where
  "vendor_command d i = push_all (command_prefixes ! i) (seq_push_back (dv_slave d) False seq_nil)"

fun first_empty :: "nat list \<Rightarrow> Device \<Rightarrow> nat option" where
  "first_empty [] d = None"
| "first_empty (i # is) d = (if seq_size (storage_fields d ! i) = 0 then Some i else first_empty is d)"

text \<open>The result is the command found, if any, and the new value of the cursor.\<close>

definition getNextPendingVendorCommand :: "nat \<Rightarrow> Device \<Rightarrow> sequence option \<times> nat" where
  "getNextPendingVendorCommand cursor d =
     (if isVaillant d
      then (case first_empty [cursor..<4] d of
              Some i \<Rightarrow> (Some (vendor_command d i), i + 1)
            | None \<Rightarrow> (None, 4))
      else (None, 4))"

definition getFirstPendingVendorCommand :: "Device \<Rightarrow> sequence option" where
  "getFirstPendingVendorCommand d =
     (if isVaillant d then map_option (vendor_command d) (first_empty [0..<4] d) else None)"

record DeviceInfo =
  di_slave_address :: u8
  di_manufacturer :: u8
  di_manufacturer_name :: "string option"
  di_unit_id :: bytes
  di_software_version :: bytes
  di_hardware_version :: bytes
  di_serial_number :: bytes
  di_product_code :: bytes
  di_frequency :: u32

definition DeviceInfo_new :: DeviceInfo where
  "DeviceInfo_new = \<lparr>di_slave_address = 0xff, di_manufacturer = 0, di_manufacturer_name = None, di_unit_id = [],
     di_software_version = [], di_hardware_version = [], di_serial_number = [], di_product_code = [],
     di_frequency = 0\<rparr>"

definition appendSegment :: "bytes \<Rightarrow> nat \<Rightarrow> nat \<Rightarrow> bytes \<Rightarrow> bytes" where
  "appendSegment src offset len sn =
     (if length src \<ge> offset + len \<and> length sn + len \<le> 28 then sn @ take len (drop offset src) else sn)"

definition getDevice :: "Device \<Rightarrow> DeviceInfo" where
  "getDevice d =
     (let info = DeviceInfo_new\<lparr>di_slave_address := dv_slave d, di_frequency := dv_message_count d\<rparr>;
          ident = sq_bytes (dv_070400 d);
          info =
            (if length ident \<ge> 11
             then info\<lparr>di_manufacturer := ident ! 1, di_manufacturer_name := Some (manufacturerName (ident ! 1)),
                       di_unit_id := range_view ident 2 5, di_software_version := range_view ident 7 2,
                       di_hardware_version := range_view ident 9 2\<rparr>
             else info)
      in if isVaillant d \<and> isVaillantValid d
         then
           (let sn = appendSegment (sq_bytes (dv_b5090127 d)) 1 2
                 (appendSegment (sq_bytes (dv_b5090126 d)) 1 9
                   (appendSegment (sq_bytes (dv_b5090125 d)) 1 9
                     (appendSegment (sq_bytes (dv_b5090124 d)) 2 8 [])));
                info = info\<lparr>di_serial_number := sn\<rparr>
            in if length sn \<ge> 16 then info\<lparr>di_product_code := take 10 (drop 6 sn)\<rparr> else info)
         else info)"

definition getVendorData :: "u8 \<Rightarrow> Device \<Rightarrow> bytes" where
  "getVendorData sub d =
     (if sub = 0x24 then sq_bytes (dv_b5090124 d)
      else if sub = 0x25 then sq_bytes (dv_b5090125 d)
      else if sub = 0x26 then sq_bytes (dv_b5090126 d)
      else if sub = 0x27 then sq_bytes (dv_b5090127 d)
      else [])"

section \<open>The manager\<close>

definition max_devices :: nat where
  "max_devices = 16"

record device_manager =
  dm_own_address :: u8
  dm_metrics :: "DeviceMetrics option"
  device_pool :: "Device list"
  address_map :: "u8 \<Rightarrow> int"
  pool_usage :: nat
  identified_set :: "u8 set"
  masters :: "u8 set"
  slaves :: "u8 set"

definition device_manager_new :: "DeviceMetrics option \<Rightarrow> device_manager" where
  "device_manager_new metrics =
     \<lparr>dm_own_address = 0xff, dm_metrics = metrics, device_pool = replicate max_devices Device_new,
      address_map = (\<lambda>a. -1), pool_usage = 0, identified_set = {}, masters = {}, slaves = {}\<rparr>"

definition dm_setOwnAddress :: "u8 \<Rightarrow> device_manager \<Rightarrow> device_manager" where
  "dm_setOwnAddress address m = m\<lparr>dm_own_address := address\<rparr>"

definition dm_updateDevice :: "(DeviceMetrics \<Rightarrow> DeviceMetrics) \<Rightarrow> device_manager \<Rightarrow> device_manager" where
  "dm_updateDevice f m = m\<lparr>dm_metrics := map_option f (dm_metrics m)\<rparr>"

definition is_new :: "u8 \<Rightarrow> device_manager \<Rightarrow> bool" where
  "is_new addr m =
     (let sa = (if isSlave addr then addr else slaveOf addr)
      in masterOf sa \<notin> masters m \<and> sa \<notin> slaves m)"

definition count_unknown :: "device_manager \<Rightarrow> device_manager" where
  "count_unknown = dm_updateDevice (\<lambda>d. d\<lparr>unknown_devices := unknown_devices d + 1\<rparr>)"

text \<open>The addresses seen are recorded inside the update of the metrics, hence only with a monitor.\<close>

definition observe_addresses :: "u8 \<Rightarrow> u8 \<Rightarrow> device_manager \<Rightarrow> device_manager" where
  "observe_addresses m_addr s_addr m =
     (if dm_metrics m = None then m
      else
        (let m1 = (if is_new m_addr m \<and> slaveOf m_addr \<notin> identified_set m then count_unknown m else m);
             m2 = m1\<lparr>masters := insert m_addr (masters m1)\<rparr>
         in if isSlave s_addr
            then (let m3 = (if is_new s_addr m2 \<and> s_addr \<notin> identified_set m2 then count_unknown m2 else m2)
                  in m3\<lparr>slaves := insert s_addr (slaves m3)\<rparr>)
            else m2))"

definition updateEntry :: "u8 \<Rightarrow> bytes \<Rightarrow> bytes \<Rightarrow> device_manager \<Rightarrow> device_manager" where
  "updateEntry slave_addr m_view s_view m =
     (if slave_addr = slaveOf (dm_own_address m) then m
      else
        (let idx = address_map m slave_addr
         in if idx = -1 \<and> pool_usage m \<ge> max_devices then m
            else
              (let (idx, m) =
                 (if idx = -1
                  then (let idx = int (pool_usage m);
                            m1 = m\<lparr>pool_usage := pool_usage m + 1, address_map := (address_map m)(slave_addr := idx),
                                   identified_set := insert slave_addr (identified_set m)\<rparr>;
                            m2 = dm_updateDevice (\<lambda>d. if unknown_devices d > 0
                                   then d\<lparr>unknown_devices := unknown_devices d - 1\<rparr> else d) m1;
                            m3 = dm_updateDevice (\<lambda>d. d\<lparr>identified_devices := of_nat (pool_usage m2)\<rparr>) m2
                        in (idx, m3))
                  else (idx, m))
               in m\<lparr>device_pool := (device_pool m)
                      [nat idx := Device_update slave_addr m_view s_view (device_pool m ! nat idx)]\<rparr>)))"

definition dm_update :: "bytes \<Rightarrow> bytes \<Rightarrow> device_manager \<Rightarrow> device_manager" where
  "dm_update master_view slave_view m =
     (let m_addr = view_at master_view 0; s_addr = view_at master_view 1;
          m1 = observe_addresses m_addr s_addr m;
          target = view_at master_view 1;
          m2 = (if isMaster m_addr then updateEntry (slaveOf m_addr) master_view [] m1 else m1)
      in if isMaster target then updateEntry (slaveOf target) master_view [] m2
         else if isSlave target then updateEntry target master_view slave_view m2
         else m2)"

fun next_observed :: "nat list \<Rightarrow> device_manager \<Rightarrow> nat" where
  "next_observed [] m = 256"
| "next_observed (s # ss) m =
     (let addr = of_nat s :: u8
      in if addr = slaveOf (dm_own_address m) then next_observed ss m
         else if addr \<in> slaves m then s
         else if isMaster addr \<and> addr \<in> masters m then unat (slaveOf addr)
         else next_observed ss m)"

definition findNextObservedSlave :: "u8 \<Rightarrow> device_manager \<Rightarrow> nat" where
  "findNextObservedSlave start m = next_observed [unat start..<256] m"

definition getNextPendingVendorCommandForDevice :: "u8 \<Rightarrow> nat \<Rightarrow> device_manager \<Rightarrow> sequence option \<times> nat" where
  "getNextPendingVendorCommandForDevice device_addr cursor m =
     (let idx = address_map m device_addr
      in if idx \<noteq> -1 \<and> cursor < 4 then getNextPendingVendorCommand cursor (device_pool m ! nat idx)
         else (None, 4))"

fun next_pending :: "nat list \<Rightarrow> device_manager \<Rightarrow> nat \<times> sequence option" where
  "next_pending [] m = (256, None)"
| "next_pending (addr # as) m =
     (let idx = address_map m (of_nat addr)
      in if idx = -1 then next_pending as m
         else (case getFirstPendingVendorCommand (device_pool m ! nat idx) of
                 Some cmd \<Rightarrow> (addr, Some cmd)
               | None \<Rightarrow> next_pending as m))"

definition findNextPendingVendorCommand :: "nat \<Rightarrow> device_manager \<Rightarrow> nat \<times> sequence option" where
  "findNextPendingVendorCommand start_addr m = next_pending [start_addr..<256] m"

definition isIdentified :: "u8 \<Rightarrow> device_manager \<Rightarrow> bool" where
  "isIdentified addr m =
     (let idx = address_map m addr in idx \<noteq> -1 \<and> dv_identified (device_pool m ! nat idx))"

definition needsDeepScan :: "u8 \<Rightarrow> device_manager \<Rightarrow> bool" where
  "needsDeepScan addr m \<longleftrightarrow> isIdentified addr m \<and> fst (findNextPendingVendorCommand (unat addr) m) < 256"

fun observed_from :: "nat list \<Rightarrow> device_manager \<Rightarrow> u8 set \<Rightarrow> u8 set" where
  "observed_from [] m observed = observed"
| "observed_from (n # ns) m observed =
     (let i = of_nat n :: u8;
          observed = (if i \<in> masters m \<and> i \<noteq> dm_own_address m then insert (slaveOf i) observed else observed);
          observed = (if i \<in> slaves m \<and> i \<noteq> slaveOf (dm_own_address m) then insert i observed else observed)
      in observed_from ns m observed)"

definition getObservedSlaves :: "device_manager \<Rightarrow> u8 set" where
  "getObservedSlaves m = observed_from [0..<256] m {}"

definition fetchDevices :: "device_manager \<Rightarrow> DeviceInfo list" where
  "fetchDevices m =
     map (\<lambda>a. getDevice (device_pool m ! nat (address_map m (of_nat a))))
       (filter (\<lambda>a. address_map m (of_nat a) \<noteq> -1) [0..<256])"

definition dm_fetchStatus :: "device_manager \<Rightarrow> nat \<times> nat \<times> u32" where
  "dm_fetchStatus m = (card (identified_set m), max_devices,
     case dm_metrics m of Some d \<Rightarrow> unknown_devices d | None \<Rightarrow> 0)"

section \<open>The pool\<close>

text \<open>
  Every mapped address has a place in the used part of the pool that holds the device of this
  address; the rest of the pool is untouched.
\<close>

definition dm_inv :: "device_manager \<Rightarrow> bool" where
  "dm_inv m \<longleftrightarrow> length (device_pool m) = max_devices \<and> pool_usage m \<le> max_devices
     \<and> (\<forall>a. address_map m a \<noteq> -1 \<longrightarrow> 0 \<le> address_map m a \<and> address_map m a < int (pool_usage m)
          \<and> dv_slave (device_pool m ! nat (address_map m a)) = a)
     \<and> (\<forall>i. pool_usage m \<le> i \<longrightarrow> i < max_devices \<longrightarrow> device_pool m ! i = Device_new)
     \<and> identified_set m = {a. address_map m a \<noteq> -1} \<and> card (identified_set m) = pool_usage m"

definition device_at :: "device_manager \<Rightarrow> u8 \<Rightarrow> Device option" where
  "device_at m a = (if address_map m a = -1 then None else Some (device_pool m ! nat (address_map m a)))"

lemma device_at_dom: "dm_inv m \<Longrightarrow> dom (device_at m) = identified_set m"
  by (auto simp: device_at_def dm_inv_def split: if_splits)

lemma device_at_card: "dm_inv m \<Longrightarrow> card (dom (device_at m)) = pool_usage m"
  unfolding device_at_dom unfolding dm_inv_def by blast

lemma Device_update_slave [simp]: "dv_slave (Device_update a mv sv d) = a"
  by (simp add: Device_update_def Let_def)

lemma dm_inv_pool:
  assumes "dm_inv m" "address_map m a \<noteq> -1" "address_map m b \<noteq> -1" "nat (address_map m a) = nat (address_map m b)"
  shows "a = b"
  using assms unfolding dm_inv_def by metis

lemma updateDevice_simps [simp]:
  "dm_own_address (dm_updateDevice f m) = dm_own_address m" "device_pool (dm_updateDevice f m) = device_pool m"
  "address_map (dm_updateDevice f m) = address_map m" "pool_usage (dm_updateDevice f m) = pool_usage m"
  "identified_set (dm_updateDevice f m) = identified_set m"
  by (simp_all add: dm_updateDevice_def)

lemma observe_simps [simp]:
  "dm_own_address (observe_addresses x y m) = dm_own_address m"
  "device_pool (observe_addresses x y m) = device_pool m" "address_map (observe_addresses x y m) = address_map m"
  "pool_usage (observe_addresses x y m) = pool_usage m" "identified_set (observe_addresses x y m) = identified_set m"
  by (simp_all add: observe_addresses_def count_unknown_def Let_def)

text \<open>What an update does, in terms of an inventory that maps addresses to devices.\<close>

definition spec_touch :: "u8 \<Rightarrow> u8 \<Rightarrow> bytes \<Rightarrow> bytes \<Rightarrow> (u8 \<rightharpoonup> Device) \<Rightarrow> (u8 \<rightharpoonup> Device)" where
  "spec_touch own a mv sv M =
     (if a = slaveOf own \<or> (M a = None \<and> card (dom M) \<ge> max_devices) then M
      else M(a \<mapsto> Device_update a mv sv (case M a of None \<Rightarrow> Device_new | Some d \<Rightarrow> d)))"

definition touched :: "bytes \<Rightarrow> bytes \<Rightarrow> (u8 \<times> bytes \<times> bytes) list" where
  "touched mv sv =
     (let src = view_at mv 0; dst = view_at mv 1
      in (if isMaster src then [(slaveOf src, mv, [])] else [])
         @ (if isMaster dst then [(slaveOf dst, mv, [])] else if isSlave dst then [(dst, mv, sv)] else []))"

definition spec_update :: "u8 \<Rightarrow> bytes \<Rightarrow> bytes \<Rightarrow> (u8 \<rightharpoonup> Device) \<Rightarrow> (u8 \<rightharpoonup> Device)" where
  "spec_update own mv sv M = fold (\<lambda>(a, v, s). spec_touch own a v s) (touched mv sv) M"

lemma updateEntry_known:
  assumes "dm_inv m" "address_map m a \<noteq> -1" "a \<noteq> slaveOf (dm_own_address m)"
  shows "dm_inv (updateEntry a mv sv m) \<and> device_at (updateEntry a mv sv m) = spec_touch (dm_own_address m) a mv sv (device_at m)"
proof -
  let ?i = "nat (address_map m a)"
  have i: "?i < length (device_pool m)" "0 \<le> address_map m a" "?i < pool_usage m"
    using assms(1,2) by (auto simp: dm_inv_def)
  have other: "nat (address_map m b) \<noteq> ?i" if "address_map m b \<noteq> -1" "b \<noteq> a" for b
    using dm_inv_pool [OF assms(1) that(1) assms(2)] that(2) by blast
  have e: "updateEntry a mv sv m = m\<lparr>device_pool := (device_pool m)[?i := Device_update a mv sv (device_pool m ! ?i)]\<rparr>"
    using assms by (simp add: updateEntry_def Let_def)
  have "device_at (updateEntry a mv sv m) b = spec_touch (dm_own_address m) a mv sv (device_at m) b" for b
    using assms(2,3) i(1) other [of b] by (auto simp: e device_at_def spec_touch_def nth_list_update)
  moreover have "dm_inv (updateEntry a mv sv m)"
    using assms(1,2) i other unfolding dm_inv_def e by (auto simp: nth_list_update dest: other [OF _ not_sym])
  ultimately show ?thesis by blast
qed

lemma updateEntry_new:
  assumes "dm_inv m" "address_map m a = -1" "a \<noteq> slaveOf (dm_own_address m)" "pool_usage m < max_devices"
  shows "dm_inv (updateEntry a mv sv m) \<and> device_at (updateEntry a mv sv m) = spec_touch (dm_own_address m) a mv sv (device_at m)"
proof -
  let ?i = "pool_usage m" and ?r = "updateEntry a mv sv m"
  have len: "?i < length (device_pool m)" and fresh: "device_pool m ! ?i = Device_new"
    and a: "a \<notin> identified_set m" and ids: "identified_set m = {b. address_map m b \<noteq> -1}"
    using assms(1,2,4) by (auto simp: dm_inv_def)
  have card: "card (dom (device_at m)) = ?i" using assms(1) by (rule device_at_card)
  have e: "device_pool ?r = (device_pool m)[?i := Device_update a mv sv Device_new]"
    "address_map ?r = (address_map m)(a := int ?i)" "pool_usage ?r = ?i + 1"
    "identified_set ?r = insert a (identified_set m)"
    using assms(2-4) fresh by (simp_all add: updateEntry_def Let_def)
  have old: "nat (address_map m b) < ?i" if "address_map m b \<noteq> -1" for b
    using assms(1) that by (auto simp: dm_inv_def)
  have "device_at ?r b = spec_touch (dm_own_address m) a mv sv (device_at m) b" for b
    using assms(2-4) len card old [of b] by (auto simp: e device_at_def spec_touch_def nth_list_update)
  moreover have "dm_inv ?r"
    unfolding dm_inv_def
  proof (intro conjI allI impI)
    fix b assume b: "address_map ?r b \<noteq> -1"
    show "0 \<le> address_map ?r b" "address_map ?r b < int (pool_usage ?r)"
      "dv_slave (device_pool ?r ! nat (address_map ?r b)) = b"
      using b assms(1) len old [of b] by (auto simp: e dm_inv_def nth_list_update split: if_splits)
  next
    show "card (identified_set ?r) = pool_usage ?r" using a device_at_card [OF assms(1)] by (simp add: e device_at_dom [OF assms(1)])
  qed (use assms(1,4) ids in \<open>auto simp: e dm_inv_def\<close>)
  ultimately show ?thesis by blast
qed

lemma updateEntry_refines:
  assumes "dm_inv m"
  shows "dm_inv (updateEntry a mv sv m)"
    and "device_at (updateEntry a mv sv m) = spec_touch (dm_own_address m) a mv sv (device_at m)"
proof -
  have "card (dom (device_at m)) = pool_usage m" using assms by (rule device_at_card)
  then have "dm_inv (updateEntry a mv sv m)
      \<and> device_at (updateEntry a mv sv m) = spec_touch (dm_own_address m) a mv sv (device_at m)"
    using assms updateEntry_known [OF assms, of a mv sv] updateEntry_new [OF assms, of a mv sv]
    by (cases "a = slaveOf (dm_own_address m)"; cases "address_map m a = -1"; cases "pool_usage m < max_devices")
      (simp_all add: updateEntry_def spec_touch_def device_at_def)
  then show "dm_inv (updateEntry a mv sv m)"
    "device_at (updateEntry a mv sv m) = spec_touch (dm_own_address m) a mv sv (device_at m)" by blast+
qed

lemma updateEntry_own [simp]: "dm_own_address (updateEntry a mv sv m) = dm_own_address m"
  by (simp add: updateEntry_def Let_def)

lemma dm_inv_cong:
  "device_pool n = device_pool m \<Longrightarrow> address_map n = address_map m \<Longrightarrow> pool_usage n = pool_usage m
    \<Longrightarrow> identified_set n = identified_set m \<Longrightarrow> dm_inv n = dm_inv m \<and> device_at n = device_at m"
  by (simp add: dm_inv_def device_at_def fun_eq_iff)

lemma dm_update_refines:
  assumes "dm_inv m"
  shows "dm_inv (dm_update mv sv m)" "dm_own_address (dm_update mv sv m) = dm_own_address m"
    and "device_at (dm_update mv sv m) = spec_update (dm_own_address m) mv sv (device_at m)"
proof -
  have o: "dm_inv (observe_addresses x y m)" "device_at (observe_addresses x y m) = device_at m" for x y
    using dm_inv_cong [of "observe_addresses x y m" m] assms by simp_all
  show "dm_inv (dm_update mv sv m)" "dm_own_address (dm_update mv sv m) = dm_own_address m"
    "device_at (dm_update mv sv m) = spec_update (dm_own_address m) mv sv (device_at m)"
    by (simp_all add: dm_update_def Let_def o updateEntry_refines spec_update_def touched_def)
qed

lemma device_manager_new_inv [simp]:
  "dm_inv (dm_setOwnAddress own (device_manager_new metrics))"
  "device_at (dm_setOwnAddress own (device_manager_new metrics)) = Map.empty"
  by (auto simp: dm_inv_def device_manager_new_def dm_setOwnAddress_def device_at_def fun_eq_iff)

section \<open>Histories\<close>

text \<open>The messages that concern one device, and the device after them.\<close>

definition concerning :: "u8 \<Rightarrow> (u8 \<times> bytes \<times> bytes) list \<Rightarrow> (bytes \<times> bytes) list" where
  "concerning a T = map snd (filter (\<lambda>x. fst x = a) T)"

definition device_after :: "u8 \<Rightarrow> (bytes \<times> bytes) list \<Rightarrow> Device" where
  "device_after a U = fold (\<lambda>(mv, sv). Device_update a mv sv) U Device_new"

lemma concerning_snoc:
  "concerning a (T @ [(b, mv, sv)]) = concerning a T @ (if b = a then [(mv, sv)] else [])"
  by (simp add: concerning_def)

lemma device_after_snoc: "device_after a (U @ [(mv, sv)]) = Device_update a mv sv (device_after a U)"
  by (simp add: device_after_def)

text \<open>
  A device that is in the inventory has been there since the first message that concerned it:
  nothing is ever removed, and once the inventory is full nothing is added.
\<close>

lemma spec_fold:
  fixes T own
  defines "M \<equiv> fold (\<lambda>(a, v, s). spec_touch own a v s) T Map.empty"
  shows "M a = (if a \<in> fst ` set T \<and> a \<noteq> slaveOf own \<and> M a \<noteq> None then Some (device_after a (concerning a T)) else None)"
    and "M a = None \<Longrightarrow> a \<in> fst ` set T \<Longrightarrow> a \<noteq> slaveOf own \<Longrightarrow> max_devices \<le> card (dom M)"
proof -
  have "(M a \<noteq> None \<longrightarrow> a \<in> fst ` set T \<and> a \<noteq> slaveOf own \<and> M a = Some (device_after a (concerning a T)))
    \<and> (M a = None \<longrightarrow> a \<in> fst ` set T \<longrightarrow> a \<noteq> slaveOf own \<longrightarrow> max_devices \<le> card (dom M))" for a
    unfolding M_def
  proof (induction T arbitrary: a rule: rev_induct)
    case (snoc x T)
    obtain b mv sv where x: "x = (b, mv, sv)" by (cases x) auto
    define N where "N = fold (\<lambda>(a, v, s). spec_touch own a v s) T Map.empty"
    have step: "fold (\<lambda>(a, v, s). spec_touch own a v s) (T @ [x]) Map.empty = spec_touch own b mv sv N"
      by (simp add: x N_def)
    have grow: "card (dom N) \<le> card (dom (spec_touch own b mv sv N))"
      by (rule card_mono) (auto simp: spec_touch_def)
    have unseen: "device_after b (concerning b T) = Device_new" if "b \<notin> fst ` set T"
    proof -
      have "concerning b T = []" using that by (force simp: concerning_def filter_empty_conv)
      then show ?thesis by (simp add: device_after_def)
    qed
    note IH = snoc.IH [folded N_def]
    have "b \<notin> fst ` set T" if "N b = None" "b \<noteq> slaveOf own" "card (dom N) < max_devices"
      using IH [of b] that by auto
    then show ?case
      unfolding step using IH [of a] IH [of b] grow unseen
      by (cases "a = b") (auto simp: spec_touch_def x concerning_snoc device_after_snoc split: option.splits if_splits)
  qed (simp add: concerning_def)
  then show "M a = (if a \<in> fst ` set T \<and> a \<noteq> slaveOf own \<and> M a \<noteq> None then Some (device_after a (concerning a T)) else None)"
    "M a = None \<Longrightarrow> a \<in> fst ` set T \<Longrightarrow> a \<noteq> slaveOf own \<Longrightarrow> max_devices \<le> card (dom M)"
    by (metis (no_types, lifting))+
qed

text \<open>The last answer to a command, or nothing.\<close>

definition last_answer :: "bytes \<Rightarrow> (bytes \<times> bytes) list \<Rightarrow> bytes" where
  "last_answer cmd U = (let A = filter (\<lambda>(mv, sv). sv \<noteq> [] \<and> matches mv cmd 2) U in if A = [] then [] else snd (last A))"

lemma last_answer_snoc:
  "last_answer cmd (U @ [(mv, sv)]) = (if sv \<noteq> [] \<and> matches mv cmd 2 then sv else last_answer cmd U)"
  by (simp add: last_answer_def Let_def)

lemma matches_iff: "matches container search index \<longleftrightarrow> take (length search) (drop index container) = search"
proof (cases "index + length search \<le> length container")
  case True
  then have "take (length search) (drop index container) = search \<longleftrightarrow>
      (\<forall>i < length search. container ! (index + i) = search ! i)"
    by (auto simp: list_eq_iff_nth_eq)
  then show ?thesis using True by (auto simp: matches_def list_all_iff)
next
  case False
  then have "search \<noteq> [] \<Longrightarrow> length (take (length search) (drop index container)) \<noteq> length search"
    by (cases search) auto
  then show ?thesis using False by (auto simp: matches_def)
qed

lemma matches_exclusive:
  assumes "matches mv p 2" "matches mv q 2" "p \<in> set (vec_070400 # command_prefixes)" "q \<in> set (vec_070400 # command_prefixes)"
  shows "p = q"
proof -
  have "take (length p) q = take (length q) p"
    using assms(1,2) unfolding matches_iff by (metis min.commute take_take)
  then show ?thesis using assms(3,4) by (auto simp: command_prefixes_def vec_defs)
qed

lemma matches_at_most_one:
  "sorted_wrt (\<lambda>p q. \<not> (matches mv p 2 \<and> matches mv q 2)) (vec_070400 # command_prefixes)"
  (is "sorted_wrt ?R ?xs")
proof -
  have d: "distinct ?xs" by code_simp
  have "?R (?xs ! i) (?xs ! j)" if "i < j" "j < length ?xs" for i j
  proof -
    have "?xs ! i \<noteq> ?xs ! j" using nth_eq_iff_index_eq [OF d less_trans [OF that] that(2)] that(1) by blast
    moreover have "?xs ! i \<in> set ?xs" "?xs ! j \<in> set ?xs" using that by (meson less_trans nth_mem)+
    ultimately show ?thesis using matches_exclusive by blast
  qed
  then show ?thesis unfolding sorted_wrt_iff_nth_less by blast
qed

lemma Device_update_fields:
  fixes a mv sv d
  defines "d' \<equiv> Device_update a mv sv d"
  shows "sq_bytes (dv_070400 d') = (if sv \<noteq> [] \<and> matches mv vec_070400 2 then sv else sq_bytes (dv_070400 d))"
    and "map sq_bytes (storage_fields d') =
      map2 (\<lambda>cmd old. if sv \<noteq> [] \<and> matches mv cmd 2 then sv else old) command_prefixes (map sq_bytes (storage_fields d))"
    and "dv_message_count d' = dv_message_count d + 1"
    and "dv_identified d' = (dv_identified d \<or> sv \<noteq> [] \<and> sq_bytes (dv_070400 d') \<noteq> [])"
proof -
  show "sq_bytes (dv_070400 d') = (if sv \<noteq> [] \<and> matches mv vec_070400 2 then sv else sq_bytes (dv_070400 d))"
    "dv_message_count d' = dv_message_count d + 1"
    "dv_identified d' = (dv_identified d \<or> sv \<noteq> [] \<and> sq_bytes (dv_070400 d') \<noteq> [])"
    by (simp_all add: d'_def Device_update_def Let_def seq_assign_def seq_size_def)
  show "map sq_bytes (storage_fields d') =
      map2 (\<lambda>cmd old. if sv \<noteq> [] \<and> matches mv cmd 2 then sv else old) command_prefixes (map sq_bytes (storage_fields d))"
    using matches_at_most_one [of mv]
    by (simp add: d'_def Device_update_def Let_def seq_assign_def storage_fields_def command_prefixes_def)
qed

lemma device_after_data:
  "sq_bytes (dv_070400 (device_after a U)) = last_answer vec_070400 U"
  "map sq_bytes (storage_fields (device_after a U)) = map (\<lambda>cmd. last_answer cmd U) command_prefixes"
  "dv_message_count (device_after a U) = of_nat (length U)"
  "dv_identified (device_after a U) = (last_answer vec_070400 U \<noteq> [])"
proof (induction U rule: rev_induct)
  case Nil
  {
    case 1 show ?case by (simp add: device_after_def Device_new_def last_answer_def seq_nil_def)
  next
    case 2 show ?case
      by (simp add: device_after_def Device_new_def last_answer_def seq_nil_def storage_fields_def command_prefixes_def)
  next
    case 3 show ?case by (simp add: device_after_def Device_new_def)
  next
    case 4 show ?case by (simp add: device_after_def Device_new_def last_answer_def)
  }
next
  case (snoc x U)
  obtain mv sv where x: "x = (mv, sv)" by (cases x)
  note step = x device_after_snoc Device_update_fields last_answer_snoc snoc
  {
    case 1 show ?case by (simp add: step)
  next
    case 2 show ?case by (simp add: step) (simp add: command_prefixes_def)
  next
    case 3 show ?case by (simp add: step)
  next
    case 4 show ?case by (auto simp: step)
  }
qed

definition history :: "(bytes \<times> bytes) list \<Rightarrow> (u8 \<times> bytes \<times> bytes) list" where
  "history ts = concat (map (\<lambda>(mv, sv). touched mv sv) ts)"

definition manager_after :: "u8 \<Rightarrow> DeviceMetrics option \<Rightarrow> (bytes \<times> bytes) list \<Rightarrow> device_manager" where
  "manager_after own metrics ts =
     fold (\<lambda>(mv, sv). dm_update mv sv) ts (dm_setOwnAddress own (device_manager_new metrics))"

lemma manager_after_refines:
  "dm_inv (manager_after own metrics ts) \<and> dm_own_address (manager_after own metrics ts) = own
   \<and> device_at (manager_after own metrics ts) = fold (\<lambda>(a, v, s). spec_touch own a v s) (history ts) Map.empty"
proof (induction ts rule: rev_induct)
  case Nil
  then show ?case by (simp add: manager_after_def history_def) (simp add: dm_setOwnAddress_def)
next
  case (snoc x ts)
  obtain mv sv where x: "x = (mv, sv)" by (cases x)
  show ?case
    using dm_update_refines [of "manager_after own metrics ts" mv sv] snoc
    by (simp add: x manager_after_def history_def spec_update_def)
qed

section \<open>Properties\<close>

text \<open>
  C27: After any history of telegrams the manager holds at most 16 devices and never the device
  itself. A device it holds has counted every telegram that concerned it, in either role,
  has kept the last answer to each identification command, and is identified exactly when an
  identification request to it has been answered. A device that was seen is missing
  only when the pool is full.
\<close>

theorem inventory_of_history:
  assumes "device_at (manager_after own metrics ts) a = Some d"
  shows "dv_slave d = a \<and> a \<noteq> slaveOf own \<and> card (dom (device_at (manager_after own metrics ts))) \<le> max_devices
    \<and> dv_message_count d = of_nat (length (concerning a (history ts)))
    \<and> sq_bytes (dv_070400 d) = last_answer vec_070400 (concerning a (history ts))
    \<and> map sq_bytes (storage_fields d) = map (\<lambda>cmd. last_answer cmd (concerning a (history ts))) command_prefixes
    \<and> (isIdentified a (manager_after own metrics ts) \<longleftrightarrow> last_answer vec_070400 (concerning a (history ts)) \<noteq> [])
    \<and> (\<forall>b \<in> fst ` set (history ts). b \<noteq> slaveOf own \<longrightarrow> device_at (manager_after own metrics ts) b = None
        \<longrightarrow> card (dom (device_at (manager_after own metrics ts))) = max_devices)"
proof -
  let ?m = "manager_after own metrics ts" and ?U = "concerning a (history ts)"
  have m: "dm_inv ?m" "device_at ?m = fold (\<lambda>(a, v, s). spec_touch own a v s) (history ts) Map.empty"
    using manager_after_refines by blast+
  note spec = spec_fold [where own = own and T = "history ts", folded m(2)]
  have d: "d = device_after a ?U" "a \<noteq> slaveOf own"
    using spec(1) [of a] assms by (auto split: if_splits)
  have "card (dom (device_at ?m)) \<le> max_devices" using device_at_card [OF m(1)] m(1) by (simp add: dm_inv_def)
  moreover from this have "\<forall>b \<in> fst ` set (history ts). b \<noteq> slaveOf own \<longrightarrow> device_at ?m b = None
      \<longrightarrow> card (dom (device_at ?m)) = max_devices"
    using spec(2) le_antisym by blast
  moreover have "dv_slave d = a" using m(1) assms by (auto simp: dm_inv_def device_at_def split: if_splits)
  moreover have "isIdentified a ?m = dv_identified d"
    using assms by (auto simp: isIdentified_def device_at_def split: if_splits)
  ultimately show ?thesis using d(2) device_after_data [of a ?U, folded d(1)] by blast
qed

theorem inventory_of_history_witness:
  "\<exists>d. device_at (manager_after 0xff None [([0x10, 0x08, 0x07, 0x04, 0x00], [0x01, 0xb5])]) 0x08 = Some d
    \<and> dv_message_count d = 1 \<and> sq_bytes (dv_070400 d) = [0x01, 0xb5]"
proof -
  let ?ts = "[([0x10, 0x08, 0x07, 0x04, 0x00], [0x01, 0xb5])] :: (bytes \<times> bytes) list"
  have "device_at (manager_after 0xff None ?ts) 0x08 \<noteq> None"
    "length (concerning 0x08 (history ?ts)) = 1"
    "last_answer vec_070400 (concerning 0x08 (history ?ts)) = [0x01, 0xb5]"
    by code_simp+
  then show ?thesis using inventory_of_history [of "0xff" None ?ts "0x08"] by auto
qed

text \<open>
  The 28 characters of a Vaillant serial number, spread over the answers to the four vendor
  commands, come together in order, and the product code is the digits seven to sixteen.
\<close>

theorem serial_number_assembled:
  assumes "isVaillant d" "length s = 28"
    and "sq_bytes (dv_b5090124 d) = [n1, i1] @ take 8 s" "sq_bytes (dv_b5090125 d) = n2 # take 9 (drop 8 s)"
    and "sq_bytes (dv_b5090126 d) = n3 # take 9 (drop 17 s)" "sq_bytes (dv_b5090127 d) = n4 # drop 26 s @ rest"
  shows "di_serial_number (getDevice d) = s \<and> di_product_code (getDevice d) = take 10 (drop 6 s)"
proof -
  have "s = take 8 s @ take 9 (drop 8 s) @ take 9 (drop 17 s) @ drop 26 s"
    using append_take_drop_id [of 9 "drop 17 s"] append_take_drop_id [of 9 "drop 8 s"] by simp
  moreover have "isVaillantValid d" using assms(3-6) by (simp add: isVaillantValid_def seq_size_def)
  ultimately show ?thesis using assms by (simp add: getDevice_def Let_def appendSegment_def)
qed

definition sample_device :: Device where
  "sample_device = Device_new
     \<lparr>dv_070400 := seq_of [10, 0xb5, 66, 65, 73, 48, 48, 1, 2, 3, 4] False,
      dv_b5090124 := seq_of [9, 0, 50, 49, 50, 48, 49, 48, 48, 48] False,
      dv_b5090125 := seq_of [9, 49, 50, 51, 52, 53, 54, 55, 56, 57] False,
      dv_b5090126 := seq_of [9, 48, 48, 48, 48, 48, 48, 48, 48, 48] False,
      dv_b5090127 := seq_of [9, 78, 55] False\<rparr>"

theorem serial_number_assembled_witness:
  "di_product_code (getDevice sample_device) = [48, 48, 49, 50, 51, 52, 53, 54, 55, 56]"
  using serial_number_assembled [of sample_device
      "[50, 49, 50, 48, 49, 48, 48, 48, 49, 50, 51, 52, 53, 54, 55, 56, 57, 48, 48, 48, 48, 48, 48, 48, 48, 48, 78, 55]"
      9 0 9 9 9 "[]"]
  by (simp add: sample_device_def Device_new_def isVaillant_def seq_size_def seq_of_def vendor_vaillant_def)

text \<open>
  A device that counts as Vaillant, manufacturer \<open>0xb5\<close>, is listed under the name \<open>Unknown\<close>: the
  table has \<open>Vaillant\<close> at \<open>0xb4\<close>.
\<close>

theorem vaillant_listed_unknown:
  assumes "isVaillant d" "11 \<le> seq_size (dv_070400 d)"
  shows "di_manufacturer_name (getDevice d) = Some ''Unknown'' \<and> manufacturerName (vendor_vaillant - 1) = ''Vaillant''"
proof -
  have "manufacturerName vendor_vaillant = ''Unknown''" "manufacturerName (vendor_vaillant - 1) = ''Vaillant''"
    by code_simp+
  then show ?thesis using assms by (simp add: getDevice_def isVaillant_def seq_size_def Let_def)
qed

theorem vaillant_listed_unknown_witness: "di_manufacturer_name (getDevice sample_device) = Some ''Unknown''"
  using vaillant_listed_unknown [of sample_device]
  by (simp add: sample_device_def Device_new_def isVaillant_def seq_size_def seq_of_def vendor_vaillant_def)

end
