(* ===== verification/Device_Scanner.thy ===== *)
theory Device_Scanner
  imports Device_Manager Scheduler
begin

text \<open>
  \<open>DeviceScanner\<close> (\<open>src/ebus/app/device_scanner.hpp\<close>, \<open>.cpp\<close>): it decides which identification
  command is sent next. Deep scans of single devices come first, then the scan of all slave
  addresses, then the periodic scan of the devices seen after a start. The device manager is an
  argument (\<open>None\<close> is the null pointer); the scanner only reads it. The clock and the busy
  predicate are sequences of readings, as in \<open>Poll_Manager\<close>. A difference of two points in
  time is a signed 64-bit count: where it overflows, which C++ leaves undefined, the model
  takes the wrapped value. The mutex is not modelled; \<open>nextCommand\<close> gives it up while it
  collects the devices seen.
\<close>

section \<open>State\<close>

record device_scanner =
  sn_own_address :: u8
  sn_is_busy :: "(nat \<Rightarrow> bool) option"
  pending_deep_scans :: "u8 set"
  failed_scans :: "u8 set"
  quarantined_scans :: "u8 set"
  last_failure_reset_time :: int
  initial_scan_delay :: int
  startup_scan_interval :: int
  next_startup_scan_time :: int
  full_scan :: bool
  full_scan_address :: nat
  scan_on_startup :: bool
  startup_scan_count :: u8
  max_startup_scans :: u8
  current_deep_scan_address :: nat
  current_deep_scan_vendor_cursor :: nat
  startup_iteration_active :: bool
  startup_observed_cursor :: nat
  startup_current_device_addr :: nat
  startup_current_device_id_scan_issued :: bool
  startup_current_device_vendor_cursor :: nat
  scan_attempt_counters :: "u8 \<Rightarrow> u8"
  failure_resets :: u32
  last_scan_attempt :: int
  sn_clock :: "nat \<Rightarrow> int"
  sn_clk_reads :: nat
  sn_busy_reads :: nat

definition time_min :: int where
  "time_min = - (2 ^ 63)"

definition time_sub :: "int \<Rightarrow> int \<Rightarrow> int" where
  "time_sub t s = sint (of_int (t - s) :: 64 word)"

definition seconds :: "int \<Rightarrow> int" where
  "seconds n = 1000000 * n"

text \<open>The defaults of \<open>RuntimeConfig::device\<close>: a delay of 10 s, an interval of 60 s, 5 scans.\<close>

definition device_scanner_new :: "u8 \<Rightarrow> (nat \<Rightarrow> int) \<Rightarrow> device_scanner" where
  "device_scanner_new address readings =
     \<lparr>sn_own_address = address, sn_is_busy = None, pending_deep_scans = {}, failed_scans = {},
      quarantined_scans = {}, last_failure_reset_time = time_min, initial_scan_delay = seconds 10,
      startup_scan_interval = seconds 60, next_startup_scan_time = time_min, full_scan = False,
      full_scan_address = 0, scan_on_startup = False, startup_scan_count = 0, max_startup_scans = 5,
      current_deep_scan_address = 256, current_deep_scan_vendor_cursor = 0, startup_iteration_active = False,
      startup_observed_cursor = 0, startup_current_device_addr = 256,
      startup_current_device_id_scan_issued = False, startup_current_device_vendor_cursor = 0,
      scan_attempt_counters = (\<lambda>a. 0), failure_resets = 0, last_scan_attempt = time_min,
      sn_clock = readings, sn_clk_reads = 0, sn_busy_reads = 0\<rparr>"

definition sn_now :: "device_scanner \<Rightarrow> int \<times> device_scanner" where
  "sn_now s = (sn_clock s (sn_clk_reads s), s\<lparr>sn_clk_reads := sn_clk_reads s + 1\<rparr>)"

definition sn_ask_busy :: "device_scanner \<Rightarrow> bool \<times> device_scanner" where
  "sn_ask_busy s =
     (case sn_is_busy s of
        None \<Rightarrow> (False, s)
      | Some answers \<Rightarrow> (answers (sn_busy_reads s), s\<lparr>sn_busy_reads := sn_busy_reads s + 1\<rparr>))"

section \<open>Configuration\<close>

definition sn_stop :: "device_scanner \<Rightarrow> device_scanner" where
  "sn_stop s = s\<lparr>full_scan := False, pending_deep_scans := {}, failed_scans := {}, quarantined_scans := {},
     last_failure_reset_time := time_min, scan_attempt_counters := (\<lambda>a. 0), current_deep_scan_address := 256,
     startup_iteration_active := False\<rparr>"

definition sn_setOwnAddress :: "u8 \<Rightarrow> device_scanner \<Rightarrow> device_scanner" where
  "sn_setOwnAddress address s = s\<lparr>sn_own_address := address\<rparr>"

definition setScanOnStartup :: "bool \<Rightarrow> device_scanner \<Rightarrow> device_scanner" where
  "setScanOnStartup enable s =
     (let s = s\<lparr>scan_on_startup := enable\<rparr>
      in if enable
         then
           (let s = s\<lparr>startup_scan_count := 0, startup_iteration_active := True, startup_observed_cursor := 0,
                      startup_current_device_addr := 256, startup_current_device_id_scan_issued := False,
                      startup_current_device_vendor_cursor := 0\<rparr>;
                (t, s) = sn_now s
            in s\<lparr>next_startup_scan_time := time_add t (initial_scan_delay s)\<rparr>)
         else s)"

definition setMaxStartupScans :: "u8 \<Rightarrow> device_scanner \<Rightarrow> device_scanner" where
  "setMaxStartupScans n s = s\<lparr>max_startup_scans := n\<rparr>"

definition setInitialScanDelay :: "u32 \<Rightarrow> device_scanner \<Rightarrow> device_scanner" where
  "setInitialScanDelay delay_s s = s\<lparr>initial_scan_delay := seconds (uint delay_s)\<rparr>"

definition setStartupScanInterval :: "u32 \<Rightarrow> device_scanner \<Rightarrow> device_scanner" where
  "setStartupScanInterval interval_s s = s\<lparr>startup_scan_interval := seconds (uint interval_s)\<rparr>"

definition sn_setBusyPredicate :: "(nat \<Rightarrow> bool) option \<Rightarrow> device_scanner \<Rightarrow> device_scanner" where
  "sn_setBusyPredicate pred s = s\<lparr>sn_is_busy := pred\<rparr>"

definition initFullScan :: "bool \<Rightarrow> device_scanner \<Rightarrow> device_scanner" where
  "initFullScan enable s =
     (if enable then s\<lparr>full_scan := enable, full_scan_address := 0\<rparr> else s\<lparr>full_scan := enable\<rparr>)"

section \<open>Requests\<close>

definition scanAddressInternal :: "u8 \<Rightarrow> device_scanner \<Rightarrow> bool \<times> device_scanner" where
  "scanAddressInternal address s =
     (if address = slaveOf (sn_own_address s) then (False, s)
      else if address \<in> pending_deep_scans s then (True, s)
      else (True, s\<lparr>pending_deep_scans := insert address (pending_deep_scans s),
                    failed_scans := failed_scans s - {address},
                    quarantined_scans := quarantined_scans s - {address}\<rparr>))"

fun scan_observed :: "nat list \<Rightarrow> u8 set \<Rightarrow> bool \<Rightarrow> device_scanner \<Rightarrow> bool \<times> device_scanner" where
  "scan_observed [] observed any_added s = (any_added, s)"
| "scan_observed (i # is) observed any_added s =
     (if of_nat i \<in> observed
      then (let (ok, s) = scanAddressInternal (of_nat i) s in scan_observed is observed (any_added \<or> ok) s)
      else scan_observed is observed any_added s)"

definition scanObservedDevices :: "device_manager option \<Rightarrow> device_scanner \<Rightarrow> bool \<times> device_scanner" where
  "scanObservedDevices dm s =
     (case dm of
        None \<Rightarrow> (False, s)
      | Some m \<Rightarrow> scan_observed [0..<256] (getObservedSlaves m) False s)"

definition scanAddress :: "u8 \<Rightarrow> device_scanner \<Rightarrow> bool \<times> device_scanner" where
  "scanAddress = scanAddressInternal"

fun scan_list :: "u8 list \<Rightarrow> bool \<Rightarrow> device_scanner \<Rightarrow> bool \<times> device_scanner" where
  "scan_list [] all_success s = (all_success, s)"
| "scan_list (a # as) all_success s =
     (let (ok, s) = scanAddressInternal a s in scan_list as (all_success \<and> ok) s)"

definition scanAddresses :: "u8 list \<Rightarrow> device_scanner \<Rightarrow> bool \<times> device_scanner" where
  "scanAddresses addresses s = scan_list addresses True s"

section \<open>The next command\<close>

definition batch_reset :: "int \<Rightarrow> device_scanner \<Rightarrow> device_scanner" where
  "batch_reset t s =
     (if failed_scans s \<noteq> {} \<and> time_sub t (last_failure_reset_time s) > seconds 60
      then s\<lparr>failed_scans := {}, last_failure_reset_time := t\<rparr> else s)"

definition epoch_reset :: "int \<Rightarrow> device_scanner \<Rightarrow> device_scanner" where
  "epoch_reset t s =
     (if time_sub t (last_scan_attempt s) > seconds (30 * 60)
      then s\<lparr>failed_scans := {}, quarantined_scans := {}, scan_attempt_counters := (\<lambda>a. 0),
             failure_resets := failure_resets s + 1\<rparr>
      else s)"

definition pick_pending :: "device_scanner \<Rightarrow> device_scanner" where
  "pick_pending s =
     (if current_deep_scan_address s = 256
      then (case find (\<lambda>i. of_nat i \<in> pending_deep_scans s) [0..<256] of
              Some i \<Rightarrow> s\<lparr>current_deep_scan_address := i, current_deep_scan_vendor_cursor := 0,
                          pending_deep_scans := pending_deep_scans s - {of_nat i}\<rparr>
            | None \<Rightarrow> s)
      else s)"

text \<open>The measure of the loop: what is pending, and whether an address is being worked on.\<close>

definition deep_work :: "device_scanner \<Rightarrow> nat" where
  "deep_work s = 2 * card (pending_deep_scans s) + (if current_deep_scan_address s = 256 then 0 else 1)"

lemma find_SomeD: "find P xs = Some x \<Longrightarrow> P x \<and> x \<in> set xs"
  by (induction xs) (auto split: if_splits)

lemma pick_pending_work:
  assumes "current_deep_scan_address (pick_pending s) \<noteq> 256"
    "pending_deep_scans t = pending_deep_scans (pick_pending s)" "current_deep_scan_address t = 256"
  shows "deep_work t < deep_work s"
proof (cases "current_deep_scan_address s = 256")
  case True
  then obtain i where i: "find (\<lambda>i. of_nat i \<in> pending_deep_scans s) [0..<256] = Some i"
    using assms(1) by (cases "find (\<lambda>i. of_nat i \<in> pending_deep_scans s) [0..<256]") (simp_all add: pick_pending_def)
  have "of_nat i \<in> pending_deep_scans s" using find_SomeD [OF i] by blast
  then have "card (pending_deep_scans s - {of_nat i}) < card (pending_deep_scans s)" by (intro card_Diff1_less) simp
  with i have "card (pending_deep_scans t) < card (pending_deep_scans s)"
    using True assms(2) by (simp add: pick_pending_def del: card_Diff_singleton card_Diff_insert)
  then show ?thesis using True assms(3) by (simp add: deep_work_def)
next
  case False
  then show ?thesis using assms(2,3) by (simp add: deep_work_def pick_pending_def)
qed

definition leave_address :: "device_scanner \<Rightarrow> device_scanner" where
  "leave_address s = s\<lparr>current_deep_scan_address := 256\<rparr>"

function deep_loop :: "int \<Rightarrow> device_manager \<Rightarrow> device_scanner \<Rightarrow> sequence option \<times> device_scanner" where
  "deep_loop t m s =
     (if current_deep_scan_address s < 256 \<or> pending_deep_scans s \<noteq> {}
      then
        (let s = pick_pending s
         in if current_deep_scan_address s = 256 then (None, s)
            else
              (let addr = of_nat (current_deep_scan_address s) :: u8
               in if addr \<in> failed_scans s \<or> addr \<in> quarantined_scans s then deep_loop t m (leave_address s)
                  else if \<not> isIdentified addr m
                  then (let cmd = createScanCommand addr
                        in if seq_size cmd \<noteq> 0
                           then (Some cmd, s\<lparr>last_scan_attempt := t, current_deep_scan_address := 256\<rparr>)
                           else deep_loop t m (leave_address s))
                  else (case getNextPendingVendorCommandForDevice addr (current_deep_scan_vendor_cursor s) m of
                          (Some cmd, cursor) \<Rightarrow>
                            (Some cmd, s\<lparr>current_deep_scan_vendor_cursor := cursor, last_scan_attempt := t\<rparr>)
                        | (None, cursor) \<Rightarrow>
                            deep_loop t m (leave_address (s\<lparr>current_deep_scan_vendor_cursor := cursor\<rparr>)))))
      else (None, s))"
  by pat_completeness auto
termination
  by (relation "measure (\<lambda>(t, m, s). deep_work s)") (auto simp: leave_address_def intro!: pick_pending_work)

function full_loop :: "int \<Rightarrow> device_manager \<Rightarrow> device_scanner \<Rightarrow> sequence option \<times> device_scanner" where
  "full_loop t m s =
     (if full_scan_address s < 256
      then
        (let addr = of_nat (full_scan_address s) :: u8; s = s\<lparr>full_scan_address := full_scan_address s + 1\<rparr>
         in if \<not> isSlave addr \<or> addr = slaveOf (sn_own_address s) then full_loop t m s
            else if addr \<in> failed_scans s \<or> addr \<in> quarantined_scans s then full_loop t m s
            else if \<not> isIdentified addr m
            then (let cmd = createScanCommand addr
                  in if seq_size cmd \<noteq> 0 then (Some cmd, s\<lparr>last_scan_attempt := t\<rparr>) else full_loop t m s)
            else full_loop t m s)
      else (None, s))"
  by pat_completeness auto
termination by (relation "measure (\<lambda>(t, m, s). 256 - full_scan_address s)") auto

declare deep_loop.simps [simp del] full_loop.simps [simp del]

text \<open>
  One round: either the call returns (with a command or without), or a startup scan has added
  devices and the next round picks them up.
\<close>

definition startup_round :: "int \<Rightarrow> device_manager \<Rightarrow> device_scanner \<Rightarrow> (sequence option \<times> device_scanner) + device_scanner" where
  "startup_round t m s =
     (if scan_on_startup s \<and> t \<ge> next_startup_scan_time s
      then if startup_scan_count s \<ge> max_startup_scans s then Inl (None, s\<lparr>scan_on_startup := False\<rparr>)
           else (let (added, s) = scanObservedDevices (Some m) s;
                     s = s\<lparr>startup_scan_count := startup_scan_count s + 1,
                           next_startup_scan_time := time_add t (startup_scan_interval s)\<rparr>
                 in if added then Inr s else Inl (None, s))
      else Inl (None, s))"

definition scan_round :: "device_manager \<Rightarrow> device_scanner \<Rightarrow> (sequence option \<times> device_scanner) + device_scanner" where
  "scan_round m s =
     (let (t, s) = sn_now s;
          s = epoch_reset t (batch_reset t s);
          (system_busy, s) = sn_ask_busy s
      in case deep_loop t m s of
           (Some cmd, s) \<Rightarrow> Inl (Some cmd, s)
         | (None, s) \<Rightarrow>
             if system_busy then Inl (None, s)
             else if full_scan s
             then (case full_loop t m s of
                     (Some cmd, s) \<Rightarrow> Inl (Some cmd, s)
                   | (None, s) \<Rightarrow> startup_round t m (s\<lparr>full_scan := False\<rparr>))
             else startup_round t m s)"

text \<open>What the loops may change: the addresses they work on and the time of the last command.\<close>

definition loop_core :: "device_scanner \<Rightarrow> device_scanner" where
  "loop_core s = s\<lparr>pending_deep_scans := {}, current_deep_scan_address := 0, current_deep_scan_vendor_cursor := 0,
     last_scan_attempt := 0, full_scan_address := 0\<rparr>"

definition loop_frame :: "device_scanner \<Rightarrow> device_scanner \<Rightarrow> bool" where
  "loop_frame s s' \<longleftrightarrow> loop_core s' = loop_core s"

lemma loop_frame_steps:
  "loop_frame s s" "loop_frame s (pick_pending s)" "loop_frame s' s'' \<Longrightarrow> loop_frame s s' \<Longrightarrow> loop_frame s s''"
  "loop_frame s t \<Longrightarrow> loop_frame s (leave_address t)"
  "loop_frame s t \<Longrightarrow> loop_frame s (t\<lparr>current_deep_scan_vendor_cursor := v\<rparr>)"
  "loop_frame s t \<Longrightarrow> loop_frame s (t\<lparr>last_scan_attempt := l\<rparr>)"
  "loop_frame s t \<Longrightarrow> loop_frame s (t\<lparr>current_deep_scan_address := c\<rparr>)"
  "loop_frame s t \<Longrightarrow> loop_frame s (t\<lparr>full_scan_address := n\<rparr>)"
  by (simp_all add: loop_frame_def loop_core_def leave_address_def pick_pending_def split: option.split)

lemma loop_frame_fields:
  assumes "loop_frame s s'"
  shows "sn_own_address s' = sn_own_address s" "failed_scans s' = failed_scans s"
    "quarantined_scans s' = quarantined_scans s" "last_failure_reset_time s' = last_failure_reset_time s"
    "full_scan s' = full_scan s"
    "scan_on_startup s' = scan_on_startup s" "startup_scan_count s' = startup_scan_count s"
    "max_startup_scans s' = max_startup_scans s" "scan_attempt_counters s' = scan_attempt_counters s"
    "sn_clock s' = sn_clock s" "sn_is_busy s' = sn_is_busy s" "next_startup_scan_time s' = next_startup_scan_time s"
    "startup_scan_interval s' = startup_scan_interval s"
  using assms by (cases s; cases s'; simp add: loop_frame_def loop_core_def)+

lemma deep_loop_frame: "loop_frame s (snd (deep_loop t m s))"
proof (induction t m s rule: deep_loop.induct)
  case (1 t m s)
  let ?p = "pick_pending s"
  let ?addr = "of_nat (current_deep_scan_address ?p) :: u8"
  let ?r = "getNextPendingVendorCommandForDevice ?addr (current_deep_scan_vendor_cursor ?p) m"
  have IH: "loop_frame s (snd (deep_loop t m x))"
    if "loop_frame s x" "loop_frame x (snd (deep_loop t m x))" for x
    using that loop_frame_steps(3) by blast
  show ?case
  proof (cases "(current_deep_scan_address s < 256 \<or> pending_deep_scans s \<noteq> {}) \<and> current_deep_scan_address ?p \<noteq> 256")
    case False
    then show ?thesis using loop_frame_steps(1,2) by (subst deep_loop.simps) (auto simp: Let_def)
  next
    case True
    note IHs = 1 [OF conjunct1 [OF True] refl conjunct2 [OF True] refl]
    consider (skip) "?addr \<in> failed_scans ?p \<or> ?addr \<in> quarantined_scans ?p"
      | (scan) "\<not> (?addr \<in> failed_scans ?p \<or> ?addr \<in> quarantined_scans ?p)" "\<not> isIdentified ?addr m"
      | (vendor) "\<not> (?addr \<in> failed_scans ?p \<or> ?addr \<in> quarantined_scans ?p)" "isIdentified ?addr m" by blast
    then show ?thesis
    proof cases
      case skip
      then show ?thesis
        using True IH [OF loop_frame_steps(4) [OF loop_frame_steps(2)] IHs(1) [OF skip]]
        by (subst deep_loop.simps) (simp add: Let_def)
    next
      case scan
      then show ?thesis
        using True IH [OF loop_frame_steps(4) [OF loop_frame_steps(2)] IHs(2) [OF scan refl]] loop_frame_steps(2,6,7)
        by (subst deep_loop.simps) (simp add: Let_def)
    next
      case vendor
      obtain cmd cursor where r: "?r = (cmd, cursor)" by (cases ?r)
      show ?thesis
      proof (cases cmd)
        case None
        then show ?thesis
          using True vendor r IH [OF loop_frame_steps(4) [OF loop_frame_steps(5) [OF loop_frame_steps(2)]]]
            IHs(3) [OF vendor(1)] by (subst deep_loop.simps) (simp add: Let_def)
      next
        case (Some c)
        then show ?thesis
          using True vendor r loop_frame_steps(2,5,6) by (subst deep_loop.simps) (simp add: Let_def)
      qed
    qed
  qed
qed

text \<open>Which addresses the full scan probes.\<close>

definition probe :: "device_manager \<Rightarrow> device_scanner \<Rightarrow> u8 \<Rightarrow> bool" where
  "probe m s addr \<longleftrightarrow> isSlave addr \<and> addr \<noteq> slaveOf (sn_own_address s) \<and> addr \<notin> failed_scans s
     \<and> addr \<notin> quarantined_scans s \<and> \<not> isIdentified addr m"

lemma createScanCommand_bytes: "createScanCommand a = seq_of [a, 0x07, 0x04, 0x00] False"
  by (simp add: createScanCommand_def push_all_def vec_070400_def seq_push_back_def seq_nil_def seq_of_def)

lemma full_loop_step:
  fixes s m
  defines "s' \<equiv> s\<lparr>full_scan_address := full_scan_address s + 1\<rparr>"
  shows "full_loop t m s =
    (if full_scan_address s < 256
     then if probe m s (of_nat (full_scan_address s))
          then (Some (createScanCommand (of_nat (full_scan_address s))), s'\<lparr>last_scan_attempt := t\<rparr>)
          else full_loop t m s'
     else (None, s))"
proof -
  have "seq_size (createScanCommand a) \<noteq> 0" for a by (simp add: createScanCommand_bytes seq_size_def seq_of_def)
  then show ?thesis
    by (subst full_loop.simps) (auto simp: Let_def s'_def probe_def)
qed

lemma full_loop_frame: "loop_frame s (snd (full_loop t m s))"
proof (induction "256 - full_scan_address s" arbitrary: s rule: less_induct)
  case less
  let ?s = "s\<lparr>full_scan_address := full_scan_address s + 1\<rparr>"
  have step: "loop_frame s ?s" "loop_frame s (?s\<lparr>last_scan_attempt := t\<rparr>)"
    using loop_frame_steps(1,6,8) by blast+
  show ?case
  proof (cases "full_scan_address s < 256")
    case True
    then have "loop_frame ?s (snd (full_loop t m ?s))" by (intro less) simp
    from loop_frame_steps(3) [OF this step(1)] show ?thesis using True step(2) by (subst full_loop_step) simp
  next
    case False
    then show ?thesis using loop_frame_steps(1) by (subst full_loop_step) simp
  qed
qed

lemma scanAddressInternal_frame:
  "startup_scan_count (snd (scanAddressInternal a s)) = startup_scan_count s
   \<and> max_startup_scans (snd (scanAddressInternal a s)) = max_startup_scans s
   \<and> last_failure_reset_time (snd (scanAddressInternal a s)) = last_failure_reset_time s
   \<and> scan_attempt_counters (snd (scanAddressInternal a s)) = scan_attempt_counters s
   \<and> sn_clock (snd (scanAddressInternal a s)) = sn_clock s"
  by (simp add: scanAddressInternal_def)

lemma scan_observed_frame:
  "startup_scan_count (snd (scan_observed is obs b s)) = startup_scan_count s
   \<and> max_startup_scans (snd (scan_observed is obs b s)) = max_startup_scans s
   \<and> last_failure_reset_time (snd (scan_observed is obs b s)) = last_failure_reset_time s
   \<and> scan_attempt_counters (snd (scan_observed is obs b s)) = scan_attempt_counters s
   \<and> sn_clock (snd (scan_observed is obs b s)) = sn_clock s"
  by (induction "is" obs b s rule: scan_observed.induct) (simp_all add: scanAddressInternal_frame split_beta)

lemma scanObservedDevices_frame:
  "startup_scan_count (snd (scanObservedDevices dm s)) = startup_scan_count s
   \<and> max_startup_scans (snd (scanObservedDevices dm s)) = max_startup_scans s
   \<and> last_failure_reset_time (snd (scanObservedDevices dm s)) = last_failure_reset_time s
   \<and> scan_attempt_counters (snd (scanObservedDevices dm s)) = scan_attempt_counters s
   \<and> sn_clock (snd (scanObservedDevices dm s)) = sn_clock s"
  by (cases dm) (simp_all add: scanObservedDevices_def scan_observed_frame)

lemma reset_frames:
  "startup_scan_count (batch_reset t s) = startup_scan_count s" "max_startup_scans (batch_reset t s) = max_startup_scans s"
  "startup_scan_count (epoch_reset t s) = startup_scan_count s" "max_startup_scans (epoch_reset t s) = max_startup_scans s"
  "startup_scan_count (snd (sn_ask_busy s)) = startup_scan_count s" "max_startup_scans (snd (sn_ask_busy s)) = max_startup_scans s"
  "startup_scan_count (snd (sn_now s)) = startup_scan_count s" "max_startup_scans (snd (sn_now s)) = max_startup_scans s"
  by (simp_all add: batch_reset_def epoch_reset_def sn_ask_busy_def sn_now_def split: option.split)

text \<open>A further round has used up one of the startup scans.\<close>

lemma startup_round_again:
  assumes "startup_round t m s = Inr s'"
  shows "startup_scan_count s < max_startup_scans s" "startup_scan_count s' = startup_scan_count s + 1"
    "max_startup_scans s' = max_startup_scans s"
  using assms scanObservedDevices_frame [of "Some m" s]
  by (auto simp: startup_round_def split_beta Let_def split: if_splits)

definition round_start :: "device_scanner \<Rightarrow> device_scanner" where
  "round_start s = (let t = fst (sn_now s) in epoch_reset t (batch_reset t (snd (sn_now s))))"

lemma scan_round_eq:
  fixes m s
  defines "t \<equiv> fst (sn_now s)" and "b \<equiv> sn_ask_busy (round_start s)"
  defines "d \<equiv> deep_loop t m (snd b)"
  defines "f \<equiv> full_loop t m (snd d)"
  shows "scan_round m s =
    (if fst d \<noteq> None then Inl d
     else if fst b then Inl (None, snd d)
     else if full_scan (snd d)
     then if fst f \<noteq> None then Inl f else startup_round t m ((snd f)\<lparr>full_scan := False\<rparr>)
     else startup_round t m (snd d))"
proof -
  obtain dc ds where d: "d = (dc, ds)" by (cases d)
  obtain fc fs where f: "f = (fc, fs)" by (cases f)
  have "deep_loop t m (snd b) = (dc, ds)" "full_loop t m ds = (fc, fs)" using d f by (simp_all add: d_def f_def)
  then show ?thesis
    unfolding d f
    by (cases dc; cases fc) (simp_all add: scan_round_def round_start_def split_beta Let_def b_def t_def)
qed

lemma round_start_frame:
  "startup_scan_count (round_start s) = startup_scan_count s" "max_startup_scans (round_start s) = max_startup_scans s"
  by (simp_all add: round_start_def Let_def reset_frames)

lemma scan_round_again:
  assumes "scan_round m s = Inr s'"
  shows "unat (max_startup_scans s') - unat (startup_scan_count s') < unat (max_startup_scans s) - unat (startup_scan_count s)"
proof -
  obtain t u where u: "startup_round t m u = Inr s'" "startup_scan_count u = startup_scan_count s"
    "max_startup_scans u = max_startup_scans s"
    using assms unfolding scan_round_eq
    by (auto simp: loop_frame_fields(7,8) [OF deep_loop_frame] loop_frame_fields(7,8) [OF full_loop_frame]
        reset_frames round_start_frame split: if_splits)
  have lt: "unat (startup_scan_count s) < unat (max_startup_scans s)"
    using startup_round_again(1) [OF u(1)] u(2,3) by (simp add: word_less_nat_alt)
  moreover have "unat (max_startup_scans s) < 256" using unsigned_less [of "max_startup_scans s"] by simp
  ultimately have "unat (startup_scan_count s + 1) = unat (startup_scan_count s) + 1" by (simp add: unat_word_ariths)
  then show ?thesis using lt startup_round_again(2,3) [OF u(1)] u(2,3) by simp
qed

function next_loop :: "device_manager \<Rightarrow> device_scanner \<Rightarrow> sequence \<times> device_scanner" where
  "next_loop m s =
     (case scan_round m s of
        Inl (Some cmd, s) \<Rightarrow> (cmd, s)
      | Inl (None, s) \<Rightarrow> (seq_nil, s)
      | Inr s \<Rightarrow> next_loop m s)"
  by pat_completeness auto
termination
  by (relation "measure (\<lambda>(m, s). unat (max_startup_scans s) - unat (startup_scan_count s))")
    (auto dest: scan_round_again)

declare next_loop.simps [simp del]

definition nextCommand :: "device_manager option \<Rightarrow> device_scanner \<Rightarrow> sequence \<times> device_scanner" where
  "nextCommand dm s = (case dm of None \<Rightarrow> (seq_nil, s) | Some m \<Rightarrow> next_loop m s)"

section \<open>Results\<close>

definition onScanResult :: "device_manager option \<Rightarrow> u8 \<Rightarrow> bool \<Rightarrow> device_scanner \<Rightarrow> device_scanner" where
  "onScanResult dm address success s =
     (let n = scan_attempt_counters s address + 1
      in if \<not> success
         then
           (let s = s\<lparr>failed_scans := insert address (failed_scans s),
                      scan_attempt_counters := (scan_attempt_counters s)(address := n)\<rparr>
            in if n \<ge> 10
               then s\<lparr>quarantined_scans := insert address (quarantined_scans s),
                      scan_attempt_counters := (scan_attempt_counters s)(address := 0)\<rparr>
               else s)
         else
           (let s = s\<lparr>failed_scans := failed_scans s - {address}\<rparr>
            in if (case dm of None \<Rightarrow> False | Some m \<Rightarrow> needsDeepScan address m)
               then
                 (let s = s\<lparr>scan_attempt_counters := (scan_attempt_counters s)(address := n)\<rparr>
                  in if n < 10 then s\<lparr>pending_deep_scans := insert address (pending_deep_scans s)\<rparr>
                     else s\<lparr>quarantined_scans := insert address (quarantined_scans s),
                            scan_attempt_counters := (scan_attempt_counters s)(address := 0)\<rparr>)
               else s\<lparr>scan_attempt_counters := (scan_attempt_counters s)(address := 0)\<rparr>))"

definition isScanning :: "device_scanner \<Rightarrow> bool" where
  "isScanning s \<longleftrightarrow> full_scan s \<or> scan_on_startup s \<or> pending_deep_scans s \<noteq> {}"

section \<open>A full scan\<close>

text \<open>
  Nothing but the full scan is under way, and no address is on hold.
\<close>

definition quiet :: "device_scanner \<Rightarrow> bool" where
  "quiet s \<longleftrightarrow> full_scan s \<and> pending_deep_scans s = {} \<and> current_deep_scan_address s = 256 \<and> failed_scans s = {}
     \<and> quarantined_scans s = {} \<and> sn_is_busy s = None \<and> \<not> scan_on_startup s"

lemma quiet_start:
  assumes "quiet s"
  shows "quiet (round_start s)" "sn_own_address (round_start s) = sn_own_address s"
    "full_scan_address (round_start s) = full_scan_address s"
    "round_start (s\<lparr>full_scan_address := k\<rparr>) = (round_start s)\<lparr>full_scan_address := k\<rparr>"
  using assms by (simp_all add: round_start_def Let_def quiet_def epoch_reset_def batch_reset_def sn_now_def)

lemma quiet_probe: "quiet s \<Longrightarrow> quiet s' \<Longrightarrow> sn_own_address s' = sn_own_address s \<Longrightarrow> probe m s' = probe m s"
  by (auto simp: quiet_def probe_def fun_eq_iff)

lemma quiet_next:
  fixes m s
  assumes "quiet s"
  defines "f \<equiv> full_loop (fst (sn_now s)) m (round_start s)"
  shows "nextCommand (Some m) s =
    (case fst f of Some cmd \<Rightarrow> (cmd, snd f) | None \<Rightarrow> (seq_nil, (snd f)\<lparr>full_scan := False\<rparr>))"
proof -
  let ?t = "fst (sn_now s)" and ?s = "round_start s"
  have q: "quiet ?s" using quiet_start(1) [OF assms(1)] .
  then have d: "sn_ask_busy ?s = (False, ?s)" "deep_loop ?t m ?s = (None, ?s)" "full_scan ?s"
    by (simp_all add: quiet_def sn_ask_busy_def deep_loop.simps)
  have "\<not> scan_on_startup (snd f)"
    using q loop_frame_fields(6) [OF full_loop_frame, of ?t m ?s] by (simp add: f_def quiet_def)
  then have "scan_round m s = (case fst f of Some cmd \<Rightarrow> Inl f | None \<Rightarrow> Inl (None, (snd f)\<lparr>full_scan := False\<rparr>))"
    unfolding scan_round_eq by (auto simp: d f_def [symmetric] startup_round_def split: option.split)
  then show ?thesis
    by (cases "fst f"; cases f) (simp_all add: nextCommand_def next_loop.simps [of m s])
qed

fun scan_calls :: "device_manager \<Rightarrow> nat \<Rightarrow> device_scanner \<Rightarrow> sequence list" where
  "scan_calls m 0 s = []"
| "scan_calls m (Suc n) s = (let (cmd, s) = nextCommand (Some m) s in cmd # scan_calls m n s)"

lemma quiet_calls:
  assumes "quiet s" "k = full_scan_address s" "k \<le> 256"
  shows "scan_calls m (Suc (length (filter (probe m s) (map of_nat [k..<256])))) s
    = map createScanCommand (filter (probe m s) (map of_nat [k..<256])) @ [seq_nil]"
  using assms
proof (induction "256 - k" arbitrary: k s rule: less_induct)
  case less
  let ?t = "fst (sn_now s)" and ?s = "round_start s" and ?a = "of_nat k :: u8"
  note q = less.prems(1) and st = quiet_start [OF less.prems(1)]
  have pr: "probe m ?s = probe m s" using quiet_probe [OF q st(1,2)] .
  show ?case
  proof (cases "k < 256")
    case False
    then have "full_loop ?t m ?s = (None, ?s)" using st(3) less.prems(2) by (subst full_loop_step) simp
    then show ?thesis using quiet_next [OF q, of m] False less.prems(3) by (simp add: split_beta)
  next
    case True
    then have cons: "[k..<256] = k # [k + 1..<256]" by (simp add: upt_conv_Cons)
    show ?thesis
    proof (cases "probe m s ?a")
      case p: True
      let ?s' = "?s\<lparr>full_scan_address := k + 1, last_scan_attempt := ?t\<rparr>"
      have "full_loop ?t m ?s = (Some (createScanCommand ?a), ?s')"
        using True p pr st(3) less.prems(2) by (subst full_loop_step) simp
      then have n: "nextCommand (Some m) s = (createScanCommand ?a, ?s')" using quiet_next [OF q, of m] by simp
      have q': "quiet ?s'" "sn_own_address ?s' = sn_own_address s" using st(1,2) by (simp_all add: quiet_def)
      have "probe m ?s' = probe m s" using quiet_probe [OF q q'] .
      then show ?thesis using less.hyps [OF _ q'(1), of "k + 1"] True p n by (simp add: cons)
    next
      case p: False
      let ?s' = "s\<lparr>full_scan_address := k + 1\<rparr>"
      have q': "quiet ?s'" "sn_own_address ?s' = sn_own_address s" using q by (simp_all add: quiet_def)
      have e: "full_loop ?t m ?s = full_loop ?t m (?s\<lparr>full_scan_address := k + 1\<rparr>)"
        using True p pr st(3) less.prems(2) by (subst full_loop_step) simp
      have "fst (sn_now ?s') = ?t" by (simp add: sn_now_def)
      then have "nextCommand (Some m) s = nextCommand (Some m) ?s'"
        unfolding quiet_next [OF q] quiet_next [OF q'(1)] st(4) e by (simp only:)
      moreover have "probe m ?s' = probe m s" using quiet_probe [OF q q'] .
      ultimately show ?thesis using less.hyps [OF _ q'(1), of "k + 1"] True p by (simp add: cons)
    qed
  qed
qed

section \<open>Reachable states\<close>

inductive scanner_step :: "device_scanner \<Rightarrow> device_scanner \<Rightarrow> bool" where
  sn_step_stop: "scanner_step s (sn_stop s)"
| sn_step_setOwnAddress: "scanner_step s (sn_setOwnAddress a s)"
| sn_step_setScanOnStartup: "scanner_step s (setScanOnStartup b s)"
| sn_step_setMaxStartupScans: "scanner_step s (setMaxStartupScans n s)"
| sn_step_setInitialScanDelay: "scanner_step s (setInitialScanDelay d s)"
| sn_step_setStartupScanInterval: "scanner_step s (setStartupScanInterval d s)"
| sn_step_setBusyPredicate: "scanner_step s (sn_setBusyPredicate f s)"
| sn_step_initFullScan: "scanner_step s (initFullScan b s)"
| sn_step_scanObservedDevices: "scanner_step s (snd (scanObservedDevices dm s))"
| sn_step_scanAddress: "scanner_step s (snd (scanAddress a s))"
| sn_step_scanAddresses: "scanner_step s (snd (scanAddresses as s))"
| sn_step_nextCommand: "scanner_step s (snd (nextCommand dm s))"
| sn_step_onScanResult: "scanner_step s (onScanResult dm a ok s)"

lemma time_sub_min: "0 \<le> t \<Longrightarrow> t < 2 ^ 63 \<Longrightarrow> time_sub t time_min < 0"
  using int_word_sint [of "t - time_min", where 'a = 64] by (simp add: time_sub_def time_min_def)

text \<open>
  The time of the last reset starts at the earliest point in time. Its distance to any later
  reading of the clock does not fit 64 bits; wrapped, it is negative, and the reset that would
  advance it is never due. A counter is below ten between the operations.
\<close>

definition never_reset :: "(nat \<Rightarrow> int) \<Rightarrow> device_scanner \<Rightarrow> bool" where
  "never_reset readings s \<longleftrightarrow> last_failure_reset_time s = time_min \<and> sn_clock s = readings
     \<and> (\<forall>a. scan_attempt_counters s a < 10)"

lemma never_reset_loop: "loop_frame s s' \<Longrightarrow> never_reset readings s' = never_reset readings s"
  by (simp add: never_reset_def loop_frame_fields)

lemma startup_round_result:
  "startup_round t m s = Inl r \<Longrightarrow> never_reset readings (snd r) = never_reset readings s"
  "startup_round t m s = Inr s' \<Longrightarrow> never_reset readings s' = never_reset readings s"
  using scanObservedDevices_frame [of "Some m" s]
  by (auto simp: startup_round_def never_reset_def split_beta Let_def split: if_splits)

definition valid_readings :: "(nat \<Rightarrow> int) \<Rightarrow> bool" where
  "valid_readings readings \<longleftrightarrow> (\<forall>i. 0 \<le> readings i \<and> readings i < 2 ^ 63)"

lemma batch_reset_never:
  assumes "valid_readings readings" "never_reset readings s"
  shows "batch_reset (readings i) s = s"
  using time_sub_min [of "readings i"] assms
  by (simp add: batch_reset_def never_reset_def valid_readings_def seconds_def not_less)

lemma round_start_never:
  assumes "valid_readings readings" "never_reset readings s"
  shows "never_reset readings (snd (sn_ask_busy (round_start s)))"
proof -
  have n: "never_reset readings (snd (sn_now s))" "fst (sn_now s) = readings (sn_clk_reads s)"
    using assms(2) by (simp_all add: never_reset_def sn_now_def)
  have "never_reset readings (round_start s)"
    using n(1) batch_reset_never [OF assms(1) n(1)] unfolding round_start_def Let_def n(2)
    by (simp add: epoch_reset_def never_reset_def)
  then show ?thesis by (simp add: never_reset_def sn_ask_busy_def split: option.split)
qed

lemma scan_round_never:
  assumes "valid_readings readings" "never_reset readings s"
  shows "scan_round m s = Inl r \<Longrightarrow> never_reset readings (snd r)"
    and "scan_round m s = Inr s' \<Longrightarrow> never_reset readings s'"
proof -
  let ?b = "snd (sn_ask_busy (round_start s))" and ?t = "fst (sn_now s)"
  have d: "never_reset readings (snd (deep_loop ?t m ?b))"
    using round_start_never [OF assms] never_reset_loop [OF deep_loop_frame] by blast
  then have f: "never_reset readings (snd (full_loop ?t m (snd (deep_loop ?t m ?b))))"
    using never_reset_loop [OF full_loop_frame] by blast
  then have f': "never_reset readings ((snd (full_loop ?t m (snd (deep_loop ?t m ?b))))\<lparr>full_scan := False\<rparr>)"
    by (simp add: never_reset_def)
  show "scan_round m s = Inl r \<Longrightarrow> never_reset readings (snd r)"
    "scan_round m s = Inr s' \<Longrightarrow> never_reset readings s'"
    using d f startup_round_result [THEN iffD2, OF _ d] startup_round_result [THEN iffD2, OF _ f'] unfolding scan_round_eq
    by (auto split: if_splits)
qed

lemma next_loop_never:
  "valid_readings readings \<Longrightarrow> never_reset readings s \<Longrightarrow> never_reset readings (snd (next_loop m s))"
proof (induction m s rule: next_loop.induct)
  case (1 m s)
  note r = scan_round_never [OF 1(2,3), where m = m]
  show ?case
  proof (cases "scan_round m s")
    case (Inl x)
    then show ?thesis using r(1) [OF Inl] by (subst next_loop.simps) (cases x; simp split: option.split)
  next
    case (Inr x)
    then show ?thesis using 1(1) [OF Inr 1(2) r(2) [OF Inr]] by (subst next_loop.simps) simp
  qed
qed

lemma scan_list_frame:
  "never_reset readings s \<Longrightarrow> never_reset readings (snd (scan_list as ok s))"
  by (induction "as" ok s rule: scan_list.induct)
    (simp_all add: split_beta never_reset_def scanAddressInternal_frame)

lemma onScanResult_never:
  assumes "never_reset readings s"
  shows "never_reset readings (onScanResult dm a ok s)"
  using assms by (auto simp: onScanResult_def never_reset_def Let_def not_le)

lemma scanner_step_never:
  assumes "scanner_step s s'" "valid_readings readings" "never_reset readings s"
  shows "never_reset readings s'"
  using assms(1,3)
proof cases
  case (sn_step_nextCommand dm)
  then show ?thesis using next_loop_never [OF assms(2,3)] assms(3) by (simp add: nextCommand_def split: option.split)
next
  case (sn_step_onScanResult dm a ok)
  then show ?thesis using onScanResult_never [OF assms(3)] by simp
next
  case (sn_step_scanAddresses as)
  then show ?thesis using scan_list_frame [OF assms(3)] by (simp add: scanAddresses_def)
qed (simp_all add: never_reset_def sn_stop_def sn_setOwnAddress_def setScanOnStartup_def sn_now_def Let_def
    setMaxStartupScans_def setInitialScanDelay_def setStartupScanInterval_def sn_setBusyPredicate_def initFullScan_def
    scanObservedDevices_frame scanAddress_def scanAddressInternal_frame)

lemma scanner_reachable:
  assumes "scanner_step\<^sup>*\<^sup>* (device_scanner_new a readings) s" "valid_readings readings"
  shows "never_reset readings s"
  using assms(1)
proof (induction rule: rtranclp_induct)
  case base
  then show ?case by (simp add: never_reset_def device_scanner_new_def)
next
  case (step s s')
  then show ?case using scanner_step_never assms(2) by blast
qed

definition unknown_slaves :: "device_manager \<Rightarrow> device_scanner \<Rightarrow> u8 list" where
  "unknown_slaves m s =
     filter (\<lambda>a. isSlave a \<and> a \<noteq> slaveOf (sn_own_address s) \<and> \<not> isIdentified a m) (map of_nat [0..<256])"

lemma next_pending_found:
  assumes "n \<in> set ns" "device_at m (of_nat n) = Some d" "getFirstPendingVendorCommand d \<noteq> None"
  shows "fst (next_pending ns m) \<in> set ns"
  using assms(1)
proof (induction ns)
  case (Cons k ns)
  then show ?case
    using assms(2,3) by (auto simp: Let_def device_at_def split: option.splits if_splits)
qed simp

lemma needsDeepScan_higher:
  assumes "isIdentified a m" "device_at m b = Some d" "getFirstPendingVendorCommand d \<noteq> None" "a \<le> b"
  shows "needsDeepScan a m"
proof -
  have "unat b < 256" using unsigned_less [of b] by simp
  then have "unat b \<in> set [unat a..<256]" using assms(4) by (simp add: word_le_nat_alt del: upt_rec_numeral)
  then have "fst (next_pending [unat a..<256] m) \<in> set [unat a..<256]"
    using assms(2,3) by (intro next_pending_found [of "unat b"]) simp_all
  then show ?thesis using assms(1) by (auto simp: needsDeepScan_def findNextPendingVendorCommand_def)
qed

lemma misjudged_step:
  assumes "needsDeepScan a m" "scan_attempt_counters s a < 9"
  shows "scan_attempt_counters (onScanResult (Some m) a True s) a = scan_attempt_counters s a + 1"
proof -
  have "scan_attempt_counters s a + 1 < 10"
    using inc_below [of "scan_attempt_counters s a"] assms(2) by (simp add: word_less_nat_alt)
  then show ?thesis using assms(1) by (simp add: onScanResult_def Let_def)
qed

section \<open>A full scan among everything else\<close>

lemma pick_pending_address [simp]: "full_scan_address (pick_pending s) = full_scan_address s"
  by (simp add: pick_pending_def split: option.split)

lemma deep_loop_address: "full_scan_address (snd (deep_loop t m s)) = full_scan_address s"
proof (induction t m s rule: deep_loop.induct)
  case (1 t m s)
  show ?case
    by (subst deep_loop.simps) (auto simp: 1 leave_address_def [symmetric] Let_def split: prod.split option.split,
      auto simp: leave_address_def)
qed

lemma scan_observed_scan:
  "full_scan (snd (scan_observed is obs b s)) = full_scan s"
  by (induction "is" obs b s rule: scan_observed.induct) (simp_all add: scanAddressInternal_def split_beta)

lemma startup_round_scan:
  "startup_round t m s = Inl r \<Longrightarrow> full_scan (snd r) = full_scan s"
  "startup_round t m s = Inr s' \<Longrightarrow> full_scan s' = full_scan s"
  using scan_observed_scan [of "[0..<256]" "getObservedSlaves m" False s]
  by (auto simp: startup_round_def scanObservedDevices_def split_beta Let_def split: if_splits)

lemma round_start_scan [simp]:
  "full_scan (snd (sn_ask_busy (round_start s))) = full_scan s"
  "full_scan_address (snd (sn_ask_busy (round_start s))) = full_scan_address s"
  "sn_own_address (snd (sn_ask_busy (round_start s))) = sn_own_address s"
  by (simp_all add: round_start_def sn_ask_busy_def sn_now_def batch_reset_def epoch_reset_def Let_def split: option.split)

lemma round_start_holds:
  "failed_scans (snd (sn_ask_busy (round_start s))) \<subseteq> failed_scans s"
  "quarantined_scans (snd (sn_ask_busy (round_start s))) \<subseteq> quarantined_scans s"
  by (auto simp: round_start_def sn_ask_busy_def sn_now_def batch_reset_def epoch_reset_def Let_def split: option.splits if_splits)

text \<open>A full scan that is over stays over.\<close>

lemma next_loop_over: "\<not> full_scan s \<Longrightarrow> \<not> full_scan (snd (next_loop m s))"
proof (induction m s rule: next_loop.induct)
  case (1 m s)
  let ?d = "deep_loop (fst (sn_now s)) m (snd (sn_ask_busy (round_start s)))"
  have d: "\<not> full_scan (snd ?d)" using 1(2) loop_frame_fields(5) [OF deep_loop_frame] by simp
  show ?case
  proof (cases "scan_round m s")
    case (Inl x)
    then have "\<not> full_scan (snd x)"
      using d startup_round_scan(1) unfolding scan_round_eq by (auto split: if_splits)
    then show ?thesis using Inl by (subst next_loop.simps) (cases x; simp split: option.split)
  next
    case (Inr x)
    then have "\<not> full_scan x"
      using d startup_round_scan(2) unfolding scan_round_eq by (auto split: if_splits)
    then show ?thesis using 1(1) [OF Inr] Inr by (subst next_loop.simps) simp
  qed
qed

text \<open>The search for the next address: it stops at the first one to be probed.\<close>

lemma full_loop_result:
  assumes "full_scan_address s \<le> 256"
  shows "(case full_loop t m s of
      (Some cmd, s') \<Rightarrow> \<exists>k. full_scan_address s \<le> k \<and> k < 256 \<and> probe m s (of_nat k) \<and> cmd = createScanCommand (of_nat k)
        \<and> full_scan_address s' = k + 1 \<and> (\<forall>j. full_scan_address s \<le> j \<and> j < k \<longrightarrow> \<not> probe m s (of_nat j))
    | (None, s') \<Rightarrow> \<forall>j. full_scan_address s \<le> j \<and> j < 256 \<longrightarrow> \<not> probe m s (of_nat j))"
  using assms
proof (induction "256 - full_scan_address s" arbitrary: s rule: less_induct)
  case less
  let ?k = "full_scan_address s" and ?s = "s\<lparr>full_scan_address := full_scan_address s + 1\<rparr>"
  consider "?k = 256" | (hit) "?k < 256" "probe m s (of_nat ?k)" | (miss) "?k < 256" "\<not> probe m s (of_nat ?k)"
    using less.prems by linarith
  then show ?case
  proof cases
    case miss
    then have e: "full_loop t m s = full_loop t m ?s" by (subst full_loop_step) simp
    have p: "probe m ?s = probe m s" by (simp add: probe_def fun_eq_iff)
    have succ: "j = ?k \<or> Suc ?k \<le> j" if "?k \<le> j" for j using that by linarith
    show ?thesis
      using less.hyps [of ?s] miss succ unfolding e p by (fastforce split: prod.splits option.splits)
  next
    case hit
    then show ?thesis by (simp add: full_loop_step [of t m s]) fastforce
  qed (auto simp: full_loop_step [of t m s])
qed

text \<open>One call while a full scan is on: what it can do to the scan.\<close>

definition call_busy :: "device_scanner \<Rightarrow> bool" where
  "call_busy s \<longleftrightarrow> fst (sn_ask_busy (round_start s))"

definition call_deep :: "device_manager \<Rightarrow> device_scanner \<Rightarrow> bool" where
  "call_deep m s \<longleftrightarrow> fst (deep_loop (fst (sn_now s)) m (snd (sn_ask_busy (round_start s)))) \<noteq> None"

lemma nextCommand_kept:
  assumes "full_scan s" "call_deep m s \<or> call_busy s"
  shows "full_scan (snd (nextCommand (Some m) s))" "full_scan_address (snd (nextCommand (Some m) s)) = full_scan_address s"
    "sn_own_address (snd (nextCommand (Some m) s)) = sn_own_address s"
    "failed_scans (snd (nextCommand (Some m) s)) \<subseteq> failed_scans s"
    "quarantined_scans (snd (nextCommand (Some m) s)) \<subseteq> quarantined_scans s"
proof -
  let ?b = "sn_ask_busy (round_start s)"
  let ?d = "deep_loop (fst (sn_now s)) m (snd ?b)"
  have "scan_round m s = Inl (fst ?d, snd ?d)"
    using assms(2) unfolding scan_round_eq call_deep_def call_busy_def by (auto simp: prod_eq_iff)
  then have "snd (nextCommand (Some m) s) = snd ?d"
    by (simp add: nextCommand_def next_loop.simps [of m s] split: prod.split option.split)
  then show "full_scan (snd (nextCommand (Some m) s))" "full_scan_address (snd (nextCommand (Some m) s)) = full_scan_address s"
    "sn_own_address (snd (nextCommand (Some m) s)) = sn_own_address s"
    "failed_scans (snd (nextCommand (Some m) s)) \<subseteq> failed_scans s"
    "quarantined_scans (snd (nextCommand (Some m) s)) \<subseteq> quarantined_scans s"
    using assms(1) round_start_holds [of s] loop_frame_fields(1,2,3,5) [OF deep_loop_frame, of "fst (sn_now s)" m "snd ?b"]
    by (auto simp: deep_loop_address)
qed

lemma nextCommand_scans:
  assumes "full_scan s" "full_scan_address s \<le> 256" "\<not> call_deep m s" "\<not> call_busy s"
    and n: "nextCommand (Some m) s = (cmd, s')"
  shows "(\<exists>k. full_scan s' \<and> full_scan_address s \<le> k \<and> k < 256 \<and> probe m (snd (sn_ask_busy (round_start s))) (of_nat k)
        \<and> cmd = createScanCommand (of_nat k) \<and> full_scan_address s' = k + 1 \<and> sn_own_address s' = sn_own_address s
        \<and> failed_scans s' \<subseteq> failed_scans s \<and> quarantined_scans s' \<subseteq> quarantined_scans s
        \<and> (\<forall>j. full_scan_address s \<le> j \<and> j < k \<longrightarrow> \<not> probe m (snd (sn_ask_busy (round_start s))) (of_nat j)))
    \<or> \<not> full_scan s' \<and>
        (\<forall>j. full_scan_address s \<le> j \<and> j < 256 \<longrightarrow> \<not> probe m (snd (sn_ask_busy (round_start s))) (of_nat j))"
proof -
  let ?b = "sn_ask_busy (round_start s)" and ?t = "fst (sn_now s)"
  let ?d = "deep_loop ?t m (snd ?b)"
  let ?f = "full_loop ?t m (snd ?d)"
  note df = loop_frame_fields [OF deep_loop_frame, of ?t m "snd ?b"]
  have d: "full_scan (snd ?d)" "full_scan_address (snd ?d) = full_scan_address s" using assms(1) df(5) by (simp_all add: deep_loop_address)
  have p: "probe m (snd ?d) = probe m (snd ?b)" using df(1-3) by (simp add: probe_def fun_eq_iff)
  have r: "scan_round m s = (if fst ?f \<noteq> None then Inl ?f else startup_round ?t m ((snd ?f)\<lparr>full_scan := False\<rparr>))"
    using assms(3,4) d(1) unfolding scan_round_eq call_deep_def call_busy_def by simp
  note res = full_loop_result [where s = "snd ?d" and t = ?t and m = m, unfolded d(2) p, OF assms(2)]
  note ff = loop_frame_fields [OF full_loop_frame, of ?t m "snd ?d"]
  show ?thesis
  proof (cases "fst ?f")
    case (Some c)
    then have "cmd = c" "s' = snd ?f"
      using r n by (cases ?f; simp add: nextCommand_def next_loop.simps [of m s])+
    with Some res ff(1,2,3,5) df(1,2,3) d(1) round_start_holds [of s] show ?thesis
      by (cases ?f) auto
  next
    case None
    have "\<not> full_scan s'"
    proof (cases "scan_round m s")
      case (Inl x)
      then have "\<not> full_scan (snd x)" using None startup_round_scan(1) [of ?t m] r by (auto split: if_splits)
      then show ?thesis using Inl n by (cases x; auto simp: nextCommand_def next_loop.simps [of m s] split: option.splits)
    next
      case (Inr x)
      then have "\<not> full_scan x" using None startup_round_scan(2) [of ?t m] r by (auto split: if_splits)
      then have "\<not> full_scan (snd (next_loop m x))" by (rule next_loop_over)
      then show ?thesis using Inr n by (simp add: nextCommand_def next_loop.simps [of m s])
    qed
    with None res show ?thesis by (cases ?f) auto
  qed
qed

text \<open>
  What happens to a scanner while a full scan is on: calls of \<open>nextCommand\<close> with the inventory as it then
  is, results of earlier commands, and requests for single devices.
\<close>

datatype scan_event = Ask device_manager | Answer "device_manager option" u8 bool | Demand u8

fun scan_next :: "scan_event \<Rightarrow> device_scanner \<Rightarrow> device_scanner" where
  "scan_next (Ask m) s = snd (nextCommand (Some m) s)"
| "scan_next (Answer dm a ok) s = onScanResult dm a ok s"
| "scan_next (Demand a) s = snd (scanAddress a s)"

definition scan_end :: "scan_event list \<Rightarrow> device_scanner \<Rightarrow> device_scanner" where
  "scan_end es s = fold scan_next es s"

text \<open>The commands of a run, the number of calls left to the full scan, and the addresses it asked.\<close>

fun scan_commands :: "scan_event list \<Rightarrow> device_scanner \<Rightarrow> sequence list" where
  "scan_commands [] s = []"
| "scan_commands (e # es) s =
     (case e of Ask m \<Rightarrow> [fst (nextCommand (Some m) s)] | _ \<Rightarrow> []) @ scan_commands es (scan_next e s)"

definition scan_turn :: "scan_event \<Rightarrow> device_scanner \<Rightarrow> bool" where
  "scan_turn e s \<longleftrightarrow> (case e of Ask m \<Rightarrow> full_scan s \<and> \<not> call_deep m s \<and> \<not> call_busy s | _ \<Rightarrow> False)"

fun scan_turns :: "scan_event list \<Rightarrow> device_scanner \<Rightarrow> nat" where
  "scan_turns [] s = 0"
| "scan_turns (e # es) s = (if scan_turn e s then 1 else 0) + scan_turns es (scan_next e s)"

fun scan_asked :: "scan_event list \<Rightarrow> device_scanner \<Rightarrow> sequence list" where
  "scan_asked [] s = []"
| "scan_asked (e # es) s =
     (case e of Ask m \<Rightarrow> if scan_turn e s \<and> full_scan (scan_next e s) then [fst (nextCommand (Some m) s)] else [] | _ \<Rightarrow> [])
       @ scan_asked es (scan_next e s)"

lemma demand_kept [simp]:
  "full_scan (snd (scanAddress a s)) = full_scan s" "full_scan_address (snd (scanAddress a s)) = full_scan_address s"
  "sn_own_address (snd (scanAddress a s)) = sn_own_address s"
  "failed_scans (snd (scanAddress a s)) \<subseteq> failed_scans s" "quarantined_scans (snd (scanAddress a s)) \<subseteq> quarantined_scans s"
  by (auto simp: scanAddress_def scanAddressInternal_def)

lemma answer_kept [simp]:
  "full_scan (onScanResult dm a ok s) = full_scan s" "full_scan_address (onScanResult dm a ok s) = full_scan_address s"
  "sn_own_address (onScanResult dm a ok s) = sn_own_address s"
  "failed_scans (onScanResult dm a ok s) \<subseteq> insert a (failed_scans s)"
  "quarantined_scans (onScanResult dm a ok s) \<subseteq> insert a (quarantined_scans s)"
  by (auto simp: onScanResult_def Let_def)

lemma scan_next_over: "\<not> full_scan s \<Longrightarrow> \<not> full_scan (scan_next e s)"
  using next_loop_over [of s] by (cases e) (simp_all add: nextCommand_def)

lemma scan_end_over: "\<not> full_scan s \<Longrightarrow> \<not> full_scan (scan_end es s)"
  by (induction es arbitrary: s) (simp_all add: scan_end_def scan_next_over)

lemma scan_asked_over: "\<not> full_scan s \<Longrightarrow> scan_asked es s = []"
  by (induction es arbitrary: s) (simp_all add: scan_next_over scan_turn_def split: scan_event.split)

text \<open>One event while the scan goes on.\<close>

lemma scan_next_step:
  assumes "full_scan s" "full_scan_address s \<le> 256" "full_scan (scan_next e s)"
  shows "full_scan_address s \<le> full_scan_address (scan_next e s)" "full_scan_address (scan_next e s) \<le> 256"
    "sn_own_address (scan_next e s) = sn_own_address s"
    "scan_turn e s \<Longrightarrow> full_scan_address s < full_scan_address (scan_next e s)"
    "scan_turn e s \<Longrightarrow> e = Ask m \<Longrightarrow>
      fst (nextCommand (Some m) s) = createScanCommand (of_nat (full_scan_address (scan_next e s) - 1))
      \<and> isSlave (of_nat (full_scan_address (scan_next e s) - 1))
      \<and> of_nat (full_scan_address (scan_next e s) - 1) \<noteq> slaveOf (sn_own_address s)"
proof -
  have *: "full_scan_address s \<le> full_scan_address (scan_next e s) \<and> full_scan_address (scan_next e s) \<le> 256
      \<and> sn_own_address (scan_next e s) = sn_own_address s
      \<and> (scan_turn e s \<longrightarrow> full_scan_address s < full_scan_address (scan_next e s)
          \<and> (\<forall>m. e = Ask m \<longrightarrow> fst (nextCommand (Some m) s) = createScanCommand (of_nat (full_scan_address (scan_next e s) - 1))
            \<and> isSlave (of_nat (full_scan_address (scan_next e s) - 1))
            \<and> of_nat (full_scan_address (scan_next e s) - 1) \<noteq> slaveOf (sn_own_address s)))"
  proof (cases e)
    case (Ask m)
    obtain cmd s' where n: "nextCommand (Some m) s = (cmd, s')" by fastforce
    show ?thesis
      using nextCommand_kept [OF assms(1), of m] nextCommand_scans [OF assms(1,2) _ _ n] assms n
      by (cases "call_deep m s \<or> call_busy s") (auto simp: Ask scan_turn_def probe_def)
  qed (use assms in \<open>simp_all add: scan_turn_def\<close>)
  then show "full_scan_address s \<le> full_scan_address (scan_next e s)" "full_scan_address (scan_next e s) \<le> 256"
    "sn_own_address (scan_next e s) = sn_own_address s"
    "scan_turn e s \<Longrightarrow> full_scan_address s < full_scan_address (scan_next e s)"
    "scan_turn e s \<Longrightarrow> e = Ask m \<Longrightarrow>
      fst (nextCommand (Some m) s) = createScanCommand (of_nat (full_scan_address (scan_next e s) - 1))
      \<and> isSlave (of_nat (full_scan_address (scan_next e s) - 1))
      \<and> of_nat (full_scan_address (scan_next e s) - 1) \<noteq> slaveOf (sn_own_address s)"
    by blast+
qed

lemma scan_turns_bound:
  assumes "full_scan s" "full_scan_address s \<le> 256" "full_scan (scan_end es s)"
  shows "full_scan_address s + scan_turns es s \<le> 256"
  using assms
proof (induction es arbitrary: s)
  case (Cons e es)
  have f: "full_scan (scan_end es (scan_next e s))" using Cons.prems(3) by (simp add: scan_end_def)
  then have f': "full_scan (scan_next e s)" using scan_end_over by blast
  note a = scan_next_step [OF Cons.prems(1,2) f']
  have "full_scan_address (scan_next e s) + scan_turns es (scan_next e s) \<le> 256" using Cons.IH [OF f' a(2) f] .
  then show ?case using a(1,4) by auto
qed simp

lemma scan_asked_ascending:
  assumes "full_scan_address s \<le> 256"
  shows "\<exists>ks. scan_asked es s = map (\<lambda>k. createScanCommand (of_nat k)) ks \<and> sorted_wrt (<) ks
    \<and> (\<forall>k \<in> set ks. full_scan_address s \<le> k \<and> k < 256 \<and> isSlave (of_nat k) \<and> of_nat k \<noteq> slaveOf (sn_own_address s))"
  using assms
proof (induction es arbitrary: s)
  case (Cons e es)
  let ?s = "scan_next e s" and ?k = "full_scan_address (scan_next e s) - 1"
  show ?case
  proof (cases "full_scan s \<and> full_scan ?s")
    case True
    note a = scan_next_step [of s e, OF _ Cons.prems]
    from Cons.IH [of ?s] True a(2) obtain ks where ks: "scan_asked es ?s = map (\<lambda>k. createScanCommand (of_nat k)) ks"
      "sorted_wrt (<) ks" "\<forall>k \<in> set ks. full_scan_address ?s \<le> k \<and> k < 256 \<and> isSlave (of_nat k) \<and> of_nat k \<noteq> slaveOf (sn_own_address ?s)"
      by blast
    show ?thesis
    proof (cases "scan_turn e s")
      case t: True
      then obtain m where m: "e = Ask m" by (cases e) (simp_all add: scan_turn_def)
      then have "scan_asked (e # es) s = map (\<lambda>k. createScanCommand (of_nat k)) (?k # ks)"
        using t True a(5) [OF _ _ t m] ks(1) by simp
      moreover have "sorted_wrt (<) (?k # ks)" using ks(2,3) a(4) [OF _ _ t] True by force
      moreover have "\<forall>k \<in> set (?k # ks). full_scan_address s \<le> k \<and> k < 256 \<and> isSlave (of_nat k) \<and> of_nat k \<noteq> slaveOf (sn_own_address s)"
        using ks(3) a(1-3) a(4) [OF _ _ t] a(5) [OF _ _ t m] True by fastforce
      ultimately show ?thesis by blast
    next
      case False
      then have "scan_asked (e # es) s = scan_asked es ?s" by (cases e) simp_all
      then show ?thesis using ks a(1,3) True by fastforce
    qed
  next
    case False
    then have "\<not> full_scan ?s" using scan_next_over by blast
    then have "scan_asked (e # es) s = []" using False by (cases e) (simp_all add: scan_asked_over)
    then show ?thesis by simp
  qed
qed simp

text \<open>An address that nothing keeps from being asked, and that is still ahead.\<close>

definition ahead :: "u8 \<Rightarrow> device_scanner \<Rightarrow> bool" where
  "ahead a s \<longleftrightarrow> full_scan s \<and> full_scan_address s \<le> unat a \<and> isSlave a \<and> a \<noteq> slaveOf (sn_own_address s)
     \<and> a \<notin> failed_scans s \<and> a \<notin> quarantined_scans s"

lemma ahead_step:
  assumes a: "ahead a s" and e: "\<And>dm ok. e \<noteq> Answer dm a ok" "\<And>m. e = Ask m \<Longrightarrow> \<not> isIdentified a m"
    and n: "\<And>m. e = Ask m \<Longrightarrow> fst (nextCommand (Some m) s) \<noteq> createScanCommand a"
  shows "ahead a (scan_next e s)"
proof (cases e)
  case (Ask m)
  let ?b = "snd (sn_ask_busy (round_start s))"
  have l: "unat a < 256" using unsigned_less [of a] by simp
  have s: "full_scan s" "full_scan_address s \<le> 256" using a l by (simp_all add: ahead_def)
  have p: "probe m ?b a" using a e(2) [OF Ask] round_start_holds [of s] by (auto simp: ahead_def probe_def)
  obtain cmd s' where c: "nextCommand (Some m) s = (cmd, s')" by fastforce
  show ?thesis
  proof (cases "call_deep m s \<or> call_busy s")
    case True
    then show ?thesis using nextCommand_kept [OF s(1) True] a Ask by (auto simp: ahead_def)
  next
    case False
    have "\<not> (\<forall>j. full_scan_address s \<le> j \<and> j < 256 \<longrightarrow> \<not> probe m ?b (of_nat j))"
      using p l a by (auto simp: ahead_def intro!: exI [of _ "unat a"])
    with nextCommand_scans [OF s _ _ c] False obtain k where k: "full_scan s'" "full_scan_address s \<le> k" "k < 256"
      "cmd = createScanCommand (of_nat k)" "full_scan_address s' = k + 1" "sn_own_address s' = sn_own_address s"
      "failed_scans s' \<subseteq> failed_scans s" "quarantined_scans s' \<subseteq> quarantined_scans s"
      "\<forall>j. full_scan_address s \<le> j \<and> j < k \<longrightarrow> \<not> probe m ?b (of_nat j)" by blast
    have "\<not> unat a < k" using k(9) p a by (auto simp: ahead_def)
    moreover have "unat a \<noteq> k" using n [OF Ask] k(4) c by auto
    ultimately show ?thesis using k a by (auto simp: Ask c ahead_def)
  qed
next
  case (Answer dm b ok)
  then have "b \<noteq> a" using e(1) by auto
  then show ?thesis
    using a by (auto simp: Answer ahead_def dest!: subsetD [OF answer_kept(4)] subsetD [OF answer_kept(5)])
next
  case (Demand b)
  then show ?thesis
    using a by (auto simp: ahead_def dest!: subsetD [OF demand_kept(4)] subsetD [OF demand_kept(5)])
qed

lemma scan_reaches:
  assumes "ahead a s" "\<forall>m. Ask m \<in> set es \<longrightarrow> \<not> isIdentified a m"
    and "\<forall>xs dm ok ys. es = xs @ Answer dm a ok # ys \<longrightarrow> createScanCommand a \<in> set (scan_commands xs s)"
  shows "createScanCommand a \<in> set (scan_commands es s) \<or> full_scan (scan_end es s)"
  using assms
proof (induction es arbitrary: s)
  case Nil
  then show ?case by (simp add: ahead_def scan_end_def)
next
  case (Cons e es)
  show ?case
  proof (cases "\<exists>m. e = Ask m \<and> fst (nextCommand (Some m) s) = createScanCommand a")
    case False
    have h: "createScanCommand a \<in> set (scan_commands (e # xs) s) \<longleftrightarrow> createScanCommand a \<in> set (scan_commands xs (scan_next e s))" for xs
      using False by (cases e) auto
    have "e \<noteq> Answer dm a ok" for dm ok
      using Cons.prems(3) [rule_format, of "[]" dm ok es] by auto
    then have "ahead a (scan_next e s)" using Cons.prems(1,2) False by (intro ahead_step) auto
    moreover have "\<forall>xs dm ok ys. es = xs @ Answer dm a ok # ys \<longrightarrow> createScanCommand a \<in> set (scan_commands xs (scan_next e s))"
      using Cons.prems(3) h by (metis append_Cons)
    ultimately show ?thesis using Cons.IH [of "scan_next e s"] Cons.prems(2) h by (simp add: scan_end_def)
  qed auto
qed

text \<open>Left to itself, a full scan gets every call.\<close>

lemma quiet_ask:
  assumes "quiet s"
  shows "scan_turn (Ask m) s" "full_scan (scan_next (Ask m) s) \<Longrightarrow> quiet (scan_next (Ask m) s)"
proof -
  let ?f = "full_loop (fst (sn_now s)) m (round_start s)"
  have q: "quiet (round_start s)" using quiet_start(1) [OF assms] .
  then have b: "sn_ask_busy (round_start s) = (False, round_start s)" by (simp add: quiet_def sn_ask_busy_def)
  then show "scan_turn (Ask m) s"
    using q assms by (simp add: scan_turn_def call_deep_def call_busy_def quiet_def deep_loop.simps)
  show "quiet (scan_next (Ask m) s)" if "full_scan (scan_next (Ask m) s)"
  proof -
    have "pending_deep_scans (snd (full_loop t m u)) = pending_deep_scans u
        \<and> current_deep_scan_address (snd (full_loop t m u)) = current_deep_scan_address u" for t u
    proof (induction "256 - full_scan_address u" arbitrary: u rule: less_induct)
      case less
      then show ?case by (subst (1 2) full_loop_step) (simp add: less)
    qed
    from this [of "fst (sn_now s)" "round_start s"] show ?thesis
      using q that quiet_next [OF assms, of m] loop_frame_fields [OF full_loop_frame, of "fst (sn_now s)" m "round_start s"]
      by (cases ?f; cases "fst ?f") (auto simp: quiet_def)
  qed
qed

lemma quiet_turns:
  "quiet s \<Longrightarrow> full_scan (scan_end (replicate n (Ask m)) s) \<Longrightarrow> scan_turns (replicate n (Ask m)) s = n"
proof (induction n arbitrary: s)
  case (Suc n)
  have f: "full_scan (scan_end (replicate n (Ask m)) (scan_next (Ask m) s))" using Suc.prems(2) by (simp add: scan_end_def)
  then have "full_scan (scan_next (Ask m) s)" using scan_end_over by blast
  then show ?case using Suc.IH [OF quiet_ask(2) [OF Suc.prems(1)] f] quiet_ask(1) [OF Suc.prems(1)] by simp
qed simp

section \<open>Properties\<close>

text \<open>
  C28: A full scan among everything else that happens to the scanner: calls with an inventory
  that changes, results of commands, requests for single devices with the deep scans they cause, a
  busy predicate. The scan asks slave addresses other than its own, in ascending order, none
  twice. It is not over before every such address has been sent the identification request that
  was on hold neither at the start (as failed or in quarantine) nor by a result that came
  before any request to it, and that was never identified when a call was made. It is over after at most 257
  calls that are not turned away as busy or used for a deep scan, and once it is over it stays
  over and asks nobody (until it is started again).
\<close>

theorem full_scan_probes_all:
  defines "start \<equiv> \<lambda>s. initFullScan True s"
  shows "(\<exists>ks. scan_asked es (start s) = map (\<lambda>k. seq_of [of_nat k, 0x07, 0x04, 0x00] False) ks \<and> sorted_wrt (<) ks
        \<and> (\<forall>k \<in> set ks. k < 256 \<and> isSlave (of_nat k) \<and> of_nat k \<noteq> slaveOf (sn_own_address s)))
    \<and> (\<forall>a. isSlave a \<and> a \<noteq> slaveOf (sn_own_address s) \<and> a \<notin> failed_scans s \<and> a \<notin> quarantined_scans s
        \<and> (\<forall>m. Ask m \<in> set es \<longrightarrow> \<not> isIdentified a m)
        \<and> (\<forall>xs dm ok ys. es = xs @ Answer dm a ok # ys \<longrightarrow>
            seq_of [a, 0x07, 0x04, 0x00] False \<in> set (scan_commands xs (start s)))
        \<and> \<not> full_scan (scan_end es (start s))
        \<longrightarrow> seq_of [a, 0x07, 0x04, 0x00] False \<in> set (scan_commands es (start s)))
    \<and> (256 < scan_turns es (start s) \<longrightarrow> \<not> full_scan (scan_end es (start s)))
    \<and> (\<not> full_scan (scan_end es (start s)) \<longrightarrow>
        (\<forall>fs. \<not> full_scan (scan_end (es @ fs) (start s)) \<and> scan_asked fs (scan_end es (start s)) = []))"
proof -
  have s: "full_scan (start s)" "full_scan_address (start s) = 0" "sn_own_address (start s) = sn_own_address s"
    "failed_scans (start s) = failed_scans s" "quarantined_scans (start s) = quarantined_scans s"
    by (simp_all add: start_def initFullScan_def)
  have "scan_end (es @ fs) (start s) = scan_end fs (scan_end es (start s))" for fs by (simp add: scan_end_def)
  moreover have "\<not> full_scan (scan_end es (start s))" if "256 < scan_turns es (start s)"
    using scan_turns_bound [of "start s" es] s that by auto
  moreover have "ahead a (start s) \<longleftrightarrow> isSlave a \<and> a \<noteq> slaveOf (sn_own_address s) \<and> a \<notin> failed_scans s \<and> a \<notin> quarantined_scans s" for a
    by (simp add: ahead_def s)
  ultimately show ?thesis
    using scan_asked_ascending [of "start s" es] scan_reaches [of _ "start s" es] scan_end_over scan_asked_over s
    unfolding createScanCommand_bytes by (intro conjI) (auto | blast)+
qed

theorem full_scan_probes_all_witness:
  "seq_of [0x08, 0x07, 0x04, 0x00] False \<in> set (scan_commands (replicate 257 (Ask (device_manager_new None)))
      (initFullScan True (device_scanner_new 0xff int)))
    \<and> \<not> full_scan (scan_end (replicate 257 (Ask (device_manager_new None))) (initFullScan True (device_scanner_new 0xff int)))"
proof -
  let ?m = "device_manager_new None" and ?s = "device_scanner_new 0xff int"
  let ?es = "replicate 257 (Ask (device_manager_new None))"
  note f = full_scan_probes_all [where es = ?es and s = ?s]
  have q: "quiet (initFullScan True ?s)" by (simp add: quiet_def initFullScan_def device_scanner_new_def)
  have over: "\<not> full_scan (scan_end ?es (initFullScan True ?s))"
  proof
    assume a: "full_scan (scan_end ?es (initFullScan True ?s))"
    from quiet_turns [OF q this] f a show False by (metis less_add_same_cancel1 numeral_less_iff semiring_norm(77) eval_nat_numeral(3) lessI)
  qed
  have "isSlave 0x08" "slaveOf 0xff \<noteq> (0x08 :: u8)" "\<not> isIdentified 0x08 ?m" by code_simp+
  moreover have "Answer dm a ok \<notin> set ?es" for dm a ok by simp
  then have "?es \<noteq> xs @ Answer dm a ok # ys" for xs dm a ok ys by (metis in_set_conv_decomp)
  ultimately have "seq_of [0x08, 0x07, 0x04, 0x00] False \<in> set (scan_commands ?es (initFullScan True ?s))"
    using f [THEN conjunct2, THEN conjunct1, rule_format, of "0x08"] over by (simp add: device_scanner_new_def)
  then show ?thesis using over by blast
qed

text \<open>
  With nothing else under way (no deep scan, no startup scan, no address on hold, no busy
  predicate) and an inventory that does not change, the calls of a full scan return exactly the
  requests to the slave addresses that are not its own and not identified, and then nothing.
\<close>

theorem quiet_full_scan:
  assumes "quiet s" "full_scan_address s = 0"
  shows "scan_calls m (length (unknown_slaves m s) + 1) s
    = map (\<lambda>a. seq_of [a, 0x07, 0x04, 0x00] False) (unknown_slaves m s) @ [seq_nil]"
proof -
  have "probe m s = (\<lambda>a. isSlave a \<and> a \<noteq> slaveOf (sn_own_address s) \<and> \<not> isIdentified a m)"
    using assms(1) by (auto simp: probe_def quiet_def fun_eq_iff)
  then have "unknown_slaves m s = filter (probe m s) (map of_nat [0..<256])" by (simp only: unknown_slaves_def)
  then show ?thesis
    using quiet_calls [OF assms(1) assms(2) [symmetric], of m]
    by (simp only: createScanCommand_bytes [abs_def] Suc_eq_plus1 le0 simp_thms)
qed

text \<open>
  The cooldown of failed addresses does not end after 60 seconds: whatever a scanner has
  done, the reset that ends it never takes place, because the time that has passed
  since the last one, initially the earliest point in time, overflows. The attempt counters
  stay below ten.
\<close>

theorem cooldown_never_ends:
  assumes "scanner_step\<^sup>*\<^sup>* (device_scanner_new a readings) s" "valid_readings readings"
  shows "last_failure_reset_time s = time_min \<and> (\<forall>i. batch_reset (readings i) s = s)
    \<and> (\<forall>b. scan_attempt_counters s b < 10)"
  using scanner_reachable [OF assms] batch_reset_never [OF assms(2)] by (simp add: never_reset_def)

theorem cooldown_never_ends_witness:
  "failed_scans (batch_reset (seconds 90) (onScanResult None 0x08 False (device_scanner_new 0xff (\<lambda>n. seconds 90)))) = {0x08}"
  using cooldown_never_ends [OF r_into_rtranclp [of scanner_step, OF sn_step_onScanResult
        [of "device_scanner_new 0xff (\<lambda>n. seconds 90)" None "0x08" False]]]
  by (simp add: valid_readings_def seconds_def onScanResult_def device_scanner_new_def Let_def)

text \<open>
  Whether a device needs vendor data is judged by all devices from its address upwards: an
  identified device with none missing is quarantined after ten successful answers as long
  as a device with a higher address has vendor data missing.
\<close>

theorem complete_device_quarantined:
  assumes "isIdentified a m" "device_at m b = Some d" "getFirstPendingVendorCommand d \<noteq> None" "a \<le> b"
    and "scan_attempt_counters s a = 0"
  shows "a \<in> quarantined_scans ((onScanResult (Some m) a True ^^ 10) s)"
proof -
  let ?f = "onScanResult (Some m) a True"
  have need: "needsDeepScan a m" using needsDeepScan_higher assms(1-4) by blast
  have "k \<le> 9 \<Longrightarrow> scan_attempt_counters ((?f ^^ k) s) a = of_nat k" for k :: nat
  proof (induction k)
    case (Suc k)
    then have "(of_nat k :: u8) < 9" by (simp add: word_less_nat_alt unat_of_nat)
    then show ?case using Suc misjudged_step [OF need, of "(?f ^^ k) s"] by (simp add: add.commute)
  qed (simp add: assms(5))
  from this [of 9] have "scan_attempt_counters ((?f ^^ 9) s) a = 9" by simp
  then have "a \<in> quarantined_scans (?f ((?f ^^ 9) s))" using need by (simp add: onScanResult_def Let_def)
  moreover have "?f ((?f ^^ 9) s) = (?f ^^ 10) s" by (simp add: numeral_eq_Suc)
  ultimately show ?thesis by simp
qed

definition two_devices :: "(bytes \<times> bytes) list" where
  "two_devices = [([0x10, 0x08, 0x07, 0x04, 0x00], [0x02, 0x19, 0x00]), ([0x10, 0x15, 0x07, 0x04, 0x00], [0x02, 0xb5, 0x00])]"

theorem complete_device_quarantined_witness:
  "0x08 \<in> quarantined_scans ((onScanResult (Some (manager_after 0xff None two_devices)) 0x08 True ^^ 10) (device_scanner_new 0xff int))"
proof -
  let ?m = "manager_after 0xff None two_devices"
  have "isIdentified 0x08 ?m" "device_at ?m 0x15 \<noteq> None" "getFirstPendingVendorCommand (the (device_at ?m 0x15)) \<noteq> None"
    by code_simp+
  then show ?thesis
    by (intro complete_device_quarantined [of _ _ "0x15" "the (device_at ?m 0x15)"]) (auto simp: device_scanner_new_def)
qed

end
