(* ===== verification/Platform_Queue.thy ===== *)
theory Platform_Queue
  imports Containers
begin

text \<open>
  The queue between threads, \<open>QueuePosix\<close> (\<open>src/ebus/platform/posix/queue_posix.hpp\<close>): a ring
  of a fixed capacity with a flag that shuts it down. Each method runs under the mutex of the
  queue and is one step here. The two blocking methods take whether their timeout expires
  before another thread changes the queue; \<open>None\<close> says that the caller still waits. The
  abstract view is a bounded first-in-first-out list, and the idiom of the callers, which drop the oldest entry
  when a push is refused, is treated once in the locale of this interface.
\<close>

section \<open>The queue\<close>

record 'a pqueue =
  q_buffer :: "'a list"
  q_capacity :: nat
  q_head :: nat
  q_tail :: nat
  q_size :: nat
  q_shutdown :: bool

text \<open>The constructor throws for a capacity of 0; the slots hold default values.\<close>

definition queue_new :: "nat \<Rightarrow> 'a \<Rightarrow> 'a pqueue option" where
  "queue_new capacity dflt =
     (if capacity = 0 then None
      else Some \<lparr>q_buffer = replicate capacity dflt, q_capacity = capacity, q_head = 0, q_tail = 0, q_size = 0,
                 q_shutdown = False\<rparr>)"

definition q_put :: "'a \<Rightarrow> 'a pqueue \<Rightarrow> 'a pqueue" where
  "q_put item q = q\<lparr>q_buffer := (q_buffer q)[q_tail q := item], q_tail := (q_tail q + 1) mod q_capacity q,
     q_size := q_size q + 1\<rparr>"

definition q_skip :: "'a pqueue \<Rightarrow> 'a pqueue" where
  "q_skip q = q\<lparr>q_head := (q_head q + 1) mod q_capacity q, q_size := q_size q - 1\<rparr>"

definition q_push :: "bool \<Rightarrow> 'a \<Rightarrow> 'a pqueue \<Rightarrow> (bool \<times> 'a pqueue) option" where
  "q_push expires item q =
     (if q_shutdown q then Some (False, q)
      else if q_capacity q > 0 \<and> \<not> q_size q < q_capacity q
      then if expires then Some (False, q) else None
      else Some (True, q_put item q))"

definition q_tryPush :: "'a \<Rightarrow> 'a pqueue \<Rightarrow> bool \<times> 'a pqueue" where
  "q_tryPush item q =
     (if q_shutdown q \<or> (q_capacity q > 0 \<and> q_size q \<ge> q_capacity q) then (False, q)
      else (True, q_put item q))"

text \<open>A popped item, or nothing.\<close>

definition q_pop :: "bool \<Rightarrow> 'a pqueue \<Rightarrow> ('a option \<times> 'a pqueue) option" where
  "q_pop expires q =
     (if q_shutdown q \<and> q_size q = 0 then Some (None, q)
      else if \<not> (q_size q > 0 \<or> q_shutdown q)
      then if expires then Some (None, q) else None
      else if q_size q = 0 then Some (None, q)
      else Some (Some (q_buffer q ! q_head q), q_skip q))"

definition q_tryPop :: "'a pqueue \<Rightarrow> ('a \<times> 'a pqueue) option" where
  "q_tryPop q =
     (if q_size q = 0 \<or> q_shutdown q then None else Some (q_buffer q ! q_head q, q_skip q))"

fun q_discard :: "nat \<Rightarrow> 'a pqueue \<Rightarrow> nat \<times> 'a pqueue" where
  "q_discard 0 q = (0, q)"
| "q_discard (Suc n) q =
     (if q_size q > 0 \<and> \<not> q_shutdown q then (let (k, q') = q_discard n (q_skip q) in (k + 1, q')) else (0, q))"

definition q_stop :: "'a pqueue \<Rightarrow> 'a pqueue" where
  "q_stop q = q\<lparr>q_shutdown := True\<rparr>"

definition q_clear :: "'a pqueue \<Rightarrow> 'a pqueue" where
  "q_clear q = q\<lparr>q_head := 0, q_tail := 0, q_size := 0\<rparr>"

definition q_reset :: "'a pqueue \<Rightarrow> 'a pqueue" where
  "q_reset q = q\<lparr>q_head := 0, q_tail := 0, q_size := 0, q_shutdown := False\<rparr>"

section \<open>Contents and invariant\<close>

definition q_ring :: "'a pqueue \<Rightarrow> 'a cbuf" where
  "q_ring q = \<lparr>cb_buffer = q_buffer q, cb_head = q_head q, cb_size = q_size q\<rparr>"

definition q_items :: "'a pqueue \<Rightarrow> 'a list" where
  "q_items q = cb_forEach (q_ring q)"

definition q_inv :: "'a pqueue \<Rightarrow> bool" where
  "q_inv q \<longleftrightarrow> 0 < q_capacity q \<and> length (q_buffer q) = q_capacity q \<and> q_head q < q_capacity q
     \<and> q_size q \<le> q_capacity q \<and> q_tail q = (q_head q + q_size q) mod q_capacity q"

lemma q_ring_inv: "q_inv q \<Longrightarrow> cb_inv (q_ring q) \<and> cb_cap (q_ring q) = q_capacity q"
  by (simp add: q_inv_def q_ring_def cb_inv_def cb_cap_def)

lemma q_items_length [simp]: "length (q_items q) = q_size q"
  by (simp add: q_items_def q_ring_def)

lemma q_size_0: "q_size q = 0 \<longleftrightarrow> q_items q = []"
  by (metis length_0_conv q_items_length)

lemma q_new_items: "queue_new cap d = Some q \<Longrightarrow> q_inv q \<and> q_items q = [] \<and> \<not> q_shutdown q \<and> q_capacity q = cap"
  by (auto simp: queue_new_def q_inv_def q_items_def q_ring_def cb_forEach_def split: if_splits)

lemma q_put_items:
  assumes "q_inv q" "q_size q < q_capacity q"
  shows "q_items (q_put x q) = q_items q @ [x]" "q_inv (q_put x q)"
    "q_shutdown (q_put x q) = q_shutdown q" "q_capacity (q_put x q) = q_capacity q"
proof -
  note r = q_ring_inv [OF assms(1)]
  have "cb_push_back x (q_ring q) = (False, q_ring (q_put x q))"
    using assms r by (simp add: cb_push_back_def q_put_def q_inv_def q_ring_def)
  from ring.entries_push [OF conjunct1 [OF r] this]
  show "q_items (q_put x q) = q_items q @ [x]"
    using r assms(2) by (simp add: q_items_def) (simp add: q_ring_def)
  show "q_inv (q_put x q)" using assms by (auto simp: q_inv_def q_put_def mod_Suc_eq)
qed (simp_all add: q_put_def)

lemma q_skip_items:
  assumes "q_inv q" "0 < q_size q"
  shows "q_items q = q_buffer q ! q_head q # q_items (q_skip q)" "q_inv (q_skip q)"
    "q_shutdown (q_skip q) = q_shutdown q" "q_capacity (q_skip q) = q_capacity q"
proof -
  note r = q_ring_inv [OF assms(1)]
  have "cb_tryPop (q_ring q) = Some (q_buffer q ! q_head q, q_ring (q_skip q))"
    using assms r by (simp add: cb_tryPop_def q_skip_def q_ring_def)
  then show "q_items q = q_buffer q ! q_head q # q_items (q_skip q)"
    using ring.entries_pop [of "q_ring q"] r by (simp add: q_items_def)
  have "((q_head q + 1) mod q_capacity q + (q_size q - 1)) mod q_capacity q = (q_head q + q_size q) mod q_capacity q"
    using cb_slot_Suc [of "q_head q" "q_capacity q" "q_size q - 1"] assms(2) by simp
  then show "q_inv (q_skip q)" using assms by (auto simp: q_inv_def q_skip_def)
qed (simp_all add: q_skip_def)

section \<open>The interface\<close>

text \<open>The idiom of the callers: a push that drops the oldest entry and tries again when it is refused.\<close>

definition push_latest :: "('a \<Rightarrow> 'q \<Rightarrow> bool \<times> 'q) \<Rightarrow> (nat \<Rightarrow> 'q \<Rightarrow> nat \<times> 'q) \<Rightarrow> 'a \<Rightarrow> 'q \<Rightarrow> bool \<times> 'q" where
  "push_latest try_push discard x q =
     (case try_push x q of
        (True, q') \<Rightarrow> (True, q')
      | (False, q') \<Rightarrow> (case discard 1 q' of (n, q'') \<Rightarrow> if n > 0 then try_push x q'' else (False, q'')))"

text \<open>
  What a client relies on. A queue that is shut down takes nothing more and hands nothing
  out without blocking; \<open>drop_one\<close> forgets the oldest entry.
\<close>

locale bounded_queue =
  fixes try_push :: "'a \<Rightarrow> 'q \<Rightarrow> bool \<times> 'q"
    and try_pop :: "'q \<Rightarrow> ('a \<times> 'q) option"
    and discard :: "nat \<Rightarrow> 'q \<Rightarrow> nat \<times> 'q"
    and items :: "'q \<Rightarrow> 'a list"
    and cap :: "'q \<Rightarrow> nat"
    and closed :: "'q \<Rightarrow> bool"
    and inv :: "'q \<Rightarrow> bool"
  assumes push_refused: "inv q \<Longrightarrow> closed q \<or> length (items q) = cap q \<Longrightarrow> try_push x q = (False, q)"
    and push_taken: "inv q \<Longrightarrow> \<not> closed q \<Longrightarrow> length (items q) < cap q \<Longrightarrow>
      \<exists>q'. try_push x q = (True, q') \<and> items q' = items q @ [x] \<and> inv q' \<and> \<not> closed q' \<and> cap q' = cap q"
    and pop_refused: "inv q \<Longrightarrow> closed q \<or> items q = [] \<Longrightarrow> try_pop q = None"
    and pop_taken: "inv q \<Longrightarrow> \<not> closed q \<Longrightarrow> items q = x # xs \<Longrightarrow>
      \<exists>q'. try_pop q = Some (x, q') \<and> items q' = xs \<and> inv q' \<and> \<not> closed q' \<and> cap q' = cap q"
    and discard_closed: "inv q \<Longrightarrow> closed q \<Longrightarrow> discard n q = (0, q)"
    and discard_open: "inv q \<Longrightarrow> \<not> closed q \<Longrightarrow> \<exists>q'. discard n q = (min n (length (items q)), q')
      \<and> items q' = drop n (items q) \<and> inv q' \<and> \<not> closed q' \<and> cap q' = cap q"
    and within: "inv q \<Longrightarrow> length (items q) \<le> cap q \<and> 0 < cap q"
begin

lemma push_latest_closed: "inv q \<Longrightarrow> closed q \<Longrightarrow> push_latest try_push discard x q = (False, q)"
  by (simp add: push_latest_def push_refused discard_closed)

lemma push_latest_open:
  assumes "inv q" "\<not> closed q"
  shows "\<exists>q'. push_latest try_push discard x q = (True, q') \<and> items q' = latest (cap q) (items q @ [x]) \<and> inv q' \<and> \<not> closed q'
    \<and> cap q' = cap q"
proof (cases "length (items q) < cap q")
  case True
  with push_taken [OF assms True, of x] show ?thesis by (auto simp: push_latest_def latest_def)
next
  case False
  with within [OF assms(1)] have full: "length (items q) = cap q" "0 < cap q" by auto
  obtain q1 where q1: "discard 1 q = (1, q1)" "items q1 = drop 1 (items q)" "inv q1" "\<not> closed q1" "cap q1 = cap q"
    using discard_open [OF assms, of 1] full by auto
  moreover have "length (items q1) < cap q1" using q1 full by simp
  ultimately obtain q2 where "try_push x q1 = (True, q2)" "items q2 = items q1 @ [x]" "inv q2" "\<not> closed q2"
      "cap q2 = cap q1" using push_taken [OF q1(3,4), of x] by blast
  then show ?thesis using q1 full push_refused [OF assms(1), of x]
    by (simp add: push_latest_def latest_def Suc_diff_le)
qed

end

interpretation pq: bounded_queue q_tryPush q_tryPop q_discard q_items q_capacity q_shutdown q_inv
proof (unfold_locales, goal_cases)
  case (1 q x)
  then show ?case by (auto simp: q_tryPush_def q_inv_def)
next
  case (2 q x)
  then show ?case using q_put_items [of q x] by (simp add: q_tryPush_def)
next
  case (3 q)
  then show ?case by (auto simp: q_tryPop_def q_size_0)
next
  case (4 q x xs)
  then show ?case using q_skip_items [of q] q_size_0 [of q] by (simp add: q_tryPop_def)
next
  case (5 q n)
  then show ?case by (cases n) simp_all
next
  case (6 q n)
  then show ?case
  proof (induction n arbitrary: q)
    case (Suc n)
    show ?case
    proof (cases "q_size q = 0")
      case True
      then show ?thesis using Suc.prems q_size_0 [of q] by simp
    next
      case False
      note s = q_skip_items [of q]
      obtain q' where q': "q_discard n (q_skip q) = (min n (length (q_items (q_skip q))), q')"
          "q_items q' = drop n (q_items (q_skip q))" "q_inv q'" "\<not> q_shutdown q'" "q_capacity q' = q_capacity q"
        using Suc.IH [of "q_skip q"] Suc.prems s False by auto
      have "q_size q = Suc (q_size (q_skip q))" using s(1) Suc.prems False by (metis length_Cons q_items_length not_gr_zero)
      then show ?thesis using q' s(1) Suc.prems False by simp
    qed
  qed simp
next
  case (7 q)
  then show ?case by (simp add: q_inv_def)
qed

lemma q_pop_items:
  assumes "q_inv q"
  shows "q_items q = [] \<Longrightarrow> q_pop True q = Some (None, q)"
    and "q_items q = x # xs \<Longrightarrow> \<exists>q'. q_pop e q = Some (Some x, q') \<and> q_items q' = xs \<and> q_inv q'
      \<and> q_shutdown q' = q_shutdown q \<and> q_capacity q' = q_capacity q"
  using assms q_skip_items [of q] q_size_0 [of q] by (auto simp: q_pop_def)

section \<open>The queue refines a bounded list\<close>

datatype 'a queue_call = Try_Push 'a | Try_Pop | Pop_Or_Expire | Discard nat | Shut_Down | Clear | Reset

datatype 'a queue_answer = Taken bool | Got "'a option" | Dropped nat | Done

fun queue_do :: "'a queue_call \<Rightarrow> 'a pqueue \<Rightarrow> 'a queue_answer \<times> 'a pqueue" where
  "queue_do (Try_Push x) q = (let (ok, q') = q_tryPush x q in (Taken ok, q'))"
| "queue_do Try_Pop q = (case q_tryPop q of None \<Rightarrow> (Got None, q) | Some (x, q') \<Rightarrow> (Got (Some x), q'))"
| "queue_do Pop_Or_Expire q = (case q_pop True q of None \<Rightarrow> (Done, q) | Some (x, q') \<Rightarrow> (Got x, q'))"
| "queue_do (Discard n) q = (let (k, q') = q_discard n q in (Dropped k, q'))"
| "queue_do Shut_Down q = (Done, q_stop q)"
| "queue_do Clear q = (Done, q_clear q)"
| "queue_do Reset q = (Done, q_reset q)"

text \<open>The same calls on a list and a flag.\<close>

fun fifo_call :: "nat \<Rightarrow> 'a queue_call \<Rightarrow> 'a list \<times> bool \<Rightarrow> 'a queue_answer \<times> 'a list \<times> bool" where
  "fifo_call cap (Try_Push x) (xs, shut) =
     (if shut \<or> length xs = cap then (Taken False, xs, shut) else (Taken True, xs @ [x], shut))"
| "fifo_call cap Try_Pop (xs, shut) =
     (if shut \<or> xs = [] then (Got None, xs, shut) else (Got (Some (hd xs)), tl xs, shut))"
| "fifo_call cap Pop_Or_Expire (xs, shut) =
     (if xs = [] then (Got None, xs, shut) else (Got (Some (hd xs)), tl xs, shut))"
| "fifo_call cap (Discard n) (xs, shut) =
     (if shut then (Dropped 0, xs, shut) else (Dropped (min n (length xs)), drop n xs, shut))"
| "fifo_call cap Shut_Down (xs, shut) = (Done, xs, True)"
| "fifo_call cap Clear (xs, shut) = (Done, [], shut)"
| "fifo_call cap Reset (xs, shut) = (Done, [], False)"

fun calls :: "('c \<Rightarrow> 's \<Rightarrow> 'r \<times> 's) \<Rightarrow> 'c list \<Rightarrow> 's \<Rightarrow> 'r list \<times> 's" where
  "calls f [] s = ([], s)"
| "calls f (c # cs) s = (let (r, s') = f c s; (rs, s'') = calls f cs s' in (r # rs, s''))"

definition q_abs :: "'a pqueue \<Rightarrow> 'a list \<times> bool" where
  "q_abs q = (q_items q, q_shutdown q)"

lemma q_reset_items: "q_inv q \<Longrightarrow> q_inv (q_clear q) \<and> q_items (q_clear q) = [] \<and> q_inv (q_reset q) \<and> q_items (q_reset q) = []"
  by (simp add: q_clear_def q_reset_def q_inv_def q_items_def q_ring_def cb_forEach_def)

lemma queue_do_refines:
  assumes "q_inv q"
  shows "\<exists>q'. queue_do c q = (fst (fifo_call (q_capacity q) c (q_abs q)), q') \<and> q_inv q' \<and> q_capacity q' = q_capacity q
    \<and> q_abs q' = snd (fifo_call (q_capacity q) c (q_abs q))"
proof (cases c)
  case (Try_Push x)
  then show ?thesis
    using assms pq.push_refused [OF assms, of x] pq.push_taken [OF assms, of x] pq.within [OF assms]
    by (cases "q_shutdown q \<or> length (q_items q) = q_capacity q") (auto simp: q_abs_def)
next
  case Try_Pop
  then show ?thesis
    using assms pq.pop_refused [OF assms] pq.pop_taken [OF assms]
    by (cases "q_items q"; cases "q_shutdown q") (force simp: q_abs_def)+
next
  case Pop_Or_Expire
  then show ?thesis using assms q_pop_items(1) [OF assms] q_pop_items(2) [OF assms, where e = True]
    by (cases "q_items q") (force simp: q_abs_def)+
next
  case (Discard n)
  then show ?thesis
    using assms pq.discard_closed [OF assms, of n] pq.discard_open [OF assms, of n]
    by (cases "q_shutdown q") (auto simp: q_abs_def)
next
  case Shut_Down
  then show ?thesis using assms by (simp add: q_abs_def q_stop_def q_inv_def q_items_def q_ring_def)
next
  case Clear
  then show ?thesis using q_reset_items [OF assms] by (simp add: q_abs_def) (simp add: q_clear_def)
next
  case Reset
  then show ?thesis using q_reset_items [OF assms] by (simp add: q_abs_def) (simp add: q_reset_def)
qed

lemma queue_calls_refine:
  assumes "q_inv q"
  shows "fst (calls queue_do cs q) = fst (calls (fifo_call (q_capacity q)) cs (q_abs q))
    \<and> q_abs (snd (calls queue_do cs q)) = snd (calls (fifo_call (q_capacity q)) cs (q_abs q))
    \<and> q_inv (snd (calls queue_do cs q)) \<and> q_capacity (snd (calls queue_do cs q)) = q_capacity q"
  using assms
proof (induction cs arbitrary: q)
  case (Cons c cs)
  from queue_do_refines [OF Cons.prems, of c] obtain q' where q':
    "queue_do c q = (fst (fifo_call (q_capacity q) c (q_abs q)), q')" "q_inv q'" "q_capacity q' = q_capacity q"
    "q_abs q' = snd (fifo_call (q_capacity q) c (q_abs q))" by blast
  then show ?case using Cons.IH [OF q'(2)] by (simp add: split_beta Let_def)
qed simp

text \<open>
  C14: The queue between the threads is a bounded first-in-first-out list: whatever calls are made on a
  new queue, every call answers what the list of the waiting entries and the shutdown flag give, and
  never more entries wait than the capacity.
\<close>

theorem queue_refines_fifo:
  assumes "queue_new cap d = Some q"
  shows "fst (calls queue_do cs q) = fst (calls (fifo_call cap) cs ([], False))
    \<and> q_abs (snd (calls queue_do cs q)) = snd (calls (fifo_call cap) cs ([], False))
    \<and> length (q_items (snd (calls queue_do cs q))) \<le> cap"
  using queue_calls_refine [of q cs] pq.within [of "snd (calls queue_do cs q)"] q_new_items [OF assms]
  by (simp add: q_abs_def)

theorem queue_refines_fifo_witness:
  "(case queue_new 2 0 of None \<Rightarrow> False | Some q \<Rightarrow>
      fst (calls queue_do [Try_Push 1, Try_Push 2, Try_Push 3, Discard 1, Try_Push (4 :: nat), Try_Pop, Shut_Down, Try_Pop,
        Pop_Or_Expire, Try_Push 5] q)
      = [Taken True, Taken True, Taken False, Dropped 1, Taken True, Got (Some 2), Done, Got None, Got (Some 4), Taken False])"
proof -
  obtain q :: "nat pqueue" where q: "queue_new 2 0 = Some q" by (simp add: queue_new_def)
  note fifo = queue_refines_fifo [OF q, THEN conjunct1]
  show ?thesis unfolding q option.case fifo by simp
qed

end
