(* ===== verification/Reactor.thy ===== *)
theory Reactor
  imports Scheduling Poll_Manager Device_Scanner Platform_Queue
begin

text \<open>
  \<open>Reactor\<close> (\<open>src/ebus/app/reactor.hpp\<close>, \<open>.cpp\<close>): the loop that drives the scheduler, the poll manager and
  the scanner, keeps the inventory of devices up to date, and hands telegrams, errors and bus bytes to
  the callbacks of the user. Other threads reach it through three queues (\<open>Platform_Queue\<close>). The
  pointers to its collaborators are those the controller passes and never null, but for the
  monitor, which the scheduler's handler has or has not; \<open>None\<close> stands for a null monitor that is dereferenced, or for
  a round of the poll manager that does not return.
  What the callbacks of the user are given is recorded in \<open>delivered\<close> and \<open>traced\<close>. The scheduler,
  the poll manager, the scanner and the loop each read their own sequence of clock
  readings. The event sink of the scheduler is \<open>pushProtocolEvent\<close>: what an operation of the scheduler adds
  to \<open>events\<close> is pushed when the operation has ended (\<open>rx_sink\<close>).
\<close>

section \<open>Data\<close>

datatype SignalType = sig_shutdown | sig_bus_byte | sig_protocol_ready | sig_timer_wakeup | sig_user_request | sig_callback_ready

record ReactorSignal =
  sg_type :: SignalType
  byte_batch_count :: u8

definition signal_of :: "SignalType \<Rightarrow> ReactorSignal" where
  "signal_of ty = \<lparr>sg_type = ty, byte_batch_count = 0\<rparr>"

record ErrorEntry =
  ee_timestamp :: u64
  ee_session_id :: u32
  ee_poll_id :: u16
  ee_attempts :: u8
  ee_handler_state :: HandlerState
  ee_request_state :: RequestState
  ee_protocol_error :: ProtocolError
  ee_result :: RequestResult
  ee_sequence_state :: SequenceState
  ee_master :: bytes
  ee_slave :: bytes

definition ErrorEntry_init :: ErrorEntry where
  "ErrorEntry_init =
     \<lparr>ee_timestamp = 0, ee_session_id = 0, ee_poll_id = 0, ee_attempts = 0, ee_handler_state = passive_receive_master,
      ee_request_state = observe, ee_protocol_error = no_protocol_error, ee_result = observe_data,
      ee_sequence_state = seq_empty, ee_master = [], ee_slave = []\<rparr>"

definition BusEventInfo_init :: BusEventInfo where
  "BusEventInfo_init =
     \<lparr>bi_byte = 0, bi_handler_state = passive_receive_master, bi_request_state = observe, bi_result = observe_data,
      bi_lock_counter = 0, bi_timestamp = 0\<rparr>"

definition signal_queue_size :: nat where "signal_queue_size = 16"
definition protocol_queue_size :: nat where "protocol_queue_size = 8"
definition bus_queue_size :: nat where "bus_queue_size = 16"
definition error_history_size :: nat where "error_history_size = 60"
definition trace_history_size :: nat where "trace_history_size = 100"
definition utilization_history_size :: nat where "utilization_history_size = 64"
definition reactor_yield_burst_limit :: u32 where "reactor_yield_burst_limit = 10"
definition status_update_interval_ms_fast :: int where "status_update_interval_ms_fast = 100"
definition status_update_interval_ms_slow :: int where "status_update_interval_ms_slow = 500"
definition scan_priority :: u8 where "scan_priority = 5"
definition scan_threshold :: nat where "scan_threshold = 5"
definition controller_tick_ms :: int where "controller_tick_ms = 20"

lemmas reactor_limits = signal_queue_size_def protocol_queue_size_def bus_queue_size_def error_history_size_def
  trace_history_size_def utilization_history_size_def

text \<open>
  \<open>StaticSequence::operator[]\<close> reads the fixed array, which holds zeros behind the bytes
  assigned.
\<close>

definition static_at :: "bytes \<Rightarrow> nat \<Rightarrow> u8" where
  "static_at xs i = (if i < length xs then xs ! i else 0)"

text \<open>
  The state of the reactor, with \<open>utilization_history_\<close> of the monitor: its entries are the times low and
  elapsed that the code divides, in percent, in single precision. The last two fields
  before the ghost records are the locals of \<open>run\<close> that survive an iteration.
\<close>

record reactor =
  rx_own_address :: u8
  system_response :: bool
  rx_scheduler :: scheduler
  rx_polls :: poll_manager
  rx_scanner :: device_scanner
  rx_devices :: device_manager
  signal_queue :: "ReactorSignal pqueue"
  protocol_queue :: "ProtocolEvent pqueue"
  bus_queue :: "BusEventInfo pqueue"
  trace_buffer :: "BusEventInfo cbuf"
  error_buffer :: "ErrorEntry cbuf"
  utilization_history :: "(u64 \<times> u64) cbuf"
  max_protocol_queue :: nat
  max_signal_queue :: nat
  max_bus_queue :: nat
  rx_running :: bool
  user_protocol_callback :: bool
  user_trace_callback :: bool
  logger_level :: LogLevel
  rx_clock :: "nat \<Rightarrow> int"
  rx_clk_reads :: nat
  last_status_update :: int
  burst_count :: u32
  delivered :: "ProtocolInfo list"
  traced :: "BusEventInfo list"

definition reactor_new ::
  "u8 \<Rightarrow> bool \<Rightarrow> scheduler \<Rightarrow> poll_manager \<Rightarrow> device_scanner \<Rightarrow> device_manager \<Rightarrow> (nat \<Rightarrow> int) \<Rightarrow> LogLevel \<Rightarrow> reactor option" where
  "reactor_new address respond s p sn dm readings level =
     (case (queue_new signal_queue_size (signal_of sig_shutdown), queue_new protocol_queue_size ProtocolEvent_init,
            queue_new bus_queue_size BusEventInfo_init) of
        (Some sq, Some pq, Some bq) \<Rightarrow> Some
          \<lparr>rx_own_address = address, system_response = respond, rx_scheduler = s, rx_polls = p, rx_scanner = sn,
           rx_devices = dm, signal_queue = sq, protocol_queue = pq, bus_queue = bq,
           trace_buffer = cb_new trace_history_size BusEventInfo_init,
           error_buffer = cb_new error_history_size ErrorEntry_init,
           utilization_history = cb_new utilization_history_size (0, 0),
           max_protocol_queue = 0, max_signal_queue = 0, max_bus_queue = 0, rx_running = False,
           user_protocol_callback = False, user_trace_callback = False, logger_level = level,
           rx_clock = readings, rx_clk_reads = 0, last_status_update = 0, burst_count = 0,
           delivered = [], traced = []\<rparr>
      | _ \<Rightarrow> None)"

definition rx_now :: "reactor \<Rightarrow> int \<times> reactor" where
  "rx_now r = (rx_clock r (rx_clk_reads r), r\<lparr>rx_clk_reads := rx_clk_reads r + 1\<rparr>)"

definition on_scheduler :: "(scheduler \<Rightarrow> scheduler) \<Rightarrow> reactor \<Rightarrow> reactor" where
  "on_scheduler f r = r\<lparr>rx_scheduler := f (rx_scheduler r)\<rparr>"

definition on_monitor :: "(handler \<Rightarrow> handler) \<Rightarrow> reactor \<Rightarrow> reactor" where
  "on_monitor f = on_scheduler (\<lambda>s. s\<lparr>sc_handler := f (sc_handler s)\<rparr>)"

definition setProtocolCallback :: "bool \<Rightarrow> reactor \<Rightarrow> reactor" where
  "setProtocolCallback present r = r\<lparr>user_protocol_callback := present\<rparr>"

definition setTraceCallback :: "bool \<Rightarrow> reactor \<Rightarrow> reactor" where
  "setTraceCallback present r = r\<lparr>user_trace_callback := present\<rparr>"

definition setLogLevel :: "LogLevel \<Rightarrow> reactor \<Rightarrow> reactor" where
  "setLogLevel level r = r\<lparr>logger_level := level\<rparr>"

section \<open>What other threads hand over\<close>

definition pushSignal :: "ReactorSignal \<Rightarrow> reactor \<Rightarrow> bool \<times> reactor" where
  "pushSignal sig r =
     (case push_latest q_tryPush q_discard sig (signal_queue r) of (ok, q) \<Rightarrow>
        let r = r\<lparr>signal_queue := q\<rparr>
        in if ok then (True, r\<lparr>max_signal_queue := max (max_signal_queue r) (q_size q)\<rparr>)
           else (False, on_monitor (updateReactor (\<lambda>m. m\<lparr>signal_queue_dropped := signal_queue_dropped m + 1\<rparr>)) r))"

definition wake :: "ReactorSignal \<Rightarrow> reactor \<Rightarrow> reactor" where
  "wake sig r = r\<lparr>signal_queue := snd (q_tryPush sig (signal_queue r))\<rparr>"

definition pushProtocolEvent :: "ProtocolEvent \<Rightarrow> reactor \<Rightarrow> bool \<times> reactor" where
  "pushProtocolEvent ev r =
     (case push_latest q_tryPush q_discard ev (protocol_queue r) of (ok, q) \<Rightarrow>
        let r = r\<lparr>protocol_queue := q\<rparr>
        in if ok
           then (True, wake (signal_of sig_callback_ready)
                         (r\<lparr>max_protocol_queue := max (max_protocol_queue r) (q_size q)\<rparr>))
           else (False, on_monitor (updateReactor (\<lambda>m. m\<lparr>protocol_queue_dropped := protocol_queue_dropped m + 1\<rparr>)) r))"

definition rx_onBusEventInfo :: "BusEventInfo \<Rightarrow> reactor \<Rightarrow> reactor" where
  "rx_onBusEventInfo info r =
     (let (ok, q) = q_tryPush info (bus_queue r);
          r = (if ok then r\<lparr>bus_queue := q\<rparr>
               else
                 (let (n, q1) = q_discard 1 q;
                      q2 = (if n > 0 then snd (q_tryPush info q1) else q1)
                  in on_monitor (updateReactor (\<lambda>m. m\<lparr>bus_queue_dropped := bus_queue_dropped m + 1\<rparr>))
                       (r\<lparr>bus_queue := q2\<rparr>)))
      in wake \<lparr>sg_type = sig_bus_byte, byte_batch_count = 1\<rparr>
           (r\<lparr>max_bus_queue := max (max_bus_queue r) (q_size (bus_queue r)),
              trace_buffer := snd (cb_push_back info (trace_buffer r))\<rparr>))"

definition rx_sink :: "reactor \<Rightarrow> reactor" where
  "rx_sink r =
     fold (\<lambda>ev r. snd (pushProtocolEvent ev r)) (events (rx_scheduler r)) (on_scheduler (\<lambda>s. s\<lparr>events := []\<rparr>) r)"

text \<open>
  One event of the bus, as the bus thread sees it: the bus handler runs the machines, whose reports go through
  the scheduler into the queue, and hands the byte on.
\<close>

definition rx_bus_event :: "u64 \<Rightarrow> BusEvent \<Rightarrow> reactor \<Rightarrow> reactor" where
  "rx_bus_event wall_ms ev r =
     rx_onBusEventInfo (fst (onBusEvent ev (sc_handler (rx_scheduler r))))
       (rx_sink (on_scheduler (sched_bus_event wall_ms ev) r))"

definition rx_stop :: "reactor \<Rightarrow> reactor" where
  "rx_stop r =
     (let sig = signal_of sig_shutdown;
          (ok, q) = q_tryPush sig (signal_queue r);
          q = (if ok then q else snd (q_tryPush sig (snd (q_discard 1 q))))
      in r\<lparr>signal_queue := q_stop q, rx_running := False\<rparr>)"

section \<open>Diagnostics\<close>

definition rx_fetchTraceHistory :: "reactor \<Rightarrow> BusEventInfo list" where
  "rx_fetchTraceHistory r = cb_forEach (trace_buffer r)"

definition rx_fetchErrors :: "reactor \<Rightarrow> ErrorEntry list" where
  "rx_fetchErrors r = cb_forEach (error_buffer r)"

definition rx_clearErrors :: "reactor \<Rightarrow> reactor" where
  "rx_clearErrors r = r\<lparr>error_buffer := cb_clear (error_buffer r)\<rparr>"

record QueueStatus =
  qs_size :: nat
  qs_capacity :: nat
  qs_max :: nat

record ReactorStatus =
  rs_signal_queue :: QueueStatus
  rs_protocol_queue :: QueueStatus
  rs_bus_queue :: QueueStatus
  rs_signal_queue_dropped :: u32
  rs_protocol_queue_dropped :: u32
  rs_bus_queue_dropped :: u32
  rs_max_loop_cycle_us :: u32

definition rx_fetchStatus :: "reactor \<Rightarrow> ReactorStatus" where
  "rx_fetchStatus r =
     (let status =
        \<lparr>rs_signal_queue = \<lparr>qs_size = q_size (signal_queue r), qs_capacity = signal_queue_size, qs_max = max_signal_queue r\<rparr>,
         rs_protocol_queue = \<lparr>qs_size = q_size (protocol_queue r), qs_capacity = protocol_queue_size, qs_max = max_protocol_queue r\<rparr>,
         rs_bus_queue = \<lparr>qs_size = q_size (bus_queue r), qs_capacity = bus_queue_size, qs_max = max_bus_queue r\<rparr>,
         rs_signal_queue_dropped = 0, rs_protocol_queue_dropped = 0, rs_bus_queue_dropped = 0, rs_max_loop_cycle_us = 0\<rparr>
      in case mon (sc_handler (rx_scheduler r)) of
           None \<Rightarrow> status
         | Some m \<Rightarrow> status\<lparr>rs_signal_queue_dropped := signal_queue_dropped (reactor_acc m),
             rs_protocol_queue_dropped := protocol_queue_dropped (reactor_acc m),
             rs_bus_queue_dropped := bus_queue_dropped (reactor_acc m),
             rs_max_loop_cycle_us := max_loop_cycle_us (reactor_acc m)\<rparr>)"

section \<open>Events for the user\<close>

fun level_rank :: "LogLevel \<Rightarrow> nat" where
  "level_rank level_none = 0"
| "level_rank level_error = 1"
| "level_rank level_info = 2"
| "level_rank level_debug = 3"

definition isEnabled :: "LogLevel \<Rightarrow> reactor \<Rightarrow> bool" where
  "isEnabled level r \<longleftrightarrow> level \<noteq> level_none \<and> level_rank level \<le> level_rank (logger_level r)"

definition scan_result :: "ProtocolEvent \<Rightarrow> bool \<Rightarrow> reactor \<Rightarrow> reactor" where
  "scan_result ev success r =
     (let is_broadcast = (pe_type ev = ev_telegram \<and> pe_telegram_type ev = broadcast)
      in if pe_session_id ev > 0 \<and> \<not> is_broadcast
         then r\<lparr>rx_scanner := onScanResult (Some (rx_devices r)) (static_at (pe_master ev) 1) success (rx_scanner r)\<rparr>
         else r)"

definition answer_inquiry :: "ProtocolEvent \<Rightarrow> reactor \<Rightarrow> reactor" where
  "answer_inquiry ev r =
     (if system_response r \<and> matches (pe_master ev) (sq_bytes inquiryOfExistence) 1
        \<and> static_at (pe_master ev) 0 \<noteq> rx_own_address r
      then on_scheduler (\<lambda>s. snd (enqueue scan_priority (sq_bytes signOfLife) 0 s)) r
      else r)"

definition telegram_event :: "ProtocolEvent \<Rightarrow> reactor \<Rightarrow> reactor" where
  "telegram_event ev r =
     answer_inquiry ev (scan_result ev True (r\<lparr>rx_devices := dm_update (pe_master ev) (pe_slave ev) (rx_devices r)\<rparr>))"

definition error_entry :: "ProtocolEvent \<Rightarrow> ErrorEntry" where
  "error_entry ev = ErrorEntry_init
     \<lparr>ee_timestamp := pe_timestamp ev, ee_session_id := pe_session_id ev, ee_poll_id := pe_poll_id ev,
      ee_attempts := pe_attempts ev, ee_sequence_state := pe_sequence_state ev,
      ee_handler_state := pe_handler_state ev, ee_request_state := pe_request_state ev,
      ee_protocol_error := pe_protocol_error ev, ee_result := pe_result ev,
      ee_master := static_assign model_capacity (pe_master ev), ee_slave := static_assign model_capacity (pe_slave ev)\<rparr>"

definition error_event :: "ProtocolEvent \<Rightarrow> reactor \<Rightarrow> reactor" where
  "error_event ev r =
     scan_result ev False (r\<lparr>error_buffer := snd (cb_push_back (error_entry ev) (error_buffer r))\<rparr>)"

definition public_info :: "ProtocolEvent \<Rightarrow> ProtocolInfo" where
  "public_info ev =
     (let info = ProtocolInfo_init
        \<lparr>is_error := (pe_type ev = ev_error), pi_session_id := pe_session_id ev, pi_poll_id := pe_poll_id ev,
         pi_attempts := pe_attempts ev, pi_handler_state := pe_handler_state ev,
         pi_request_state := pe_request_state ev, pi_master_view := pe_master ev, pi_slave_view := pe_slave ev\<rparr>
      in if is_error info
         then info\<lparr>pi_level := pe_level ev, pi_timestamp := pe_timestamp ev, pi_protocol_error := pe_protocol_error ev,
                   pi_result := pe_result ev, pi_sequence_state := pe_sequence_state ev\<rparr>
         else info\<lparr>pi_timestamp := pe_timestamp ev, pi_message_type := pe_message_type ev,
                   pi_telegram_type := pe_telegram_type ev\<rparr>)"

definition deliver_event :: "ProtocolEvent \<Rightarrow> reactor \<Rightarrow> reactor" where
  "deliver_event ev r =
     (if user_protocol_callback r \<and> (pe_type ev = ev_telegram \<or> pe_type ev = ev_error)
        \<and> \<not> (is_error (public_info ev) \<and> \<not> isEnabled (pi_level (public_info ev)) r)
      then r\<lparr>delivered := delivered r @ [public_info ev]\<rparr> else r)"

definition process_event :: "ProtocolEvent \<Rightarrow> reactor \<Rightarrow> reactor option" where
  "process_event ev r =
     (case injectProtocolEvent ev (rx_scheduler r) of
        None \<Rightarrow> None
      | Some (_, s) \<Rightarrow>
          (let r = r\<lparr>rx_scheduler := s\<rparr>;
               r = (if pe_type ev = ev_telegram then telegram_event ev r
                    else if pe_type ev = ev_error then error_event ev r else r)
           in Some (deliver_event ev r)))"

lemma process_event_queue: "process_event ev r = Some r' \<Longrightarrow> protocol_queue r' = protocol_queue r"
  by (auto simp: process_event_def telegram_event_def answer_inquiry_def on_scheduler_def scan_result_def
      error_event_def deliver_event_def Let_def split: option.splits if_splits)

function processPublicEvents :: "reactor \<Rightarrow> reactor option" where
  "processPublicEvents r =
     (case q_tryPop (protocol_queue r) of
        None \<Rightarrow> Some r
      | Some (ev, q) \<Rightarrow>
          (case process_event ev (r\<lparr>protocol_queue := q\<rparr>) of
             None \<Rightarrow> None
           | Some r' \<Rightarrow> processPublicEvents r'))"
  by pat_completeness auto
termination
  by (relation "measure (\<lambda>r. q_size (protocol_queue r))")
    (auto simp: q_tryPop_def q_skip_def dest: process_event_queue split: if_splits)

declare processPublicEvents.simps [simp del]

section \<open>Signals\<close>

definition processBusByte :: "reactor \<Rightarrow> reactor" where
  "processBusByte r =
     (case q_tryPop (bus_queue r) of
        None \<Rightarrow> r
      | Some (info, q) \<Rightarrow>
          (let r = r\<lparr>bus_queue := q\<rparr>
           in if user_trace_callback r then r\<lparr>traced := traced r @ [info]\<rparr> else r))"

definition processSignal :: "ReactorSignal \<Rightarrow> reactor \<Rightarrow> reactor" where
  "processSignal sig r =
     (case sg_type sig of
        sig_shutdown \<Rightarrow> r\<lparr>rx_running := False\<rparr>
      | sig_bus_byte \<Rightarrow> processBusByte r
      | _ \<Rightarrow> r)"

section \<open>The loop\<close>

definition rx_tick :: "reactor \<Rightarrow> bool \<times> reactor" where
  "rx_tick r = (let (act, s) = sched_tick (rx_scheduler r) in (act, rx_sink (r\<lparr>rx_scheduler := s\<rparr>)))"

fun enqueue_polled :: "PollItem list \<Rightarrow> bool \<times> scheduler \<Rightarrow> bool \<times> scheduler" where
  "enqueue_polled [] st = st"
| "enqueue_polled (it # its) (act, s) =
     (let (sid, s') = enqueue (pl_priority it) (sq_bytes (pl_message it)) (pl_poll_id it) s
      in enqueue_polled its (if sid \<noteq> 0 then True else act, s'))"

text \<open>The callback of \<open>processDueItems\<close> is called for the items that this call adds to \<open>polled\<close>.\<close>

definition rx_poll :: "bool \<Rightarrow> reactor \<Rightarrow> (bool \<times> reactor) option" where
  "rx_poll act r =
     (case processDueItems (Some act) (rx_polls r) of
        None \<Rightarrow> None
      | Some (act1, p) \<Rightarrow>
          (let due = drop (length (polled (rx_polls r))) (polled p);
               (act2, s) = enqueue_polled due (act1 = Some True, rx_scheduler r)
           in Some (act2, r\<lparr>rx_polls := p, rx_scheduler := s\<rparr>)))"

definition rx_scan :: "bool \<Rightarrow> reactor \<Rightarrow> bool \<times> reactor" where
  "rx_scan act r =
     (if length (scheduled_items (rx_scheduler r)) < scan_threshold
      then
        (let (cmd, sn) = nextCommand (Some (rx_devices r)) (rx_scanner r);
             r = r\<lparr>rx_scanner := sn\<rparr>
         in if sq_bytes cmd \<noteq> []
            then (let (sid, s) = enqueue scan_priority (sq_bytes cmd) 0 (rx_scheduler r)
                  in (if sid \<noteq> 0 then True else act, r\<lparr>rx_scheduler := s\<rparr>))
            else (act, r))
      else (act, r))"

definition next_timeout :: "bool \<Rightarrow> reactor \<Rightarrow> u32 \<times> reactor" where
  "next_timeout act r =
     (let next_sched = nextDueTime (rx_scheduler r);
          (next_poll, p) = poll_nextDueTime (rx_polls r);
          (t1, r) = rx_now (r\<lparr>rx_polls := p\<rparr>);
          tick_limit = time_add t1 (1000 * controller_tick_ms);
          next_wakeup = min next_sched (min next_poll tick_limit);
          (t2, r) = rx_now r
      in (if \<not> act \<and> next_wakeup > t2 then of_int ((next_wakeup - t2) div 1000) else 0, r))"

text \<open>
  The first half of an iteration, up to the wait; it gives the start of the iteration,
  whether there was activity, and the timeout.
\<close>

definition loop_head :: "reactor \<Rightarrow> ((int \<times> bool \<times> u32) \<times> reactor) option" where
  "loop_head r =
     (let (t0, r) = rx_now r; (act, r) = rx_tick r
      in case processPublicEvents r of
           None \<Rightarrow> None
         | Some r \<Rightarrow>
             (case rx_poll act r of
                None \<Rightarrow> None
              | Some (act, r) \<Rightarrow>
                  (let (act, r) = rx_scan act r; (timeout_ms, r) = next_timeout act r
                   in Some ((t0, act, timeout_ms), r))))"

text \<open>The inner loop over the waiting signals; the first component tells that \<open>run\<close> returns.\<close>

lemma processSignal_queue: "signal_queue (processSignal sig r) = signal_queue r"
  by (auto simp: processSignal_def processBusByte_def Let_def split: SignalType.splits option.splits)

function drain_signals :: "reactor \<Rightarrow> bool \<times> reactor" where
  "drain_signals r =
     (case q_tryPop (signal_queue r) of
        None \<Rightarrow> (False, r)
      | Some (sig, q) \<Rightarrow>
          (let r = processSignal sig (r\<lparr>signal_queue := q\<rparr>)
           in if \<not> rx_running r then (True, r)
              else if burst_count r + 1 > reactor_yield_burst_limit then (False, r\<lparr>burst_count := 0\<rparr>)
              else drain_signals (r\<lparr>burst_count := burst_count r + 1\<rparr>)))"
  by pat_completeness auto
termination
  by (relation "measure (\<lambda>r. q_size (signal_queue r))")
    (auto simp: q_tryPop_def q_skip_def processSignal_queue split: if_splits)

declare drain_signals.simps [simp del]

text \<open>\<open>updateUtilizationHistory\<close>, with the times that are divided.\<close>

definition updateUtilizationHistory :: "reactor \<Rightarrow> reactor" where
  "updateUtilizationHistory r =
     (let h = sc_handler (rx_scheduler r)
      in case mon h of
           None \<Rightarrow> r
         | Some m \<Rightarrow>
             (let total_uptime_us = of_int (now h - uptime_start m);
                  delta_bits = total_low_bits m - last_history_low_bits m;
                  delta_time = total_uptime_us - last_history_uptime_us m;
                  delta_low_us = (delta_bits * 1250) div 3
              in (on_monitor (update_mon_clk (\<lambda>_ m. m\<lparr>last_history_low_bits := total_low_bits m,
                    last_history_uptime_us := total_uptime_us\<rparr>)) r)
                 \<lparr>utilization_history := snd (cb_push_back (delta_low_us, delta_time) (utilization_history r))\<rparr>))"

definition status_update :: "reactor \<Rightarrow> reactor" where
  "status_update r =
     (let r = updateUtilizationHistory r;
          r = on_monitor (resetMaxBusQueueSize (q_size (bus_queue r)) \<circ> resetMaxProtocolQueueSize (q_size (protocol_queue r))
            \<circ> resetMaxSignalQueueSize (q_size (signal_queue r)) \<circ> resetLoopCycle) r
      in (on_scheduler resetPeakMetrics r)\<lparr>rx_polls := poll_resetPeakMetrics (rx_polls r)\<rparr>)"

definition update_status :: "bool \<Rightarrow> reactor \<Rightarrow> reactor" where
  "update_status act r =
     (let (t, r) = rx_now r; since = t - last_status_update r
      in if \<not> act \<and> since > 1000 * status_update_interval_ms_fast \<or> since > 1000 * status_update_interval_ms_slow
         then (let (t', r) = rx_now (status_update r) in r\<lparr>last_status_update := t'\<rparr>)
         else r)"

text \<open>
  The second half, from the wait on: an empty queue stands for a wait that ended without a signal. The first
  component tells that \<open>run\<close> returns from within.
\<close>

definition rx_wait :: "bool \<Rightarrow> reactor \<Rightarrow> bool \<times> bool \<times> reactor" where
  "rx_wait act r =
     (case q_pop True (signal_queue r) of
        Some (Some sig, q) \<Rightarrow>
          (let (returns, r) = drain_signals (processSignal sig (r\<lparr>signal_queue := q\<rparr>)) in (returns, True, r))
      | _ \<Rightarrow> (False, act, r\<lparr>burst_count := 0\<rparr>))"

definition loop_tail :: "int \<times> bool \<times> u32 \<Rightarrow> reactor \<Rightarrow> reactor option" where
  "loop_tail l r =
     (case l of (t0, act, timeout_ms) \<Rightarrow>
        let (returns, act, r) = rx_wait act r
        in if returns then Some r
           else
             (case if act \<or> timeout_ms = 0 then processPublicEvents r else Some r of
                None \<Rightarrow> None
              | Some r \<Rightarrow>
                  if mon (sc_handler (rx_scheduler r)) = None then None
                  else
                    (let (t, r) = rx_now r; loop_duration = t - t0
                     in Some (update_status act (on_monitor (updateReactor (\<lambda>m.
                          if loop_duration > uint (max_loop_cycle_us m)
                          then m\<lparr>max_loop_cycle_us := of_int loop_duration\<rparr> else m)) r)))))"

definition run_begin :: "reactor \<Rightarrow> reactor" where
  "run_begin r = (let (t, r) = rx_now (r\<lparr>rx_running := True\<rparr>) in r\<lparr>last_status_update := t, burst_count := 0\<rparr>)"

definition loop_iteration :: "reactor \<Rightarrow> reactor option" where
  "loop_iteration r = (case loop_head r of None \<Rightarrow> None | Some (l, r) \<Rightarrow> loop_tail l r)"

text \<open>The loop, for at most \<open>n\<close> iterations and with no other thread in between.\<close>

fun run_loop :: "nat \<Rightarrow> reactor \<Rightarrow> reactor option" where
  "run_loop 0 r = Some r"
| "run_loop (Suc n) r =
     (if rx_running r then (case loop_iteration r of None \<Rightarrow> None | Some r \<Rightarrow> run_loop n r) else Some r)"

end
