(* ===== verification/Reactor_Loop.thy ===== *)
theory Reactor_Loop
  imports Reactor
begin

text \<open>
  What holds in every run of the reactor: the step relation of its operations, its own thread and the
  others in any order, a locale for properties of its queues that walks through the steps
  once, and its interpretations: the bounds of the queues and the wake-up of every byte, the state after
  \<open>stop\<close>. Then the processing of events and the way of a message from the user to the bus
  and back.
\<close>

section \<open>What an operation does to the queues\<close>

definition rx_queues where
  "rx_queues r = (signal_queue r, protocol_queue r, bus_queue r, max_signal_queue r, max_protocol_queue r, max_bus_queue r,
     traced r)"

lemma quiet_updates [simp]:
  "rx_queues (on_scheduler f r) = rx_queues r" "rx_queues (on_monitor g r) = rx_queues r"
  "rx_queues (snd (rx_now r)) = rx_queues r" "rx_queues (r\<lparr>rx_scheduler := s\<rparr>) = rx_queues r"
  "rx_queues (r\<lparr>rx_scanner := sn\<rparr>) = rx_queues r" "rx_queues (r\<lparr>rx_devices := dm\<rparr>) = rx_queues r"
  "rx_queues (r\<lparr>rx_polls := p\<rparr>) = rx_queues r" "rx_queues (r\<lparr>error_buffer := eb\<rparr>) = rx_queues r"
  "rx_queues (r\<lparr>delivered := ds\<rparr>) = rx_queues r" "rx_queues (r\<lparr>utilization_history := us\<rparr>) = rx_queues r"
  "rx_queues (r\<lparr>last_status_update := t\<rparr>) = rx_queues r" "rx_queues (r\<lparr>burst_count := n\<rparr>) = rx_queues r"
  "rx_queues (r\<lparr>rx_running := x\<rparr>) = rx_queues r"
  by (simp_all add: rx_queues_def on_scheduler_def on_monitor_def rx_now_def)

lemma quiet_event_parts [simp]:
  "rx_queues (scan_result ev ok r) = rx_queues r" "rx_queues (answer_inquiry ev r) = rx_queues r"
  "rx_queues (deliver_event ev r) = rx_queues r"
  by (simp_all add: scan_result_def answer_inquiry_def deliver_event_def Let_def)

lemma process_event_frame: "process_event ev r = Some r' \<Longrightarrow> rx_queues r' = rx_queues r"
  by (auto simp: process_event_def telegram_event_def error_event_def Let_def split: option.splits)

lemma quiet_status [simp]: "rx_queues (status_update r) = rx_queues r"
  by (simp add: status_update_def updateUtilizationHistory_def Let_def split: option.splits)

lemma quiet_steps:
  "rx_queues (update_status act r) = rx_queues r" "rx_queues (snd (rx_scan act r)) = rx_queues r"
  "rx_queues (snd (next_timeout act r)) = rx_queues r" "rx_queues (run_begin r) = rx_queues r"
  by (simp_all add: update_status_def rx_scan_def next_timeout_def run_begin_def Let_def split_beta)

lemma rx_poll_frame: "rx_poll act r = Some (act', r') \<Longrightarrow> rx_queues r' = rx_queues r"
  by (auto simp: rx_poll_def Let_def split: option.splits prod.splits)

section \<open>Steps\<close>

text \<open>
  The operations of the loop, as they follow each other in \<open>run\<close> or in any other order, and
  between them what other threads do: bus events, calls of the controller, the end. The
  controller sends no signals but those of user requests and timers.
\<close>

inductive reactor_step :: "reactor \<Rightarrow> reactor \<Rightarrow> bool" where
  rx_step_bus: "reactor_step r (rx_bus_event w ev r)"
| rx_step_signal: "sg_type sig \<in> {sig_user_request, sig_timer_wakeup} \<Longrightarrow> reactor_step r (snd (pushSignal sig r))"
| rx_step_scheduler: "sched_step (rx_scheduler r) s \<Longrightarrow> reactor_step r (r\<lparr>rx_scheduler := s\<rparr>)"
| rx_step_polls: "poll_step (rx_polls r) p \<Longrightarrow> reactor_step r (r\<lparr>rx_polls := p\<rparr>)"
| rx_step_scanner: "scanner_step (rx_scanner r) sn \<Longrightarrow> reactor_step r (r\<lparr>rx_scanner := sn\<rparr>)"
| rx_step_begin: "reactor_step r (run_begin r)"
| rx_step_tick: "reactor_step r (snd (rx_tick r))"
| rx_step_event: "q_tryPop (protocol_queue r) = Some (ev, q) \<Longrightarrow> process_event ev (r\<lparr>protocol_queue := q\<rparr>) = Some r' \<Longrightarrow>
    reactor_step r r'"
| rx_step_poll: "rx_poll act r = Some (act', r') \<Longrightarrow> reactor_step r r'"
| rx_step_scan: "reactor_step r (snd (rx_scan act r))"
| rx_step_timeout: "reactor_step r (snd (next_timeout act r))"
| rx_step_pop: "q_pop True (signal_queue r) = Some (Some sig, q) \<Longrightarrow> reactor_step r (processSignal sig (r\<lparr>signal_queue := q\<rparr>))"
| rx_step_status: "reactor_step r (update_status act r)"
| rx_step_stop: "reactor_step r (rx_stop r)"
| rx_step_callbacks: "reactor_step r (setTraceCallback b (setProtocolCallback c (setLogLevel lv (rx_clearErrors r))))"

locale queue_property =
  fixes P :: "reactor \<Rightarrow> bool"
  assumes of_other: "P r \<Longrightarrow> rx_queues r' = rx_queues r \<Longrightarrow> P r'"
    and of_signal: "P r \<Longrightarrow> sg_type sig \<noteq> sig_bus_byte \<Longrightarrow> P (snd (pushSignal sig r))"
    and of_event: "P r \<Longrightarrow> P (snd (pushProtocolEvent ev r))"
    and of_byte: "P r \<Longrightarrow> P (rx_onBusEventInfo info r)"
    and of_pop_event: "P r \<Longrightarrow> q_tryPop (protocol_queue r) = Some (ev, q) \<Longrightarrow> P (r\<lparr>protocol_queue := q\<rparr>)"
    and of_pop_signal: "P r \<Longrightarrow> q_pop True (signal_queue r) = Some (Some sig, sq) \<Longrightarrow> P (processSignal sig (r\<lparr>signal_queue := sq\<rparr>))"
    and of_stop: "P r \<Longrightarrow> P (rx_stop r)"
begin

lemma of_events: "P r \<Longrightarrow> P (fold (\<lambda>ev r. snd (pushProtocolEvent ev r)) evs r)"
  by (induction evs arbitrary: r) (simp_all add: of_event)

lemma of_sink: "P r \<Longrightarrow> P (rx_sink r)"
  unfolding rx_sink_def by (rule of_events [OF of_other]) simp_all

lemma of_step: "reactor_step r r' \<Longrightarrow> P r \<Longrightarrow> P r'"
proof (induction rule: reactor_step.induct)
  case (rx_step_bus r w ev)
  then show ?case unfolding rx_bus_event_def
    by (intro of_byte of_sink of_other [OF rx_step_bus]) simp
next
  case (rx_step_tick r)
  have "P (rx_sink (r\<lparr>rx_scheduler := snd (sched_tick (rx_scheduler r))\<rparr>))"
    by (rule of_sink [OF of_other [OF rx_step_tick]]) simp
  then show ?case by (simp add: rx_tick_def split_beta Let_def)
next
  case (rx_step_event r ev q r')
  then show ?case using of_other [OF of_pop_event] process_event_frame by blast
next
  case (rx_step_signal sig r)
  then show ?case by (intro of_signal) auto
next
  case (rx_step_poll act r act' r')
  then show ?case using of_other rx_poll_frame by blast
next
  case (rx_step_callbacks r b c lv)
  then show ?case
    by (elim of_other) (simp add: rx_queues_def setTraceCallback_def setProtocolCallback_def setLogLevel_def rx_clearErrors_def)
qed (blast intro: of_pop_signal of_stop | erule of_other, simp add: quiet_steps)+

lemma of_reachable: "reactor_step\<^sup>*\<^sup>* r r' \<Longrightarrow> P r \<Longrightarrow> P r'"
  by (induction rule: rtranclp_induct) (auto intro: of_step)

end

section \<open>The queues stay consistent\<close>

text \<open>The results of the queue operations, as equations on the contents.\<close>

lemma tryPush_contents:
  assumes "q_inv q"
  shows "q_items (snd (q_tryPush x q)) = (if q_shutdown q \<or> q_size q = q_capacity q then q_items q else q_items q @ [x])"
    "q_inv (snd (q_tryPush x q))" "q_capacity (snd (q_tryPush x q)) = q_capacity q"
    "q_shutdown (snd (q_tryPush x q)) = q_shutdown q"
    "fst (q_tryPush x q) \<longleftrightarrow> \<not> q_shutdown q \<and> q_size q < q_capacity q"
  using assms pq.push_refused [OF assms, of x] pq.push_taken [OF assms, of x] pq.within [OF assms]
  by (cases "q_shutdown q \<or> q_size q = q_capacity q"; force)+

lemma push_latest_contents:
  assumes "q_inv q"
  shows "q_items (snd (push_latest q_tryPush q_discard x q)) =
      (if q_shutdown q then q_items q else latest (q_capacity q) (q_items q @ [x]))"
    "q_inv (snd (push_latest q_tryPush q_discard x q))" "q_capacity (snd (push_latest q_tryPush q_discard x q)) = q_capacity q"
    "q_shutdown (snd (push_latest q_tryPush q_discard x q)) = q_shutdown q"
    "fst (push_latest q_tryPush q_discard x q) \<longleftrightarrow> \<not> q_shutdown q"
  using assms pq.push_latest_closed [OF assms, of x] pq.push_latest_open [OF assms, of x]
  by (cases "q_shutdown q"; force)+

lemma discard_contents:
  assumes "q_inv q"
  shows "q_items (snd (q_discard n q)) = (if q_shutdown q then q_items q else drop n (q_items q))"
    "q_inv (snd (q_discard n q))" "q_capacity (snd (q_discard n q)) = q_capacity q"
    "q_shutdown (snd (q_discard n q)) = q_shutdown q"
  using assms pq.discard_closed [OF assms, of n] pq.discard_open [OF assms, of n] by (cases "q_shutdown q"; force)+

lemma tryPop_contents:
  assumes "q_inv q" "q_tryPop q = Some (x, q')"
  shows "q_items q = x # q_items q'" "q_inv q'" "q_capacity q' = q_capacity q" "q_shutdown q' = q_shutdown q"
    "\<not> q_shutdown q" "q_size q = q_size q' + 1"
proof -
  have "q_items q = x # q_items q' \<and> q_inv q' \<and> q_capacity q' = q_capacity q \<and> q_shutdown q' = q_shutdown q \<and> \<not> q_shutdown q"
    using assms q_skip_items [of q] by (auto simp: q_tryPop_def split: if_splits)
  moreover from this have "q_size q = q_size q' + 1" by (metis length_Cons q_items_length Suc_eq_plus1)
  ultimately show "q_items q = x # q_items q'" "q_inv q'" "q_capacity q' = q_capacity q" "q_shutdown q' = q_shutdown q"
    "\<not> q_shutdown q" "q_size q = q_size q' + 1" by simp_all
qed

lemma pop_contents:
  assumes "q_inv q" "q_pop True q = Some (Some x, q')"
  shows "q_items q = x # q_items q'" "q_inv q'" "q_capacity q' = q_capacity q" "q_shutdown q' = q_shutdown q"
  using assms q_skip_items [of q] by (auto simp: q_pop_def split: if_splits)

lemma push_latest_size:
  "q_inv q \<Longrightarrow> q_size (snd (push_latest q_tryPush q_discard x q)) =
     (if q_shutdown q then q_size q else min (q_capacity q) (q_size q + 1))"
  unfolding q_items_length [symmetric] by (simp add: push_latest_contents(1) latest_def del: q_items_length) linarith

text \<open>The signals that wait for a byte of the bus to be handed out.\<close>

definition awaited :: "ReactorSignal list \<Rightarrow> nat" where
  "awaited sigs = length (filter (\<lambda>sig. sg_type sig = sig_bus_byte) sigs)"

lemma awaited_simps [simp]:
  "awaited [] = 0" "awaited (x # xs) = (if sg_type x = sig_bus_byte then 1 else 0) + awaited xs"
  "awaited (xs @ ys) = awaited xs + awaited ys"
  by (simp_all add: awaited_def)

lemma awaited_drop: "awaited (drop n xs) \<le> awaited xs"
  by (metis append_take_drop_id awaited_simps(3) le_add2)

lemma awaited_latest: "awaited (latest n xs) \<le> awaited xs"
  by (simp add: latest_def awaited_drop)

lemma awaited_pushed:
  assumes "q_inv q"
  shows "awaited (q_items (snd (push_latest q_tryPush q_discard sig q))) \<le> awaited (q_items q) + awaited [sig]"
  using push_latest_contents(1) [OF assms, of sig] awaited_latest [of "q_capacity q" "q_items q @ [sig]"]
  by (cases "q_shutdown q") auto

definition signals_ok :: "reactor \<Rightarrow> bool" where
  "signals_ok r \<longleftrightarrow> q_inv (signal_queue r) \<and> q_capacity (signal_queue r) = signal_queue_size
     \<and> max_signal_queue r \<le> signal_queue_size \<and> awaited (q_items (signal_queue r)) \<le> q_size (bus_queue r)"

definition events_ok :: "reactor \<Rightarrow> bool" where
  "events_ok r \<longleftrightarrow> q_inv (protocol_queue r) \<and> q_capacity (protocol_queue r) = protocol_queue_size
     \<and> \<not> q_shutdown (protocol_queue r) \<and> q_size (protocol_queue r) \<le> max_protocol_queue r
     \<and> max_protocol_queue r \<le> protocol_queue_size"

definition bus_ok :: "reactor \<Rightarrow> bool" where
  "bus_ok r \<longleftrightarrow> q_inv (bus_queue r) \<and> q_capacity (bus_queue r) = bus_queue_size \<and> \<not> q_shutdown (bus_queue r)
     \<and> q_size (bus_queue r) \<le> max_bus_queue r \<and> max_bus_queue r \<le> bus_queue_size"

definition rx_inv :: "reactor \<Rightarrow> bool" where
  "rx_inv r \<longleftrightarrow> signals_ok r \<and> events_ok r \<and> bus_ok r"

lemmas rx_inv_defs = rx_inv_def signals_ok_def events_ok_def bus_ok_def

lemma signal_fields [simp]:
  "protocol_queue (snd (pushSignal sig r)) = protocol_queue r" "bus_queue (snd (pushSignal sig r)) = bus_queue r"
  "max_protocol_queue (snd (pushSignal sig r)) = max_protocol_queue r" "max_bus_queue (snd (pushSignal sig r)) = max_bus_queue r"
  "traced (snd (pushSignal sig r)) = traced r"
  "signal_queue (snd (pushSignal sig r)) = snd (push_latest q_tryPush q_discard sig (signal_queue r))"
  by (simp_all add: pushSignal_def on_monitor_def on_scheduler_def Let_def split_beta)

lemma wake_fields [simp]:
  "protocol_queue (wake sig r) = protocol_queue r" "bus_queue (wake sig r) = bus_queue r" "traced (wake sig r) = traced r"
  "max_protocol_queue (wake sig r) = max_protocol_queue r" "max_bus_queue (wake sig r) = max_bus_queue r"
  "max_signal_queue (wake sig r) = max_signal_queue r" "signal_queue (wake sig r) = snd (q_tryPush sig (signal_queue r))"
  "rx_scheduler (wake sig r) = rx_scheduler r" "rx_devices (wake sig r) = rx_devices r" "delivered (wake sig r) = delivered r"
  "user_protocol_callback (wake sig r) = user_protocol_callback r"
  by (simp_all add: wake_def)

lemma event_fields [simp]:
  "bus_queue (snd (pushProtocolEvent ev r)) = bus_queue r" "max_bus_queue (snd (pushProtocolEvent ev r)) = max_bus_queue r"
  "max_signal_queue (snd (pushProtocolEvent ev r)) = max_signal_queue r" "traced (snd (pushProtocolEvent ev r)) = traced r"
  "protocol_queue (snd (pushProtocolEvent ev r)) = snd (push_latest q_tryPush q_discard ev (protocol_queue r))"
  by (simp_all add: pushProtocolEvent_def on_monitor_def on_scheduler_def Let_def split_beta)

lemma max_size: "q_inv q \<Longrightarrow> q_size q \<le> q_capacity q"
  by (simp add: q_inv_def)

lemma rx_inv_signal:
  assumes "rx_inv r" "sg_type sig \<noteq> sig_bus_byte"
  shows "rx_inv (snd (pushSignal sig r))"
proof -
  let ?q = "snd (push_latest q_tryPush q_discard sig (signal_queue r))"
  note s = push_latest_contents [of "signal_queue r" sig]
  have q: "q_inv (signal_queue r)" "q_capacity (signal_queue r) = signal_queue_size"
    "awaited (q_items (signal_queue r)) \<le> q_size (bus_queue r)" using assms(1) by (simp_all add: rx_inv_defs)
  note awaited_pushed [OF q(1), of sig]
  moreover have "max_signal_queue (snd (pushSignal sig r)) \<le> signal_queue_size"
    using assms(1) max_size [OF s(2) [OF q(1)]] s(3) [OF q(1)] q
    by (simp add: pushSignal_def rx_inv_defs on_monitor_def on_scheduler_def Let_def split_beta)
  ultimately show ?thesis using assms q s(2,3) [OF q(1)] by (simp add: rx_inv_defs)
qed

lemma rx_inv_event:
  assumes "rx_inv r"
  shows "rx_inv (snd (pushProtocolEvent ev r))"
proof -
  let ?q = "snd (push_latest q_tryPush q_discard ev (protocol_queue r))" and ?sig = "signal_of sig_callback_ready"
  have q: "q_inv (protocol_queue r)" "q_inv (signal_queue r)" "\<not> q_shutdown (protocol_queue r)" using assms by (simp_all add: rx_inv_defs)
  note p = push_latest_contents [OF q(1), of ev] and w = tryPush_contents [OF q(2), of ?sig]
  have r: "snd (pushProtocolEvent ev r) =
      wake ?sig (r\<lparr>protocol_queue := ?q, max_protocol_queue := max (max_protocol_queue r) (q_size ?q)\<rparr>)"
    using p(5) q(3) by (simp add: pushProtocolEvent_def split_beta Let_def)
  have "awaited (q_items (snd (q_tryPush ?sig (signal_queue r)))) \<le> awaited (q_items (signal_queue r))"
    unfolding w(1) by (simp add: signal_of_def)
  then show ?thesis unfolding r using assms p w max_size [OF p(2)] by (auto simp: rx_inv_defs)
qed

lemma bus_info_fields [simp]:
  "protocol_queue (rx_onBusEventInfo info r) = protocol_queue r"
  "max_protocol_queue (rx_onBusEventInfo info r) = max_protocol_queue r"
  "max_signal_queue (rx_onBusEventInfo info r) = max_signal_queue r" "traced (rx_onBusEventInfo info r) = traced r"
  "signal_queue (rx_onBusEventInfo info r) = snd (q_tryPush \<lparr>sg_type = sig_bus_byte, byte_batch_count = 1\<rparr> (signal_queue r))"
  "max_bus_queue (rx_onBusEventInfo info r) = max (max_bus_queue r) (q_size (bus_queue (rx_onBusEventInfo info r)))"
  by (simp_all add: rx_onBusEventInfo_def on_monitor_def on_scheduler_def Let_def split_beta)

lemma bus_info_queue:
  assumes "q_inv (bus_queue r)"
  shows "bus_queue (rx_onBusEventInfo info r) = snd (push_latest q_tryPush q_discard info (bus_queue r))"
proof -
  have "snd (q_tryPush info (bus_queue r)) = bus_queue r" if "\<not> fst (q_tryPush info (bus_queue r))"
    using that by (auto simp: q_tryPush_def split: if_splits)
  then show ?thesis
    by (auto simp: rx_onBusEventInfo_def push_latest_def on_monitor_def on_scheduler_def Let_def split_beta
        split: prod.splits bool.splits)
qed

lemma rx_inv_byte:
  assumes "rx_inv r"
  shows "rx_inv (rx_onBusEventInfo info r)"
proof -
  let ?sig = "\<lparr>sg_type = sig_bus_byte, byte_batch_count = 1\<rparr>"
  have q: "q_inv (bus_queue r)" "q_inv (signal_queue r)" "\<not> q_shutdown (bus_queue r)" using assms by (simp_all add: rx_inv_defs)
  note b = push_latest_contents [OF q(1), of info] and w = tryPush_contents [OF q(2), of ?sig]
  have "awaited (q_items (snd (q_tryPush ?sig (signal_queue r)))) \<le> q_size (bus_queue (rx_onBusEventInfo info r))"
  proof -
    have "awaited (q_items (snd (q_tryPush ?sig (signal_queue r)))) \<le> awaited (q_items (signal_queue r)) + 1"
      unfolding w(1) by simp
    moreover have "awaited (q_items (snd (q_tryPush ?sig (signal_queue r)))) \<le> signal_queue_size"
      using max_size [OF w(2)] w(3) assms length_filter_le [of _ "q_items (snd (q_tryPush ?sig (signal_queue r)))"]
      unfolding awaited_def by (simp add: rx_inv_defs) (meson le_trans)
    ultimately show ?thesis
      using assms q push_latest_size [OF q(1), of info] unfolding bus_info_queue [OF q(1)]
      by (simp add: rx_inv_defs reactor_limits) linarith
  qed
  then show ?thesis
    using assms q b w max_size [OF b(2)] by (simp add: rx_inv_defs bus_info_queue)
qed

lemma processSignal_fields [simp]:
  "protocol_queue (processSignal sig r) = protocol_queue r" "max_protocol_queue (processSignal sig r) = max_protocol_queue r"
  "max_signal_queue (processSignal sig r) = max_signal_queue r" "max_bus_queue (processSignal sig r) = max_bus_queue r"
  "signal_queue (processSignal sig r) = signal_queue r"
  by (simp_all add: processSignal_def processBusByte_def Let_def split: SignalType.splits option.splits)

text \<open>A signal for a byte takes the oldest byte from the queue of the bus and hands it out.\<close>

lemma processSignal_bus:
  assumes "bus_ok r" "q_items (bus_queue r) = x # xs" "sg_type sig = sig_bus_byte"
  shows "q_items (bus_queue (processSignal sig r)) = xs" "bus_ok (processSignal sig r)"
    "traced (processSignal sig r) = traced r @ (if user_trace_callback r then [x] else [])"
proof -
  obtain q' where q': "q_tryPop (bus_queue r) = Some (x, q')" "q_items q' = xs" "q_inv q'" "\<not> q_shutdown q'"
      "q_capacity q' = q_capacity (bus_queue r)"
    using pq.pop_taken [of "bus_queue r" x xs] assms by (auto simp: bus_ok_def)
  then show "q_items (bus_queue (processSignal sig r)) = xs"
    "traced (processSignal sig r) = traced r @ (if user_trace_callback r then [x] else [])"
    using assms(3) by (simp_all add: processSignal_def processBusByte_def Let_def)
  have "q_size q' \<le> q_size (bus_queue r)" using tryPop_contents(6) [OF _ q'(1)] assms(1) by (simp add: bus_ok_def)
  then show "bus_ok (processSignal sig r)"
    using assms(1,3) q' by (simp add: processSignal_def processBusByte_def bus_ok_def Let_def)
qed

lemma processSignal_other:
  "sg_type sig \<noteq> sig_bus_byte \<Longrightarrow> bus_queue (processSignal sig r) = bus_queue r \<and> traced (processSignal sig r) = traced r"
  by (simp add: processSignal_def split: SignalType.splits)

lemma rx_inv_pop_signal:
  assumes "rx_inv r" "q_pop True (signal_queue r) = Some (Some sig, q)"
  shows "rx_inv (processSignal sig (r\<lparr>signal_queue := q\<rparr>))"
proof -
  note p = pop_contents [OF _ assms(2)]
  have q: "q_items (signal_queue r) = sig # q_items q" "q_inv q" "q_capacity q = signal_queue_size"
    using assms p by (auto simp: rx_inv_defs)
  show ?thesis
  proof (cases "sg_type sig = sig_bus_byte")
    case True
    with q(1) assms(1) have "0 < q_size (bus_queue r)" by (simp add: rx_inv_defs)
    then obtain x xs where xs: "q_items (bus_queue r) = x # xs" by (metis neq_Nil_conv q_size_0 not_gr_zero)
    define r1 where "r1 = r\<lparr>signal_queue := q\<rparr>"
    have b: "bus_ok r1" "q_items (bus_queue r1) = x # xs" using assms(1) xs by (simp_all add: r1_def rx_inv_defs)
    note m = processSignal_bus [OF b True]
    have "q_size (bus_queue r1) = q_size (bus_queue (processSignal sig r1)) + 1"
      using b(2) m(1) by (metis Suc_eq_plus1 length_Cons q_items_length)
    then show ?thesis using assms(1) q m True by (simp add: rx_inv_def r1_def [symmetric]) (simp add: r1_def signals_ok_def events_ok_def)
  next
    case False
    then show ?thesis using assms(1) q processSignal_other [OF False] by (simp add: rx_inv_defs)
  qed
qed

lemma rx_stop_queue:
  assumes "q_inv (signal_queue r)"
  shows "q_items (signal_queue (rx_stop r)) = q_items (snd (push_latest q_tryPush q_discard (signal_of sig_shutdown) (signal_queue r)))"
    "q_inv (signal_queue (rx_stop r))" "q_shutdown (signal_queue (rx_stop r))"
    "q_capacity (signal_queue (rx_stop r)) = q_capacity (signal_queue r)"
proof -
  let ?sig = "signal_of sig_shutdown" and ?q = "signal_queue r"
  have eq: "signal_queue (rx_stop r) = q_stop (snd (push_latest q_tryPush q_discard ?sig ?q))"
  proof (cases "fst (q_tryPush ?sig ?q)")
    case False
    then have same: "snd (q_tryPush ?sig ?q) = ?q" by (auto simp: q_tryPush_def split: if_splits)
    show ?thesis
    proof (cases "q_shutdown ?q")
      case True
      then show ?thesis using False same pq.discard_closed [OF assms True, of 1] pq.push_refused [OF assms, of ?sig]
        by (simp add: rx_stop_def push_latest_def split_beta Let_def)
    next
      case opened: False
      then have "0 < q_size ?q" using False pq.within [OF assms] tryPush_contents(5) [OF assms, of ?sig] by (cases "q_size ?q") auto
      then show ?thesis using False same opened
        by (simp add: rx_stop_def push_latest_def split_beta Let_def One_nat_def split: prod.splits bool.splits)
    qed
  next
    case True
    then show ?thesis by (auto simp: rx_stop_def push_latest_def split_beta Let_def split: prod.splits bool.splits)
  qed
  show "q_items (signal_queue (rx_stop r)) = q_items (snd (push_latest q_tryPush q_discard ?sig ?q))"
    "q_inv (signal_queue (rx_stop r))" "q_shutdown (signal_queue (rx_stop r))"
    "q_capacity (signal_queue (rx_stop r)) = q_capacity ?q"
    unfolding eq using push_latest_contents [OF assms, of ?sig]
    by (simp_all add: q_stop_def q_items_def q_ring_def q_inv_def)
qed

lemma rx_stop_fields [simp]:
  "protocol_queue (rx_stop r) = protocol_queue r" "bus_queue (rx_stop r) = bus_queue r" "traced (rx_stop r) = traced r"
  "max_protocol_queue (rx_stop r) = max_protocol_queue r" "max_bus_queue (rx_stop r) = max_bus_queue r"
  "max_signal_queue (rx_stop r) = max_signal_queue r"
  by (simp_all add: rx_stop_def split_beta Let_def)

lemma rx_inv_stop:
  assumes "rx_inv r"
  shows "rx_inv (rx_stop r)"
proof -
  let ?sig = "signal_of sig_shutdown"
  have q: "q_inv (signal_queue r)" using assms by (simp add: rx_inv_defs)
  show ?thesis using assms rx_stop_queue(1,2,4) [OF q] awaited_pushed [OF q, of ?sig] by (simp add: rx_inv_defs signal_of_def)
qed

interpretation consistent: queue_property rx_inv
proof (unfold_locales, goal_cases)
  case (1 r r') then show ?case by (simp add: rx_queues_def rx_inv_defs)
next
  case (2 r sig) then show ?case by (rule rx_inv_signal)
next
  case (3 r ev) then show ?case by (rule rx_inv_event)
next
  case (4 r info) then show ?case by (rule rx_inv_byte)
next
  case (5 r ev q)
  then show ?case using tryPop_contents [of "protocol_queue r" ev q] by (simp add: rx_inv_defs)
next
  case (6 r sig sq) then show ?case by (rule rx_inv_pop_signal)
next
  case (7 r) then show ?case by (rule rx_inv_stop)
qed

section \<open>After the end\<close>

text \<open>
  The queue of signals is shut down, and of the bytes for the user no more can come than those
  announced.
\<close>

definition deaf :: "nat \<Rightarrow> reactor \<Rightarrow> bool" where
  "deaf n r \<longleftrightarrow> q_inv (signal_queue r) \<and> q_shutdown (signal_queue r) \<and> length (traced r) + awaited (q_items (signal_queue r)) \<le> n"

lemma closed_push:
  assumes "q_inv q" "q_shutdown q"
  shows "snd (q_tryPush x q) = q" "snd (push_latest q_tryPush q_discard x q) = q"
  using pq.push_refused [OF assms(1), of x] pq.push_latest_closed [OF assms, of x] assms(2) by simp_all

lemma pushProtocolEvent_signals:
  "signal_queue (snd (pushProtocolEvent ev r)) =
     (if fst (pushProtocolEvent ev r) then snd (q_tryPush (signal_of sig_callback_ready) (signal_queue r)) else signal_queue r)"
  by (simp add: pushProtocolEvent_def on_monitor_def on_scheduler_def Let_def split_beta)

lemma processBusByte_traced: "length (traced (processSignal sig r)) \<le> length (traced r) + awaited [sig]"
  by (simp add: processSignal_def processBusByte_def Let_def split: SignalType.splits option.splits prod.splits)

interpretation deaf: queue_property "deaf n" for n
proof (unfold_locales, goal_cases)
  case (1 r r') then show ?case by (simp add: rx_queues_def deaf_def)
next
  case (2 r sig) then show ?case by (simp add: deaf_def closed_push)
next
  case (3 r ev) then show ?case by (simp add: deaf_def pushProtocolEvent_signals closed_push)
next
  case (4 r info) then show ?case by (simp add: deaf_def closed_push)
next
  case (5 r ev q) then show ?case by (simp add: deaf_def)
next
  case (6 r sig sq)
  then show ?case
    using pop_contents [of "signal_queue r" sig sq] processBusByte_traced [of sig "r\<lparr>signal_queue := sq\<rparr>"]
    by (simp add: deaf_def)
next
  case (7 r)
  then show ?case using rx_stop_queue [of r] by (simp add: deaf_def closed_push)
qed

lemma awaited_le: "awaited xs \<le> length xs"
  by (simp add: awaited_def)

lemma deaf_after_stop:
  assumes "rx_inv r"
  shows "deaf (length (traced r) + signal_queue_size) (rx_stop r)"
proof -
  have q: "q_inv (signal_queue r)" "q_capacity (signal_queue r) = signal_queue_size" using assms by (simp_all add: rx_inv_defs)
  note s = rx_stop_queue [OF q(1)]
  have "awaited (q_items (signal_queue (rx_stop r))) \<le> q_size (signal_queue (rx_stop r))"
    using awaited_le [of "q_items (signal_queue (rx_stop r))"] by simp
  also have "\<dots> \<le> signal_queue_size" using max_size [OF s(2)] s(4) q(2) by simp
  finally show ?thesis using s by (simp add: deaf_def)
qed

section \<open>Bytes that lag behind\<close>

definition lag :: "reactor \<Rightarrow> nat" where
  "lag r = q_size (bus_queue r) - awaited (q_items (signal_queue r))"

text \<open>A step that starts with room in the queue of the bus, in which no byte is lost.\<close>

definition calm_step :: "reactor \<Rightarrow> reactor \<Rightarrow> bool" where
  "calm_step r r' \<longleftrightarrow> reactor_step r r' \<and> q_size (bus_queue r) < bus_queue_size"

lemma lag_cong: "rx_queues r' = rx_queues r \<Longrightarrow> lag r' = lag r"
  by (simp add: rx_queues_def lag_def)

lemma lag_events:
  assumes "rx_inv r"
  shows "bus_queue (fold (\<lambda>ev r. snd (pushProtocolEvent ev r)) evs r) = bus_queue r
    \<and> awaited (q_items (signal_queue (fold (\<lambda>ev r. snd (pushProtocolEvent ev r)) evs r))) = awaited (q_items (signal_queue r))"
  using assms
proof (induction evs arbitrary: r)
  case (Cons ev evs)
  have q: "q_inv (signal_queue r)" using Cons.prems by (simp add: rx_inv_defs)
  have "awaited (q_items (signal_queue (snd (pushProtocolEvent ev r)))) = awaited (q_items (signal_queue r))"
    unfolding pushProtocolEvent_signals using tryPush_contents(1) [OF q, of "signal_of sig_callback_ready"]
    by (simp add: signal_of_def)
  then show ?case using Cons.IH [OF rx_inv_event [OF Cons.prems, of ev]] by simp
qed simp

lemma lag_sink: "rx_inv r \<Longrightarrow> bus_queue (rx_sink r) = bus_queue r \<and> lag (rx_sink r) = lag r \<and> rx_inv (rx_sink r)"
  using lag_events [of "on_scheduler (\<lambda>s. s\<lparr>events := []\<rparr>) r" "events (rx_scheduler r)"]
    consistent.of_other [of r "on_scheduler (\<lambda>s. s\<lparr>events := []\<rparr>) r"] consistent.of_sink [of r]
  by (simp add: rx_sink_def lag_def) (simp add: on_scheduler_def)

lemma lag_byte:
  assumes "rx_inv r" "q_size (bus_queue r) < bus_queue_size"
  shows "lag (rx_onBusEventInfo info r) =
    lag r + (if q_shutdown (signal_queue r) \<or> q_size (signal_queue r) = signal_queue_size then 1 else 0)"
proof -
  have q: "q_inv (signal_queue r)" "q_inv (bus_queue r)" "\<not> q_shutdown (bus_queue r)"
      "awaited (q_items (signal_queue r)) \<le> q_size (bus_queue r)" "q_capacity (bus_queue r) = bus_queue_size"
      "q_capacity (signal_queue r) = signal_queue_size"
    using assms by (simp_all add: rx_inv_defs)
  have "q_size (bus_queue (rx_onBusEventInfo info r)) = q_size (bus_queue r) + 1"
    using push_latest_size [OF q(2), of info] q assms(2) by (simp add: bus_info_queue)
  then show ?thesis using tryPush_contents(1) [OF q(1), of "\<lparr>sg_type = sig_bus_byte, byte_batch_count = 1\<rparr>"] q
    by (simp add: lag_def)
qed

lemma lag_pop:
  assumes "rx_inv r" "q_pop True (signal_queue r) = Some (Some sig, q)"
  shows "lag (processSignal sig (r\<lparr>signal_queue := q\<rparr>)) = lag r"
proof -
  have s: "q_items (signal_queue r) = sig # q_items q" using pop_contents(1) [OF _ assms(2)] assms(1) by (simp add: rx_inv_defs)
  show ?thesis
  proof (cases "sg_type sig = sig_bus_byte")
    case True
    with s assms(1) have "q_items (bus_queue r) \<noteq> []" by (auto simp: rx_inv_defs q_size_0 [symmetric])
    then obtain x xs where xs: "q_items (bus_queue r) = x # xs" by (cases "q_items (bus_queue r)") auto
    have "q_items (bus_queue (processSignal sig (r\<lparr>signal_queue := q\<rparr>))) = xs"
      using processSignal_bus(1) [of "r\<lparr>signal_queue := q\<rparr>" x xs sig] assms(1) xs True by (simp add: rx_inv_defs)
    then have "q_size (bus_queue r) = q_size (bus_queue (processSignal sig (r\<lparr>signal_queue := q\<rparr>))) + 1"
      using xs by (metis Suc_eq_plus1 length_Cons q_items_length)
    then show ?thesis using s True by (simp add: lag_def)
  qed (use s processSignal_other [of sig] in \<open>simp add: lag_def\<close>)
qed

lemma lag_step: "reactor_step r r' \<Longrightarrow> rx_inv r \<Longrightarrow> q_size (bus_queue r) < bus_queue_size \<Longrightarrow> lag r \<le> lag r'"
proof (induction rule: reactor_step.induct)
  case (rx_step_bus r w ev)
  define r1 where "r1 = on_scheduler (sched_bus_event w ev) r"
  have r1: "rx_queues r1 = rx_queues r" by (simp add: r1_def)
  then have "rx_inv r1" "lag r1 = lag r" "bus_queue r1 = bus_queue r"
    using consistent.of_other [OF rx_step_bus(1) r1] lag_cong [OF r1] by (simp_all add: rx_queues_def)
  then show ?case using lag_sink [of r1] lag_byte [of "rx_sink r1"] rx_step_bus(2)
    by (simp add: rx_bus_event_def r1_def [symmetric])
next
  case (rx_step_tick r)
  have "rx_inv (r\<lparr>rx_scheduler := s\<rparr>)" "lag (r\<lparr>rx_scheduler := s\<rparr>) = lag r" for s
    using consistent.of_other [OF rx_step_tick(1), of "r\<lparr>rx_scheduler := s\<rparr>"] lag_cong [of "r\<lparr>rx_scheduler := s\<rparr>" r] by simp_all
  then show ?case using lag_sink by (simp add: rx_tick_def split_beta Let_def)
next
  case (rx_step_signal sig r)
  then have q: "q_inv (signal_queue r)" by (simp add: rx_inv_defs)
  then show ?case using awaited_pushed [OF q, of sig] rx_step_signal(1) by (auto simp: lag_def)
next
  case (rx_step_event r ev q r')
  then show ?case using lag_cong [OF process_event_frame [OF rx_step_event(2)]] by (simp add: lag_def)
next
  case (rx_step_poll act r act' r')
  then show ?case using lag_cong [OF rx_poll_frame] by fastforce
next
  case (rx_step_stop r)
  then have q: "q_inv (signal_queue r)" by (simp add: rx_inv_defs)
  then show ?case using awaited_pushed [OF q, of "signal_of sig_shutdown"] rx_stop_queue(1) [OF q]
    by (simp add: lag_def signal_of_def)
next
  case (rx_step_pop r sig q)
  then show ?case by (simp add: lag_pop)
next
  case (rx_step_callbacks r b c lv)
  then show ?case by (simp add: lag_def setTraceCallback_def setProtocolCallback_def setLogLevel_def rx_clearErrors_def)
qed (rule eq_refl, rule sym, rule lag_cong, simp add: quiet_steps)+

lemma lag_calm_run: "calm_step\<^sup>*\<^sup>* r r' \<Longrightarrow> rx_inv r \<Longrightarrow> lag r \<le> lag r' \<and> rx_inv r'"
proof (induction rule: rtranclp_induct)
  case (step r1 r2)
  then show ?case using lag_step [of r1 r2] consistent.of_step [of r1 r2] by (auto simp: calm_step_def)
qed simp

section \<open>Properties of every run\<close>

lemma reactor_new_inv:
  assumes "reactor_new address respond s p sn dm readings level = Some r"
  shows "rx_inv r"
proof -
  note n = q_new_items [where 'a = ReactorSignal] q_new_items [where 'a = ProtocolEvent] q_new_items [where 'a = BusEventInfo]
  show ?thesis using assms by (auto simp: reactor_new_def rx_inv_defs q_size_0 split: option.splits dest!: n)
qed


definition sample_reactor :: "bool \<Rightarrow> reactor" where
  "sample_reactor respond =
     (case reactor_new 0x31 respond sample_sender (poll_manager_new (\<lambda>_. 0)) (device_scanner_new 0x31 (\<lambda>_. 0))
        (device_manager_new None) (\<lambda>_. 0) level_error of Some r \<Rightarrow> setProtocolCallback True r)"

lemma sample_reactor_new:
  "\<exists>r0. reactor_new 0x31 respond sample_sender (poll_manager_new (\<lambda>_. 0)) (device_scanner_new 0x31 (\<lambda>_. 0))
     (device_manager_new None) (\<lambda>_. 0) level_error = Some r0 \<and> sample_reactor respond = setProtocolCallback True r0"
  by (simp add: sample_reactor_def reactor_new_def queue_new_def reactor_limits)

lemma sample_reactor_inv: "rx_inv (sample_reactor respond)"
  using sample_reactor_new [of respond] reactor_new_inv by (auto simp: setProtocolCallback_def rx_inv_defs)



text \<open>
  C22: A reactor that was stopped cannot be used again. Whatever happens afterwards, a new run of the loop
  included, no signal is accepted any more, the wait for signals returns at once even if its
  timeout has not expired, the inner loop finds nothing, and at most the bytes
  announced before the stop still reach the trace callback.
\<close>

theorem stopped_reactor_stays_deaf:
  assumes "reactor_new address respond s p sn dm readings level = Some r0" "reactor_step\<^sup>*\<^sup>* r0 r"
    and "reactor_step\<^sup>*\<^sup>* (rx_stop r) r'"
  shows "\<not> fst (pushSignal sig r') \<and> q_pop expires (signal_queue r') \<noteq> None \<and> q_tryPop (signal_queue r') = None
    \<and> length (traced r') \<le> length (traced r) + signal_queue_size"
proof -
  have "rx_inv r" by (rule consistent.of_reachable [OF assms(2) reactor_new_inv [OF assms(1)]])
  then have d: "deaf (length (traced r) + signal_queue_size) r'"
    by (rule deaf.of_reachable [OF assms(3) deaf_after_stop])
  then have q: "q_inv (signal_queue r')" "q_shutdown (signal_queue r')" by (simp_all add: deaf_def)
  have "\<not> fst (pushSignal sig r')"
    using push_latest_contents(5) [OF q(1), of sig] q(2) by (simp add: pushSignal_def split_beta Let_def)
  moreover have "q_pop expires (signal_queue r') \<noteq> None" "q_tryPop (signal_queue r') = None"
    using q(2) by (simp_all add: q_pop_def q_tryPop_def)
  ultimately show ?thesis using d by (simp add: deaf_def)
qed

theorem stopped_reactor_stays_deaf_witness:
  "case reactor_new 0x31 True sample_sender (poll_manager_new (\<lambda>_. 0)) (device_scanner_new 0x31 (\<lambda>_. 0))
     (device_manager_new None) (\<lambda>_. 0) level_error of None \<Rightarrow> False
   | Some r0 \<Rightarrow> \<not> fst (pushSignal (signal_of sig_user_request) (run_begin (rx_stop r0)))
       \<and> q_pop False (signal_queue (run_begin (rx_stop r0))) \<noteq> None"
proof -
  obtain r0 where r0: "reactor_new 0x31 True sample_sender (poll_manager_new (\<lambda>_. 0)) (device_scanner_new 0x31 (\<lambda>_. 0))
     (device_manager_new None) (\<lambda>_. 0) level_error = Some r0" using sample_reactor_new by blast
  show ?thesis
    using stopped_reactor_stays_deaf [OF r0 rtranclp.rtrancl_refl, of "run_begin (rx_stop r0)"] r0
      r_into_rtranclp [of reactor_step, OF rx_step_begin [of "rx_stop r0"]] by simp
qed

text \<open>
  A byte of the bus whose signal finds the queue of signals full (or shut) is not handed to the user when the signals are
  processed, and the delay is never made up for: as long as the queue of bytes
  does not overflow, from then on at least one byte more than before waits when no signal is left,
  and every byte comes that much too late.
\<close>

theorem lost_signal_lags:
  assumes "rx_inv r" "q_size (bus_queue r) < bus_queue_size"
    and "q_shutdown (signal_queue r) \<or> q_size (signal_queue r) = signal_queue_size"
    and "calm_step\<^sup>*\<^sup>* (rx_onBusEventInfo info r) r'"
  shows "lag r + 1 \<le> lag r' \<and> (q_items (signal_queue r') = [] \<longrightarrow> length (q_items (bus_queue r')) = lag r')"
  using lag_calm_run [OF assms(4) rx_inv_byte [OF assms(1)]] lag_byte [OF assms(1,2), of info] assms(3)
  by (simp, simp add: lag_def)

theorem lost_signal_lags_witness:
  "lag (rx_onBusEventInfo BusEventInfo_init (rx_stop (sample_reactor True))) \<ge> 1"
proof -
  let ?r = "rx_stop (sample_reactor True)"
  have i: "rx_inv (sample_reactor True)" "rx_inv ?r" using sample_reactor_inv rx_inv_stop by blast+
  obtain r0 where "reactor_new 0x31 True sample_sender (poll_manager_new (\<lambda>_. 0)) (device_scanner_new 0x31 (\<lambda>_. 0))
     (device_manager_new None) (\<lambda>_. 0) level_error = Some r0" "sample_reactor True = setProtocolCallback True r0"
    using sample_reactor_new by blast
  then have "q_size (bus_queue ?r) < bus_queue_size"
    by (auto simp: reactor_new_def queue_new_def setProtocolCallback_def reactor_limits)
  moreover have "q_shutdown (signal_queue ?r)" using rx_stop_queue(3) i(1) by (simp add: rx_inv_defs)
  ultimately show ?thesis using lost_signal_lags [OF i(2) _ _ rtranclp.rtrancl_refl, of BusEventInfo_init] by simp
qed

end
