(* ===== verification/Reactor_Events.thy ===== *)
theory Reactor_Events
  imports Reactor_Loop
begin

text \<open>
  What the reactor does with the events of the scheduler: the processing of the queue, the way of a message of
  the user through scheduler, bus and reactor back to the callback, and whose telegram
  ends an attempt.
\<close>

section \<open>The processing of events\<close>

lemma latest_latest: "latest n (latest n xs @ ys) = latest n (xs @ ys)"
  by (cases "length xs \<le> n") (simp_all add: latest_def add.commute)

lemma inject_total:
  assumes "mon (sc_handler s) \<noteq> None"
  shows "\<exists>b s'. injectProtocolEvent ev s = Some (b, s') \<and> mon (sc_handler s') \<noteq> None"
proof (cases "active_item s")
  case (Some a)
  obtain m where m: "mon (sc_handler s) = Some m" using assms by blast
  have "mon (sc_handler (reschedule it s)) \<noteq> None" for it
    using m by (simp add: reschedule_def sched_now_def forget_attempt_def updateHandler_def update_mon_def Let_def)
  moreover have "mon (sc_handler (forget_attempt s)) \<noteq> None" using m by (simp add: forget_attempt_def)
  ultimately show ?thesis using Some m by (simp add: injectProtocolEvent_def Let_def ex_bool_eq)
qed (use assms in \<open>simp add: injectProtocolEvent_def ex_bool_eq\<close>)

definition shown :: "ProtocolEvent \<Rightarrow> reactor \<Rightarrow> bool" where
  "shown ev r \<longleftrightarrow> user_protocol_callback r \<and> (pe_type ev = ev_telegram \<or> pe_type ev = ev_error \<and> isEnabled (pe_level ev) r)"

lemma public_info_error [simp]: "is_error (public_info ev) \<longleftrightarrow> pe_type ev = ev_error"
  "pe_type ev = ev_error \<Longrightarrow> pi_level (public_info ev) = pe_level ev"
  by (simp_all add: public_info_def Let_def)

lemma deliver_event_eq: "deliver_event ev r = (if shown ev r then r\<lparr>delivered := delivered r @ [public_info ev]\<rparr> else r)"
  by (auto simp: deliver_event_def shown_def)

text \<open>The fields an event leaves as they are.\<close>

definition settings where
  "settings r = (user_protocol_callback r, logger_level r, system_response r, rx_own_address r)"

lemma settings_updates [simp]:
  "settings (on_scheduler f r) = settings r" "settings (r\<lparr>rx_scheduler := s\<rparr>) = settings r"
  "settings (r\<lparr>rx_scanner := sn\<rparr>) = settings r" "settings (r\<lparr>rx_devices := dm\<rparr>) = settings r"
  "settings (r\<lparr>error_buffer := eb\<rparr>) = settings r" "settings (r\<lparr>delivered := ds\<rparr>) = settings r"
  by (simp_all add: settings_def on_scheduler_def)

lemma shown_settings: "settings r' = settings r \<Longrightarrow> shown ev r' = shown ev r"
  by (simp add: settings_def shown_def isEnabled_def)

definition outcome where
  "outcome r = (rx_devices r, error_buffer r, delivered r, settings r, protocol_queue r)"

lemma outcome_parts [simp]:
  "outcome (scan_result ev ok r) = outcome r" "outcome (answer_inquiry ev r) = outcome r"
  "outcome (r\<lparr>rx_scheduler := s\<rparr>) = outcome r"
  by (simp_all add: outcome_def scan_result_def answer_inquiry_def on_scheduler_def settings_def Let_def)

lemma mon_enqueue: "mon (sc_handler (snd (enqueue prio msg poll s))) = mon (sc_handler s)"
  by (simp add: enqueue_def enqueueAt_def pushItem_def sched_now_def Let_def split_beta)

lemma mon_event_parts [simp]:
  "mon (sc_handler (rx_scheduler (scan_result ev ok r))) = mon (sc_handler (rx_scheduler r))"
  "mon (sc_handler (rx_scheduler (answer_inquiry ev r))) = mon (sc_handler (rx_scheduler r))"
  "mon (sc_handler (rx_scheduler (deliver_event ev r))) = mon (sc_handler (rx_scheduler r))"
  by (simp_all add: scan_result_def answer_inquiry_def on_scheduler_def deliver_event_def mon_enqueue Let_def)

lemma process_event_outcome:
  assumes "mon (sc_handler (rx_scheduler r)) \<noteq> None"
  shows "\<exists>r'. process_event ev r = Some r' \<and> mon (sc_handler (rx_scheduler r')) \<noteq> None
    \<and> outcome r' = ((if pe_type ev = ev_telegram then dm_update (pe_master ev) (pe_slave ev) (rx_devices r) else rx_devices r),
        (if pe_type ev = ev_error then snd (cb_push_back (error_entry ev) (error_buffer r)) else error_buffer r),
        delivered r @ (if shown ev r then [public_info ev] else []), settings r, protocol_queue r)"
proof -
  obtain b s where s: "injectProtocolEvent ev (rx_scheduler r) = Some (b, s)" "mon (sc_handler s) \<noteq> None"
    using inject_total [OF assms, of ev] by blast
  define r1 where "r1 = (let r = r\<lparr>rx_scheduler := s\<rparr> in
    if pe_type ev = ev_telegram then telegram_event ev r else if pe_type ev = ev_error then error_event ev r else r)"
  have o: "outcome r1 = ((if pe_type ev = ev_telegram then dm_update (pe_master ev) (pe_slave ev) (rx_devices r) else rx_devices r),
      (if pe_type ev = ev_error then snd (cb_push_back (error_entry ev) (error_buffer r)) else error_buffer r),
      delivered r, settings r, protocol_queue r)"
    by (simp add: r1_def telegram_event_def error_event_def Let_def) (auto simp: outcome_def)
  have "mon (sc_handler (rx_scheduler r1)) \<noteq> None"
    using s(2) by (simp add: r1_def telegram_event_def error_event_def Let_def)
  moreover have "shown ev r1 = shown ev r" using o by (intro shown_settings) (simp add: outcome_def)
  moreover have "process_event ev r = Some (deliver_event ev r1)" using s(1) by (simp add: process_event_def r1_def Let_def)
  ultimately show ?thesis using o by (simp add: deliver_event_eq) (simp add: outcome_def)
qed

lemma processPublicEvents_outcome:
  assumes "events_ok r" "mon (sc_handler (rx_scheduler r)) \<noteq> None" "q_items (protocol_queue r) = evs" "cb_inv (error_buffer r)"
  shows "\<exists>r'. processPublicEvents r = Some r' \<and> q_items (protocol_queue r') = []
    \<and> rx_devices r' = fold (\<lambda>ev. dm_update (pe_master ev) (pe_slave ev)) (filter (\<lambda>ev. pe_type ev = ev_telegram) evs) (rx_devices r)
    \<and> delivered r' = delivered r @ map public_info (filter (\<lambda>ev. shown ev r) evs)
    \<and> rx_fetchErrors r' = latest (cb_cap (error_buffer r))
        (rx_fetchErrors r @ map error_entry (filter (\<lambda>ev. pe_type ev = ev_error) evs))"
  using assms
proof (induction evs arbitrary: r)
  case Nil
  then show ?case using pq.pop_refused [of "protocol_queue r"] ring.entries_le_cap [of "error_buffer r"]
    by (simp add: processPublicEvents.simps [of r] events_ok_def rx_fetchErrors_def latest_def)
next
  case (Cons ev evs)
  obtain q where q: "q_tryPop (protocol_queue r) = Some (ev, q)" "q_items q = evs" "q_inv q" "\<not> q_shutdown q"
      "q_capacity q = q_capacity (protocol_queue r)"
    using pq.pop_taken [of "protocol_queue r" ev evs] Cons.prems by (auto simp: events_ok_def)
  define r0 where "r0 = r\<lparr>protocol_queue := q\<rparr>"
  have shown0: "shown e r0 = shown e r" for e by (simp add: r0_def shown_def isEnabled_def)
  obtain r1 where r1: "process_event ev r0 = Some r1" "mon (sc_handler (rx_scheduler r1)) \<noteq> None"
    "outcome r1 = ((if pe_type ev = ev_telegram then dm_update (pe_master ev) (pe_slave ev) (rx_devices r) else rx_devices r),
        (if pe_type ev = ev_error then snd (cb_push_back (error_entry ev) (error_buffer r)) else error_buffer r),
        delivered r @ (if shown ev r then [public_info ev] else []), settings r0, q)"
    using process_event_outcome [of r0 ev] Cons.prems(2) shown0 by (auto simp: r0_def)
  have "q_size q \<le> q_size (protocol_queue r)" using tryPop_contents(6) [OF _ q(1)] Cons.prems(1) by (simp add: events_ok_def)
  moreover have "rx_queues r1 = rx_queues r0" by (rule process_event_frame [OF r1(1)])
  ultimately have "events_ok r1" using Cons.prems(1) q by (simp add: events_ok_def rx_queues_def r0_def)
  moreover have eb: "cb_inv (error_buffer r1)" "cb_cap (error_buffer r1) = cb_cap (error_buffer r)"
      "rx_fetchErrors r1 = latest (cb_cap (error_buffer r)) (rx_fetchErrors r @ (if pe_type ev = ev_error then [error_entry ev] else []))"
    using r1(3) Cons.prems(4) ring.inv_push [OF Cons.prems(4)] ring.cap_push [OF Cons.prems(4)]
      ring.entries_push_all [OF Cons.prems(4), of "[error_entry ev]"] ring.entries_le_cap [OF Cons.prems(4)]
    by (auto simp: outcome_def rx_fetchErrors_def latest_def prod_eq_iff)
  moreover have "q_items (protocol_queue r1) = evs" using r1(3) q(2) by (simp add: outcome_def)
  ultimately obtain r' where r': "processPublicEvents r1 = Some r'" "q_items (protocol_queue r') = []"
      "rx_devices r' = fold (\<lambda>ev. dm_update (pe_master ev) (pe_slave ev)) (filter (\<lambda>ev. pe_type ev = ev_telegram) evs) (rx_devices r1)"
      "delivered r' = delivered r1 @ map public_info (filter (\<lambda>ev. shown ev r1) evs)"
      "rx_fetchErrors r' = latest (cb_cap (error_buffer r1))
        (rx_fetchErrors r1 @ map error_entry (filter (\<lambda>ev. pe_type ev = ev_error) evs))"
    using Cons.IH [OF _ r1(2)] by blast
  have "shown e r1 = shown e r" for e using r1(3) shown_settings [of r1 r0] shown0 by (simp add: outcome_def)
  moreover have "processPublicEvents r = Some r'"
    using q(1) r1(1) r'(1) by (simp add: processPublicEvents.simps [of r] r0_def)
  ultimately show ?case using r' r1(3) eb by (simp add: outcome_def latest_latest)
qed

subsection \<open>The error history\<close>

lemma errors_kept [simp]:
  "error_buffer (on_scheduler f r) = error_buffer r" "error_buffer (on_monitor g r) = error_buffer r"
  "error_buffer (snd (rx_now r)) = error_buffer r" "error_buffer (wake sig r) = error_buffer r"
  "error_buffer (scan_result ev ok r) = error_buffer r" "error_buffer (answer_inquiry ev r) = error_buffer r"
  "error_buffer (deliver_event ev r) = error_buffer r"
  by (simp_all add: on_scheduler_def on_monitor_def rx_now_def wake_def scan_result_def answer_inquiry_def deliver_event_def Let_def)

lemma errors_kept_pushes [simp]:
  "error_buffer (snd (pushSignal sig r)) = error_buffer r" "error_buffer (snd (pushProtocolEvent ev r)) = error_buffer r"
  "error_buffer (rx_onBusEventInfo info r) = error_buffer r" "error_buffer (processSignal sig r) = error_buffer r"
  by (simp_all add: pushSignal_def pushProtocolEvent_def rx_onBusEventInfo_def processSignal_def processBusByte_def Let_def split_beta
      split: SignalType.splits option.splits)

lemma errors_kept_sink [simp]: "error_buffer (rx_sink r) = error_buffer r"
proof -
  have "error_buffer (fold (\<lambda>ev r. snd (pushProtocolEvent ev r)) evs r) = error_buffer r" for evs r
    by (induction evs arbitrary: r) simp_all
  then show ?thesis by (simp add: rx_sink_def)
qed

lemma errors_kept_steps [simp]:
  "error_buffer (rx_bus_event w ev r) = error_buffer r" "error_buffer (snd (rx_tick r)) = error_buffer r"
  "error_buffer (snd (rx_scan act r)) = error_buffer r" "error_buffer (snd (next_timeout act r)) = error_buffer r"
  "error_buffer (run_begin r) = error_buffer r" "error_buffer (rx_stop r) = error_buffer r"
  by (simp_all add: rx_bus_event_def rx_tick_def rx_scan_def next_timeout_def run_begin_def rx_stop_def Let_def split_beta)

lemma errors_kept_status [simp]: "error_buffer (update_status act r) = error_buffer r"
  by (simp add: update_status_def status_update_def updateUtilizationHistory_def Let_def split_beta split: option.splits)

definition history_ok :: "ErrorEntry cbuf \<Rightarrow> bool" where
  "history_ok b \<longleftrightarrow> cb_inv b \<and> cb_cap b = error_history_size"

lemma history_ok_push: "history_ok b \<Longrightarrow> history_ok (snd (cb_push_back x b))"
  using ring.inv_push [of b x] ring.cap_push [of b x] by (simp add: history_ok_def prod_eq_iff)

lemma history_ok_process: "process_event ev r = Some r' \<Longrightarrow> history_ok (error_buffer r) \<Longrightarrow> history_ok (error_buffer r')"
  by (auto simp: process_event_def telegram_event_def error_event_def history_ok_push Let_def split: option.splits)

lemma history_ok_step: "reactor_step r r' \<Longrightarrow> history_ok (error_buffer r) \<Longrightarrow> history_ok (error_buffer r')"
proof (induction rule: reactor_step.induct)
  case (rx_step_event r ev q r')
  then show ?case using history_ok_process by fastforce
next
  case (rx_step_poll act r act' r')
  then show ?case by (auto simp: rx_poll_def Let_def split: option.splits prod.splits)
next
  case (rx_step_callbacks r b c lv)
  then show ?case
    by (simp add: setTraceCallback_def setProtocolCallback_def setLogLevel_def rx_clearErrors_def history_ok_def cb_clear_def
        cb_inv_def cb_cap_def)
qed simp_all

lemma reactor_history_ok:
  assumes "reactor_new address respond s p sn dm readings level = Some r0" "reactor_step\<^sup>*\<^sup>* r0 r"
  shows "history_ok (error_buffer r)"
proof -
  have "history_ok (error_buffer r0)"
    using assms(1) cb_inv_new [of error_history_size ErrorEntry_init]
    by (auto simp: reactor_new_def history_ok_def reactor_limits split: option.splits)
  with assms(2) show ?thesis by (induction rule: rtranclp_induct) (auto intro: history_ok_step)
qed

text \<open>
  C13: The queue of events is worked off completely and in order: every telegram updates the
  inventory of devices, every error enters the error history, which keeps the
  latest, and exactly the telegrams and the errors of an enabled level are handed to the callback of the user,
  once each and in their order.
\<close>

theorem public_events_processed:
  assumes "reactor_new address respond s p sn dm readings level = Some r0" "reactor_step\<^sup>*\<^sup>* r0 r"
    and "mon (sc_handler (rx_scheduler r)) \<noteq> None"
  shows "\<exists>r'. processPublicEvents r = Some r' \<and> q_items (protocol_queue r') = []
    \<and> rx_devices r' = fold (\<lambda>ev. dm_update (pe_master ev) (pe_slave ev))
        (filter (\<lambda>ev. pe_type ev = ev_telegram) (q_items (protocol_queue r))) (rx_devices r)
    \<and> delivered r' = delivered r @ map public_info (filter (\<lambda>ev. shown ev r) (q_items (protocol_queue r)))
    \<and> rx_fetchErrors r' = latest error_history_size
        (rx_fetchErrors r @ map error_entry (filter (\<lambda>ev. pe_type ev = ev_error) (q_items (protocol_queue r))))"
  using processPublicEvents_outcome [OF _ assms(3) refl] reactor_history_ok [OF assms(1,2)]
    consistent.of_reachable [OF assms(2) reactor_new_inv [OF assms(1)]] by (simp add: rx_inv_def history_ok_def)

section \<open>The scheduler inside the reactor\<close>

text \<open>
  Two schedulers that differ in their telemetry and in the events they have handed out react to the bus in the same way.
\<close>

definition sc_core :: "scheduler \<Rightarrow> scheduler" where
  "sc_core s = s\<lparr>sc_handler := forget (sc_handler s), events := []\<rparr>"

lemma sc_core_fields:
  assumes "sc_core s = sc_core t"
  shows "current_session_id s = current_session_id t" "current_poll_id s = current_poll_id t" "active_item s = active_item t"
    "event_sink s = event_sink t" "scheduled_items s = scheduled_items t" "forget (sc_handler s) = forget (sc_handler t)"
  using assms by (cases s; cases t; simp add: sc_core_def)+

lemma sc_core_eqI:
  assumes "sc_core s = sc_core t" "forget h = forget h'"
  shows "sc_core (s\<lparr>sc_handler := h\<rparr>) = sc_core (t\<lparr>sc_handler := h'\<rparr>)"
  using assms by (cases s; cases t) (simp add: sc_core_def)

lemma sc_core_events [simp]: "sc_core (s\<lparr>events := es\<rparr>) = sc_core s"
  by (simp add: sc_core_def)

lemma sink_core: "sc_core (sink ev s) = sc_core s \<and> events (sink ev s) = events s @ (if event_sink s then [ev] else [])"
  by (simp add: sink_def)

lemma sc_core_simps [simp]:
  "current_session_id (sc_core s) = current_session_id s" "current_poll_id (sc_core s) = current_poll_id s"
  "active_item (sc_core s) = active_item s" "event_sink (sc_core s) = event_sink s" "events (sc_core s) = []"
  by (simp_all add: sc_core_def)

lemma deliver_core:
  "sc_core (deliver hs w x s) = sc_core s"
  "events (deliver hs w x s) = events s @ events (deliver hs w x (sc_core s))"
  by (cases x; simp add: deliver_def onBusRequestWon_def onBusRequestLost_def request_event_def onHandlerProtocol_def sink_core Let_def
      split: option.splits)+

lemma fold_deliver_core:
  "sc_core (fold (deliver hs w) xs s) = sc_core s"
  "events (fold (deliver hs w) xs s) = events s @ concat (map (\<lambda>x. events (deliver hs w x (sc_core s))) xs)"
proof (induction xs arbitrary: s)
  case (Cons x xs)
  { case 1 show ?case using Cons(1) deliver_core(1) [of hs w x s] by simp }
  { case 2 show ?case using Cons(2) [of "deliver hs w x s"] deliver_core [of hs w x s] by simp }
qed simp_all

lemma forget_simps [simp]: "outputs (forget h) = outputs h" "h_state (forget h) = h_state h"
  by (simp_all add: forget_def)

lemma bus_event_core:
  assumes "sc_core s = sc_core t"
  shows "sc_core (sched_bus_event w ev s) = sc_core (sched_bus_event w ev t)"
    and "\<exists>es. events (sched_bus_event w ev s) = events s @ es \<and> events (sched_bus_event w ev t) = events t @ es"
proof -
  let ?h = "sc_handler s" and ?g = "sc_handler t"
  have f: "forget ?h = forget ?g" by (rule sc_core_fields [OF assms])
  then have b: "forget (bus_step ev ?h) = forget (bus_step ev ?g)" by (metis forget_bus_step)
  have o: "outputs ?h = outputs ?g" "outputs (bus_step ev ?h) = outputs (bus_step ev ?g)" using f b by (metis forget_simps(1))+
  have "forget (request_completed ?h) = forget (request_completed ?g)" using f by (metis telemetry.frame_completed(1))
  then have "h_state (request_completed ?h) = h_state (request_completed ?g)" by (metis forget_simps(2))
  moreover have "h_state ?h = h_state ?g" using f by (metis forget_simps(2))
  moreover note c = sc_core_eqI [OF assms b]
  ultimately show "sc_core (sched_bus_event w ev s) = sc_core (sched_bus_event w ev t)"
    "\<exists>es. events (sched_bus_event w ev s) = events s @ es \<and> events (sched_bus_event w ev t) = events t @ es"
    using o by (simp_all add: sched_bus_event_def Let_def fold_deliver_core)
qed

text \<open>The reactor follows a scheduler: its queue holds the latest events of that scheduler.\<close>

definition follows :: "reactor \<Rightarrow> scheduler \<Rightarrow> bool" where
  "follows r s \<longleftrightarrow> rx_inv r \<and> sc_core (rx_scheduler r) = sc_core s \<and> events (rx_scheduler r) = []
     \<and> q_items (protocol_queue r) = latest protocol_queue_size (events s)"

lemma events_pushed:
  assumes "rx_inv r"
  shows "q_items (protocol_queue (fold (\<lambda>ev r. snd (pushProtocolEvent ev r)) evs r)) =
      latest protocol_queue_size (q_items (protocol_queue r) @ evs)
    \<and> rx_scheduler (fold (\<lambda>ev r. snd (pushProtocolEvent ev r)) evs r) = rx_scheduler r"
  using assms
proof (induction evs arbitrary: r)
  case (Cons ev evs)
  have q: "q_inv (protocol_queue r)" "\<not> q_shutdown (protocol_queue r)" "q_capacity (protocol_queue r) = protocol_queue_size"
    using Cons.prems by (simp_all add: rx_inv_defs)
  note p = push_latest_contents [OF q(1), of ev] and i = rx_inv_event [OF Cons.prems, of ev]
  have "rx_scheduler (snd (pushProtocolEvent ev r)) = rx_scheduler r"
    using p(5) q(2) by (simp add: pushProtocolEvent_def split_beta Let_def)
  moreover have "latest protocol_queue_size (latest protocol_queue_size (q_items (protocol_queue r) @ [ev]) @ evs) =
      latest protocol_queue_size (q_items (protocol_queue r) @ ev # evs)"
    using latest_latest [of protocol_queue_size "q_items (protocol_queue r) @ [ev]" evs] by simp
  ultimately show ?case using Cons.IH [OF i] p(1) q by simp
qed (simp_all add: rx_inv_defs latest_def q_inv_def)

lemma sc_core_on_monitor: "sc_core (rx_scheduler (on_monitor (updateReactor f) r)) = sc_core (rx_scheduler r)"
  by (simp add: on_monitor_def on_scheduler_def sc_core_def updateReactor_def update_mon_def forget_def)

lemma bus_info_scheduler:
  "sc_core (rx_scheduler (rx_onBusEventInfo info r)) = sc_core (rx_scheduler r)"
  "events (rx_scheduler (rx_onBusEventInfo info r)) = events (rx_scheduler r)"
  by (simp_all add: rx_onBusEventInfo_def Let_def split_beta sc_core_on_monitor) (simp_all add: on_monitor_def on_scheduler_def)

lemma follows_bus:
  assumes "follows r s"
  shows "follows (rx_bus_event w ev r) (sched_bus_event w ev s)"
proof -
  have c: "rx_inv r" "sc_core (rx_scheduler r) = sc_core s" "events (rx_scheduler r) = []"
      "q_items (protocol_queue r) = latest protocol_queue_size (events s)"
    using assms by (simp_all add: follows_def)
  obtain es where es: "events (sched_bus_event w ev (rx_scheduler r)) = es" "events (sched_bus_event w ev s) = events s @ es"
    using bus_event_core(2) [OF c(2), of w ev] c(3) by auto
  define r1 where "r1 = on_scheduler (sched_bus_event w ev) r"
  define r2 where "r2 = on_scheduler (\<lambda>s. s\<lparr>events := []\<rparr>) r1"
  have i: "rx_inv r1" "rx_inv r2" using consistent.of_other [OF c(1)] by (simp_all add: r1_def r2_def)
  have r2: "q_items (protocol_queue r2) = latest protocol_queue_size (events s)"
      "sc_core (rx_scheduler r2) = sc_core (sched_bus_event w ev s)" "events (rx_scheduler r2) = []"
    using c(4) bus_event_core(1) [OF c(2), of w ev] by (simp_all add: r1_def r2_def on_scheduler_def)
  have sink: "rx_sink r1 = fold (\<lambda>ev r. snd (pushProtocolEvent ev r)) es r2"
    using es(1) by (simp add: rx_sink_def r2_def) (simp add: r1_def on_scheduler_def)
  have "rx_inv (rx_sink r1)" by (rule consistent.of_sink [OF i(1)])
  then show ?thesis
    using events_pushed [OF i(2), of es] r2 es(2) rx_inv_byte
    by (simp add: follows_def rx_bus_event_def r1_def [symmetric] sink bus_info_scheduler latest_latest)
qed

lemma follows_feed:
  "follows r s \<Longrightarrow> follows (fold (rx_bus_event w) evs r) (fold (\<lambda>ev. sched_bus_event w ev) evs s)"
  by (induction evs arbitrary: r s) (simp_all add: follows_bus)

subsection \<open>What a bus event leaves alone\<close>

definition user_side where
  "user_side r = (rx_devices r, delivered r, settings r)"

lemma user_side_simps [simp]:
  "user_side (on_scheduler f r) = user_side r" "user_side (on_monitor g r) = user_side r" "user_side (wake sig r) = user_side r"
  "user_side (r\<lparr>protocol_queue := q\<rparr>) = user_side r" "user_side (r\<lparr>max_protocol_queue := n\<rparr>) = user_side r"
  "user_side (r\<lparr>bus_queue := b\<rparr>) = user_side r" "user_side (r\<lparr>max_bus_queue := n\<rparr>) = user_side r"
  "user_side (r\<lparr>trace_buffer := t\<rparr>) = user_side r" "user_side (r\<lparr>rx_scheduler := s\<rparr>) = user_side r"
  by (simp_all add: user_side_def settings_def on_scheduler_def on_monitor_def wake_def)

lemma user_side_event [simp]: "user_side (snd (pushProtocolEvent ev r)) = user_side r"
  by (simp add: pushProtocolEvent_def Let_def split_beta)

lemma user_side_sink [simp]: "user_side (rx_sink r) = user_side r"
proof -
  have "user_side (fold (\<lambda>ev r. snd (pushProtocolEvent ev r)) evs r) = user_side r" for evs r
    by (induction evs arbitrary: r) simp_all
  then show ?thesis by (simp add: rx_sink_def)
qed

lemma user_side_bus [simp]: "user_side (rx_bus_event w ev r) = user_side r"
  by (simp add: rx_bus_event_def rx_onBusEventInfo_def Let_def split_beta)

lemma user_side_feed [simp]: "user_side (fold (rx_bus_event w) evs r) = user_side r"
  by (induction evs arbitrary: r) simp_all

section \<open>A telegram for the user\<close>

lemma process_won:
  assumes "active_item (rx_scheduler r) = Some a" "aa_session_id a = pe_session_id ev" "pe_type ev = ev_won"
  shows "process_event ev r = Some r"
  using assms by (simp add: process_event_def injectProtocolEvent_def deliver_event_eq shown_def Let_def)

lemma process_telegram:
  assumes "active_item (rx_scheduler r) = Some a" "aa_session_id a = pe_session_id ev" "pe_type ev = ev_telegram"
    and "user_protocol_callback r" "\<not> matches (pe_master ev) (sq_bytes inquiryOfExistence) 1"
  shows "\<exists>r'. process_event ev r = Some r' \<and> rx_scheduler r' = forget_attempt (rx_scheduler r)
    \<and> delivered r' = delivered r @ [public_info ev] \<and> rx_devices r' = dm_update (pe_master ev) (pe_slave ev) (rx_devices r)
    \<and> protocol_queue r' = protocol_queue r"
  using assms
  by (simp add: process_event_def injectProtocolEvent_def telegram_event_def answer_inquiry_def scan_result_def
      deliver_event_eq shown_def Let_def)

text \<open>
  The events of an attempt that ends with a telegram: it is reported with the number of the
  session, the devices are updated, and the scheduler has nothing left to do.
\<close>

lemma telegram_ends_attempt:
  assumes f: "follows r s" and act: "active_item s = Some a" "aa_session_id a = sid" "scheduled_items s = []"
    and ev: "map event_view (events s) = replicate n (ev_won, sid, [], []) @ [(ev_telegram, sid, m, rs)]" "n < protocol_queue_size"
    and cb: "user_protocol_callback r" "\<not> matches m (sq_bytes inquiryOfExistence) 1"
  shows "\<exists>r' info. processPublicEvents r = Some r' \<and> delivered r' = delivered r @ [info]
    \<and> \<not> is_error info \<and> pi_session_id info = sid \<and> pi_master_view info = m \<and> pi_slave_view info = rs
    \<and> rx_devices r' = dm_update m rs (rx_devices r) \<and> pending (rx_scheduler r') = {#} \<and> current_session_id (rx_scheduler r') = 0
    \<and> active_message (sc_handler (rx_scheduler r')) = active_message (sc_handler s)"
proof -
  have c: "rx_inv r" "sc_core (rx_scheduler r) = sc_core s" using f by (simp_all add: follows_def)
  note cf = sc_core_fields [OF c(2)]
  have am: "active_message (sc_handler (rx_scheduler r)) = active_message (sc_handler s)"
    using arg_cong [OF cf(6), of active_message] by (simp add: forget_def)
  have "length (events s) \<le> protocol_queue_size" using arg_cong [OF ev(1), of length] ev(2) by simp
  then have q: "map event_view (q_items (protocol_queue r)) = replicate n (ev_won, sid, [], []) @ [(ev_telegram, sid, m, rs)]"
    using f ev(1) by (simp add: follows_def latest_def)
  have a: "active_item (rx_scheduler r) = Some a" "scheduled_items (rx_scheduler r) = []" using act cf by simp_all
  have "events_ok r" using c(1) by (simp add: rx_inv_def)
  then show ?thesis using q a am cb(1)
  proof (induction n arbitrary: r)
    case 0
    then obtain ev where ev: "q_items (protocol_queue r) = [ev]" "event_view ev = (ev_telegram, sid, m, rs)" by auto
    obtain q where q: "q_tryPop (protocol_queue r) = Some (ev, q)" "q_items q = []" "q_inv q"
      using pq.pop_taken [of "protocol_queue r" ev "[]"] ev "0.prems"(1) by (auto simp: events_ok_def)
    obtain r' where r': "process_event ev (r\<lparr>protocol_queue := q\<rparr>) = Some r'" "rx_scheduler r' = forget_attempt (rx_scheduler r)"
        "delivered r' = delivered r @ [public_info ev]" "rx_devices r' = dm_update m rs (rx_devices r)" "protocol_queue r' = q"
      using process_telegram [of "r\<lparr>protocol_queue := q\<rparr>" a ev] "0.prems" ev(2) act(2) cb(2) by (auto simp: event_view_def)
    have "processPublicEvents r' = Some r'"
      using q(2,3) r'(5) pq.pop_refused [of q] by (simp add: processPublicEvents.simps [of r'])
    then have "processPublicEvents r = Some r'" using q(1) r'(1) by (simp add: processPublicEvents.simps [of r])
    then show ?case using r' "0.prems" ev(2)
      by (intro exI [of _ r'] exI [of _ "public_info ev"])
        (simp add: event_view_def public_info_def forget_attempt_def pending_def Let_def ProtocolInfo_init_def)
  next
    case (Suc n)
    then obtain ev evs where ev: "q_items (protocol_queue r) = ev # evs" "event_view ev = (ev_won, sid, [], [])"
        "map event_view evs = replicate n (ev_won, sid, [], []) @ [(ev_telegram, sid, m, rs)]" by (auto simp: Cons_eq_map_conv)
    obtain q where q: "q_tryPop (protocol_queue r) = Some (ev, q)" "q_items q = evs"
      using pq.pop_taken [of "protocol_queue r" ev evs] ev "Suc.prems"(1) by (auto simp: events_ok_def)
    let ?r = "r\<lparr>protocol_queue := q\<rparr>"
    have "process_event ev ?r = Some ?r" using process_won [of ?r a ev] "Suc.prems"(3) ev(2) act(2) by (simp add: event_view_def)
    then have "processPublicEvents r = processPublicEvents ?r" using q(1) by (simp add: processPublicEvents.simps [of r])
    moreover have "events_ok ?r"
      using "Suc.prems"(1) tryPop_contents [OF _ q(1)] by (simp add: events_ok_def)
    ultimately show ?case using Suc.IH [of ?r] "Suc.prems" q(2) ev(3) by simp
  qed
qed

lemma follows_tick:
  assumes "rx_inv r" "q_items (protocol_queue r) = []"
  shows "follows (snd (rx_tick r)) (snd (sched_tick (rx_scheduler r)))"
proof -
  let ?s = "snd (sched_tick (rx_scheduler r))"
  define r1 where "r1 = r\<lparr>rx_scheduler := ?s\<rparr>"
  define r2 where "r2 = on_scheduler (\<lambda>s. s\<lparr>events := []\<rparr>) r1"
  have t: "snd (rx_tick r) = rx_sink r1" by (simp add: rx_tick_def split_beta Let_def r1_def)
  have i: "rx_inv r1" "rx_inv r2" using consistent.of_other [OF assms(1)] by (simp_all add: r1_def r2_def)
  have "rx_inv (rx_sink r1)" by (rule consistent.of_sink [OF i(1)])
  moreover have "rx_sink r1 = fold (\<lambda>ev r. snd (pushProtocolEvent ev r)) (events ?s) r2"
    by (simp add: rx_sink_def r2_def) (simp add: r1_def)
  moreover have "q_items (protocol_queue r2) = []" "rx_scheduler r2 = ?s\<lparr>events := []\<rparr>"
    using assms(2) by (simp_all add: r1_def r2_def on_scheduler_def)
  ultimately show ?thesis using events_pushed [OF i(2), of "events ?s"] unfolding t by (simp add: follows_def)
qed

lemma user_side_tick [simp]: "user_side (snd (rx_tick r)) = user_side r"
  by (simp add: rx_tick_def split_beta Let_def)

lemma inject_telegram:
  assumes "injectProtocolEvent ev s = Some (True, s')" "pe_type ev = ev_telegram"
  shows "s' = forget_attempt s \<and> (\<exists>a. active_item s = Some a \<and> aa_session_id a = pe_session_id ev)"
  using assms by (auto simp: injectProtocolEvent_def split: option.splits if_splits)

lemma no_inquiry: "typeOf (m ! 1) \<noteq> broadcast \<Longrightarrow> \<not> matches m (sq_bytes inquiryOfExistence) 1"
proof
  assume "typeOf (m ! 1) \<noteq> broadcast" "matches m (sq_bytes inquiryOfExistence) 1"
  moreover have "sq_bytes inquiryOfExistence = [broad, 0x07, 0xfe, 0x00]" by (simp add: inquiryOfExistence_def seq_of_def)
  moreover have "typeOf broad = broadcast" by code_simp
  ultimately show False by (auto simp: matches_def list_all_iff split: if_splits dest!: bspec [of _ _ "0 :: nat"])
qed

text \<open>
  C2: A message given to the scheduler comes back to the user. It is queued with a number, the next
  iteration of the loop hands it to the handler, the exchange takes place on the bus, and when the
  reactor next looks after its events the callback is given exactly one telegram, with that
  number, the bytes sent and the answer of the slave; the devices are updated with it and the
  scheduler has nothing left to do.
\<close>

theorem message_reaches_user:
  fixes r :: reactor and msg rs :: bytes and prio :: u8 and poll :: u16 and w :: u64 and e1 e2 :: BusEvent
    and evs :: "BusEvent list"
  defines "s \<equiv> rx_scheduler r" and "h \<equiv> sc_handler (rx_scheduler r)"
  defines "m \<equiv> source_address h # msg" and "sid \<equiv> next_session_id s"
  defines "r1 \<equiv> on_scheduler (\<lambda>s. snd (enqueue prio msg poll s)) r"
  defines "r2 \<equiv> snd (rx_tick r1)"
  defines "r3 \<equiv> fold (rx_bus_event w) (e1 # e2 # evs) r2"
  assumes rx: "rx_inv r" "q_items (protocol_queue r) = []" "user_protocol_callback r" "events s = []"
    and q: "scheduled_items s = []" "active_item s = None" "event_sink s" "sid \<noteq> 0"
    and h: "free h" "clk h (clk_reads h) \<le> clk h (clk_reads h + 1)"
    and m: "master_part_ok m" "typeOf (m ! 1) = master_slave" "slave_part_ok rs"
    and e: "plain e1" "ev_byte e1 = syn" "ev_bus_request e2" "\<not> ev_start_bit e2" "ev_byte e2 = syn"
    and evs: "map ev_byte evs = exchange_wire m rs" "\<forall>ev \<in> set evs. plain ev"
  shows "\<exists>r' info. processPublicEvents r3 = Some r' \<and> delivered r' = delivered r @ [info]
    \<and> \<not> is_error info \<and> pi_session_id info = sid \<and> pi_master_view info = m \<and> pi_slave_view info = rs
    \<and> rx_devices r' = dm_update m rs (rx_devices r) \<and> pending (rx_scheduler r') = {#}"
proof -
  define s1 where "s1 = snd (enqueue prio msg poll s)"
  define s3 where "s3 = fold (\<lambda>ev. sched_bus_event w ev) (e1 # e2 # evs) (snd (sched_tick s1))"
  define telegram where "telegram = ProtocolEvent_init\<lparr>pe_type := ev_telegram, pe_session_id := sid, pe_master := m, pe_slave := rs\<rparr>"
  note sent = scheduled_message_sent [OF q(1-3) q(4) [unfolded sid_def] h [unfolded h_def, folded s_def]
    m [unfolded m_def h_def, folded s_def] e evs [unfolded m_def h_def, folded s_def], of prio poll w]
  have view: "map event_view (events s3) = [(ev_won, sid, [], []), (ev_telegram, sid, m, rs)]"
    using sent rx(4) by (simp add: s3_def s1_def sid_def m_def h_def s_def)
  have "event_view ev = (ev_telegram, sid, m, rs) \<longrightarrow> (\<exists>s4. injectProtocolEvent ev s3 = Some (True, s4) \<and> pending s4 = {#})" for ev
    using sent by (auto simp: s3_def s1_def sid_def m_def h_def s_def)
  moreover have "event_view telegram = (ev_telegram, sid, m, rs)" by (simp add: telegram_def event_view_def)
  ultimately have "\<exists>s4. injectProtocolEvent telegram s3 = Some (True, s4) \<and> pending s4 = {#}" by blast
  then obtain a where a: "active_item s3 = Some a" "aa_session_id a = sid" "scheduled_items s3 = []"
    using inject_telegram [of telegram s3] by (auto simp: telegram_def forget_attempt_def pending_def)
  have "rx_inv r1" "q_items (protocol_queue r1) = []" "rx_scheduler r1 = s1"
    using rx consistent.of_other [OF rx(1)] by (simp_all add: r1_def s1_def s_def) (simp_all add: on_scheduler_def)
  then have "follows r2 (snd (sched_tick s1))" using follows_tick [of r1] by (simp add: r2_def)
  then have f: "follows r3 s3" unfolding r3_def s3_def by (rule follows_feed)
  have side: "user_side r3 = user_side r" by (simp add: r3_def r2_def r1_def)
  then have "user_protocol_callback r3" using rx(3) by (simp add: user_side_def settings_def)
  moreover have "map event_view (events s3) = replicate 1 (ev_won, sid, [], []) @ [(ev_telegram, sid, m, rs)]" using view by simp
  moreover have "\<not> matches m (sq_bytes inquiryOfExistence) 1" using no_inquiry m(2) by simp
  ultimately show ?thesis using telegram_ends_attempt [OF f a, of 1 m rs] side by (auto simp: user_side_def reactor_limits)
qed

definition wire_events :: "bytes \<Rightarrow> bytes \<Rightarrow> BusEvent list" where
  "wire_events m rs = event syn # (event syn)\<lparr>ev_bus_request := True\<rparr> # map event (exchange_wire m rs)"

lemma sample_reactor_fields:
  "q_items (protocol_queue (sample_reactor b)) = []" "user_protocol_callback (sample_reactor b)"
  "rx_scheduler (sample_reactor b) = sample_sender" "delivered (sample_reactor b) = []"
  "rx_devices (sample_reactor b) = device_manager_new None"
proof -
  obtain r0 where r0: "reactor_new 0x31 b sample_sender (poll_manager_new (\<lambda>_. 0)) (device_scanner_new 0x31 (\<lambda>_. 0))
     (device_manager_new None) (\<lambda>_. 0) level_error = Some r0" "sample_reactor b = setProtocolCallback True r0"
    using sample_reactor_new by blast
  then show "q_items (protocol_queue (sample_reactor b)) = []" "user_protocol_callback (sample_reactor b)"
    "rx_scheduler (sample_reactor b) = sample_sender" "delivered (sample_reactor b) = []"
    "rx_devices (sample_reactor b) = device_manager_new None"
    by (auto simp: setProtocolCallback_def reactor_new_def reactor_limits queue_new_def q_items_def q_ring_def cb_forEach_def)
qed

lemma sample_sender_fields:
  "scheduled_items sample_sender = []" "active_item sample_sender = None" "event_sink sample_sender"
  "next_session_id sample_sender = 1" "sc_handler sample_sender = (sample_handler 0x31)\<lparr>lock_counter := 0\<rparr>"
  "events sample_sender = []"
  by (simp_all add: sample_sender_def scheduler_new_def)

lemma sample_sender_free:
  "isMaster 0x31" "free (sc_handler sample_sender)" "source_address (sc_handler sample_sender) = 0x31"
  "target_address (sc_handler sample_sender) = slaveOf 0x31" "clk (sc_handler sample_sender) n = 0"
proof -
  show k: "isMaster 0x31" by code_simp
  show "free (sc_handler sample_sender)" "source_address (sc_handler sample_sender) = 0x31"
    "target_address (sc_handler sample_sender) = slaveOf 0x31" "clk (sc_handler sample_sender) n = 0"
    using k sample_listening by (simp_all add: sample_sender_fields free_def listening_def idle_def sample_clk)
qed

theorem message_reaches_user_witness:
  "(let msg = [0x08, 0xb5, 0x09, 0x01, 0xaa]; rs = [0x01, 0xa9]; m = 0x31 # msg;
        r1 = on_scheduler (\<lambda>s. snd (enqueue 5 msg 0 s)) (sample_reactor True)
    in case processPublicEvents (fold (rx_bus_event 0) (wire_events m rs) (snd (rx_tick r1))) of
         None \<Rightarrow> False
       | Some r' \<Rightarrow> map pi_session_id (delivered r') = [1] \<and> map pi_slave_view (delivered r') = [rs])"
proof -
  let ?m = "[0x31, 0x08, 0xb5, 0x09, 0x01, 0xaa]"
  have k: "master_part_ok ?m" "slave_part_ok [0x01, 0xa9]" "typeOf (?m ! 1) = master_slave" by code_simp+
  have e: "plain (event syn)" "ev_byte (event syn) = syn" "ev_bus_request ((event syn)\<lparr>ev_bus_request := True\<rparr>)"
    "\<not> ev_start_bit ((event syn)\<lparr>ev_bus_request := True\<rparr>)" "ev_byte ((event syn)\<lparr>ev_bus_request := True\<rparr>) = syn"
    by (simp_all add: event_def plain_def)
  from message_reaches_user [OF sample_reactor_inv [of True] sample_reactor_fields(1,2) _ _ _ _ _ _ _ _ _ k(2) e,
      where evs = "map event (exchange_wire ?m [0x01, 0xa9])" and msg = "[0x08, 0xb5, 0x09, 0x01, 0xaa]" and w = 0 and prio = 5
        and poll = 0]
  show ?thesis
    using k sample_sender_fields(1-4,6) sample_sender_free event_map
    by (auto simp add: Let_def wire_events_def sample_reactor_fields(3-5) simp del: fold_simps)
qed

section \<open>Whose telegram ends an attempt\<close>

text \<open>What a tick does with the only message of a scheduler, before the bus is won.\<close>

lemma message_started:
  fixes s :: scheduler and msg :: bytes and prio :: u8 and poll :: u16
  assumes q: "scheduled_items s = []" "active_item s = None"
    and h: "listening (sc_handler s)" "clk (sc_handler s) (clk_reads (sc_handler s)) \<le> clk (sc_handler s) (clk_reads (sc_handler s) + 1)"
    and m: "master_part_ok (source_address (sc_handler s) # msg)"
  defines "s2 \<equiv> snd (sched_tick (snd (enqueue prio msg poll s)))"
  shows "scheduled_items s2 = []" "\<exists>a. active_item s2 = Some a \<and> aa_session_id a = next_session_id s"
    "current_session_id s2 = next_session_id s" "event_sink s2 = event_sink s" "events s2 = events s"
    "\<exists>t. forget (sc_handler s2) = forget ((sc_handler s)\<lparr>active_telegram := t, active_message := True\<rparr>)"
proof -
  let ?h = "sc_handler s"
  define it where "it = \<lparr>it_priority = prio, it_due = now ?h, it_session_id = next_session_id s, it_poll_id = poll,
    it_attempts = 0, it_message = seq_assign seq_nil msg False\<rparr>"
  define s1 where "s1 = snd (enqueue prio msg poll s)"
  have s1: "scheduled_items s1 = [it]" "active_item s1 = None" "sc_handler s1 = ?h\<lparr>clk_reads := clk_reads ?h + 1\<rparr>"
      "event_sink s1 = event_sink s" "events s1 = events s"
    using enqueue_first [OF q(1), of prio msg poll, folded it_def] q by (simp_all add: s1_def)
  have tick: "s2 = starts it s1"
    using tick_starts [of s1] s1 h by (simp add: s2_def s1_def [symmetric] it_def now_def listening_def)
  have msg: "sq_bytes (it_message it) = msg" by (simp add: it_def seq_assign_def seq_of_def)
  have "msg \<noteq> []" using m by (auto simp: master_part_ok_def)
  moreover have "createMaster_from (source_address ?h) msg t = master_accepted (source_address ?h # msg) t" for t
    using createMaster_plain [OF m, of "seq_of (source_address ?h # msg) False" t]
    by (simp add: createMaster_from_def master_source_sequence)
  ultimately have send: "sendActiveMessage msg (?h\<lparr>clk_reads := n\<rparr>) = (True, ?h\<lparr>clk_reads := n,
      active_telegram := master_accepted (source_address ?h # msg) (active_telegram ?h), active_message := True\<rparr>)" for n
    using h(1) by (simp add: sendActiveMessage_def listening_def Let_def master_accepted_def)
  note st = starts_simps [of it s1]
  show "scheduled_items s2 = []" using st(3) tick s1(1) heap_pop_parts(3) [of "[it]" Compare] by simp
  show "\<exists>a. active_item s2 = Some a \<and> aa_session_id a = next_session_id s" using st(4) tick by (auto simp: it_def)
  show "current_session_id s2 = next_session_id s" "event_sink s2 = event_sink s" using st(1,2) tick s1 by (simp_all add: it_def)
  show "events s2 = events s" using st(6) tick s1 msg send by simp
  show "\<exists>t. forget (sc_handler s2) = forget (?h\<lparr>active_telegram := t, active_message := True\<rparr>)"
    using st(5) tick s1 msg send by (auto simp: forget_def)
qed

text \<open>A handler whose message waits still reports what the others exchange.\<close>

lemma foreign_while_waiting:
  assumes h: "listening h" "protocol_callback h" and x: "foreign h (m, rs)"
    and g: "forget g = forget (h\<lparr>active_telegram := t, active_message := True\<rparr>)"
    and evs: "map ev_byte evs = exchange_wire m rs" "\<forall>ev \<in> set evs. plain ev"
  shows "outputs (feed evs g) = outputs h @ [observed_report m rs]" "active_message (feed evs g)"
proof -
  let ?g = "forget (h\<lparr>active_telegram := t, active_message := True\<rparr>)"
  have i: "idle ?g" "mon ?g = None" using h(1) by (simp_all add: listening_def idle_def forget_def)
  have a: "agree (feed evs ?g) (?g\<lparr>outputs := outputs ?g @ [observed_report m rs]\<rparr>)"
    using exchange_observed [OF i, of m rs evs] x evs h(2) by (simp add: foreign_def forget_def)
  have f: "forget (feed evs g) = feed evs ?g" using g by (metis forget_feed)
  show "outputs (feed evs g) = outputs h @ [observed_report m rs]"
    using arg_cong [OF f, of outputs] a by (auto elim!: agreeE simp: step_fields_def)
  show "active_message (feed evs g)"
    using arg_cong [OF f, of active_message] a by (auto elim!: agreeE simp: step_fields_def)
qed

text \<open>
  C21: A telegram that two other participants exchange while a message of the user still waits for the bus is
  taken for the outcome of that message: the user is given the foreign telegram
  under the number of the message, the attempt counts as done, so that it will not be repeated, and the
  message has not been sent, it is still with the handler.
\<close>

theorem foreign_telegram_ends_attempt:
  fixes r :: reactor and msg m rs :: bytes and prio :: u8 and poll :: u16 and w :: u64 and evs :: "BusEvent list"
  defines "s \<equiv> rx_scheduler r" and "h \<equiv> sc_handler (rx_scheduler r)"
  defines "r3 \<equiv> fold (rx_bus_event w) evs (snd (rx_tick (on_scheduler (\<lambda>s. snd (enqueue prio msg poll s)) r)))"
  assumes rx: "rx_inv r" "q_items (protocol_queue r) = []" "user_protocol_callback r" "events s = []"
    and q: "scheduled_items s = []" "active_item s = None" "event_sink s" "next_session_id s \<noteq> 0"
    and h: "listening h" "protocol_callback h" "clk h (clk_reads h) \<le> clk h (clk_reads h + 1)"
    and m: "master_part_ok (source_address h # msg)" "foreign h (m, rs)" "typeOf (m ! 1) = master_slave"
    and evs: "map ev_byte evs = exchange_wire m rs" "\<forall>ev \<in> set evs. plain ev"
  shows "\<exists>r' info. processPublicEvents r3 = Some r' \<and> delivered r' = delivered r @ [info]
    \<and> \<not> is_error info \<and> pi_session_id info = next_session_id s \<and> pi_master_view info = m \<and> pi_slave_view info = rs
    \<and> pending (rx_scheduler r') = {#} \<and> active_message (sc_handler (rx_scheduler r'))"
proof -
  define s2 where "s2 = snd (sched_tick (snd (enqueue prio msg poll s)))"
  define s3 where "s3 = fold (\<lambda>ev. sched_bus_event w ev) evs s2"
  note st = message_started [OF q(1,2) h(1,3) [unfolded h_def, folded s_def] m(1) [unfolded h_def, folded s_def], of prio poll,
    folded s2_def]
  obtain t where t: "forget (sc_handler s2) = forget (h\<lparr>active_telegram := t, active_message := True\<rparr>)"
    using st(6) by (auto simp: h_def s_def)
  note w = foreign_while_waiting [OF h(1,2) m(2) t evs]
  have out: "outputs (sc_handler s2) = outputs h" using arg_cong [OF t, of outputs] by (simp add: forget_def)
  have ok: "master_part_ok m" "slave_part_ok rs" using m(2) by (simp_all add: foreign_def)
  have view: "map event_view (events s3) = replicate 0 (ev_won, next_session_id s, [], []) @ [(ev_telegram, next_session_id s, m, rs)]"
    using sched_feed_view [of s2 evs "[observed_report m rs]" w] st(3-5) q(3,4) rx(4) w(1) out m(3) short_parts [OF ok]
    by (simp add: s3_def observed_report_def event_of_def telegram_info_def ProtocolInfo_init_def Let_def)
  have a3: "scheduled_items s3 = []" "active_message (sc_handler s3)"
    using st(1) w(2) by (simp_all add: s3_def sched_feed_frame sched_feed_handler)
  obtain a where a: "active_item s3 = Some a" "aa_session_id a = next_session_id s"
    using st(2) by (auto simp: s3_def sched_feed_frame)
  let ?r1 = "on_scheduler (\<lambda>s. snd (enqueue prio msg poll s)) r"
  have "rx_inv ?r1" using consistent.of_other [OF rx(1)] by simp
  then have "follows (snd (rx_tick ?r1)) s2"
    using follows_tick [of ?r1] rx(2) by (simp add: s2_def s_def) (simp add: on_scheduler_def)
  then have f: "follows r3 s3" unfolding r3_def s3_def by (rule follows_feed)
  have side: "user_side r3 = user_side r" by (simp add: r3_def)
  then have "user_protocol_callback r3" using rx(3) by (simp add: user_side_def settings_def)
  then show ?thesis using telegram_ends_attempt [OF f a a3(1) view] no_inquiry [of m] m(3) side a3(2)
    by (auto simp: user_side_def reactor_limits)
qed

theorem foreign_telegram_ends_attempt_witness:
  "(let msg = [0x08, 0xb5, 0x09, 0x01, 0xaa]; m = [0x10, 0x15, 0x07, 0x04, 0x00]; rs = [0x01, 0xa9];
        r1 = on_scheduler (\<lambda>s. snd (enqueue 5 msg 0 s)) (sample_reactor True)
    in case processPublicEvents (fold (rx_bus_event 0) (map event (exchange_wire m rs)) (snd (rx_tick r1))) of
         None \<Rightarrow> False
       | Some r' \<Rightarrow> map pi_session_id (delivered r') = [1] \<and> map pi_master_view (delivered r') = [m]
           \<and> pending (rx_scheduler r') = {#} \<and> active_message (sc_handler (rx_scheduler r')))"
proof -
  let ?m = "[0x10, 0x15, 0x07, 0x04, 0x00]" and ?r = "[0x01, 0xa9]"
  have k: "master_part_ok ?m" "slave_part_ok ?r" "typeOf (?m ! 1) = master_slave" "master_part_ok [0x31, 0x08, 0xb5, 0x09, 0x01, 0xaa]"
    "slaveOf 0x31 \<noteq> 0x15" by code_simp+
  have x: "foreign (sc_handler sample_sender) (?m, ?r)" using k sample_sender_free(3,4) by (simp add: foreign_def)
  have h: "listening (sc_handler sample_sender)" "protocol_callback (sc_handler sample_sender)"
    using sample_sender_free(2) by (simp_all add: free_def)
  show ?thesis
    using foreign_telegram_ends_attempt [OF sample_reactor_inv [of True] sample_reactor_fields(1,2), where m = ?m and rs = ?r
      and evs = "map event (exchange_wire ?m ?r)" and msg = "[0x08, 0xb5, 0x09, 0x01, 0xaa]" and w = 0 and prio = 5 and poll = 0]
      k x h sample_sender_fields(1-4,6) sample_sender_free event_map
    by (auto simp add: Let_def sample_reactor_fields(3-5) simp del: fold_simps)
qed

text \<open>The witness of the theorem on the processing of events: a reactor with a monitor.\<close>

definition monitored_sender :: scheduler where
  "monitored_sender = sample_sender\<lparr>sc_handler := (sc_handler sample_sender)\<lparr>mon := Some (monitor_init 0)\<rparr>\<rparr>"

theorem public_events_processed_witness:
  "case reactor_new 0x31 True monitored_sender (poll_manager_new (\<lambda>_. 0)) (device_scanner_new 0x31 (\<lambda>_. 0))
     (device_manager_new None) (\<lambda>_. 0) level_error of None \<Rightarrow> False
   | Some r0 \<Rightarrow> (\<exists>r'. processPublicEvents (snd (rx_tick r0)) = Some r' \<and> q_items (protocol_queue r') = [])"
proof -
  let ?new = "reactor_new 0x31 True monitored_sender (poll_manager_new (\<lambda>_. 0)) (device_scanner_new 0x31 (\<lambda>_. 0))
     (device_manager_new None) (\<lambda>_. 0) level_error"
  obtain r0 where r0: "?new = Some r0" by (simp add: reactor_new_def queue_new_def reactor_limits)
  have s: "rx_scheduler r0 = monitored_sender" using r0 by (auto simp: reactor_new_def queue_new_def reactor_limits)
  have "sched_tick monitored_sender = (False, monitored_sender)"
    by (simp add: sched_tick_def monitored_sender_def sample_sender_fields)
  then have "mon (sc_handler (rx_scheduler (snd (rx_tick r0)))) \<noteq> None"
    using s by (simp add: rx_tick_def rx_sink_def on_scheduler_def monitored_sender_def sample_sender_fields)
  then show ?thesis
    using public_events_processed [OF r0 r_into_rtranclp [of reactor_step, OF rx_step_tick]] r0 by auto
qed

text \<open>
  An attempt that times out is reported with the message as it was given, without the address of the
  sender in front: the second byte of the event, which the reactor takes for the target address, is
  the primary command, and the scanner holds the failure against an address that was never asked.
\<close>

theorem timeout_blames_command:
  assumes "sq_bytes (it_message (aa_item a)) = zz # pb # rest" "aa_session_id a > 0"
  shows "rx_scanner (error_event (timeout_event a s) r) = onScanResult (Some (rx_devices r)) pb False (rx_scanner r)"
  using assms
  by (simp add: error_event_def scan_result_def timeout_event_def static_at_def static_assign_def model_capacity_def Let_def
      ProtocolEvent_init_def min_def)

end
