(* ===== verification/Single_Float.thy ===== *)
theory Single_Float
  imports Ebus_Prelude Complex_Main "HOL-Library.Signed_Division"
begin

text \<open>
  The single-precision numbers (\<open>float\<close>) the typed data of the sources use: the bit
  patterns of IEEE binary32, and of the arithmetic what \<open>data_types.cpp\<close> applies to
  them: conversion from an integer, product, quotient, \<open>std::round\<close> followed by the
  conversion to \<open>int64_t\<close>. Every finite number is a multiple of \<open>2^-149\<close>, so that a
  magnitude is a natural number in that unit and rounding to nearest, ties to even, is
  a division of natural numbers. The lemmas bound the relative error of an operation.
\<close>

section \<open>Bit patterns\<close>

type_synonym f32 = u32

definition f32_negative :: "f32 \<Rightarrow> bool" where
  "f32_negative b \<longleftrightarrow> 2 ^ 31 \<le> unat b"

definition f32_exponent :: "f32 \<Rightarrow> nat" where
  "f32_exponent b = unat b div 2 ^ 23 mod 256"

definition f32_fraction :: "f32 \<Rightarrow> nat" where
  "f32_fraction b = unat b mod 2 ^ 23"

definition f32_finite :: "f32 \<Rightarrow> bool" where
  "f32_finite b \<longleftrightarrow> f32_exponent b \<noteq> 255"

definition f32_nan :: "f32 \<Rightarrow> bool" where
  "f32_nan b \<longleftrightarrow> f32_exponent b = 255 \<and> f32_fraction b \<noteq> 0"

text \<open>The magnitude of a finite number, in units of \<open>2^-149\<close>.\<close>

definition f32_magnitude :: "f32 \<Rightarrow> nat" where
  "f32_magnitude b =
     (if f32_exponent b = 0 then f32_fraction b
      else (2 ^ 23 + f32_fraction b) * 2 ^ (f32_exponent b - 1))"

definition quiet_nan :: f32 where
  "quiet_nan = 0x7fc00000"

text \<open>Sign, and the 31 bits of exponent and fraction.\<close>

definition f32_pack :: "bool \<Rightarrow> nat \<Rightarrow> f32" where
  "f32_pack negative n = of_nat (if negative then 2 ^ 31 + n else n)"

abbreviation infinity_code :: nat where
  "infinity_code \<equiv> 255 * 2 ^ 23"

section \<open>Rounding\<close>

definition div_half_even :: "nat \<Rightarrow> nat \<Rightarrow> nat" where
  "div_half_even p q =
     (let d = p div q; r = p mod q
      in if 2 * r < q \<or> 2 * r = q \<and> even d then d else d + 1)"

text \<open>
  The number nearest to \<open>p / q\<close> units. The fraction has 24 bits, so the scale is the
  least \<open>k\<close> with \<open>p / q < 2^(k + 24)\<close>; the code \<open>k * 2^23 + m\<close> carries by itself into
  the next exponent when \<open>m\<close> is rounded up to \<open>2^24\<close>.
\<close>

definition f32_scale :: "nat \<Rightarrow> nat \<Rightarrow> nat option" where
  "f32_scale p q = find (\<lambda>k. p < q * 2 ^ (k + 24)) [0..<254]"

definition f32_round :: "bool \<Rightarrow> nat \<Rightarrow> nat \<Rightarrow> f32" where
  "f32_round negative p q =
     f32_pack negative
       (case f32_scale p q of
          None \<Rightarrow> infinity_code
        | Some k \<Rightarrow> k * 2 ^ 23 + div_half_even p (q * 2 ^ k))"

section \<open>Operations\<close>

definition f32_of_int :: "int \<Rightarrow> f32" where
  "f32_of_int v = f32_round (v < 0) (nat \<bar>v\<bar> * 2 ^ 149) 1"

definition f32_mul :: "f32 \<Rightarrow> f32 \<Rightarrow> f32" where
  "f32_mul x y =
     (let s = (f32_negative x \<noteq> f32_negative y) in
      if f32_nan x \<or> f32_nan y then quiet_nan
      else if \<not> f32_finite x \<or> \<not> f32_finite y
      then (if f32_finite x \<and> f32_magnitude x = 0 \<or> f32_finite y \<and> f32_magnitude y = 0
            then quiet_nan else f32_pack s infinity_code)
      else f32_round s (f32_magnitude x * f32_magnitude y) (2 ^ 149))"

definition f32_div :: "f32 \<Rightarrow> f32 \<Rightarrow> f32" where
  "f32_div x y =
     (let s = (f32_negative x \<noteq> f32_negative y) in
      if f32_nan x \<or> f32_nan y then quiet_nan
      else if \<not> f32_finite x then (if f32_finite y then f32_pack s infinity_code else quiet_nan)
      else if \<not> f32_finite y then f32_pack s 0
      else if f32_magnitude y = 0
      then (if f32_magnitude x = 0 then quiet_nan else f32_pack s infinity_code)
      else f32_round s (f32_magnitude x * 2 ^ 149) (f32_magnitude y))"

text \<open>
  \<open>static_cast<int64_t>(std::round(f))\<close>: halves are rounded away from zero. The
  conversion is undefined for what is no number of the type: \<open>None\<close>.
\<close>

definition int64_range :: "int \<Rightarrow> bool" where
  "int64_range v \<longleftrightarrow> - (2 ^ 63) \<le> v \<and> v < 2 ^ 63"

definition f32_round_int64 :: "f32 \<Rightarrow> int option" where
  "f32_round_int64 b =
     (let n = int ((f32_magnitude b + 2 ^ 148) div 2 ^ 149);
          v = (if f32_negative b then - n else n)
      in if f32_finite b \<and> int64_range v then Some v else None)"

section \<open>Codes and magnitudes\<close>

lemma f32_pack_fields:
  assumes "n < 2 ^ 31"
  shows "f32_negative (f32_pack s n) = s"
    and "f32_exponent (f32_pack s n) = n div 2 ^ 23"
    and "f32_fraction (f32_pack s n) = n mod 2 ^ 23"
proof -
  have u: "unat (f32_pack s n) = (if s then 2 ^ 31 + n else n)"
    using assms unfolding f32_pack_def by (subst unat_of_nat) auto
  have c: "(2 ^ 31 + n) div 2 ^ 23 = 256 + n div 2 ^ 23" "(2 ^ 31 + n) mod 2 ^ 23 = n mod 2 ^ 23"
    using div_mult_self3 [of "2 ^ 23" 256 n] mod_mult_self3 [of 256 "2 ^ 23" n] by simp_all
  from assms have lt: "n div 2 ^ 23 < 256" by (simp add: less_mult_imp_div_less)
  show "f32_negative (f32_pack s n) = s"
    using assms by (simp add: f32_negative_def u)
  show "f32_exponent (f32_pack s n) = n div 2 ^ 23"
    using lt c(1) by (simp add: f32_exponent_def u)
  show "f32_fraction (f32_pack s n) = n mod 2 ^ 23"
    using c(2) by (simp add: f32_fraction_def u)
qed

text \<open>A code composed of a scale and a rounded fraction has the magnitude it stands for.\<close>

lemma f32_pack_magnitude:
  assumes "m \<le> 2 ^ 24" "k = 0 \<or> 2 ^ 23 \<le> m" "k \<le> 252"
  shows "f32_finite (f32_pack s (k * 2 ^ 23 + m))"
    and "f32_magnitude (f32_pack s (k * 2 ^ 23 + m)) = m * 2 ^ k"
    and "f32_negative (f32_pack s (k * 2 ^ 23 + m)) = s"
proof -
  have n: "k * 2 ^ 23 + m < 2 ^ 31" using assms by simp
  note fields = f32_pack_fields [OF n, of s]
  consider "m < 2 ^ 23" "k = 0" | "2 ^ 23 \<le> m" "m < 2 ^ 24" | "m = 2 ^ 24"
    using assms by linarith
  then have "f32_exponent (f32_pack s (k * 2 ^ 23 + m)) < 255 \<and>
      f32_magnitude (f32_pack s (k * 2 ^ 23 + m)) = m * 2 ^ k"
  proof cases
    case 1
    then show ?thesis using fields by (simp add: f32_magnitude_def)
  next
    case 2
    then obtain r where r: "m = 2 ^ 23 + r" "r < 2 ^ 23"
      by (auto dest: le_Suc_ex)
    then have "(k * 2 ^ 23 + m) div 2 ^ 23 = k + 1" "(k * 2 ^ 23 + m) mod 2 ^ 23 = r"
      by auto
    with r assms fields show ?thesis by (simp add: f32_magnitude_def)
  next
    case 3
    then have "(k * 2 ^ 23 + m) div 2 ^ 23 = k + 2" "(k * 2 ^ 23 + m) mod 2 ^ 23 = 0"
      by auto
    with 3 assms fields show ?thesis by (simp add: f32_magnitude_def)
  qed
  then show "f32_finite (f32_pack s (k * 2 ^ 23 + m))"
    and "f32_magnitude (f32_pack s (k * 2 ^ 23 + m)) = m * 2 ^ k"
    by (auto simp: f32_finite_def)
  show "f32_negative (f32_pack s (k * 2 ^ 23 + m)) = s" by (rule fields(1))
qed

section \<open>The error of rounding\<close>

lemma div_half_even_error:
  assumes "0 < q"
  shows "2 * \<bar>int (div_half_even p q * q) - int p\<bar> \<le> int q"
proof -
  define d r where "d = p div q" and "r = p mod q"
  have p: "p = d * q + r" by (simp add: d_def r_def)
  have r: "r < q" using assms by (simp add: r_def)
  show ?thesis
    using r unfolding div_half_even_def Let_def d_def [symmetric] r_def [symmetric]
    by (auto simp: p algebra_simps)
qed

lemma div_half_even_bounds:
  assumes "0 < q"
  shows "p < q * 2 ^ n \<Longrightarrow> div_half_even p q \<le> 2 ^ n"
    and "q * 2 ^ n \<le> p \<Longrightarrow> 2 ^ n \<le> div_half_even p q"
proof -
  show "div_half_even p q \<le> 2 ^ n" if "p < q * 2 ^ n"
  proof -
    have "p div q < 2 ^ n" using that by (simp add: less_mult_imp_div_less mult.commute)
    then show ?thesis by (simp add: div_half_even_def Let_def)
  qed
  show "2 ^ n \<le> div_half_even p q" if "q * 2 ^ n \<le> p"
  proof -
    have "2 ^ n \<le> p div q" using that assms by (simp add: less_eq_div_iff_mult_less_eq mult.commute)
    then show ?thesis by (simp add: div_half_even_def Let_def)
  qed
qed

lemma f32_scale_least:
  assumes "0 < q" "p < q * 2 ^ (j + 24)" "j < 254"
  obtains k where "f32_scale p q = Some k" "k \<le> j" "p < q * 2 ^ (k + 24)"
    "k = 0 \<or> q * 2 ^ (k + 23) \<le> p"
proof -
  from assms have "\<exists>k\<in>set [0..<254]. p < q * 2 ^ (k + 24)" by (intro bexI [of _ j]) auto
  then obtain k where k: "f32_scale p q = Some k"
    unfolding f32_scale_def by (metis find_None_iff option.exhaust)
  then have props: "p < q * 2 ^ (k + 24)" "\<forall>i<k. \<not> p < q * 2 ^ (i + 24)" "k < 254"
    by (auto simp: f32_scale_def find_Some_iff)
  have "k \<le> j" using props(2) assms(2) by (meson not_le)
  moreover have "k = 0 \<or> q * 2 ^ (k + 23) \<le> p"
  proof (cases k)
    case (Suc i)
    with props(2) show ?thesis by (auto simp: not_less add.commute)
  qed simp
  ultimately show thesis using k props(1) by (intro that)
qed

lemma f32_round_error:
  assumes q: "0 < q" and p: "p < q * 2 ^ 276"
  shows "f32_finite (f32_round s p q)" "f32_negative (f32_round s p q) = s"
    and "2 * \<bar>int (f32_magnitude (f32_round s p q) * q) - int p\<bar> \<le> int q \<or>
      2 ^ 24 * \<bar>int (f32_magnitude (f32_round s p q) * q) - int p\<bar> \<le> int p"
    and "p = 0 \<Longrightarrow> f32_magnitude (f32_round s p q) = 0"
proof -
  obtain k where k: "f32_scale p q = Some k" "k \<le> 252" "p < q * 2 ^ (k + 24)"
    "k = 0 \<or> q * 2 ^ (k + 23) \<le> p"
    by (rule f32_scale_least [OF q, of p 252]) (use p in auto)
  define m where "m = div_half_even p (q * 2 ^ k)"
  have q': "0 < q * 2 ^ k" using q by simp
  have m: "m \<le> 2 ^ 24" "k = 0 \<or> 2 ^ 23 \<le> m"
    using div_half_even_bounds(1) [OF q', of p 24] div_half_even_bounds(2) [OF q', of 23 p] k(3,4)
    by (auto simp: m_def power_add mult.assoc)
  have r: "f32_round s p q = f32_pack s (k * 2 ^ 23 + m)"
    by (simp add: f32_round_def k(1) m_def)
  note pk = f32_pack_magnitude [OF m k(2), of s]
  show "f32_finite (f32_round s p q)" "f32_negative (f32_round s p q) = s"
    using pk by (simp_all only: r)
  have mag: "f32_magnitude (f32_round s p q) = m * 2 ^ k" using pk(2) by (simp only: r)
  have err: "2 * \<bar>int (m * 2 ^ k * q) - int p\<bar> \<le> int (q * 2 ^ k)"
    using div_half_even_error [OF q', of p] by (simp add: m_def mult_ac)
  show "2 * \<bar>int (f32_magnitude (f32_round s p q) * q) - int p\<bar> \<le> int q \<or>
      2 ^ 24 * \<bar>int (f32_magnitude (f32_round s p q) * q) - int p\<bar> \<le> int p"
  proof (cases "k = 0")
    case True
    with err show ?thesis by (simp add: mag)
  next
    case False
    with k(4) have "int (q * 2 ^ k) * 2 ^ 23 \<le> int p"
      by (simp add: power_add mult_ac flip: of_nat_le_iff [where 'a = int])
    with err show ?thesis unfolding mag by (intro disjI2) simp
  qed
  show "f32_magnitude (f32_round s p q) = 0" if "p = 0"
    using that q unfolding mag m_def by (simp add: div_half_even_def)
qed

text \<open>
  The absolute value of a finite number as a real, and the relative error of one
  operation in the range of the normal numbers.
\<close>

definition f32_abs :: "f32 \<Rightarrow> real" where
  "f32_abs b = real (f32_magnitude b) / 2 ^ 149"

definition close :: "real \<Rightarrow> real \<Rightarrow> bool" where
  "close x y \<longleftrightarrow> \<bar>y - x\<bar> \<le> x / 2 ^ 24"

lemma f32_round_close:
  assumes q: "0 < q" and x: "x = real p / (real q * 2 ^ 149)"
    and lo: "1 / 2 ^ 126 \<le> x" and hi: "x < 2 ^ 127"
  shows "f32_finite (f32_round s p q)" "f32_negative (f32_round s p q) = s"
    and "close x (f32_abs (f32_round s p q))"
proof -
  define m where "m = f32_magnitude (f32_round s p q)"
  have "real p = x * real q * 2 ^ 149" using q by (simp add: x)
  then have "real p < real (q * 2 ^ 276)" using hi q by simp
  then have p: "p < q * 2 ^ 276" by (simp only: of_nat_less_iff)
  note r = f32_round_error [OF q p, of s, folded m_def]
  show "f32_finite (f32_round s p q)" "f32_negative (f32_round s p q) = s" by (rule r)+
  have "real q * 2 ^ 23 \<le> real p"
    using lo q by (simp add: x field_simps)
  then have "q * 2 ^ 23 \<le> p"
    by (metis of_nat_le_iff of_nat_mult of_nat_numeral of_nat_power)
  with r(3) have "2 ^ 24 * \<bar>int (m * q) - int p\<bar> \<le> int p" by auto
  then have "real_of_int (2 ^ 24 * \<bar>int (m * q) - int p\<bar>) \<le> real_of_int (int p)"
    by (simp only: of_int_le_iff)
  then have e: "2 ^ 24 * \<bar>real m * real q - real p\<bar> \<le> real p" by simp
  define c where "c = real q * 2 ^ 149"
  have c: "0 < c" using q by (simp add: c_def)
  have "f32_abs (f32_round s p q) - x = (real m * real q - real p) / c"
    using q by (simp add: f32_abs_def x m_def [symmetric] c_def diff_divide_distrib)
  then have "\<bar>f32_abs (f32_round s p q) - x\<bar> = \<bar>real m * real q - real p\<bar> / c"
    using c by (simp add: abs_div)
  also have "\<dots> \<le> (real p / 2 ^ 24) / c"
    using e c by (intro divide_right_mono) auto
  finally show "close x (f32_abs (f32_round s p q))"
    by (simp add: close_def x c_def)
qed

section \<open>The error of the operations\<close>

lemma f32_finite_not_nan: "f32_finite b \<Longrightarrow> \<not> f32_nan b"
  by (simp add: f32_finite_def f32_nan_def)

lemma f32_of_int_close:
  assumes "v \<noteq> 0" "\<bar>v\<bar> \<le> 2 ^ 63"
  shows "f32_finite (f32_of_int v)" "f32_negative (f32_of_int v) = (v < 0)"
    and "close (real_of_int \<bar>v\<bar>) (f32_abs (f32_of_int v))"
proof -
  have x: "real_of_int \<bar>v\<bar> = real (nat \<bar>v\<bar> * 2 ^ 149) / (real 1 * 2 ^ 149)" by simp
  have "1 \<le> \<bar>v\<bar>" using assms by simp
  then have lo: "1 \<le> real_of_int \<bar>v\<bar>" by (simp only: of_int_1_le_iff)
  have hi: "real_of_int \<bar>v\<bar> \<le> real_of_int (2 ^ 63)" using assms(2) by (simp only: of_int_le_iff)
  have "1 / 2 ^ 126 \<le> real_of_int \<bar>v\<bar>" by (rule order_trans [OF _ lo]) simp
  moreover have "real_of_int \<bar>v\<bar> < 2 ^ 127" by (rule le_less_trans [OF hi]) simp
  ultimately show "f32_finite (f32_of_int v)" "f32_negative (f32_of_int v) = (v < 0)"
    "close (real_of_int \<bar>v\<bar>) (f32_abs (f32_of_int v))"
    unfolding f32_of_int_def by (intro f32_round_close [OF _ x]; simp)+
qed

lemma f32_mul_close:
  assumes "f32_finite x" "f32_finite y"
    and "1 / 2 ^ 126 \<le> f32_abs x * f32_abs y" "f32_abs x * f32_abs y < 2 ^ 127"
  shows "f32_finite (f32_mul x y)" "f32_negative (f32_mul x y) = (f32_negative x \<noteq> f32_negative y)"
    and "close (f32_abs x * f32_abs y) (f32_abs (f32_mul x y))"
proof -
  have mul: "f32_mul x y =
      f32_round (f32_negative x \<noteq> f32_negative y) (f32_magnitude x * f32_magnitude y) (2 ^ 149)"
    using assms by (simp add: f32_mul_def f32_finite_not_nan Let_def)
  have v: "f32_abs x * f32_abs y =
      real (f32_magnitude x * f32_magnitude y) / (real (2 ^ 149) * 2 ^ 149)"
    by (simp add: f32_abs_def)
  show "f32_finite (f32_mul x y)" "f32_negative (f32_mul x y) = (f32_negative x \<noteq> f32_negative y)"
    "close (f32_abs x * f32_abs y) (f32_abs (f32_mul x y))"
    unfolding mul by (rule f32_round_close [OF _ v assms(3,4)]; simp)+
qed

lemma f32_div_close:
  assumes "f32_finite x" "f32_finite y" "0 < f32_abs y"
    and "1 / 2 ^ 126 \<le> f32_abs x / f32_abs y" "f32_abs x / f32_abs y < 2 ^ 127"
  shows "f32_finite (f32_div x y)" "f32_negative (f32_div x y) = (f32_negative x \<noteq> f32_negative y)"
    and "close (f32_abs x / f32_abs y) (f32_abs (f32_div x y))"
proof -
  have y: "0 < f32_magnitude y" using assms(3) by (simp add: f32_abs_def zero_less_divide_iff)
  have quot: "f32_div x y =
      f32_round (f32_negative x \<noteq> f32_negative y) (f32_magnitude x * 2 ^ 149) (f32_magnitude y)"
    using assms y by (simp add: f32_div_def f32_finite_not_nan Let_def)
  have v: "f32_abs x / f32_abs y =
      real (f32_magnitude x * 2 ^ 149) / (real (f32_magnitude y) * 2 ^ 149)"
    by (simp add: f32_abs_def)
  show "f32_finite (f32_div x y)" "f32_negative (f32_div x y) = (f32_negative x \<noteq> f32_negative y)"
    "close (f32_abs x / f32_abs y) (f32_abs (f32_div x y))"
    unfolding quot by (rule f32_round_close [OF y v assms(4,5)])+
qed

lemma f32_round_int64_near:
  assumes "f32_finite b" "\<bar>f32_abs b - real n\<bar> < 1 / 2" "n < 2 ^ 63"
  shows "f32_round_int64 b = Some (if f32_negative b then - int n else int n)"
proof -
  define m where "m = f32_magnitude b"
  have "\<bar>real m - real n * 2 ^ 149\<bar> < 2 ^ 148"
    using assms(2) by (simp add: f32_abs_def m_def [symmetric] abs_less_iff field_simps)
  then have "real (n * 2 ^ 149) < real (m + 2 ^ 148)" "real (m + 2 ^ 148) < real ((n + 1) * 2 ^ 149)"
    by (simp_all add: abs_less_iff algebra_simps)
  then have "n * 2 ^ 149 < m + 2 ^ 148" "m + 2 ^ 148 < (n + 1) * 2 ^ 149"
    by (simp_all only: of_nat_less_iff)
  then have "(m + 2 ^ 148) div 2 ^ 149 = n" by (intro div_nat_eqI) (simp_all add: algebra_simps)
  then show ?thesis
    using assms(1,3) by (simp add: f32_round_int64_def int64_range_def Let_def m_def)
qed

lemma f32_of_int_exact:
  assumes v: "nat \<bar>v\<bar> * 2 ^ 149 = m * 2 ^ k" and m: "2 ^ 23 \<le> m" "m < 2 ^ 24" and k: "k < 254"
  shows "f32_of_int v = f32_pack (v < 0) (k * 2 ^ 23 + m)"
proof -
  have "m * 2 ^ k < 2 ^ (k + 24)" using m(2) by (simp add: power_add)
  moreover have "\<not> m * 2 ^ k < 2 ^ (j + 24)" if "j < k" for j
  proof -
    have "(2 :: nat) ^ (j + 24) \<le> 2 ^ (k + 23)" using that by (intro power_increasing) auto
    also have "\<dots> \<le> m * 2 ^ k" using m(1) by (simp add: power_add)
    finally show ?thesis by simp
  qed
  ultimately have "f32_scale (m * 2 ^ k) 1 = Some k"
    using k unfolding f32_scale_def find_Some_iff by (intro exI [of _ k]) auto
  then show ?thesis unfolding f32_of_int_def v f32_round_def by (simp add: div_half_even_def)
qed

lemma f32_small_ints:
  "f32_of_int 1 = 0x3f800000" "f32_of_int 2 = 0x40000000" "f32_of_int 16 = 0x41800000"
  "f32_of_int 256 = 0x43800000" "f32_of_int 1000000 = 0x49742400"
  using f32_of_int_exact [of 1 "2 ^ 23" 126] f32_of_int_exact [of 2 "2 ^ 23" 127]
    f32_of_int_exact [of 16 "2 ^ 23" 130] f32_of_int_exact [of 256 "2 ^ 23" 134]
    f32_of_int_exact [of 1000000 16000000 145]
  by (simp_all add: f32_pack_def)

lemma f32_small_values:
  "f32_abs 0x3f800000 = 1" "f32_abs 0x40000000 = 2" "f32_abs 0x41800000 = 16"
  "f32_abs 0x43800000 = 256" "f32_abs 0x49742400 = 1000000"
  by (simp_all add: f32_abs_def f32_magnitude_def f32_exponent_def f32_fraction_def)

section \<open>Fixed-point values\<close>

lemma close_bounds: "close x y \<longleftrightarrow> x - x / 2 ^ 24 \<le> y \<and> y \<le> x + x / 2 ^ 24"
  unfolding close_def by linarith

lemma close_scaled:
  assumes "close x y" "0 \<le> d"
  shows "close (x * d) (y * d)"
proof -
  have "\<bar>y - x\<bar> * d \<le> x / 2 ^ 24 * d"
    using assms by (intro mult_right_mono) (auto simp: close_def)
  moreover have "\<bar>y * d - x * d\<bar> = \<bar>y - x\<bar> * d"
    using assms(2) by (simp add: abs_mult flip: left_diff_distrib)
  ultimately show ?thesis by (simp add: close_def)
qed

lemma close_chain:
  assumes "close a b" "close b c" "close c d" "close d e" "0 \<le> a"
  shows "\<bar>e - a\<bar> \<le> a / 2 ^ 21"
proof -
  have "e \<le> a + a / 2 ^ 21" "a - a / 2 ^ 21 \<le> e"
    using assms by (simp_all add: close_bounds)
  then show ?thesis by linarith
qed

text \<open>
  A fixed-point value \<open>v\<close> in units of a millionth, divided back to units of \<open>1 / den\<close> the
  way \<open>encode\<close> does it. The four roundings change it by less than a part in \<open>2^21\<close>, so
  that the nearest integer is the one the value was made from.
\<close>

definition single_unscale :: "int \<Rightarrow> int \<Rightarrow> f32" where
  "single_unscale v den =
     f32_div (f32_mul (f32_div (f32_of_int v) (f32_of_int 1000000)) (f32_of_int den)) (f32_of_int 1)"

lemma f32_const_finite:
  "f32_finite 0x3f800000" "f32_finite 0x40000000" "f32_finite 0x41800000" "f32_finite 0x43800000"
  "f32_finite 0x49742400"
  "\<not> f32_negative 0x3f800000" "\<not> f32_negative 0x40000000" "\<not> f32_negative 0x41800000"
  "\<not> f32_negative 0x43800000" "\<not> f32_negative 0x49742400"
  by (simp_all add: f32_finite_def f32_exponent_def f32_negative_def)

lemma single_unscale_error:
  assumes v: "1000 \<le> \<bar>v\<bar>" "\<bar>v\<bar> \<le> 2 ^ 40" and den: "den = 2 \<or> den = 16 \<or> den = 256"
  shows "f32_finite (single_unscale v den)" "f32_negative (single_unscale v den) = (v < 0)"
    and "\<bar>f32_abs (single_unscale v den) - real_of_int \<bar>v\<bar> * real_of_int den / 1000000\<bar>
      \<le> real_of_int \<bar>v\<bar> * real_of_int den / 1000000 / 2 ^ 21"
proof -
  define A where "A = real_of_int \<bar>v\<bar>"
  have A: "1000 \<le> A" "A \<le> 2 ^ 40"
    using of_int_le_iff [of 1000 "\<bar>v\<bar>", where 'a = real]
      of_int_le_iff [of "\<bar>v\<bar>" "2 ^ 40", where 'a = real] v
    by (simp_all add: A_def)
  define d where "d = real_of_int den"
  have d: "2 \<le> d" "d \<le> 256" and fd: "f32_abs (f32_of_int den) = d" "f32_finite (f32_of_int den)"
    "\<not> f32_negative (f32_of_int den)"
    using den by (auto simp: d_def f32_small_ints f32_small_values f32_const_finite)
  define x1 where "x1 = f32_of_int v"
  define x2 where "x2 = f32_div x1 (f32_of_int 1000000)"
  define x3 where "x3 = f32_mul x2 (f32_of_int den)"
  have x1: "f32_finite x1" "f32_negative x1 = (v < 0)" "close A (f32_abs x1)"
    using f32_of_int_close [of v] v by (simp_all add: x1_def A_def)
  have b1: "999 \<le> f32_abs x1" "f32_abs x1 \<le> 2 ^ 41"
    using x1(3) A by (simp_all add: close_bounds)
  have x2: "f32_finite x2" "f32_negative x2 = (v < 0)" "close (f32_abs x1 / 1000000) (f32_abs x2)"
    using f32_div_close [of x1 "f32_of_int 1000000"] x1 b1
    by (simp_all add: x2_def f32_small_ints f32_small_values f32_const_finite)
  have b2: "0.0009 \<le> f32_abs x2" "f32_abs x2 \<le> 2 ^ 22"
    using x2(3) b1 by (simp_all add: close_bounds)
  have "0.0018 \<le> f32_abs x2 * d" "f32_abs x2 * d \<le> 2 ^ 22 * 256"
    using mult_mono [of "0.0009" "f32_abs x2" 2 d] mult_mono [of "f32_abs x2" "2 ^ 22" d 256] b2 d
    by simp_all
  note b2d = this
  have x3: "f32_finite x3" "f32_negative x3 = (v < 0)" "close (f32_abs x2 * d) (f32_abs x3)"
    using f32_mul_close [of x2 "f32_of_int den"] x2 b2d fd by (simp_all add: x3_def)
  have b3: "0.001 \<le> f32_abs x3" "f32_abs x3 \<le> 2 ^ 31"
    using x3(3) b2d unfolding close_bounds by (simp_all add: mult.commute [of d])
  have su: "single_unscale v den = f32_div x3 (f32_of_int 1)"
    by (simp only: single_unscale_def x1_def x2_def x3_def)
  have x4: "f32_finite (single_unscale v den)" "f32_negative (single_unscale v den) = (v < 0)"
    "close (f32_abs x3) (f32_abs (single_unscale v den))"
    using f32_div_close [of x3 "f32_of_int 1"] x3 b3
    by (simp_all add: su f32_small_ints f32_small_values f32_const_finite)
  show "f32_finite (single_unscale v den)" "f32_negative (single_unscale v den) = (v < 0)"
    by (rule x4)+
  have "close (A * (d / 1000000)) (f32_abs x1 * (d / 1000000))"
    "close (f32_abs x1 / 1000000 * d) (f32_abs x2 * d)"
    by (rule close_scaled; use x1(3) x2(3) d in simp)+
  then show "\<bar>f32_abs (single_unscale v den) - real_of_int \<bar>v\<bar> * real_of_int den / 1000000\<bar>
      \<le> real_of_int \<bar>v\<bar> * real_of_int den / 1000000 / 2 ^ 21"
    unfolding A_def [symmetric] d_def [symmetric]
    using close_chain [of "A * d / 1000000" "f32_abs x1 * d / 1000000" "f32_abs x2 * d" "f32_abs x3"]
      x3(3) x4(3) A d by simp
qed

lemma f32_round_zero:
  assumes "0 < q"
  shows "f32_round s 0 q = f32_pack s 0"
proof -
  have "f32_scale 0 q = Some 0" using assms by (simp add: f32_scale_def upt_rec)
  then show ?thesis using assms by (simp add: f32_round_def div_half_even_def)
qed

lemma f32_zero:
  "f32_finite 0" "\<not> f32_negative 0" "f32_magnitude 0 = 0" "f32_of_int 0 = 0"
  by (simp_all add: f32_finite_def f32_exponent_def f32_negative_def f32_magnitude_def
      f32_fraction_def f32_of_int_def f32_round_zero f32_pack_def)

lemma f32_zero_operand:
  assumes "f32_finite y" "\<not> f32_negative y" "0 < f32_abs y"
  shows "f32_mul 0 y = 0" "f32_div 0 y = 0"
proof -
  have "0 < f32_magnitude y" using assms(3) by (simp add: f32_abs_def zero_less_divide_iff)
  then have "f32_round False 0 (f32_magnitude y) = 0" by (simp add: f32_round_zero f32_pack_def)
  moreover have "f32_round False 0 (2 ^ 149) = 0"
    using f32_round_zero [of "2 ^ 149" False] by (simp add: f32_pack_def)
  ultimately show "f32_mul 0 y = 0" "f32_div 0 y = 0"
    using assms \<open>0 < f32_magnitude y\<close> unfolding f32_mul_def f32_div_def Let_def
    by (simp_all only: f32_zero f32_finite_not_nan not_False_eq_True if_False if_True mult_zero_left
        disj_not1 simp_thms neq0_conv [symmetric])
qed

lemma single_unscale_zero:
  assumes "den = 2 \<or> den = 16 \<or> den = 256"
  shows "single_unscale 0 den = 0"
  using assms
  by (auto simp: single_unscale_def f32_zero f32_zero_operand f32_const_finite f32_small_ints
      f32_small_values)

lemma single_unscale_nonzero:
  assumes raw: "raw \<noteq> 0" "\<bar>raw\<bar> \<le> 32768" and den: "den = 2 \<or> den = 16 \<or> den = 256"
  shows "f32_round_int64 (single_unscale ((raw * 1000000) sdiv den) den) = Some raw"
proof -
  define v where "v = (raw * 1000000) sdiv den"
  have v_eq: "v = sgn raw * ((\<bar>raw\<bar> * 1000000) div den)"
    using den by (auto simp: v_def signed_divide_int_def abs_mult sgn_mult)
  then have abs_v: "\<bar>v\<bar> = (\<bar>raw\<bar> * 1000000) div den"
    using den raw by (auto simp: abs_mult abs_sgn_eq)
  have lo: "\<bar>raw\<bar> * 1000000 - den < \<bar>v\<bar> * den" and hi: "\<bar>v\<bar> * den \<le> \<bar>raw\<bar> * 1000000"
    using den unfolding abs_v by auto
  have v: "1000 \<le> \<bar>v\<bar>" "\<bar>v\<bar> \<le> 2 ^ 40" using lo hi den raw by auto
  have sgn_v: "(v < 0) = (raw < 0)"
    using v(1) raw(1) unfolding abs_v by (auto simp: v_eq sgn_if split: if_splits)
  note e = single_unscale_error [OF v den]
  define x where "x = real_of_int \<bar>v\<bar> * real_of_int den / 1000000"
  have "real_of_int (\<bar>v\<bar> * den) \<le> real_of_int (\<bar>raw\<bar> * 1000000)"
    "real_of_int (\<bar>raw\<bar> * 1000000 - den) < real_of_int (\<bar>v\<bar> * den)"
    using lo hi by (simp_all only: of_int_le_iff of_int_less_iff)
  then have "x \<le> real_of_int \<bar>raw\<bar>" "real_of_int \<bar>raw\<bar> - 256 / 1000000 \<le> x"
    using den by (auto simp: x_def)
  moreover have "real_of_int \<bar>raw\<bar> \<le> real_of_int 32768" using raw(2) by (simp only: of_int_le_iff)
  ultimately have "\<bar>f32_abs (single_unscale v den) - real (nat \<bar>raw\<bar>)\<bar> < 1 / 2"
    using e(3) [folded x_def] by (simp add: abs_if split: if_splits)
  then have "f32_round_int64 (single_unscale v den) =
      Some (if v < 0 then - int (nat \<bar>raw\<bar>) else int (nat \<bar>raw\<bar>))"
    using f32_round_int64_near [OF e(1), of "nat \<bar>raw\<bar>"] raw e(2) by simp
  with sgn_v show ?thesis by (simp add: v_def)
qed

lemma single_unscale_exact:
  assumes "\<bar>raw\<bar> \<le> 32768" "den = 2 \<or> den = 16 \<or> den = 256"
  shows "f32_round_int64 (single_unscale ((raw * 1000000) sdiv den) den) = Some raw"
proof (cases "raw = 0")
  case True
  moreover have "f32_round_int64 0 = Some 0"
    by (simp add: f32_round_int64_def f32_finite_def f32_exponent_def f32_magnitude_def
        f32_fraction_def int64_range_def)
  ultimately show ?thesis using assms(2) by (auto simp: single_unscale_zero)
qed (rule single_unscale_nonzero [OF _ assms])

end
