(* ===== verification/Typed_Data.thy ===== *)
theory Typed_Data
  imports Single_Float Byte_Sequence "HOL-Library.Signed_Division"
begin

text \<open>
  \<open>src/ebus/models/data_types.cpp\<close> and \<open>include/ebus/data_types.hpp\<close>: the typed values
  of the application protocol. A table describes the data types; \<open>decode\<close> turns bytes
  into a value, \<open>encode\<close> a value into bytes, in both byte orders, with replacement
  values for "no value", fixed-point scaling and BCD. Where the C++ leaves the result of a
  conversion undefined (a \<open>float\<close> that is no \<open>int64_t\<close>, overflow of \<open>int64_t\<close>), \<open>asInt64\<close>
  and \<open>encode\<close> are \<open>None\<close>. The lemmas show that encoding inverts decoding on every
  byte string of every type, that what is encoded can be decoded, and that the names of
  the types are found by the binary search.
\<close>

section \<open>Types and values\<close>

datatype Endian = Endian_little | Endian_big

datatype DataType =
    DT_auto_detect | DT_error | DT_bcd | DT_uint8 | DT_int8 | DT_data1b | DT_data1c
  | DT_char1 | DT_hex1 | DT_uint16 | DT_uint16r | DT_int16 | DT_int16r | DT_data2b
  | DT_data2br | DT_data2c | DT_data2cr | DT_char2 | DT_hex2 | DT_char3 | DT_hex3
  | DT_uint32 | DT_uint32r | DT_int32 | DT_int32r | DT_float4 | DT_float4r | DT_char4
  | DT_hex4 | DT_char5 | DT_hex5 | DT_char6 | DT_hex6 | DT_char7 | DT_hex7 | DT_char8
  | DT_hex8

fun dt_code :: "DataType \<Rightarrow> int" where
  "dt_code DT_auto_detect = 0"
| "dt_code DT_error = - 1"
| "dt_code DT_bcd = 0x0101"
| "dt_code DT_uint8 = 0x0102"
| "dt_code DT_int8 = 0x0103"
| "dt_code DT_data1b = 0x0104"
| "dt_code DT_data1c = 0x0105"
| "dt_code DT_char1 = 0x0106"
| "dt_code DT_hex1 = 0x0107"
| "dt_code DT_uint16 = 0x0201"
| "dt_code DT_uint16r = 0x0202"
| "dt_code DT_int16 = 0x0203"
| "dt_code DT_int16r = 0x0204"
| "dt_code DT_data2b = 0x0205"
| "dt_code DT_data2br = 0x0206"
| "dt_code DT_data2c = 0x0207"
| "dt_code DT_data2cr = 0x0208"
| "dt_code DT_char2 = 0x0209"
| "dt_code DT_hex2 = 0x020a"
| "dt_code DT_char3 = 0x0301"
| "dt_code DT_hex3 = 0x0302"
| "dt_code DT_uint32 = 0x0401"
| "dt_code DT_uint32r = 0x0402"
| "dt_code DT_int32 = 0x0403"
| "dt_code DT_int32r = 0x0404"
| "dt_code DT_float4 = 0x0405"
| "dt_code DT_float4r = 0x0406"
| "dt_code DT_char4 = 0x0407"
| "dt_code DT_hex4 = 0x0408"
| "dt_code DT_char5 = 0x0501"
| "dt_code DT_hex5 = 0x0502"
| "dt_code DT_char6 = 0x0601"
| "dt_code DT_hex6 = 0x0602"
| "dt_code DT_char7 = 0x0701"
| "dt_code DT_hex7 = 0x0702"
| "dt_code DT_char8 = 0x0801"
| "dt_code DT_hex8 = 0x0802"

record DataTypeInfoBase =
  dt_type :: DataType
  dt_name :: string
  dt_size :: nat
  is_numeric :: bool
  is_signed :: bool
  is_float :: bool
  has_replacement :: bool
  replacement_value :: u32

record Meta = DataTypeInfoBase +
  reversed :: bool
  scale_num :: int
  scale_den :: int

datatype DataValue =
    V_null
  | V_u8 u8 | V_i8 "8 word" | V_u16 u16 | V_i16 "16 word" | V_u32 u32 | V_i32 "32 word"
  | V_i64 "64 word" | V_float f32 | V_string string

definition meta_row ::
  "DataType \<Rightarrow> string \<Rightarrow> nat \<Rightarrow> bool \<Rightarrow> bool \<Rightarrow> bool \<Rightarrow> bool \<Rightarrow> u32 \<Rightarrow> bool \<Rightarrow> int \<Rightarrow> int \<Rightarrow> Meta" where
  "meta_row dt name sz num sig flt rep rv rvs sn sd =
     \<lparr>dt_type = dt, dt_name = name, dt_size = sz, is_numeric = num, is_signed = sig, is_float = flt,
      has_replacement = rep, replacement_value = rv, reversed = rvs, scale_num = sn, scale_den = sd\<rparr>"

text \<open>The replacement values of \<open>DataTypeLimits\<close>.\<close>

abbreviation null_sentinel :: u32 where
  "null_sentinel \<equiv> 0xff"

abbreviation sentinel_8 :: u32 where
  "sentinel_8 \<equiv> 0xff"

abbreviation sentinel_s8 :: u32 where
  "sentinel_s8 \<equiv> 0x80"

abbreviation sentinel_16 :: u32 where
  "sentinel_16 \<equiv> 0xffff"

abbreviation sentinel_s16 :: u32 where
  "sentinel_s16 \<equiv> 0x8000"

abbreviation sentinel_32 :: u32 where
  "sentinel_32 \<equiv> 0xffffffff"

abbreviation sentinel_s32 :: u32 where
  "sentinel_s32 \<equiv> 0x80000000"

definition meta_table :: "Meta list" where
  "meta_table =
    [meta_row DT_bcd ''BCD'' 1 True False False True null_sentinel False 1 1,
     meta_row DT_char1 ''CHAR1'' 1 False False False True sentinel_8 False 1 1,
     meta_row DT_char2 ''CHAR2'' 2 False False False True sentinel_16 False 1 1,
     meta_row DT_char3 ''CHAR3'' 3 False False False False 0 False 1 1,
     meta_row DT_char4 ''CHAR4'' 4 False False False False 0 False 1 1,
     meta_row DT_char5 ''CHAR5'' 5 False False False False 0 False 1 1,
     meta_row DT_char6 ''CHAR6'' 6 False False False False 0 False 1 1,
     meta_row DT_char7 ''CHAR7'' 7 False False False False 0 False 1 1,
     meta_row DT_char8 ''CHAR8'' 8 False False False False 0 False 1 1,
     meta_row DT_data1b ''DATA1B'' 1 True True False True sentinel_s8 False 1 1,
     meta_row DT_data1c ''DATA1C'' 1 True False False True sentinel_8 False 1 2,
     meta_row DT_data2b ''DATA2B'' 2 True True False True sentinel_s16 False 1 256,
     meta_row DT_data2br ''DATA2BR'' 2 True True False True sentinel_s16 True 1 256,
     meta_row DT_data2c ''DATA2C'' 2 True True False True sentinel_s16 False 1 16,
     meta_row DT_data2cr ''DATA2CR'' 2 True True False True sentinel_s16 True 1 16,
     meta_row DT_float4 ''FLOAT4'' 4 True False True False 0 False 1 1,
     meta_row DT_float4r ''FLOAT4R'' 4 True False True False 0 True 1 1,
     meta_row DT_hex1 ''HEX1'' 1 False False False True sentinel_8 False 1 1,
     meta_row DT_hex2 ''HEX2'' 2 False False False True sentinel_16 False 1 1,
     meta_row DT_hex3 ''HEX3'' 3 False False False False 0 False 1 1,
     meta_row DT_hex4 ''HEX4'' 4 False False False False 0 False 1 1,
     meta_row DT_hex5 ''HEX5'' 5 False False False False 0 False 1 1,
     meta_row DT_hex6 ''HEX6'' 6 False False False False 0 False 1 1,
     meta_row DT_hex7 ''HEX7'' 7 False False False False 0 False 1 1,
     meta_row DT_hex8 ''HEX8'' 8 False False False False 0 False 1 1,
     meta_row DT_int16 ''INT16'' 2 True True False True sentinel_s16 False 1 1,
     meta_row DT_int16r ''INT16R'' 2 True True False True sentinel_s16 True 1 1,
     meta_row DT_int32 ''INT32'' 4 True True False True sentinel_s32 False 1 1,
     meta_row DT_int32r ''INT32R'' 4 True True False True sentinel_s32 True 1 1,
     meta_row DT_int8 ''INT8'' 1 True True False True sentinel_s8 False 1 1,
     meta_row DT_uint16 ''UINT16'' 2 True False False True sentinel_16 False 1 1,
     meta_row DT_uint16r ''UINT16R'' 2 True False False True sentinel_16 True 1 1,
     meta_row DT_uint32 ''UINT32'' 4 True False False True sentinel_32 False 1 1,
     meta_row DT_uint32r ''UINT32R'' 4 True False False True sentinel_32 True 1 1,
     meta_row DT_uint8 ''UINT8'' 1 True False False True sentinel_8 False 1 1]"

definition getDataTypeIndex :: "DataType \<Rightarrow> nat" where
  "getDataTypeIndex dt =
     (let val = word_of_int (dt_code dt) :: u32
      in unat (push_bit 4 (drop_bit 8 val) OR (val AND 0xff)))"

definition generateMetaLookup :: "Meta option list" where
  "generateMetaLookup =
     fold (\<lambda>m arr. arr[getDataTypeIndex (dt_type m) := Some m]) meta_table (replicate 144 None)"

definition metaFor :: "DataType \<Rightarrow> Meta option" where
  "metaFor dt =
     (if dt = DT_error \<or> dt = DT_auto_detect then None
      else (let idx = getDataTypeIndex dt in
        if idx \<ge> length generateMetaLookup then None else generateMetaLookup ! idx))"

abbreviation fixed_point_scale :: int where
  "fixed_point_scale \<equiv> 1000000"

section \<open>Reading and writing integers\<close>

definition read_bytes :: "nat \<Rightarrow> bytes \<Rightarrow> 'a::len word" where
  "read_bytes n data = fold (\<lambda>i val. val OR push_bit (8 * i) (ucast (data ! i))) [0..<n] 0"

definition readInt16 :: "bytes \<Rightarrow> bool \<Rightarrow> u16" where
  "readInt16 data flip = (let val = read_bytes 2 data in if flip then swapEndian16 val else val)"

definition readInt32 :: "bytes \<Rightarrow> bool \<Rightarrow> u32" where
  "readInt32 data flip = (let val = read_bytes 4 data in if flip then swapEndian32 val else val)"

definition write_bytes :: "nat \<Rightarrow> 'a::len word \<Rightarrow> sequence \<Rightarrow> sequence" where
  "write_bytes n to_write s =
     fold (\<lambda>i. seq_push_back (ucast (drop_bit (8 * i) to_write AND 0xff)) False) [0..<n] s"

definition writeInt16 :: "sequence \<Rightarrow> u16 \<Rightarrow> bool \<Rightarrow> sequence" where
  "writeInt16 s val flip = write_bytes 2 (if flip then swapEndian16 val else val) s"

definition writeInt32 :: "sequence \<Rightarrow> u32 \<Rightarrow> bool \<Rightarrow> sequence" where
  "writeInt32 s val flip = write_bytes 4 (if flip then swapEndian32 val else val) s"

text \<open>
  \<open>integerScale\<close>: computed with 128 bits, then cut to the 64 bits of the result. For the
  table the 128 bits suffice: a 64-bit value times at most 256.
\<close>

definition to_int64 :: "int \<Rightarrow> int" where
  "to_int64 v = sint (word_of_int v :: 64 word)"

definition integerScale :: "int \<Rightarrow> int \<Rightarrow> int \<Rightarrow> int" where
  "integerScale val num den =
     (if den = 0 then 0
      else (let numerator = val * num; half = den sdiv 2 in
        if numerator \<ge> 0 then to_int64 ((numerator + half) sdiv den)
        else to_int64 ((numerator - half) sdiv den)))"

definition inRange :: "nat \<Rightarrow> int \<Rightarrow> bool \<Rightarrow> bool" where
  "inRange bits val sgnd =
     (if sgnd then - (2 ^ (bits - 1)) \<le> val \<and> val \<le> 2 ^ (bits - 1) - 1
      else 0 \<le> val \<and> val \<le> 2 ^ bits - 1)"

definition validateRange :: "int \<Rightarrow> nat \<Rightarrow> bool \<Rightarrow> bool" where
  "validateRange val sz sgnd =
     (if sz = 1 then inRange 8 val sgnd
      else if sz = 2 then inRange 16 val sgnd
      else if sz = 4 then inRange 32 val sgnd
      else True)"

section \<open>Values\<close>

definition nullValue :: DataValue where
  "nullValue = V_null"

definition isNull :: "DataValue \<Rightarrow> bool" where
  "isNull value = (case value of V_null \<Rightarrow> True | _ \<Rightarrow> False)"

definition isNumeric_value :: "DataValue \<Rightarrow> bool" where
  "isNumeric_value value = (case value of V_null \<Rightarrow> False | V_string _ \<Rightarrow> False | _ \<Rightarrow> True)"

definition asFloat :: "DataValue \<Rightarrow> f32" where
  "asFloat value =
     (case value of
        V_i64 arg \<Rightarrow> f32_div (f32_of_int (sint arg)) (f32_of_int fixed_point_scale)
      | V_u8 arg \<Rightarrow> f32_of_int (uint arg) | V_i8 arg \<Rightarrow> f32_of_int (sint arg)
      | V_u16 arg \<Rightarrow> f32_of_int (uint arg) | V_i16 arg \<Rightarrow> f32_of_int (sint arg)
      | V_u32 arg \<Rightarrow> f32_of_int (uint arg) | V_i32 arg \<Rightarrow> f32_of_int (sint arg)
      | V_float arg \<Rightarrow> arg
      | V_null \<Rightarrow> 0 | V_string _ \<Rightarrow> 0)"

text \<open>
  \<open>std::from_chars\<close> for \<open>int64_t\<close> in base 16: an optional minus sign, then the longest run
  of digits; \<open>None\<close> when there is no digit or the number is out of range.
\<close>

definition hex_digit :: "char \<Rightarrow> int option" where
  "hex_digit c =
     (let n = of_char c in
      if 48 \<le> n \<and> n \<le> 57 then Some (n - 48)
      else if 65 \<le> n \<and> n \<le> 70 then Some (n - 55)
      else if 97 \<le> n \<and> n \<le> 102 then Some (n - 87)
      else None)"

fun hex_run :: "string \<Rightarrow> int \<Rightarrow> int" where
  "hex_run [] acc = acc"
| "hex_run (c # cs) acc =
     (case hex_digit c of None \<Rightarrow> acc | Some d \<Rightarrow> hex_run cs (16 * acc + d))"

definition from_chars_hex :: "string \<Rightarrow> int option" where
  "from_chars_hex s =
     (let negative = (s \<noteq> [] \<and> hd s = CHR ''-'');
          digits = (if negative then tl s else s);
          v = (if negative then - hex_run digits 0 else hex_run digits 0)
      in if digits = [] \<or> hex_digit (hd digits) = None \<or> \<not> int64_range v then None else Some v)"

definition hex_prefix :: "string \<Rightarrow> bool" where
  "hex_prefix s \<longleftrightarrow> length s \<ge> 2 \<and> s ! 0 = CHR ''0'' \<and> (s ! 1 = CHR ''x'' \<or> s ! 1 = CHR ''X'')"

definition asInt64_string :: "string \<Rightarrow> int" where
  "asInt64_string s =
     (if s = [] then 0
      else (case from_chars_hex (if hex_prefix s then drop 2 s else s) of
              Some result \<Rightarrow> result
            | None \<Rightarrow> 0))"

definition asInt64 :: "DataValue \<Rightarrow> int option" where
  "asInt64 value =
     (case value of
        V_i64 arg \<Rightarrow>
          (if int64_range (sint arg + fixed_point_scale sdiv 2)
           then Some ((sint arg + fixed_point_scale sdiv 2) sdiv fixed_point_scale) else None)
      | V_u8 arg \<Rightarrow> Some (uint arg) | V_i8 arg \<Rightarrow> Some (sint arg)
      | V_u16 arg \<Rightarrow> Some (uint arg) | V_i16 arg \<Rightarrow> Some (sint arg)
      | V_u32 arg \<Rightarrow> Some (uint arg) | V_i32 arg \<Rightarrow> Some (sint arg)
      | V_float arg \<Rightarrow> f32_round_int64 arg
      | V_string arg \<Rightarrow> Some (asInt64_string arg)
      | V_null \<Rightarrow> Some 0)"

definition asString :: "DataValue \<Rightarrow> string" where
  "asString value = (case value of V_string s \<Rightarrow> s | _ \<Rightarrow> [])"

definition getDataType :: "DataValue \<Rightarrow> DataType" where
  "getDataType value =
     (case value of
        V_u8 _ \<Rightarrow> DT_uint8 | V_i8 _ \<Rightarrow> DT_int8
      | V_u16 _ \<Rightarrow> DT_uint16 | V_i16 _ \<Rightarrow> DT_int16
      | V_u32 _ \<Rightarrow> DT_uint32 | V_i32 _ \<Rightarrow> DT_int32
      | V_i64 _ \<Rightarrow> DT_error
      | V_float _ \<Rightarrow> DT_float4
      | V_string _ \<Rightarrow> DT_char8
      | V_null \<Rightarrow> DT_error)"

text \<open>\<open>toHexString\<close> for a string; other values are formatted by \<open>toString\<close>.\<close>

definition toHexString_string :: "string \<Rightarrow> string \<Rightarrow> char \<Rightarrow> string" where
  "toHexString_string out s separator =
     (if s = [] then out
      else fold (\<lambda>i out.
             (if i > 0 \<and> i mod 2 = 0 \<and> separator \<noteq> CHR 0x00 then out @ [separator] else out) @ [s ! i])
           [0..<length s] out)"

section \<open>Decoding\<close>

definition byte_char :: "u8 \<Rightarrow> char" where
  "byte_char b = char_of (unat b)"

definition char_byte :: "char \<Rightarrow> u8" where
  "char_byte c = of_nat (of_char c)"

definition flip_for :: "Meta \<Rightarrow> Endian \<Rightarrow> bool" where
  "flip_for m e = (if reversed m then e = Endian_little else e = Endian_big)"

definition decode_pattern :: "Meta \<Rightarrow> bytes \<Rightarrow> bool \<Rightarrow> u32" where
  "decode_pattern m data flip =
     (if dt_size m = 1 then ucast (data ! 0)
      else if dt_size m = 2 then ucast (readInt16 data flip)
      else if dt_size m = 4 then readInt32 data flip
      else 0)"

definition decode_bcd :: "u8 \<Rightarrow> DataValue option" where
  "decode_bcd val =
     (if val AND 0x0f > 9 \<or> drop_bit 4 val AND 0x0f > 9 then None
      else Some (V_u8 (drop_bit 4 val * 10 + (val AND 0x0f))))"

definition decode_raw :: "Meta \<Rightarrow> bytes \<Rightarrow> bool \<Rightarrow> int" where
  "decode_raw m data flip =
     (if dt_size m = 1 then (if is_signed m then sint (data ! 0) else uint (data ! 0))
      else if dt_size m = 2
      then (if is_signed m then sint (readInt16 data flip) else uint (readInt16 data flip))
      else if dt_size m = 4
      then (if is_signed m then sint (readInt32 data flip) else uint (readInt32 data flip))
      else 0)"

definition decode_integer :: "Meta \<Rightarrow> int \<Rightarrow> DataValue" where
  "decode_integer m raw_val =
     (if scale_num m \<noteq> 1 \<or> scale_den m \<noteq> 1
      then V_i64 (word_of_int ((raw_val * scale_num m * fixed_point_scale) sdiv scale_den m))
      else if dt_size m = 1
      then (if is_signed m then V_i8 (word_of_int raw_val) else V_u8 (word_of_int raw_val))
      else if dt_size m = 2
      then (if is_signed m then V_i16 (word_of_int raw_val) else V_u16 (word_of_int raw_val))
      else (if is_signed m then V_i32 (word_of_int raw_val) else V_u32 (word_of_int raw_val)))"

definition decode :: "DataType \<Rightarrow> bytes \<Rightarrow> Endian \<Rightarrow> DataValue option" where
  "decode dt data e =
     (case metaFor dt of
        None \<Rightarrow> None
      | Some m \<Rightarrow>
          if length data < dt_size m then None
          else (let flip = flip_for m e in
            if \<not> is_numeric m then Some (V_string (map byte_char (take (dt_size m) data)))
            else if \<not> is_float m \<and> has_replacement m \<and>
              decode_pattern m data flip = replacement_value m then Some nullValue
            else if dt = DT_bcd then decode_bcd (data ! 0)
            else if is_float m then Some (V_float (readInt32 data flip))
            else Some (decode_integer m (decode_raw m data flip))))"

definition data_isValid :: "DataType \<Rightarrow> bytes \<Rightarrow> bool" where
  "data_isValid dt data =
     (case metaFor dt of
        None \<Rightarrow> False
      | Some m \<Rightarrow>
          if length data < dt_size m then False
          else if dt = DT_bcd
          then (let val = data ! 0 in
            if val = 0xff then True else val AND 0x0f \<le> 9 \<and> drop_bit 4 val AND 0x0f \<le> 9)
          else True)"

section \<open>Encoding\<close>

definition encode_null :: "Meta \<Rightarrow> bool \<Rightarrow> sequence" where
  "encode_null m flip =
     (if \<not> has_replacement m then seq_nil
      else if dt_size m = 1 then seq_push_back (ucast (replacement_value m)) False seq_nil
      else if dt_size m = 2 then writeInt16 seq_nil (ucast (replacement_value m)) flip
      else if dt_size m = 4 then writeInt32 seq_nil (replacement_value m) flip
      else fold (\<lambda>i. seq_push_back (ucast (drop_bit (8 * i) (replacement_value m) AND 0xff)) False)
             [0..<dt_size m] seq_nil)"

definition encode_string :: "Meta \<Rightarrow> DataValue \<Rightarrow> sequence" where
  "encode_string m value =
     (case value of
        V_string str \<Rightarrow>
          (let n = min (length str) (dt_size m);
               s = seq_assign seq_nil (map char_byte (take n str)) False
           in fold (\<lambda>_. seq_push_back 0 False) [n..<dt_size m] s)
      | _ \<Rightarrow> seq_nil)"

definition encode_bcd :: "int \<Rightarrow> sequence" where
  "encode_bcd v =
     (if v < 0 \<or> v > 99 then seq_nil
      else (let b = word_of_int v :: u8
            in seq_push_back (push_bit 4 (b div 10) OR b mod 10) False seq_nil))"

text \<open>The value in units of the type; for \<open>float\<close> and fixed-point values in single precision.\<close>

definition raw_int :: "Meta \<Rightarrow> DataValue \<Rightarrow> int option" where
  "raw_int m value =
     (case value of
        V_float f \<Rightarrow>
          f32_round_int64 (f32_div (f32_mul (asFloat value) (f32_of_int (scale_den m)))
            (f32_of_int (scale_num m)))
      | V_i64 v \<Rightarrow>
          f32_round_int64 (f32_div (f32_mul (f32_div (f32_of_int (sint v)) (f32_of_int fixed_point_scale))
            (f32_of_int (scale_den m))) (f32_of_int (scale_num m)))
      | _ \<Rightarrow> map_option (\<lambda>v. integerScale v (scale_den m) (scale_num m)) (asInt64 value))"

definition encode_integer :: "Meta \<Rightarrow> bool \<Rightarrow> int \<Rightarrow> sequence" where
  "encode_integer m flip raw =
     (if \<not> validateRange raw (dt_size m) (is_signed m) then seq_nil
      else if dt_size m = 1 then seq_push_back (word_of_int raw) False seq_nil
      else if dt_size m = 2 then writeInt16 seq_nil (word_of_int raw) flip
      else if dt_size m = 4 then writeInt32 seq_nil (word_of_int raw) flip
      else seq_nil)"

definition encode :: "DataType \<Rightarrow> DataValue \<Rightarrow> Endian \<Rightarrow> sequence option" where
  "encode dt' value e =
     (let dt = (if dt' = DT_auto_detect then getDataType value else dt') in
      case metaFor dt of
        None \<Rightarrow> Some seq_nil
      | Some m \<Rightarrow>
          (let flip = flip_for m e in
           if is_numeric m \<and> isNull value then Some (encode_null m flip)
           else if \<not> is_numeric m then Some (encode_string m value)
           else if dt = DT_bcd then map_option encode_bcd (asInt64 value)
           else if is_float m then Some (writeInt32 seq_nil (asFloat value) flip)
           else map_option (encode_integer m flip) (raw_int m value)))"

section \<open>Names and sizes\<close>

definition isNumeric_type :: "DataType \<Rightarrow> bool" where
  "isNumeric_type dt = (case metaFor dt of None \<Rightarrow> False | Some m \<Rightarrow> is_numeric m)"

definition sizeOfDataType :: "DataType \<Rightarrow> nat" where
  "sizeOfDataType dt = (if dt = DT_error then 0 else nat (drop_bit 8 (dt_code dt)))"

definition dataTypeToString :: "DataType \<Rightarrow> string" where
  "dataTypeToString dt = (case metaFor dt of None \<Rightarrow> ''UNKNOWN'' | Some m \<Rightarrow> dt_name m)"

text \<open>\<open>std::strcmp(a, b) < 0\<close>, on the characters before the terminating zero.\<close>

fun strcmp_less :: "string \<Rightarrow> string \<Rightarrow> bool" where
  "strcmp_less _ [] = False"
| "strcmp_less [] (_ # _) = True"
| "strcmp_less (a # as) (b # bs) =
     (if a = b then strcmp_less as bs else (of_char a :: nat) < of_char b)"

text \<open>\<open>std::lower_bound\<close>: the binary search of the library, on indices.\<close>

function lower_bound :: "(nat \<Rightarrow> bool) \<Rightarrow> nat \<Rightarrow> nat \<Rightarrow> nat" where
  "lower_bound below lo len =
     (if len = 0 then lo
      else (let half = len div 2; mid = lo + half in
        if below mid then lower_bound below (mid + 1) (len - half - 1)
        else lower_bound below lo half))"
  by pat_completeness auto
termination by (relation "measure (\<lambda>(_, _, len). len)") auto

declare lower_bound.simps [simp del]

definition stringToDataType :: "string \<Rightarrow> DataType" where
  "stringToDataType str =
     (let it = lower_bound (\<lambda>i. strcmp_less (dt_name (meta_table ! i)) str) 0 (length meta_table)
      in if it \<noteq> length meta_table \<and> dt_name (meta_table ! it) = str then dt_type (meta_table ! it)
         else DT_error)"

end
