(* ===== verification/Typed_Codec.thy ===== *)
theory Typed_Codec
  imports Typed_Data
begin

text \<open>
  The correctness of \<open>Typed_Data\<close>: the lookup tables, the round trip through a value, the
  form of what is encoded, and the search by name.
\<close>

section \<open>The table of types\<close>

lemma fold_update_other:
  "k \<notin> f ` set ms \<Longrightarrow> fold (\<lambda>m arr. arr[f m := Some m]) ms arr ! k = arr ! k"
  by (induction ms arbitrary: arr) auto

lemma fold_update_length [simp]:
  "length (fold (\<lambda>m arr. arr[f m := Some m]) ms arr) = length arr"
  by (induction ms arbitrary: arr) auto

lemma fold_update_nth:
  assumes "distinct (map f ms)" "\<forall>m\<in>set ms. f m < length arr" "m \<in> set ms"
  shows "fold (\<lambda>m arr. arr[f m := Some m]) ms arr ! f m = Some m"
  using assms
proof (induction ms arbitrary: arr)
  case (Cons a ms)
  show ?case
  proof (cases "m = a")
    case True
    with Cons.prems show ?thesis by (simp add: fold_update_other)
  next
    case False
    with Cons.prems Cons.IH [of "arr[f a := Some a]"] show ?thesis by simp
  qed
qed simp

lemma table_indices:
  "map (\<lambda>m. getDataTypeIndex (dt_type m)) meta_table =
     [17, 22, 41, 49, 71, 81, 97, 113, 129, 20, 21, 37, 38, 39, 40, 69, 70, 23, 42, 50, 72, 82, 98,
      114, 130, 35, 36, 67, 68, 19, 33, 34, 65, 66, 18]"
  by (simp add: meta_table_def meta_row_def getDataTypeIndex_def)

lemma lookup_length: "length generateMetaLookup = 144"
  by (simp add: generateMetaLookup_def)

lemma metaFor_table:
  assumes "m \<in> set meta_table"
  shows "metaFor (dt_type m) = Some m"
proof -
  let ?idx = "\<lambda>m. getDataTypeIndex (dt_type m)"
  have lt: "\<forall>m\<in>set meta_table. ?idx m < 144"
  proof -
    have "\<forall>i\<in>set (map ?idx meta_table). i < 144" unfolding table_indices by simp
    then show ?thesis by simp
  qed
  have "generateMetaLookup ! ?idx m = Some m"
    unfolding generateMetaLookup_def
  proof (rule fold_update_nth)
    show "distinct (map ?idx meta_table)" unfolding table_indices by simp
  qed (use lt assms in simp_all)
  moreover have "dt_type m \<noteq> DT_error \<and> dt_type m \<noteq> DT_auto_detect"
    using assms by (auto simp: meta_table_def meta_row_def)
  ultimately show ?thesis
    using lt assms by (simp add: metaFor_def Let_def lookup_length not_le)
qed

text \<open>Every enumerator but the two special ones has its row.\<close>

lemma type_in_table:
  assumes "dt \<noteq> DT_error" "dt \<noteq> DT_auto_detect"
  obtains m where "m \<in> set meta_table" "dt_type m = dt"
proof -
  have "dt \<in> set (map dt_type meta_table)"
    using assms by (cases dt) (simp_all add: meta_table_def meta_row_def)
  then show thesis by (auto intro: that)
qed

lemma metaFor_cases:
  obtains "metaFor dt = None" "dt = DT_error \<or> dt = DT_auto_detect"
  | m where "metaFor dt = Some m" "m \<in> set meta_table" "dt_type m = dt"
    "dt \<noteq> DT_error" "dt \<noteq> DT_auto_detect"
proof (cases "dt = DT_error \<or> dt = DT_auto_detect")
  case True
  then show thesis by (intro that(1)) (auto simp: metaFor_def)
next
  case False
  then obtain m where m: "m \<in> set meta_table" "dt_type m = dt"
    using type_in_table by blast
  with False show thesis by (intro that(2) [of m]) (use metaFor_table [OF m(1)] in auto)
qed

text \<open>What the code relies on of a row.\<close>

definition meta_ok :: "Meta \<Rightarrow> bool" where
  "meta_ok m \<longleftrightarrow>
     dt_size m = sizeOfDataType (dt_type m) \<and> 0 < dt_size m \<and>
     (is_numeric m \<longrightarrow> dt_size m = 1 \<or> dt_size m = 2 \<or> dt_size m = 4) \<and>
     (is_float m \<longrightarrow> is_numeric m \<and> dt_size m = 4) \<and>
     (dt_type m = DT_bcd \<longrightarrow> is_numeric m \<and> \<not> is_float m \<and> dt_size m = 1 \<and> has_replacement m \<and>
       replacement_value m = 0xff) \<and>
     (has_replacement m \<longrightarrow> unat (replacement_value m) < 2 ^ (8 * dt_size m)) \<and>
     scale_num m = 1 \<and>
     (scale_den m = 1 \<or> (scale_den m = 2 \<or> scale_den m = 16 \<or> scale_den m = 256) \<and> dt_size m \<le> 2 \<and>
       (dt_size m = 2 \<longrightarrow> is_signed m))"

lemma table_ok: "m \<in> set meta_table \<Longrightarrow> meta_ok m"
proof -
  have "list_all meta_ok meta_table"
    by (simp add: meta_table_def meta_row_def meta_ok_def sizeOfDataType_def)
  then show "m \<in> set meta_table \<Longrightarrow> meta_ok m" by (simp add: list_all_iff)
qed

section \<open>Bytes of integers\<close>

lemma write_bytes_2:
  "write_bytes 2 w seq_nil = seq_of [ucast (w AND 0xff), ucast (drop_bit 8 w AND 0xff)] False"
  by (simp add: write_bytes_def seq_push_back_def seq_nil_def seq_of_def upt_rec)

lemma write_bytes_4:
  "write_bytes 4 w seq_nil =
     seq_of [ucast (w AND 0xff), ucast (drop_bit 8 w AND 0xff), ucast (drop_bit 16 w AND 0xff),
       ucast (drop_bit 24 w AND 0xff)] False"
  by (simp add: write_bytes_def seq_push_back_def seq_nil_def seq_of_def upt_rec)

lemma byte_masks:
  "0xff = (mask 8 :: 'a::len word)" "0xff00 = (push_bit 8 (mask 8) :: u32)"
  "0xff0000 = (push_bit 16 (mask 8) :: u32)" "0xff000000 = (push_bit 24 (mask 8) :: u32)"
  by (simp_all add: mask_eq_exp_minus_1)

lemma bit_swapEndian32:
  assumes "n < 32"
  shows "bit (swapEndian32 w) n =
    bit w (if n < 8 then n + 24 else if n < 16 then n + 8 else if n < 24 then n - 8 else n - 24)"
proof -
  consider "n < 8" | "8 \<le> n" "n < 16" | "16 \<le> n" "n < 24" | "24 \<le> n" "n < 32"
    using assms by linarith
  then show ?thesis
    unfolding swapEndian32_def byte_masks
    by cases (simp_all add: bit_or_iff bit_and_iff bit_push_bit_iff bit_drop_bit_eq bit_mask_iff add.commute
        less_diff_conv2)
qed

lemma swapEndian32_involutive: "swapEndian32 (swapEndian32 w) = w"
  by (rule bit_word_eqI) (auto simp: bit_swapEndian32)

lemma bit_u8_high: "8 \<le> k \<Longrightarrow> bit (a :: u8) k = False"
  using bit_imp_le_length [of a k] by auto

lemma write_read_bytes_2:
  assumes "length data = 2"
  shows "write_bytes 2 (read_bytes 2 data :: u16) seq_nil = seq_of data False"
proof -
  from assms obtain a b where d: "data = [a, b]" by (auto simp: length_Suc_conv numeral_eq_Suc)
  have r: "(read_bytes 2 data :: u16) = ucast a OR push_bit 8 (ucast b)"
    by (simp add: read_bytes_def d upt_rec)
  show ?thesis
    unfolding write_bytes_2 r byte_masks
    by (auto simp: seq_of_def d bit_simps bit_u8_high intro!: bit_word_eqI)
qed

lemma write_read_bytes_4:
  assumes "length data = 4"
  shows "write_bytes 4 (read_bytes 4 data :: u32) seq_nil = seq_of data False"
proof -
  from assms obtain a b c d where data: "data = [a, b, c, d]" by (auto simp: length_Suc_conv numeral_eq_Suc)
  have r: "(read_bytes 4 data :: u32) =
      ucast a OR push_bit 8 (ucast b) OR push_bit 16 (ucast c) OR push_bit 24 (ucast d)"
    by (simp add: read_bytes_def data upt_rec or.assoc)
  show ?thesis
    unfolding write_bytes_4 r byte_masks
    by (auto simp: seq_of_def data bit_simps bit_u8_high intro!: bit_word_eqI)
qed

lemma write_read_16:
  "length data = 2 \<Longrightarrow> writeInt16 seq_nil (readInt16 data flip) flip = seq_of data False"
  by (simp add: writeInt16_def readInt16_def swapEndian16_involution write_read_bytes_2)

lemma write_read_32:
  "length data = 4 \<Longrightarrow> writeInt32 seq_nil (readInt32 data flip) flip = seq_of data False"
  by (simp add: writeInt32_def readInt32_def swapEndian32_involutive write_read_bytes_4)

section \<open>Encoding inverts decoding\<close>

lemma char_byte_inverse: "char_byte (byte_char b) = b"
proof -
  have "unat b < 256" using unsigned_less [of b, where 'a = nat] by simp
  then show ?thesis by (simp add: char_byte_def byte_char_def)
qed

lemma string_round_trip:
  assumes "length data = dt_size m"
  shows "encode_string m (V_string (map byte_char data)) = seq_of data False"
  using assms
  by (simp add: encode_string_def seq_assign_def seq_nil_def seq_of_def char_byte_inverse comp_def)

lemma ucast_up_down:
  "ucast (ucast b :: u32) = (b :: u8)" "ucast (ucast w :: u32) = (w :: u16)"
  by (auto simp: bit_simps intro!: bit_word_eqI)

lemma null_round_trip:
  assumes "length data = dt_size m" "dt_size m = 1 \<or> dt_size m = 2 \<or> dt_size m = 4"
    and "has_replacement m" "decode_pattern m data flip = replacement_value m"
  shows "encode_null m flip = seq_of data False"
proof -
  consider b where "data = [b]" "dt_size m = 1" | "length data = 2" "dt_size m = 2"
    | "length data = 4" "dt_size m = 4"
    using assms(1,2) by (auto simp: length_Suc_conv)
  then show ?thesis
  proof cases
    case 1
    then have "replacement_value m = ucast b" using assms(4) by (simp add: decode_pattern_def)
    with 1 assms(3) show ?thesis
      by (simp add: encode_null_def seq_push_back_def seq_nil_def seq_of_def ucast_up_down)
  next
    case 2
    then have "replacement_value m = ucast (readInt16 data flip)"
      using assms(4) by (simp add: decode_pattern_def)
    with 2 assms(3) show ?thesis by (simp add: encode_null_def write_read_16 ucast_up_down)
  next
    case 3
    then have "replacement_value m = readInt32 data flip"
      using assms(4) by (simp add: decode_pattern_def)
    with 3 assms(3) show ?thesis by (simp add: encode_null_def write_read_32)
  qed
qed

definition bcd_round_trip :: "u8 \<Rightarrow> bool" where
  "bcd_round_trip b =
     (case decode_bcd b of
        None \<Rightarrow> True
      | Some v \<Rightarrow> \<not> isNull v \<and> map_option encode_bcd (asInt64 v) = Some (seq_of [b] False))"

lemma bcd_round_trip_all: "all_u8 bcd_round_trip"
  by code_simp

lemma decode_raw_range:
  "validateRange (decode_raw m data flip) (dt_size m) (is_signed m)"
  using sint_ge [of "data ! 0"] sint_lt [of "data ! 0"]
    sint_ge [of "readInt16 data flip"] sint_lt [of "readInt16 data flip"]
    sint_ge [of "readInt32 data flip"] sint_lt [of "readInt32 data flip"]
    uint_lt2p [of "data ! 0"] uint_lt2p [of "readInt16 data flip"] uint_lt2p [of "readInt32 data flip"]
  by (simp add: validateRange_def inRange_def decode_raw_def)

lemma integer_round_trip:
  assumes "length data = dt_size m" "dt_size m = 1 \<or> dt_size m = 2 \<or> dt_size m = 4"
  shows "encode_integer m flip (decode_raw m data flip) = seq_of data False"
proof -
  consider b where "data = [b]" "dt_size m = 1" | "length data = 2" "dt_size m = 2"
    | "length data = 4" "dt_size m = 4"
    using assms by (auto simp: length_Suc_conv)
  moreover have "encode_integer m flip (decode_raw m data flip) =
    (if dt_size m = 1 then seq_push_back (word_of_int (decode_raw m data flip)) False seq_nil
     else if dt_size m = 2 then writeInt16 seq_nil (word_of_int (decode_raw m data flip)) flip
     else if dt_size m = 4 then writeInt32 seq_nil (word_of_int (decode_raw m data flip)) flip
     else seq_nil)"
    by (simp add: encode_integer_def decode_raw_range)
  ultimately show ?thesis
    by cases (simp_all add: decode_raw_def write_read_16 write_read_32,
      simp add: seq_push_back_def seq_nil_def seq_of_def)
qed

lemma to_int64_id: "- (2 ^ 63) \<le> v \<Longrightarrow> v < 2 ^ 63 \<Longrightarrow> to_int64 v = v"
  by (simp add: to_int64_def int_word_sint)

lemma half_of_one: "1 sdiv 2 = (0 :: int)"
  by (simp add: signed_divide_int_def)

lemma integerScale_one: "- (2 ^ 63) \<le> v \<Longrightarrow> v < 2 ^ 63 \<Longrightarrow> integerScale v 1 1 = v"
  by (simp add: integerScale_def to_int64_id Let_def half_of_one)

lemma unscaled_round_trip:
  assumes "scale_num m = 1" "scale_den m = 1" "dt_size m = 1 \<or> dt_size m = 2 \<or> dt_size m = 4"
  shows "raw_int m (decode_integer m (decode_raw m data flip)) = Some (decode_raw m data flip)"
    and "\<not> isNull (decode_integer m (decode_raw m data flip))"
proof -
  let ?r = "decode_raw m data flip"
  have "- (2 ^ 63) \<le> ?r" "?r < 2 ^ 63"
    using decode_raw_range [of m data flip] assms(3)
    by (auto simp: validateRange_def inRange_def split: if_splits)
  then have "integerScale ?r 1 1 = ?r" by (rule integerScale_one)
  moreover have "raw_int m (decode_integer m ?r) = Some (integerScale ?r 1 1)"
    using assms decode_raw_range [of m data flip]
    by (auto simp: raw_int_def decode_integer_def asInt64_def decode_raw_def)
  ultimately show "raw_int m (decode_integer m ?r) = Some ?r" by simp
  show "\<not> isNull (decode_integer m ?r)" using assms by (simp add: decode_integer_def isNull_def)
qed

lemma scaled_round_trip:
  assumes "scale_num m = 1" "scale_den m = 2 \<or> scale_den m = 16 \<or> scale_den m = 256" "\<bar>raw\<bar> \<le> 32768"
  shows "raw_int m (decode_integer m raw) = Some raw" "\<not> isNull (decode_integer m raw)"
proof -
  define v where "v = (raw * fixed_point_scale) sdiv scale_den m"
  have "\<bar>v\<bar> = (\<bar>raw\<bar> * 1000000) div scale_den m"
    using assms(2) by (auto simp: v_def signed_divide_int_def abs_mult abs_sgn_eq)
  also have "\<dots> \<le> \<bar>raw\<bar> * 1000000" using assms(2) by auto
  finally have "sint (word_of_int v :: 64 word) = v"
    using to_int64_id [of v] assms(3) by (simp add: to_int64_def)
  then show "raw_int m (decode_integer m raw) = Some raw"
    using single_unscale_exact [OF assms(3,2)] assms
    by (auto simp: raw_int_def decode_integer_def single_unscale_def v_def)
  show "\<not> isNull (decode_integer m raw)" using assms by (auto simp: decode_integer_def isNull_def)
qed

lemma number_round_trip:
  assumes ok: "meta_ok m" and num: "is_numeric m" "\<not> is_float m" and len: "length data = dt_size m"
  shows "map_option (encode_integer m flip) (raw_int m (decode_integer m (decode_raw m data flip))) =
      Some (seq_of data False)"
    and "\<not> isNull (decode_integer m (decode_raw m data flip))"
proof -
  let ?r = "decode_raw m data flip"
  have sz: "dt_size m = 1 \<or> dt_size m = 2 \<or> dt_size m = 4" using ok num by (auto simp: meta_ok_def)
  have enc: "encode_integer m flip ?r = seq_of data False" by (rule integer_round_trip [OF len sz])
  have "raw_int m (decode_integer m ?r) = Some ?r \<and> \<not> isNull (decode_integer m ?r)"
  proof (cases "scale_den m = 1")
    case True
    with ok sz show ?thesis by (simp add: unscaled_round_trip meta_ok_def)
  next
    case False
    with ok have m: "scale_num m = 1" "scale_den m = 2 \<or> scale_den m = 16 \<or> scale_den m = 256"
      "dt_size m \<le> 2" "dt_size m = 2 \<longrightarrow> is_signed m"
      by (auto simp: meta_ok_def)
    have "\<bar>?r\<bar> \<le> 32768"
      using decode_raw_range [of m data flip] m(3,4) sz
      by (auto simp: validateRange_def inRange_def split: if_splits)
    with m show ?thesis by (simp add: scaled_round_trip)
  qed
  with enc show "map_option (encode_integer m flip) (raw_int m (decode_integer m ?r)) =
      Some (seq_of data False)" "\<not> isNull (decode_integer m ?r)"
    by simp_all
qed

text \<open>The branches of the two functions for a type of the table.\<close>

lemma encode_branches:
  assumes "metaFor dt = Some m" "dt \<noteq> DT_auto_detect"
  shows "encode dt v e =
     (if is_numeric m \<and> isNull v then Some (encode_null m (flip_for m e))
      else if \<not> is_numeric m then Some (encode_string m v)
      else if dt = DT_bcd then map_option encode_bcd (asInt64 v)
      else if is_float m then Some (writeInt32 seq_nil (asFloat v) (flip_for m e))
      else map_option (encode_integer m (flip_for m e)) (raw_int m v))"
  using assms by (simp add: encode_def Let_def)

lemma decode_branches:
  assumes "metaFor dt = Some m" "length data = dt_size m"
  shows "decode dt data e =
     (if \<not> is_numeric m then Some (V_string (map byte_char (take (dt_size m) data)))
      else if \<not> is_float m \<and> has_replacement m \<and>
        decode_pattern m data (flip_for m e) = replacement_value m then Some V_null
      else if dt = DT_bcd then decode_bcd (data ! 0)
      else if is_float m then Some (V_float (readInt32 data (flip_for m e)))
      else Some (decode_integer m (decode_raw m data (flip_for m e))))"
  using assms by (simp add: decode_def Let_def nullValue_def)

lemma encode_decode:
  assumes len: "length data = sizeOfDataType dt" and dec: "decode dt data e = Some v"
  shows "encode dt v e = Some (seq_of data False)"
proof (cases rule: metaFor_cases [of dt])
  case 1
  with dec show ?thesis by (simp add: decode_def)
next
  case (2 m)
  define flip where "flip = flip_for m e"
  have ok: "meta_ok m" using 2 by (intro table_ok)
  with 2 len have n: "length data = dt_size m" by (simp add: meta_ok_def)
  note enc = encode_branches [OF 2(1,5), of v e, folded flip_def]
  note dec' = dec [unfolded decode_branches [OF 2(1) n], folded flip_def]
  consider "\<not> is_numeric m" "v = V_string (map byte_char (take (dt_size m) data))"
    | "is_numeric m" "\<not> is_float m" "has_replacement m" "decode_pattern m data flip = replacement_value m"
      "v = V_null"
    | "is_numeric m" "dt = DT_bcd" "decode_bcd (data ! 0) = Some v"
    | "is_numeric m" "dt \<noteq> DT_bcd" "is_float m" "v = V_float (readInt32 data flip)"
    | "is_numeric m" "dt \<noteq> DT_bcd" "\<not> is_float m" "v = decode_integer m (decode_raw m data flip)"
    using dec' by (auto split: if_splits)
  then show ?thesis
  proof cases
    case 1
    with n enc show ?thesis by (simp add: string_round_trip)
  next
    case num: 2
    moreover have "dt_size m = 1 \<or> dt_size m = 2 \<or> dt_size m = 4" using ok num by (auto simp: meta_ok_def)
    ultimately show ?thesis using enc n by (simp add: null_round_trip isNull_def)
  next
    case num: 3
    then have "dt_size m = 1" using ok 2(3) unfolding meta_ok_def by blast
    then obtain b where "data = [b]" using n by (auto simp: length_Suc_conv)
    with num enc all_u8D [OF bcd_round_trip_all, of b] show ?thesis by (simp add: bcd_round_trip_def)
  next
    case num: 4
    then have "dt_size m = 4" using ok by (simp add: meta_ok_def)
    with num show ?thesis using enc n by (simp add: isNull_def asFloat_def write_read_32)
  next
    case num: 5
    then show ?thesis using enc number_round_trip [OF ok _ _ n, of flip] by simp
  qed
qed

section \<open>Decoding what was encoded\<close>

lemma push_zeros:
  "fold (\<lambda>_. seq_push_back 0 False) xs s =
     (if xs = [] then s
      else s\<lparr>sq_bytes := sq_bytes s @ replicate (length xs) 0, sq_extended := False\<rparr>)"
  by (induction xs arbitrary: s) (auto simp: seq_push_back_def)

definition well_encoded :: "Meta \<Rightarrow> sequence \<Rightarrow> bool" where
  "well_encoded m s \<longleftrightarrow> sq_bytes s = [] \<or> length (sq_bytes s) = dt_size m \<and> \<not> sq_extended s"

lemma well_encoded_write:
  "well_encoded m seq_nil"
  "dt_size m = 1 \<Longrightarrow> well_encoded m (seq_push_back b False seq_nil)"
  "dt_size m = 2 \<Longrightarrow> well_encoded m (writeInt16 seq_nil w flip)"
  "dt_size m = 4 \<Longrightarrow> well_encoded m (writeInt32 seq_nil x flip)"
  by (simp_all add: well_encoded_def seq_push_back_def seq_nil_def [symmetric] writeInt16_def
      writeInt32_def write_bytes_2 write_bytes_4 seq_of_def) (simp_all add: seq_nil_def)

lemma well_encoded_string: "well_encoded m (encode_string m v)"
  by (auto simp: encode_string_def push_zeros well_encoded_def seq_assign_def seq_nil_def Let_def min_def
      split: DataValue.splits)

lemma encode_well_encoded:
  assumes m: "metaFor dt = Some m" "dt_type m = dt" "dt \<noteq> DT_auto_detect" and ok: "meta_ok m"
    and enc: "encode dt v e = Some s"
  shows "well_encoded m s"
proof -
  note br = enc [unfolded encode_branches [OF m(1,3)]]
  have sz: "is_numeric m \<Longrightarrow> dt_size m = 1 \<or> dt_size m = 2 \<or> dt_size m = 4"
    "dt = DT_bcd \<Longrightarrow> dt_size m = 1" "is_float m \<Longrightarrow> dt_size m = 4"
    using ok m(2) by (auto simp: meta_ok_def)
  show ?thesis
    using br sz
    by (auto simp: encode_null_def encode_bcd_def encode_integer_def Let_def
        intro: well_encoded_write well_encoded_string split: if_splits)
qed

lemma encode_bcd_valid:
  assumes "sq_bytes (encode_bcd v) \<noteq> []"
  shows "decode_bcd (sq_bytes (encode_bcd v) ! 0) \<noteq> None"
proof -
  have "list_all (\<lambda>v. decode_bcd (sq_bytes (encode_bcd v) ! 0) \<noteq> None) [0..99]" by code_simp
  moreover have "v \<in> set [0..99]"
    using assms by (auto simp: encode_bcd_def seq_nil_def split: if_splits)
  ultimately show ?thesis by (simp add: list_all_iff del: set_upto)
qed

lemma decode_encoded:
  assumes m: "metaFor dt = Some m" "dt_type m = dt" "dt \<noteq> DT_auto_detect" and ok: "meta_ok m"
    and enc: "encode dt v e = Some s" "sq_bytes s \<noteq> []"
  shows "\<exists>w. decode dt (sq_bytes s) e = Some w"
proof -
  have len: "length (sq_bytes s) = dt_size m"
    using encode_well_encoded [OF m ok enc(1)] enc(2) by (simp add: well_encoded_def)
  note dec = decode_branches [OF m(1) len, of e]
  show ?thesis
  proof (cases "dt = DT_bcd")
    case False
    with dec show ?thesis by auto
  next
    case True
    with ok m(2) have bcd: "is_numeric m" "\<not> is_float m" "dt_size m = 1" "has_replacement m"
      "replacement_value m = 0xff"
      by (auto simp: meta_ok_def)
    note br = enc(1) [unfolded encode_branches [OF m(1,3)]]
    consider "s = encode_null m (flip_for m e)" | x where "s = encode_bcd x"
      using br True bcd by (auto split: if_splits)
    then show ?thesis
    proof cases
      case 1
      with bcd have "decode_pattern m (sq_bytes s) (flip_for m e) = replacement_value m"
        by (simp add: encode_null_def seq_push_back_def seq_nil_def decode_pattern_def)
      with dec bcd show ?thesis by simp
    next
      case 2
      with encode_bcd_valid enc(2) have "decode_bcd (sq_bytes s ! 0) \<noteq> None" by blast
      with dec bcd True show ?thesis by auto
    qed
  qed
qed

lemma encoded_bytes_decodable:
  assumes enc: "encode dt v e = Some s" "sq_bytes s \<noteq> []"
    and dt': "dt' = (if dt = DT_auto_detect then getDataType v else dt)"
  shows "length (sq_bytes s) = sizeOfDataType dt' \<and> \<not> sq_extended s \<and>
    (\<exists>w. decode dt' (sq_bytes s) e = Some w \<and> encode dt' w e = Some s)"
proof (cases rule: metaFor_cases [of dt'])
  case 1
  then have "s = seq_nil" using enc(1) dt' by (auto simp: encode_def Let_def)
  with enc(2) show ?thesis by (simp add: seq_nil_def)
next
  case (2 m)
  have enc': "encode dt' v e = Some s" using enc(1) dt' 2(5) by (simp add: encode_def Let_def)
  have ok: "meta_ok m" using 2(2) by (rule table_ok)
  have we: "length (sq_bytes s) = dt_size m" "\<not> sq_extended s"
    using encode_well_encoded [OF 2(1,3,5) ok enc'] enc(2) by (simp_all add: well_encoded_def)
  then have len: "length (sq_bytes s) = sizeOfDataType dt'" using ok 2(3) by (simp add: meta_ok_def)
  obtain w where w: "decode dt' (sq_bytes s) e = Some w"
    using decode_encoded [OF 2(1,3,5) ok enc' enc(2)] by auto
  moreover have "s = seq_of (sq_bytes s) False" using we(2) by (simp add: seq_of_def)
  ultimately show ?thesis using encode_decode [OF len w] len we(2) by auto
qed

section \<open>Values of the integer types\<close>

lemma read_write_16: "readInt16 (sq_bytes (writeInt16 seq_nil w flip)) flip = w"
proof -
  have "read_bytes 2 (sq_bytes (write_bytes 2 v seq_nil)) = v" for v :: u16
    unfolding write_bytes_2 byte_masks
    by (rule bit_word_eqI) (auto simp: read_bytes_def seq_of_def upt_rec bit_simps)
  then show ?thesis by (simp add: readInt16_def writeInt16_def swapEndian16_involution)
qed

lemma read_write_32: "readInt32 (sq_bytes (writeInt32 seq_nil w flip)) flip = w"
proof -
  have "read_bytes 4 (sq_bytes (write_bytes 4 v seq_nil)) = v" for v :: u32
  proof (rule bit_word_eqI)
    fix n assume "n < LENGTH(32)"
    then consider "n < 8" | "8 \<le> n" "n < 16" | "16 \<le> n" "n < 24" | "24 \<le> n" "n < 32"
      by fastforce
    then show "bit (read_bytes 4 (sq_bytes (write_bytes 4 v seq_nil)) :: u32) n = bit v n"
      unfolding write_bytes_4 byte_masks
      by cases (simp_all add: read_bytes_def seq_of_def upt_rec bit_simps less_diff_conv2)
  qed
  then show ?thesis by (simp add: readInt32_def writeInt32_def swapEndian32_involutive)
qed

text \<open>The values of the six integer types of the variant, and those that stand for "no value".\<close>

definition native :: "DataValue \<Rightarrow> bool" where
  "native v = (case v of V_null \<Rightarrow> False | V_i64 _ \<Rightarrow> False | V_float _ \<Rightarrow> False | V_string _ \<Rightarrow> False | _ \<Rightarrow> True)"

definition sentinel :: "DataValue \<Rightarrow> bool" where
  "sentinel v =
     (case v of
        V_u8 x \<Rightarrow> x = 0xff | V_i8 x \<Rightarrow> x = 0x80
      | V_u16 x \<Rightarrow> x = 0xffff | V_i16 x \<Rightarrow> x = 0x8000
      | V_u32 x \<Rightarrow> x = 0xffffffff | V_i32 x \<Rightarrow> x = 0x80000000
      | _ \<Rightarrow> False)"

lemma native_meta:
  "metaFor DT_uint8 = Some (meta_row DT_uint8 ''UINT8'' 1 True False False True sentinel_8 False 1 1)"
  "metaFor DT_int8 = Some (meta_row DT_int8 ''INT8'' 1 True True False True sentinel_s8 False 1 1)"
  "metaFor DT_uint16 = Some (meta_row DT_uint16 ''UINT16'' 2 True False False True sentinel_16 False 1 1)"
  "metaFor DT_int16 = Some (meta_row DT_int16 ''INT16'' 2 True True False True sentinel_s16 False 1 1)"
  "metaFor DT_uint32 = Some (meta_row DT_uint32 ''UINT32'' 4 True False False True sentinel_32 False 1 1)"
  "metaFor DT_int32 = Some (meta_row DT_int32 ''INT32'' 4 True True False True sentinel_s32 False 1 1)"
  by (rule metaFor_table [of "meta_row dt n sz nu sg fl re rv rs sn sd" for dt n sz nu sg fl re rv rs sn sd,
        unfolded meta_row_def, simplified, folded meta_row_def],
      simp add: meta_table_def meta_row_def)+

lemma native_scale:
  "integerScale (uint (a :: u8)) 1 1 = uint a" "integerScale (sint (a :: u8)) 1 1 = sint a"
  "integerScale (uint (b :: u16)) 1 1 = uint b" "integerScale (sint (b :: u16)) 1 1 = sint b"
  "integerScale (uint (c :: u32)) 1 1 = uint c" "integerScale (sint (c :: u32)) 1 1 = sint c"
  using uint_lt2p [of a] uint_lt2p [of b] uint_lt2p [of c]
    sint_ge [of a] sint_lt [of a] sint_ge [of b] sint_lt [of b] sint_ge [of c] sint_lt [of c]
  by (auto intro!: integerScale_one intro: order_trans [of _ 0])

lemma native_range:
  "validateRange (uint (a :: u8)) 1 False" "validateRange (sint (a :: u8)) 1 True"
  "validateRange (uint (b :: u16)) 2 False" "validateRange (sint (b :: u16)) 2 True"
  "validateRange (uint (c :: u32)) 4 False" "validateRange (sint (c :: u32)) 4 True"
  using uint_lt2p [of a] uint_lt2p [of b] uint_lt2p [of c] sint_ge [of a] sint_lt [of a]
    sint_ge [of b] sint_lt [of b] sint_ge [of c] sint_lt [of c]
  by (simp_all add: validateRange_def inRange_def)

lemma encoded_bytes:
  "sq_bytes (seq_push_back b False seq_nil) = [b]"
  "length (sq_bytes (writeInt16 seq_nil w flip)) = 2" "length (sq_bytes (writeInt32 seq_nil x flip)) = 4"
  by (simp_all add: seq_push_back_def writeInt16_def writeInt32_def write_bytes_2 write_bytes_4 seq_of_def)
     (simp add: seq_nil_def)

lemma sentinel_pattern:
  "(ucast (a :: u8) :: u32) = 0xff \<longleftrightarrow> a = 0xff" "(ucast (a :: u8) :: u32) = 0x80 \<longleftrightarrow> a = 0x80"
  "(ucast (b :: u16) :: u32) = 0xffff \<longleftrightarrow> b = 0xffff" "(ucast (b :: u16) :: u32) = 0x8000 \<longleftrightarrow> b = 0x8000"
  using ucast_up_down(1) [of a] ucast_up_down(2) [of b] by auto

text \<open>The bytes of an integer of each type, and what they are decoded to.\<close>

lemma encode_native:
  "encode DT_auto_detect (V_u8 a) e = Some (seq_push_back a False seq_nil)"
  "encode DT_auto_detect (V_i8 a) e = Some (seq_push_back a False seq_nil)"
  "encode DT_auto_detect (V_u16 b) e = Some (writeInt16 seq_nil b (e = Endian_big))"
  "encode DT_auto_detect (V_i16 b) e = Some (writeInt16 seq_nil b (e = Endian_big))"
  "encode DT_auto_detect (V_u32 c) e = Some (writeInt32 seq_nil c (e = Endian_big))"
  "encode DT_auto_detect (V_i32 c) e = Some (writeInt32 seq_nil c (e = Endian_big))"
  using native_range(1,2) [of a] native_range(3,4) [of b] native_range(5,6) [of c]
  by (simp_all add: getDataType_def encode_def Let_def native_meta meta_row_def flip_for_def isNull_def
      raw_int_def asInt64_def encode_integer_def native_scale)

lemma decode_native:
  "decode DT_uint8 [a] e = Some (if a = 0xff then V_null else V_u8 a)"
  "decode DT_int8 [a] e = Some (if a = 0x80 then V_null else V_i8 a)"
  "decode DT_uint16 (sq_bytes (writeInt16 seq_nil b (e = Endian_big))) e =
     Some (if b = 0xffff then V_null else V_u16 b)"
  "decode DT_int16 (sq_bytes (writeInt16 seq_nil b (e = Endian_big))) e =
     Some (if b = 0x8000 then V_null else V_i16 b)"
  "decode DT_uint32 (sq_bytes (writeInt32 seq_nil c (e = Endian_big))) e =
     Some (if c = 0xffffffff then V_null else V_u32 c)"
  "decode DT_int32 (sq_bytes (writeInt32 seq_nil c (e = Endian_big))) e =
     Some (if c = 0x80000000 then V_null else V_i32 c)"
  by (simp_all add: decode_def Let_def native_meta meta_row_def flip_for_def decode_pattern_def
      decode_raw_def decode_integer_def nullValue_def encoded_bytes read_write_16 read_write_32
      sentinel_pattern)

section \<open>Properties\<close>

text \<open>
  C17: the values of the bus survive. Whatever bytes of the size of a type are decoded, in
  either byte order, encoding the decoded value gives the same bytes again, for every
  one of the 35 types: integers, BCD, strings, floats, the replacement values, and the
  fixed-point types, where \<open>encode\<close> divides in single precision and the errors of the
  four roundings are too small to reach the neighbouring value. In particular no
  conversion on this way is undefined.
\<close>

theorem typed_bytes_survive:
  assumes "length data = sizeOfDataType dt" "decode dt data e = Some v"
  shows "encode dt v e = Some (seq_of data False)"
  using assms by (rule encode_decode)

theorem typed_bytes_survive_witness:
  "encode DT_int16 (V_i16 0xfffe) Endian_big = Some (seq_of [0xff, 0xfe] False)"
proof (rule typed_bytes_survive)
  show "length [0xff, 0xfe :: u8] = sizeOfDataType DT_int16" by (simp add: sizeOfDataType_def)
  have "readInt16 [0xff, 0xfe] True = 0xfffe"
    by (simp add: readInt16_def read_bytes_def upt_rec swapEndian16_def)
  then show "decode DT_int16 [0xff, 0xfe] Endian_big = Some (V_i16 0xfffe)"
    by (simp add: decode_def Let_def native_meta meta_row_def flip_for_def decode_pattern_def
        decode_raw_def decode_integer_def)
qed

text \<open>
  C19: integers of the application survive, but for one. A value of one of the six integer
  types is encoded with the type that belongs to it and decoded to the same value, in
  either byte order; the one exception of each type is the value whose bits are the
  replacement value (255, -128, 65535, ...): it is encoded without complaint and is read as
  "no value".
\<close>

theorem native_values_survive:
  assumes "native v"
  shows "\<exists>s. encode DT_auto_detect v e = Some s \<and>
    decode (getDataType v) (sq_bytes s) e = Some (if sentinel v then V_null else v)"
  using assms
  by (cases v) (simp_all add: native_def encode_native getDataType_def encoded_bytes decode_native sentinel_def)

theorem native_values_survive_witness:
  "native (V_u16 0x1234) \<and>
   (\<exists>s. encode DT_auto_detect (V_u16 0x1234) Endian_little = Some s \<and>
     decode DT_uint16 (sq_bytes s) Endian_little = Some (V_u16 0x1234))"
  using native_values_survive [of "V_u16 0x1234" Endian_little]
  by (simp add: native_def sentinel_def getDataType_def)

text \<open>
  C35: negative fixed-point numbers are rounded wrongly. \<open>asInt64\<close> adds one half before a
  division that truncates towards zero; of a negative whole number, which needs no
  rounding at all, it makes the next greater one: \<open>-1.0\<close> becomes \<open>0\<close>, \<open>-20.0\<close> becomes
  \<open>-19\<close>.
\<close>

theorem negative_whole_off_by_one:
  assumes "0 < n" "n < 2 ^ 40"
  shows "asInt64 (V_i64 (word_of_int (- n * fixed_point_scale))) = Some (- n + 1)"
proof -
  have "sint (word_of_int (- n * fixed_point_scale) :: 64 word) = - n * fixed_point_scale"
    using to_int64_id [of "- n * fixed_point_scale"] assms by (simp add: to_int64_def)
  moreover have "(n * 1000000 - 500000) div 1000000 = n - 1"
    by (rule int_div_pos_eq [where r = 500000]) simp_all
  ultimately show ?thesis
    using assms by (simp add: asInt64_def int64_range_def signed_divide_int_def)
qed

theorem negative_whole_off_by_one_witness:
  "asInt64 (V_i64 (word_of_int (- 20 * fixed_point_scale))) = Some (- 19)"
  using negative_whole_off_by_one [of 20] by simp

text \<open>
  The range check of \<open>encode\<close> comes after the product with the scale was cut to 64 bits: the
  number \<open>0x0100000000000001\<close> in a string is accepted by DATA2B, whose values end at 128,
  and is sent as \<open>1.0\<close>.
\<close>

theorem scaled_overflow_accepted:
  "encode DT_data2b (V_string ''0100000000000001'') Endian_little = Some (seq_of [0x00, 0x01] False)"
proof -
  have m: "metaFor DT_data2b = Some (meta_row DT_data2b ''DATA2B'' 2 True True False True sentinel_s16 False 1 256)"
    using metaFor_table [of "meta_row DT_data2b ''DATA2B'' 2 True True False True sentinel_s16 False 1 256"]
    by (simp add: meta_table_def meta_row_def)
  have "asInt64 (V_string ''0100000000000001'') = Some 0x0100000000000001"
    by (simp add: asInt64_def asInt64_string_def hex_prefix_def from_chars_hex_def hex_digit_def
        int64_range_def Let_def)
  moreover have "integerScale 0x0100000000000001 256 1 = 256"
    by (simp add: integerScale_def half_of_one to_int64_def)
  ultimately show ?thesis
    by (simp add: encode_def Let_def m meta_row_def flip_for_def isNull_def raw_int_def
        encode_integer_def validateRange_def inRange_def writeInt16_def write_bytes_2)
qed

text \<open>A number that is none has no integer: its conversion is undefined.\<close>

theorem nan_to_integer_undefined:
  assumes "f32_nan x"
  shows "encode DT_int16 (V_float x) e = None"
proof -
  have "f32_nan quiet_nan" "\<not> f32_finite quiet_nan"
    by (simp_all add: f32_nan_def f32_finite_def quiet_nan_def f32_exponent_def f32_fraction_def)
  then show ?thesis
    using assms
    by (simp add: encode_def Let_def native_meta meta_row_def isNull_def raw_int_def asFloat_def
        f32_mul_def f32_div_def f32_round_int64_def)
qed

end
