(* ===== verification/Typed_Names.thy ===== *)
theory Typed_Names
  imports Typed_Codec
begin

text \<open>
  The search of a type by its name: the binary search of \<open>stringToDataType\<close> finds what a
  linear search of the table finds, and inverts \<open>dataTypeToString\<close>.
\<close>

section \<open>The order of the names\<close>

lemma strcmp_less_irrefl: "\<not> strcmp_less a a"
  by (induction a) auto

lemma strcmp_less_trans: "strcmp_less a b \<Longrightarrow> strcmp_less b c \<Longrightarrow> strcmp_less a c"
proof (induction a b arbitrary: c rule: strcmp_less.induct)
  case (2 b bs)
  then show ?case by (cases c) auto
next
  case (3 a as b bs)
  then show ?case by (cases c) (auto split: if_splits)
qed simp

lemma transp_strcmp_less: "transp strcmp_less"
  by (rule transpI) (rule strcmp_less_trans)

lemma names_sorted: "sorted_wrt strcmp_less (map dt_name meta_table)"
  by (simp add: meta_table_def meta_row_def sorted_wrt2 [OF transp_strcmp_less] del: sorted_wrt.simps(2))
     (simp add: sorted_wrt.simps)

section \<open>The binary search\<close>

lemma lower_bound_spec:
  assumes "\<And>i j. i \<le> j \<Longrightarrow> j < lo + len \<Longrightarrow> below j \<Longrightarrow> below i"
  shows "lo \<le> lower_bound below lo len \<and> lower_bound below lo len \<le> lo + len \<and>
    (\<forall>i. lo \<le> i \<and> i < lower_bound below lo len \<longrightarrow> below i) \<and>
    (\<forall>i. lower_bound below lo len \<le> i \<and> i < lo + len \<longrightarrow> \<not> below i)"
  using assms
proof (induction below lo len rule: lower_bound.induct)
  case (1 below lo len)
  show ?case
  proof (cases "len = 0")
    case True
    then show ?thesis by (auto simp: lower_bound.simps)
  next
    case False
    define half mid where "half = len div 2" and "mid = lo + half"
    have half: "half < len" using False by (simp add: half_def)
    note IH = 1(1) [OF False half_def mid_def] 1(2) [OF False half_def mid_def]
    show ?thesis
    proof (cases "below mid")
      case True
      have eq: "lower_bound below lo len = lower_bound below (mid + 1) (len - half - 1)"
        using False True by (subst lower_bound.simps) (simp add: Let_def half_def mid_def)
      have "mid + 1 + (len - half - 1) = lo + len" using half by (simp add: mid_def)
      with IH(1) [OF True] 1(3) have ih: "mid + 1 \<le> lower_bound below lo len"
        "lower_bound below lo len \<le> lo + len"
        "\<forall>i. mid + 1 \<le> i \<and> i < lower_bound below lo len \<longrightarrow> below i"
        "\<forall>i. lower_bound below lo len \<le> i \<and> i < lo + len \<longrightarrow> \<not> below i"
        unfolding eq by auto
      moreover have "below i" if "i \<le> mid" for i
        using that 1(3) [of i mid] True half by (simp add: mid_def)
      ultimately show ?thesis by (auto simp: mid_def) (meson not_less_eq_eq)
    next
      case no: False
      have eq: "lower_bound below lo len = lower_bound below lo half"
        using False no by (subst lower_bound.simps) (simp add: Let_def half_def mid_def)
      have ih: "lo \<le> lower_bound below lo len" "lower_bound below lo len \<le> mid"
        "\<forall>i. lo \<le> i \<and> i < lower_bound below lo len \<longrightarrow> below i"
        "\<forall>i. lower_bound below lo len \<le> i \<and> i < mid \<longrightarrow> \<not> below i"
        using IH(2) [OF no] 1(3) half unfolding eq mid_def by auto
      moreover have "\<not> below i" if "mid \<le> i" "i < lo + len" for i
        using that 1(3) [of mid i] no by blast
      ultimately show ?thesis using half by (auto simp: mid_def) (meson not_le)
    qed
  qed
qed

lemma lower_bound_cong:
  "(\<And>i. lo \<le> i \<Longrightarrow> i < lo + len \<Longrightarrow> below i = below' i) \<Longrightarrow>
    lower_bound below lo len = lower_bound below' lo len"
proof (induction below lo len rule: lower_bound.induct)
  case (1 below lo len)
  then show ?case
    by (subst (1 2) lower_bound.simps) (auto simp: Let_def intro!: 1(1) 1(2))
qed

lemma lower_bound_le: "lower_bound below lo len \<le> lo + len"
proof (induction below lo len rule: lower_bound.induct)
  case (1 below lo len)
  show ?case
    by (subst lower_bound.simps)
      (use 1(1) [OF _ refl refl] 1(2) [OF _ refl refl] in \<open>force simp: Let_def\<close>)
qed

text \<open>
  What the search relies on in the table: an order on the keys, and keys that are sorted
  by it. It then finds the position of every key.
\<close>

locale sorted_keys =
  fixes less :: "'a \<Rightarrow> 'a \<Rightarrow> bool" and keys :: "'a list"
  assumes irrefl: "\<not> less a a"
    and trans: "less a b \<Longrightarrow> less b c \<Longrightarrow> less a c"
    and sorted: "sorted_wrt less keys"
begin

lemma below_antitone:
  assumes "i \<le> j" "j < length keys" "less (keys ! j) key"
  shows "less (keys ! i) key"
proof (cases "i = j")
  case False
  with assms have "less (keys ! i) (keys ! j)" using sorted_wrt_nth_less [OF sorted] by simp
  then show ?thesis using assms(3) by (rule trans)
qed (use assms in simp)

lemma position:
  assumes "k < length keys"
  shows "lower_bound (\<lambda>i. less (keys ! i) (keys ! k)) 0 (length keys) = k"
proof -
  let ?below = "\<lambda>i. less (keys ! i) (keys ! k)"
  let ?r = "lower_bound ?below 0 (length keys)"
  have spec: "0 \<le> ?r \<and> ?r \<le> 0 + length keys \<and> (\<forall>i. 0 \<le> i \<and> i < ?r \<longrightarrow> ?below i) \<and>
      (\<forall>i. ?r \<le> i \<and> i < 0 + length keys \<longrightarrow> \<not> ?below i)"
    by (rule lower_bound_spec) (rule below_antitone, simp_all)
  have "\<not> ?below k" by (rule irrefl)
  with spec have "?r \<le> k" by (meson le0 not_le)
  moreover have "k \<le> ?r"
  proof (rule ccontr)
    assume "\<not> k \<le> ?r"
    then have r: "?r < k" by simp
    then have "?below ?r" using sorted_wrt_nth_less [OF sorted r assms] by simp
    moreover have "\<not> ?below ?r"
      using spec [THEN conjunct2, THEN conjunct2, THEN conjunct2, rule_format, of ?r] r assms
      by simp
    ultimately show False by simp
  qed
  ultimately show ?thesis by simp
qed

end

interpretation type_names: sorted_keys strcmp_less "map dt_name meta_table"
  by unfold_locales (fact strcmp_less_irrefl, fact strcmp_less_trans, fact names_sorted)

lemma search_found:
  assumes "m \<in> set meta_table"
  shows "stringToDataType (dt_name m) = dt_type m"
proof -
  obtain k where k: "k < length meta_table" "meta_table ! k = m"
    using assms by (auto simp: in_set_conv_nth)
  let ?names = "map dt_name meta_table"
  have "lower_bound (\<lambda>i. strcmp_less (?names ! i) (dt_name m)) 0 (length ?names) = k"
    using type_names.position [of k] k by simp
  moreover have "lower_bound (\<lambda>i. strcmp_less (?names ! i) (dt_name m)) 0 (length ?names) =
      lower_bound (\<lambda>i. strcmp_less (dt_name (meta_table ! i)) (dt_name m)) 0 (length meta_table)"
    using lower_bound_cong [of 0 "length meta_table" "\<lambda>i. strcmp_less (?names ! i) (dt_name m)"]
    by simp
  ultimately show ?thesis using k by (simp add: stringToDataType_def)
qed

lemma search_failed:
  assumes "str \<notin> dt_name ` set meta_table"
  shows "stringToDataType str = DT_error"
proof -
  let ?it = "lower_bound (\<lambda>i. strcmp_less (dt_name (meta_table ! i)) str) 0 (length meta_table)"
  have "?it \<le> length meta_table" using lower_bound_le [of _ 0 "length meta_table"] by simp
  then have "?it \<noteq> length meta_table \<Longrightarrow> dt_name (meta_table ! ?it) \<noteq> str"
    using assms by (metis image_eqI le_neq_implies_less nth_mem)
  then show ?thesis by (auto simp: stringToDataType_def Let_def)
qed

text \<open>
  C20: searching a type by its name. For every string, known or not, \<open>stringToDataType\<close>
  finds by its binary search what a linear search of the table finds, and \<open>error\<close> when
  there is no such name; and the name \<open>dataTypeToString\<close> prints is read back as the
  type it was printed from, for every type of the table (the two special values print as
  \<open>UNKNOWN\<close>, which is read as \<open>error\<close>).
\<close>

theorem names_found:
  "stringToDataType str =
     (case find (\<lambda>m. dt_name m = str) meta_table of Some m \<Rightarrow> dt_type m | None \<Rightarrow> DT_error) \<and>
   stringToDataType (dataTypeToString dt) = (if dt = DT_auto_detect then DT_error else dt)"
proof
  show "stringToDataType str =
     (case find (\<lambda>m. dt_name m = str) meta_table of Some m \<Rightarrow> dt_type m | None \<Rightarrow> DT_error)"
  proof (cases "find (\<lambda>m. dt_name m = str) meta_table")
    case None
    then have "str \<notin> dt_name ` set meta_table" by (auto simp: find_None_iff)
    with None show ?thesis by (simp add: search_failed)
  next
    case (Some m)
    then have "m \<in> set meta_table" "dt_name m = str" by (auto simp: find_Some_iff)
    with Some search_found [of m] show ?thesis by simp
  qed
  show "stringToDataType (dataTypeToString dt) = (if dt = DT_auto_detect then DT_error else dt)"
  proof (cases rule: metaFor_cases [of dt])
    case 1
    moreover have "stringToDataType ''UNKNOWN'' = DT_error"
      by (rule search_failed) (simp add: meta_table_def meta_row_def)
    ultimately show ?thesis by (auto simp: dataTypeToString_def)
  next
    case (2 m)
    then show ?thesis using search_found [of m] by (simp add: dataTypeToString_def)
  qed
qed

end
