(* ===== verification/Json_Validator.thy ===== *)
theory Json_Validator
  imports Ebus_Prelude
begin

text \<open>
  \<open>JsonReader::validate\<close> of \<open>src/ebus/utils/json_reader.cpp\<close>: the check every configuration
  has to pass, a machine with four states and a stack of open brackets. The position in
  the text is the text behind it; \<open>p >= json.size()\<close> says that nothing is left. \<open>Json_Grammar\<close> relates it to
  the grammar of JSON.
\<close>

section \<open>The machine\<close>

definition max_recursion_depth :: nat where
  "max_recursion_depth = 32"

datatype validate_state = ExpectValue | ExpectKeyOrEnd | ExpectColon | ExpectCommaOrEnd

abbreviation (input) quote :: char where "quote \<equiv> CHR 0x22"
abbreviation (input) backslash :: char where "backslash \<equiv> CHR 0x5C"

definition is_ws :: "char \<Rightarrow> bool" where
  "is_ws c \<longleftrightarrow> c \<in> {CHR '' '', CHR 0x09, CHR 0x0A, CHR 0x0D}"

definition skipWs :: "string \<Rightarrow> string" where
  "skipWs s = dropWhile is_ws s"

definition is_digit :: "char \<Rightarrow> bool" where
  "is_digit c \<longleftrightarrow> c \<in> set ''0123456789''"

text \<open>
  The characters of a number. \<open>std::strchr\<close> also finds the zero that ends the string
  \<open>.eE+-\<close>, so that a zero byte counts as one of them.
\<close>

definition number_char :: "char \<Rightarrow> bool" where
  "number_char c \<longleftrightarrow> is_digit c \<or> c \<in> set ''.eE+-'' \<or> c = CHR 0x00"

text \<open>The loop over the characters of a string, up to the closing quote.\<close>

fun skip_string :: "string \<Rightarrow> string" where
  "skip_string [] = []"
| "skip_string (c # cs) =
     (if c = quote then c # cs
      else if c = backslash then skip_string (drop 1 cs)
      else skip_string cs)"

text \<open>
  One round of the loop; \<open>None\<close> is \<open>return false\<close>. The stack has its top in front. White
  space is skipped after each round; where the code has skipped it already there is none.
\<close>

type_synonym validate_result = "(validate_state \<times> string \<times> string) option"

definition open_container :: "char \<Rightarrow> char \<Rightarrow> validate_state \<Rightarrow> string \<Rightarrow> string \<Rightarrow> validate_result" where
  "open_container c close st stack cs =
     (if length stack \<ge> max_recursion_depth then None
      else (let r = skipWs cs in
        if r \<noteq> [] \<and> hd r = close then Some (ExpectCommaOrEnd, c # stack, r)
        else Some (st, c # stack, r)))"

definition close_container :: "char \<Rightarrow> string \<Rightarrow> string \<Rightarrow> validate_result" where
  "close_container c stack cs =
     (if stack = [] \<or> hd stack \<noteq> c then None else Some (ExpectCommaOrEnd, tl stack, cs))"

definition accept_string :: "validate_state \<Rightarrow> string \<Rightarrow> string \<Rightarrow> validate_result" where
  "accept_string st stack cs =
     (let r = skip_string cs in if r = [] then None else Some (st, stack, tl r))"

definition accept_literal :: "string \<Rightarrow> string \<Rightarrow> string \<Rightarrow> validate_result" where
  "accept_literal lit stack s =
     (if take (length lit) s \<noteq> lit then None
      else Some (ExpectCommaOrEnd, stack, drop (length lit) s))"

definition expect_value :: "string \<Rightarrow> char \<Rightarrow> string \<Rightarrow> validate_result" where
  "expect_value stack c cs =
     (if c = CHR ''{'' then open_container CHR ''{'' CHR ''}'' ExpectKeyOrEnd stack cs
      else if c = CHR ''['' then open_container CHR ''['' CHR '']'' ExpectValue stack cs
      else if c = quote then accept_string ExpectCommaOrEnd stack cs
      else if c = CHR ''t'' then accept_literal ''true'' stack (c # cs)
      else if c = CHR ''n'' then accept_literal ''null'' stack (c # cs)
      else if c = CHR ''f'' then accept_literal ''false'' stack (c # cs)
      else if c = CHR ''-'' \<or> is_digit c
      then Some (ExpectCommaOrEnd, stack, dropWhile number_char (if c = CHR ''-'' then cs else c # cs))
      else None)"

definition expect_key :: "string \<Rightarrow> char \<Rightarrow> string \<Rightarrow> validate_result" where
  "expect_key stack c cs =
     (if c = CHR ''}'' then close_container CHR ''{'' stack cs
      else if c = quote then accept_string ExpectColon stack cs
      else None)"

definition expect_comma :: "string \<Rightarrow> char \<Rightarrow> string \<Rightarrow> validate_result" where
  "expect_comma stack c cs =
     (if c = CHR '','' then
        (let r = skipWs cs in
         if r = [] \<or> hd r = CHR ''}'' \<or> hd r = CHR '']'' then None
         else if stack \<noteq> [] \<and> hd stack = CHR ''{'' then Some (ExpectKeyOrEnd, stack, r)
         else Some (ExpectValue, stack, r))
      else if c = CHR ''}'' then close_container CHR ''{'' stack cs
      else if c = CHR '']'' then close_container CHR ''['' stack cs
      else None)"

definition validate_step :: "validate_state \<Rightarrow> string \<Rightarrow> char \<Rightarrow> string \<Rightarrow> validate_result" where
  "validate_step st stack c cs =
     (case st of
        ExpectValue \<Rightarrow> expect_value stack c cs
      | ExpectKeyOrEnd \<Rightarrow> expect_key stack c cs
      | ExpectColon \<Rightarrow> (if c \<noteq> CHR '':'' then None else Some (ExpectValue, stack, cs))
      | ExpectCommaOrEnd \<Rightarrow> expect_comma stack c cs)"

lemma skipWs_length: "length (skipWs s) \<le> length s"
  by (simp add: skipWs_def length_dropWhile_le)

lemma skip_string_length: "length (skip_string s) \<le> length s"
proof (induction s rule: skip_string.induct)
  case (2 c cs)
  then show ?case by (cases cs) auto
qed simp

lemma validate_step_shorter:
  assumes "validate_step st stack c cs = Some (st', stack', r)"
  shows "length (skipWs r) \<le> length cs"
proof -
  have "length r \<le> length cs"
    using assms skipWs_length [of cs] skip_string_length [of cs] length_dropWhile_le [of number_char cs]
    by (auto simp: validate_step_def expect_value_def expect_key_def expect_comma_def open_container_def
        close_container_def accept_string_def accept_literal_def Let_def number_char_def
        split: validate_state.splits if_splits)
  with skipWs_length [of r] show ?thesis by simp
qed

function validate_loop :: "validate_state \<Rightarrow> string \<Rightarrow> string \<Rightarrow> bool" where
  "validate_loop st stack [] = (stack = [] \<and> st = ExpectCommaOrEnd)"
| "validate_loop st stack (c # cs) =
     (case validate_step st stack c cs of
        None \<Rightarrow> False
      | Some (st', stack', r) \<Rightarrow> validate_loop st' stack' (skipWs r))"
  by pat_completeness auto
termination
  by (relation "measure (\<lambda>(_, _, s). length s)") (auto dest: validate_step_shorter)

definition validate_json :: "string \<Rightarrow> bool" where
  "validate_json json = (if json = [] \<or> skipWs json = [] then False else validate_loop ExpectValue [] (skipWs json))"

end
