(* ===== verification/Json_Grammar.thy ===== *)
theory Json_Grammar
  imports Json_Validator
begin

text \<open>
  The grammar of JSON (RFC 8259) and the documents \<open>JsonReader::validate\<close> accepts: the rules for
  values, members and elements, once over the strings and numbers of JSON and once over the looser ones of the
  validator. Every JSON document that is not nested too deeply is accepted, and the accepted texts are exactly
  the lists of values of the looser grammar.
\<close>

section \<open>The grammar\<close>

text \<open>
  The rules of RFC 8259 for values, members and elements, over the strings and numbers that are
  given: a value has at most \<open>n\<close> brackets around each other, the members of an object and the
  elements of an array come with the white space around them.
\<close>

definition white :: "string \<Rightarrow> bool" where
  "white w \<longleftrightarrow> set w \<subseteq> {CHR '' '', CHR 0x09, CHR 0x0A, CHR 0x0D}"

inductive value_of :: "(string \<Rightarrow> bool) \<Rightarrow> (string \<Rightarrow> bool) \<Rightarrow> nat \<Rightarrow> string \<Rightarrow> bool"
  and members_of :: "(string \<Rightarrow> bool) \<Rightarrow> (string \<Rightarrow> bool) \<Rightarrow> nat \<Rightarrow> string \<Rightarrow> bool"
  and elements_of :: "(string \<Rightarrow> bool) \<Rightarrow> (string \<Rightarrow> bool) \<Rightarrow> nat \<Rightarrow> string \<Rightarrow> bool"
  for str num where
  string_value: "str s \<Longrightarrow> value_of str num n s"
| number_value: "num s \<Longrightarrow> value_of str num n s"
| literal_value: "s \<in> {''true'', ''false'', ''null''} \<Longrightarrow> value_of str num n s"
| empty_object: "white w \<Longrightarrow> value_of str num (Suc n) (''{'' @ w @ ''}'')"
| object: "members_of str num n ms \<Longrightarrow> value_of str num (Suc n) (''{'' @ ms @ ''}'')"
| empty_array: "white w \<Longrightarrow> value_of str num (Suc n) (''['' @ w @ '']'')"
| array: "elements_of str num n es \<Longrightarrow> value_of str num (Suc n) (''['' @ es @ '']'')"
| member: "white w1 \<Longrightarrow> str k \<Longrightarrow> white w2 \<Longrightarrow> white w3 \<Longrightarrow> value_of str num n v \<Longrightarrow> white w4 \<Longrightarrow>
    members_of str num n (w1 @ k @ w2 @ '':'' @ w3 @ v @ w4)"
| more_members: "white w1 \<Longrightarrow> str k \<Longrightarrow> white w2 \<Longrightarrow> white w3 \<Longrightarrow> value_of str num n v \<Longrightarrow> white w4 \<Longrightarrow>
    members_of str num n ms \<Longrightarrow> members_of str num n (w1 @ k @ w2 @ '':'' @ w3 @ v @ w4 @ '','' @ ms)"
| element: "white w1 \<Longrightarrow> value_of str num n v \<Longrightarrow> white w2 \<Longrightarrow> elements_of str num n (w1 @ v @ w2)"
| more_elements: "white w1 \<Longrightarrow> value_of str num n v \<Longrightarrow> white w2 \<Longrightarrow> elements_of str num n es \<Longrightarrow>
    elements_of str num n (w1 @ v @ w2 @ '','' @ es)"

lemma more_words:
  assumes "\<And>s. str s \<Longrightarrow> str' s" "\<And>s. num s \<Longrightarrow> num' s"
  shows "value_of str num n s \<Longrightarrow> value_of str' num' n s"
    and "members_of str num n ms \<Longrightarrow> members_of str' num' n ms"
    and "elements_of str num n es \<Longrightarrow> elements_of str' num' n es"
  by (induction rule: value_of_members_of_elements_of.inducts)
     (blast intro: assms value_of_members_of_elements_of.intros)+

subsection \<open>Strict JSON\<close>

text \<open>Strings and numbers as RFC 8259 has them, and the documents: one value.\<close>

definition decimal :: "string \<Rightarrow> bool" where
  "decimal ds \<longleftrightarrow> ds \<noteq> [] \<and> set ds \<subseteq> set ''0123456789''"

definition strict_number :: "string \<Rightarrow> bool" where
  "strict_number s \<longleftrightarrow>
     (\<exists>m i f e. s = m @ i @ f @ e \<and> m \<in> {[], ''-''} \<and> decimal i \<and> (hd i = CHR ''0'' \<longrightarrow> i = ''0'')
        \<and> (f = [] \<or> (\<exists>ds. f = ''.'' @ ds \<and> decimal ds))
        \<and> (e = [] \<or> (\<exists>x sg ds. e = x @ sg @ ds \<and> x \<in> {''e'', ''E''} \<and> sg \<in> {[], ''+'', ''-''} \<and> decimal ds)))"

fun strict_body :: "string \<Rightarrow> bool" where
  "strict_body [] = True"
| "strict_body (c # cs) =
     (if c = quote then False
      else if c = backslash
      then (case cs of
              [] \<Rightarrow> False
            | d # ds \<Rightarrow>
                if d = CHR ''u''
                then 4 \<le> length ds \<and> set (take 4 ds) \<subseteq> set ''0123456789abcdefABCDEF'' \<and> strict_body (drop 4 ds)
                else d \<in> set (quote # backslash # ''/bfnrt'') \<and> strict_body ds)
      else (of_char c :: nat) \<ge> 32 \<and> strict_body cs)"

definition strict_string :: "string \<Rightarrow> bool" where
  "strict_string s \<longleftrightarrow> (\<exists>b. s = quote # b @ [quote] \<and> strict_body b)"

abbreviation strict_value :: "nat \<Rightarrow> string \<Rightarrow> bool" where
  "strict_value \<equiv> value_of strict_string strict_number"

definition strict_document :: "nat \<Rightarrow> string \<Rightarrow> bool" where
  "strict_document n s \<longleftrightarrow> (\<exists>w v w'. s = w @ v @ w' \<and> white w \<and> strict_value n v \<and> white w')"

subsection \<open>What is accepted\<close>

text \<open>
  In the strings that the validator accepts a backslash takes any character along, and there is no other condition on
  the characters; a number is any run of the characters of numbers, zero bytes among them.
\<close>

fun string_body :: "string \<Rightarrow> bool" where
  "string_body [] = True"
| "string_body (c # cs) =
     (if c = quote then False
      else if c = backslash then (case cs of [] \<Rightarrow> False | _ # ds \<Rightarrow> string_body ds)
      else string_body cs)"

definition loose_string :: "string \<Rightarrow> bool" where
  "loose_string s \<longleftrightarrow> (\<exists>b. s = quote # b @ [quote] \<and> string_body b)"

definition loose_number :: "string \<Rightarrow> bool" where
  "loose_number s \<longleftrightarrow>
     (\<exists>c cs. s = c # cs \<and> c \<in> set ''-0123456789'' \<and> set cs \<subseteq> set (CHR 0x00 # ''0123456789.eE+-''))"

abbreviation loose_value :: "nat \<Rightarrow> string \<Rightarrow> bool" where
  "loose_value \<equiv> value_of loose_string loose_number"

abbreviation loose_members :: "nat \<Rightarrow> string \<Rightarrow> bool" where
  "loose_members \<equiv> members_of loose_string loose_number"

abbreviation loose_elements :: "nat \<Rightarrow> string \<Rightarrow> bool" where
  "loose_elements \<equiv> elements_of loose_string loose_number"

lemmas loose_induct = value_of_members_of_elements_of.inducts [of loose_string loose_number]

lemma digits_code: "set ds \<subseteq> set ''0123456789'' \<longleftrightarrow> list_all is_digit ds"
  by (simp only: subset_iff list_all_iff is_digit_def Ball_def)

lemma sign_or_digit: "c \<in> set ''-0123456789'' \<longleftrightarrow> c = CHR ''-'' \<or> is_digit c"
  by (simp add: is_digit_def)

lemma number_char_set: "c \<in> set (CHR 0x00 # ''0123456789.eE+-'') \<longleftrightarrow> number_char c"
  by (auto simp: number_char_def is_digit_def)

lemma number_chars_code: "set cs \<subseteq> set (CHR 0x00 # ''0123456789.eE+-'') \<longleftrightarrow> list_all number_char cs"
  by (simp only: subset_iff list_all_iff number_char_set Ball_def)

lemma loose_number_code:
  "loose_number s \<longleftrightarrow> s \<noteq> [] \<and> (hd s = CHR ''-'' \<or> is_digit (hd s)) \<and> list_all number_char (tl s)"
  unfolding loose_number_def sign_or_digit number_chars_code by (cases s) simp_all

lemma strict_number_loose:
  assumes "strict_number s"
  shows "loose_number s"
proof -
  have dec: "decimal ds \<Longrightarrow> list_all number_char ds \<and> is_digit (hd ds) \<and> ds \<noteq> []" for ds
    unfolding decimal_def digits_code by (cases ds) (auto simp: list_all_iff number_char_def)
  obtain m i f e where s: "s = m @ i @ f @ e" "m \<in> {[], ''-''}" "decimal i"
    and f: "f = [] \<or> (\<exists>ds. f = ''.'' @ ds \<and> decimal ds)"
    and e: "e = [] \<or> (\<exists>x sg ds. e = x @ sg @ ds \<and> x \<in> {''e'', ''E''} \<and> sg \<in> {[], ''+'', ''-''} \<and> decimal ds)"
    using assms unfolding strict_number_def by blast
  have "list_all number_char f" "list_all number_char e"
    using f e dec by (auto simp: number_char_def)
  moreover obtain c cs where "i = c # cs" "is_digit c" "list_all number_char cs"
    using dec [OF s(3)] by (cases i) auto
  ultimately show ?thesis using s(1,2) by (auto simp: loose_number_code number_char_def)
qed

lemma string_body_plain: "quote \<notin> set xs \<Longrightarrow> backslash \<notin> set xs \<Longrightarrow> string_body (xs @ ys) = string_body ys"
  by (induction xs) auto

lemma strict_body_loose: "strict_body b \<Longrightarrow> string_body b"
proof (induction b rule: strict_body.induct)
  case (2 c cs)
  show ?case
  proof (cases "c = backslash")
    case True
    with "2.prems" obtain d ds where cs: "cs = d # ds" by (cases cs) auto
    show ?thesis
    proof (cases "d = CHR ''u''")
      case u: True
      then have hex: "set (take 4 ds) \<subseteq> set ''0123456789abcdefABCDEF''" "strict_body (drop 4 ds)"
        using "2.prems" True cs by auto
      then have "string_body (drop 4 ds)" using "2.IH"(1) [OF _ True cs u] True by simp
      moreover have "quote \<notin> set (take 4 ds)" "backslash \<notin> set (take 4 ds)" using hex(1) by auto
      ultimately have "string_body (take 4 ds @ drop 4 ds)" using string_body_plain by blast
      then show ?thesis using True cs by simp
    next
      case False
      then show ?thesis using "2.prems" "2.IH"(2) [OF _ True cs] True cs by simp
    qed
  next
    case False
    then show ?thesis using "2.prems" "2.IH"(3) by (auto split: if_splits)
  qed
qed simp

lemma strict_value_loose: "strict_value n v \<Longrightarrow> loose_value n v"
  by (erule more_words(1) [rotated 2])
     (auto simp: strict_string_def loose_string_def strict_body_loose strict_number_loose)

lemma strict_document_loose:
  assumes "strict_document n s"
  shows "loose_elements n s"
proof -
  obtain w v w' where "s = w @ v @ w'" "white w" "strict_value n v" "white w'"
    using assms by (auto simp: strict_document_def)
  then show ?thesis by (simp add: element strict_value_loose)
qed

section \<open>White space and words\<close>

lemma loose_string_quote: "string_body b \<Longrightarrow> loose_string (quote # b @ [quote])"
  by (simp add: loose_string_def)

lemma white_code: "white w \<longleftrightarrow> list_all is_ws w"
  by (auto simp: white_def list_all_iff is_ws_def)

lemma skipWs_idem [simp]: "skipWs (skipWs s) = skipWs s"
  by (simp add: skipWs_def)

lemma skipWs_white [simp]: "white w \<Longrightarrow> skipWs (w @ s) = skipWs s"
  by (simp add: skipWs_def white_code list_all_iff)

lemma skipWs_split: "\<exists>w. s = w @ skipWs s \<and> white w"
  unfolding skipWs_def white_code list_all_iff
  by (metis set_takeWhileD takeWhile_dropWhile_id)

lemma skipWs_Cons [simp]: "\<not> is_ws c \<Longrightarrow> skipWs (c # s) = c # s"
  by (simp add: skipWs_def)

lemma skipWs_Nil [simp]: "skipWs [] = []"
  by (simp add: skipWs_def)

lemma not_ws [simp]:
  "\<not> is_ws CHR ''{''" "\<not> is_ws CHR ''}''" "\<not> is_ws CHR ''[''" "\<not> is_ws CHR '']''" "\<not> is_ws CHR '':''"
  "\<not> is_ws CHR '',''" "\<not> is_ws quote"
  by (simp_all add: is_ws_def)

lemma skip_body: "string_body b \<Longrightarrow> skip_string (b @ quote # s) = quote # s"
  by (induction b rule: string_body.induct) (auto split: list.splits if_splits)

lemma skip_string_split:
  "skip_string s \<noteq> [] \<Longrightarrow> \<exists>b. string_body b \<and> s = b @ skip_string s \<and> hd (skip_string s) = quote"
proof (induction s rule: skip_string.induct)
  case (2 c cs)
  consider "c = quote" | "c = backslash" | "c \<noteq> quote" "c \<noteq> backslash" by blast
  then show ?case
  proof cases
    case 1
    then show ?thesis by (intro exI [of _ "[]"]) simp
  next
    case 2
    with "2.prems" obtain d ds where cs: "cs = d # ds" by (cases cs) auto
    with 2 "2.prems" "2.IH"(1) obtain b where "string_body b" "ds = b @ skip_string ds"
      "hd (skip_string ds) = quote"
      by auto
    with 2 cs show ?thesis by (intro exI [of _ "c # d # b"]) simp
  next
    case 3
    with "2.prems" "2.IH"(2) obtain b where "string_body b" "cs = b @ skip_string cs"
      "hd (skip_string cs) = quote"
      by auto
    with 3 show ?thesis by (intro exI [of _ "c # b"]) simp
  qed
qed simp

section \<open>Every document is accepted\<close>

text \<open>What may follow a value: nothing that could belong to a number.\<close>

definition ends_value :: "string \<Rightarrow> bool" where
  "ends_value s \<longleftrightarrow> s = [] \<or> \<not> number_char (hd s)"

definition closing :: "string \<Rightarrow> bool" where
  "closing t \<longleftrightarrow> t = [] \<or> hd t \<in> {CHR ''}'', CHR '']'', CHR '',''}"

lemma ends_value_white: "white w \<Longrightarrow> closing t \<Longrightarrow> ends_value (w @ t)"
  by (cases w; cases t)
     (auto simp: closing_def ends_value_def white_code is_ws_def number_char_def is_digit_def)

lemma closing_simps [simp]:
  "closing []" "closing (CHR ''}'' # t)" "closing (CHR '']'' # t)" "closing (CHR '','' # t)"
  by (simp_all add: closing_def)

lemma closing_not_white: "closing t \<Longrightarrow> skipWs t = t"
  by (cases t) (auto simp: closing_def)

text \<open>The first character of a value, of members and of elements.\<close>

definition opens :: "string \<Rightarrow> bool" where
  "opens s \<longleftrightarrow> (\<exists>c cs. s = c # cs \<and> \<not> is_ws c \<and> c \<noteq> CHR ''}'' \<and> c \<noteq> CHR '']'')"

lemma opens_append: "opens s \<Longrightarrow> opens (s @ t)"
  by (auto simp: opens_def)

lemma opens_skipWs: "opens s \<Longrightarrow> skipWs s = s"
  by (auto simp: opens_def)

lemma digit_other:
  assumes "is_digit c"
  shows "\<not> is_ws c" "c \<noteq> CHR ''{''" "c \<noteq> CHR ''}''" "c \<noteq> CHR ''[''" "c \<noteq> CHR '']''" "c \<noteq> quote"
    "c \<noteq> CHR ''t''" "c \<noteq> CHR ''n''" "c \<noteq> CHR ''f''" "c \<noteq> CHR ''-''" "number_char c"
  using assms by (auto simp: is_digit_def is_ws_def number_char_def)

lemma loose_string_opens: "loose_string s \<Longrightarrow> opens s"
  unfolding loose_string_def opens_def by (elim exE conjE) simp

lemma loose_value_opens:
  assumes "loose_value n s"
  shows "opens s"
  using assms
proof (cases rule: value_of.cases)
  case number_value
  then obtain c cs where "s = c # cs" "c = CHR ''-'' \<or> is_digit c"
    by (auto simp: loose_number_code neq_Nil_conv)
  moreover have "\<not> is_ws c \<and> c \<noteq> CHR ''}'' \<and> c \<noteq> CHR '']''" if "is_digit c"
    using digit_other [OF that] by simp
  ultimately show ?thesis by (auto simp: opens_def is_ws_def)
qed (auto simp: loose_string_opens, auto simp: opens_def is_ws_def)

lemma loose_members_head: "loose_members n ms \<Longrightarrow> \<exists>cs. skipWs (ms @ t) = quote # cs"
  by (erule members_of.cases) (auto simp: loose_string_def)

lemma loose_elements_opens: "loose_elements n es \<Longrightarrow> opens (skipWs (es @ t))"
  by (erule elements_of.cases) (auto simp: loose_value_opens opens_append opens_skipWs)

text \<open>One word.\<close>

lemma accept_string_value:
  assumes "loose_string s"
  shows "validate_loop ExpectValue stack (s @ rest) = validate_loop ExpectCommaOrEnd stack (skipWs rest)"
    and "validate_loop ExpectKeyOrEnd stack (s @ rest) = validate_loop ExpectColon stack (skipWs rest)"
  using assms
  by (auto simp: loose_string_def validate_step_def expect_value_def expect_key_def accept_string_def skip_body)

lemma accept_number:
  assumes "loose_number s" "ends_value rest"
  shows "validate_loop ExpectValue stack (s @ rest) = validate_loop ExpectCommaOrEnd stack (skipWs rest)"
proof -
  obtain c cs where s: "s = c # cs" "c = CHR ''-'' \<or> is_digit c" "list_all number_char cs"
    using assms(1) by (auto simp: loose_number_code neq_Nil_conv)
  have "dropWhile number_char (cs @ rest) = rest"
    using s(3) assms(2) by (cases rest) (auto simp: ends_value_def list_all_iff)
  then have "validate_step ExpectValue stack c (cs @ rest) = Some (ExpectCommaOrEnd, stack, rest)"
    using s(2) by (elim disjE) (simp_all add: validate_step_def expect_value_def digit_other)
  then show ?thesis by (simp add: s(1))
qed

lemma accept_literal_value:
  assumes "s \<in> {''true'', ''false'', ''null''}"
  shows "validate_loop ExpectValue stack (s @ rest) = validate_loop ExpectCommaOrEnd stack (skipWs rest)"
  using assms by (auto simp: validate_step_def expect_value_def accept_literal_def)

lemma accept_close:
  "validate_loop ExpectCommaOrEnd (CHR ''{'' # stack) (CHR ''}'' # rest) =
     validate_loop ExpectCommaOrEnd stack (skipWs rest)"
  "validate_loop ExpectCommaOrEnd (CHR ''['' # stack) (CHR '']'' # rest) =
     validate_loop ExpectCommaOrEnd stack (skipWs rest)"
  by (simp_all add: validate_step_def expect_comma_def close_container_def)

lemma accept_open_object:
  assumes "length stack < max_recursion_depth"
  shows "validate_loop ExpectValue stack (CHR ''{'' # s) =
    (if skipWs s \<noteq> [] \<and> hd (skipWs s) = CHR ''}''
     then validate_loop ExpectCommaOrEnd (CHR ''{'' # stack) (skipWs s)
     else validate_loop ExpectKeyOrEnd (CHR ''{'' # stack) (skipWs s))"
  using assms by (simp add: validate_step_def expect_value_def open_container_def Let_def)

lemma accept_open_array:
  assumes "length stack < max_recursion_depth"
  shows "validate_loop ExpectValue stack (CHR ''['' # s) =
    (if skipWs s \<noteq> [] \<and> hd (skipWs s) = CHR '']''
     then validate_loop ExpectCommaOrEnd (CHR ''['' # stack) (skipWs s)
     else validate_loop ExpectValue (CHR ''['' # stack) (skipWs s))"
  using assms by (simp add: validate_step_def expect_value_def open_container_def Let_def)

lemma accept_comma:
  assumes "opens (skipWs s)"
  shows "validate_loop ExpectCommaOrEnd stack (CHR '','' # s) =
    (if stack \<noteq> [] \<and> hd stack = CHR ''{'' then validate_loop ExpectKeyOrEnd stack (skipWs s)
     else validate_loop ExpectValue stack (skipWs s))"
  using assms by (auto simp: validate_step_def expect_comma_def Let_def opens_def)

lemma accept_colon: "validate_loop ExpectColon stack (CHR '':'' # s) = validate_loop ExpectValue stack (skipWs s)"
  by (simp add: validate_step_def)

text \<open>Whole values, members and elements.\<close>

declare validate_loop.simps(2) [simp del]

lemma skipWs_word: "opens s \<Longrightarrow> skipWs (s @ x) = s @ x"
  by (simp add: opens_skipWs opens_append)

lemma accept_key:
  assumes "white w1" "loose_string k" "white w2" "white w3" "loose_value n v"
  shows "validate_loop ExpectKeyOrEnd stack (skipWs (w1 @ k @ w2 @ CHR '':'' # w3 @ v @ x)) =
    validate_loop ExpectValue stack (v @ x)"
  using assms
  by (simp add: skipWs_word loose_string_opens loose_value_opens accept_string_value accept_colon)

lemma members_open: "loose_members n ms \<Longrightarrow> opens (skipWs (ms @ t))"
  using loose_members_head [of n ms t] by (auto simp: opens_def)

lemma accepts:
  "loose_value n v \<Longrightarrow> n + length stack \<le> max_recursion_depth \<Longrightarrow> ends_value rest \<Longrightarrow>
     validate_loop ExpectValue stack (v @ rest) = validate_loop ExpectCommaOrEnd stack (skipWs rest)"
  "loose_members n ms \<Longrightarrow> n + length stack < max_recursion_depth \<Longrightarrow> closing t \<Longrightarrow>
     validate_loop ExpectKeyOrEnd (CHR ''{'' # stack) (skipWs (ms @ t)) =
     validate_loop ExpectCommaOrEnd (CHR ''{'' # stack) t"
  "loose_elements n es \<Longrightarrow> n + length stack' \<le> max_recursion_depth \<Longrightarrow> closing t' \<Longrightarrow>
     (stack' = [] \<or> hd stack' \<noteq> CHR ''{'') \<Longrightarrow>
     validate_loop ExpectValue stack' (skipWs (es @ t')) = validate_loop ExpectCommaOrEnd stack' t'"
proof (induction arbitrary: stack rest and stack t and stack' t'
    rule: loose_induct)
  case (object n ms)
  have "validate_loop ExpectKeyOrEnd (CHR ''{'' # stack) (skipWs (ms @ CHR ''}'' # rest)) =
      validate_loop ExpectCommaOrEnd stack (skipWs rest)"
    using object.IH [of stack "CHR ''}'' # rest"] object.prems by (simp add: accept_close)
  then show ?case
    using members_open [OF object.hyps, of "CHR ''}'' # rest"] object.prems
    by (auto simp: accept_open_object opens_def)
next
  case (array n es)
  have "validate_loop ExpectValue (CHR ''['' # stack) (skipWs (es @ CHR '']'' # rest)) =
      validate_loop ExpectCommaOrEnd stack (skipWs rest)"
    using array.IH [of "CHR ''['' # stack" "CHR '']'' # rest"] array.prems by (simp add: accept_close)
  then show ?case
    using loose_elements_opens [OF array.hyps, of "CHR '']'' # rest"] array.prems
    by (auto simp: accept_open_array opens_def)
next
  case (member w1 k w2 w3 n v w4)
  have "validate_loop ExpectValue (CHR ''{'' # stack) (v @ w4 @ t) =
      validate_loop ExpectCommaOrEnd (CHR ''{'' # stack) t"
    using member by (simp add: ends_value_white closing_not_white)
  then show ?case using accept_key [OF member.hyps(1-5), of _ "w4 @ t"] by simp
next
  case (more_members w1 k w2 w3 n v w4 ms)
  have "validate_loop ExpectValue (CHR ''{'' # stack) (v @ w4 @ CHR '','' # ms @ t) =
      validate_loop ExpectCommaOrEnd (CHR ''{'' # stack) t"
    using more_members by (simp add: ends_value_white accept_comma members_open)
  then show ?case using accept_key [OF more_members.hyps(1-5), of _ "w4 @ CHR '','' # ms @ t"] by simp
next
  case (element w1 n v w2)
  then show ?case
    by (simp add: skipWs_word loose_value_opens ends_value_white closing_not_white)
next
  case (more_elements w1 n v w2 es)
  then show ?case
    by (auto simp: skipWs_word loose_value_opens ends_value_white accept_comma loose_elements_opens)
qed (auto simp: accept_string_value accept_number accept_literal_value accept_open_object accept_open_array accept_close)

section \<open>Every accepted text is a document\<close>

text \<open>One round backwards: what the machine has seen when it goes on.\<close>

lemma accepted_string:
  assumes "accept_string st stack cs = Some (st', stack', r)"
  shows "st' = st \<and> stack' = stack \<and> (\<exists>k. loose_string k \<and> quote # cs = k @ r)"
proof -
  from assms have ne: "skip_string cs \<noteq> []" and st: "st' = st" "stack' = stack" and r: "r = tl (skip_string cs)"
    by (auto simp: accept_string_def Let_def split: if_splits)
  obtain b where b: "string_body b" "cs = b @ skip_string cs" "hd (skip_string cs) = quote"
    using skip_string_split [OF ne] by blast
  have "skip_string cs = quote # r" using ne b(3) r by (cases "skip_string cs") auto
  then have "quote # cs = (quote # b @ [quote]) @ r" using b(2) by simp
  with b(1) st show ?thesis by (auto simp: loose_string_def)
qed

lemma accepted_number:
  assumes "c = CHR ''-'' \<or> is_digit c"
  shows "\<exists>k. loose_number k \<and> c # cs = k @ dropWhile number_char (if c = CHR ''-'' then cs else c # cs)"
proof -
  have "loose_number (c # takeWhile number_char cs)"
    using assms by (auto simp: loose_number_code list_all_iff dest: set_takeWhileD)
  moreover have "c # cs = (c # takeWhile number_char cs) @
      dropWhile number_char (if c = CHR ''-'' then cs else c # cs)"
    using assms digit_other(11) [of c] by auto
  ultimately show ?thesis by blast
qed

lemma accepted_literal:
  assumes "accept_literal lit stack s = Some (st', stack', r)"
  shows "st' = ExpectCommaOrEnd \<and> stack' = stack \<and> s = lit @ r"
  using assms by (auto simp: accept_literal_def split: if_splits) (metis append_take_drop_id)

text \<open>What a value, or the opening of a container, looks like.\<close>

lemma accepted_value_step:
  assumes "validate_step ExpectValue stack c cs = Some (st', stack', r)"
  obtains (word) k where "\<And>n. loose_value n k" "c # cs = k @ r" "st' = ExpectCommaOrEnd" "stack' = stack"
  | (object) "c = CHR ''{''" "length stack < max_recursion_depth" "stack' = CHR ''{'' # stack" "r = skipWs cs"
    "st' = (if r \<noteq> [] \<and> hd r = CHR ''}'' then ExpectCommaOrEnd else ExpectKeyOrEnd)"
  | (array) "c = CHR ''[''" "length stack < max_recursion_depth" "stack' = CHR ''['' # stack" "r = skipWs cs"
    "st' = (if r \<noteq> [] \<and> hd r = CHR '']'' then ExpectCommaOrEnd else ExpectValue)"
proof -
  consider "c = CHR ''{''" | "c = CHR ''[''" | "c = quote" | "c = CHR ''t''" | "c = CHR ''n''" | "c = CHR ''f''"
    | "c = CHR ''-'' \<or> is_digit c"
    using assms by (auto simp: validate_step_def expect_value_def split: if_splits)
  then show thesis
  proof cases
    case 1
    with assms show thesis
      by (intro object) (auto simp: validate_step_def expect_value_def open_container_def Let_def split: if_splits)
  next
    case 2
    with assms show thesis
      by (intro array) (auto simp: validate_step_def expect_value_def open_container_def Let_def split: if_splits)
  next
    case 3
    with assms show thesis
      by (auto simp: validate_step_def expect_value_def dest!: accepted_string intro: word string_value)
  next
    case 4
    with assms show thesis
      by (auto simp: validate_step_def expect_value_def dest!: accepted_literal
          intro!: word [of "''true''"] literal_value)
  next
    case 5
    with assms show thesis
      by (auto simp: validate_step_def expect_value_def dest!: accepted_literal
          intro!: word [of "''null''"] literal_value)
  next
    case 6
    with assms show thesis
      by (auto simp: validate_step_def expect_value_def dest!: accepted_literal
          intro!: word [of "''false''"] literal_value)
  next
    case 7
    obtain k where "loose_number k" "c # cs = k @ dropWhile number_char (if c = CHR ''-'' then cs else c # cs)"
      using accepted_number [OF 7] by blast
    moreover have "st' = ExpectCommaOrEnd" "stack' = stack"
      "r = dropWhile number_char (if c = CHR ''-'' then cs else c # cs)"
      using assms 7 by (elim disjE; simp add: validate_step_def expect_value_def digit_other)+
    ultimately show thesis by (auto intro: word number_value)
  qed
qed

lemma accepted_comma_step:
  assumes "validate_step ExpectCommaOrEnd stack c cs = Some (st', stack', r)"
  obtains (close_object) "c = CHR ''}''" "stack = CHR ''{'' # stack'" "st' = ExpectCommaOrEnd" "r = cs"
  | (close_array) "c = CHR '']''" "stack = CHR ''['' # stack'" "st' = ExpectCommaOrEnd" "r = cs"
  | (comma) "c = CHR '',''" "stack' = stack" "r = skipWs cs" "r \<noteq> []" "hd r \<noteq> CHR ''}''"
    "st' = (if stack \<noteq> [] \<and> hd stack = CHR ''{'' then ExpectKeyOrEnd else ExpectValue)"
  using assms
  by (cases stack)
     (auto simp: validate_step_def expect_comma_def close_container_def Let_def split: if_splits)

text \<open>
  The rest of a text that is accepted begins with what the state expects, followed by a rest
  that is accepted after it. The four claims are shown together, for shorter texts first.
\<close>

abbreviation levels :: "string \<Rightarrow> nat" where
  "levels stack \<equiv> max_recursion_depth - length stack"

definition value_then :: "string \<Rightarrow> string \<Rightarrow> bool" where
  "value_then stack s \<longleftrightarrow>
     (\<exists>v w r. s = v @ w @ r \<and> loose_value (levels stack) v \<and> white w \<and>
       validate_loop ExpectCommaOrEnd stack r \<and> length r < length s)"

definition members_then :: "string \<Rightarrow> string \<Rightarrow> bool" where
  "members_then stack s \<longleftrightarrow>
     (\<exists>ms r. s = ms @ CHR ''}'' # r \<and> loose_members (levels (CHR ''{'' # stack)) ms \<and>
       validate_loop ExpectCommaOrEnd stack (skipWs r))"

definition object_end_then :: "string \<Rightarrow> string \<Rightarrow> bool" where
  "object_end_then stack s \<longleftrightarrow>
     (\<exists>r. s = CHR ''}'' # r \<and> validate_loop ExpectCommaOrEnd stack (skipWs r)) \<or>
     (\<exists>ms. s = CHR '','' # ms \<and> members_then stack ms)"

definition elements_then :: "string \<Rightarrow> string \<Rightarrow> bool" where
  "elements_then stack s \<longleftrightarrow>
     (\<exists>es r. s = es @ CHR '']'' # r \<and> loose_elements (levels (CHR ''['' # stack)) es \<and>
       validate_loop ExpectCommaOrEnd stack (skipWs r))"

definition array_end_then :: "string \<Rightarrow> string \<Rightarrow> bool" where
  "array_end_then stack s \<longleftrightarrow>
     (\<exists>r. s = CHR '']'' # r \<and> validate_loop ExpectCommaOrEnd stack (skipWs r)) \<or>
     (\<exists>es. s = CHR '','' # es \<and> elements_then stack es)"

lemma white_append: "white w \<Longrightarrow> white w' \<Longrightarrow> white (w @ w')"
  by (simp add: white_def)

lemma white_Nil [simp]: "white []"
  by (simp add: white_def)

lemma members_white:
  assumes "loose_members n ms" "white w"
  shows "loose_members n (w @ ms)"
  using assms(1)
proof (cases rule: members_of.cases)
  case (member w1 k w2 w3 v w4)
  then show ?thesis
    using value_of_members_of_elements_of.member [of "w @ w1" loose_string k w2 w3 loose_number n v w4] assms(2)
    by (simp add: white_append)
next
  case (more_members w1 k w2 w3 v w4 ms')
  then show ?thesis
    using value_of_members_of_elements_of.more_members [of "w @ w1" loose_string k w2 w3 loose_number n v w4 ms'] assms(2)
    by (simp add: white_append)
qed

lemma elements_white:
  assumes "loose_elements n es" "white w"
  shows "loose_elements n (w @ es)"
  using assms(1)
proof (cases rule: elements_of.cases)
  case (element w1 v w2)
  then show ?thesis
    using value_of_members_of_elements_of.element [of "w @ w1" loose_string loose_number n v w2] assms(2)
    by (simp add: white_append)
next
  case (more_elements w1 v w2 es')
  then show ?thesis
    using value_of_members_of_elements_of.more_elements [of "w @ w1" loose_string loose_number n v w2 es'] assms(2)
    by (simp add: white_append)
qed

text \<open>A value and the rest of an array make elements; a key, a value and the rest of an object members.\<close>

lemma elements_then_value:
  assumes "white w0" "value_then (CHR ''['' # stack) s"
    and rest: "\<And>r. length r < length s \<Longrightarrow> validate_loop ExpectCommaOrEnd (CHR ''['' # stack) r \<Longrightarrow>
      array_end_then stack r"
  shows "elements_then stack (w0 @ s)"
proof -
  obtain v w r where s: "s = v @ w @ r" "loose_value (levels (CHR ''['' # stack)) v" "white w"
    "validate_loop ExpectCommaOrEnd (CHR ''['' # stack) r" "length r < length s"
    using assms(2) by (auto simp: value_then_def)
  from rest [OF s(5,4)] consider
    r' where "r = CHR '']'' # r'" "validate_loop ExpectCommaOrEnd stack (skipWs r')"
    | es where "r = CHR '','' # es" "elements_then stack es"
    by (auto simp: array_end_then_def)
  then show ?thesis
  proof cases
    case 1
    moreover have "loose_elements (levels (CHR ''['' # stack)) (w0 @ v @ w)"
      using assms(1) s by (intro element)
    ultimately show ?thesis
      unfolding elements_then_def s(1) by (intro exI [of _ "w0 @ v @ w"] exI [of _ r']) simp
  next
    case 2
    then obtain es' r' where "es = es' @ CHR '']'' # r'" "loose_elements (levels (CHR ''['' # stack)) es'"
      "validate_loop ExpectCommaOrEnd stack (skipWs r')"
      by (auto simp: elements_then_def)
    moreover from this have "loose_elements (levels (CHR ''['' # stack)) (w0 @ v @ w @ '','' @ es')"
      using assms(1) s by (intro more_elements)
    ultimately show ?thesis
      unfolding elements_then_def s(1) 2(1) by (intro exI [of _ "w0 @ v @ w @ '','' @ es'"] exI [of _ r']) simp
  qed
qed

lemma members_then_value:
  assumes "loose_string k" "white w2" "white w3" "value_then (CHR ''{'' # stack) s"
    and rest: "\<And>r. length r < length s \<Longrightarrow> validate_loop ExpectCommaOrEnd (CHR ''{'' # stack) r \<Longrightarrow>
      object_end_then stack r"
  shows "members_then stack (k @ w2 @ '':'' @ w3 @ s)"
proof -
  let ?n = "levels (CHR ''{'' # stack)"
  obtain v w r where s: "s = v @ w @ r" "loose_value ?n v" "white w"
    "validate_loop ExpectCommaOrEnd (CHR ''{'' # stack) r" "length r < length s"
    using assms(4) by (auto simp: value_then_def)
  from rest [OF s(5,4)] consider
    r' where "r = CHR ''}'' # r'" "validate_loop ExpectCommaOrEnd stack (skipWs r')"
    | ms where "r = CHR '','' # ms" "members_then stack ms"
    by (auto simp: object_end_then_def)
  then show ?thesis
  proof cases
    case 1
    moreover have "loose_members ?n ([] @ k @ w2 @ '':'' @ w3 @ v @ w)"
      using assms(1-3) s by (intro member) simp_all
    ultimately show ?thesis
      unfolding members_then_def s(1) by (intro exI [of _ "k @ w2 @ '':'' @ w3 @ v @ w"] exI [of _ r']) simp
  next
    case 2
    then obtain ms' r' where "ms = ms' @ CHR ''}'' # r'" "loose_members ?n ms'"
      "validate_loop ExpectCommaOrEnd stack (skipWs r')"
      by (auto simp: members_then_def)
    moreover from this have "loose_members ?n ([] @ k @ w2 @ '':'' @ w3 @ v @ w @ '','' @ ms')"
      using assms(1-3) s by (intro more_members) simp_all
    ultimately show ?thesis
      unfolding members_then_def s(1) 2(1)
      by (intro exI [of _ "k @ w2 @ '':'' @ w3 @ v @ w @ '','' @ ms'"] exI [of _ r']) simp
  qed
qed

lemma levels_open: "length stack < max_recursion_depth \<Longrightarrow> levels stack = Suc (levels (c # stack))"
  by simp

lemma value_then_container:
  assumes "loose_value (levels stack) v" "validate_loop ExpectCommaOrEnd stack (skipWs r)" "v \<noteq> []"
  shows "value_then stack (v @ r)"
proof -
  obtain w where "r = w @ skipWs r" "white w" using skipWs_split by blast
  then have "v @ r = v @ w @ skipWs r" by simp
  moreover have "length (skipWs r) < length (v @ r)"
    using assms(3) skipWs_length [of r] by (cases v) auto
  ultimately show ?thesis
    unfolding value_then_def using assms(1,2) \<open>white w\<close> by blast
qed

lemma object_then:
  assumes depth: "length stack < max_recursion_depth"
    and "(\<exists>r. skipWs cs = CHR ''}'' # r \<and> validate_loop ExpectCommaOrEnd stack (skipWs r)) \<or>
      members_then stack (skipWs cs)"
  shows "value_then stack (CHR ''{'' # cs)"
proof -
  obtain w where w: "cs = w @ skipWs cs" "white w" using skipWs_split by blast
  from assms(2) show ?thesis
  proof
    assume "\<exists>r. skipWs cs = CHR ''}'' # r \<and> validate_loop ExpectCommaOrEnd stack (skipWs r)"
    then obtain r where r: "skipWs cs = CHR ''}'' # r" "validate_loop ExpectCommaOrEnd stack (skipWs r)"
      by blast
    have "loose_value (levels stack) (''{'' @ w @ ''}'')"
      unfolding levels_open [OF depth, of "CHR ''{''"] using w(2) by (rule empty_object)
    then have "value_then stack ((''{'' @ w @ ''}'') @ r)"
      using r(2) by (intro value_then_container) simp_all
    with w(1) r(1) show ?thesis by simp
  next
    assume "members_then stack (skipWs cs)"
    then obtain ms r where r: "skipWs cs = ms @ CHR ''}'' # r" "loose_members (levels (CHR ''{'' # stack)) ms"
      "validate_loop ExpectCommaOrEnd stack (skipWs r)"
      by (auto simp: members_then_def)
    have "value_then stack ((''{'' @ (w @ ms) @ ''}'') @ r)"
      using r(3) members_white [OF r(2) w(2)]
      by (intro value_then_container) (simp_all only: levels_open [OF depth, of "CHR ''{''"] object, simp_all)
    with w(1) r(1) show ?thesis by simp
  qed
qed

lemma array_then:
  assumes depth: "length stack < max_recursion_depth"
    and "(\<exists>r. skipWs cs = CHR '']'' # r \<and> validate_loop ExpectCommaOrEnd stack (skipWs r)) \<or>
      elements_then stack cs"
  shows "value_then stack (CHR ''['' # cs)"
  using assms(2)
proof
  obtain w where w: "cs = w @ skipWs cs" "white w" using skipWs_split by blast
  assume "\<exists>r. skipWs cs = CHR '']'' # r \<and> validate_loop ExpectCommaOrEnd stack (skipWs r)"
  then obtain r where r: "skipWs cs = CHR '']'' # r" "validate_loop ExpectCommaOrEnd stack (skipWs r)"
    by blast
  have "loose_value (levels stack) (''['' @ w @ '']'')"
      unfolding levels_open [OF depth, of "CHR ''[''"] using w(2) by (rule empty_array)
    then have "value_then stack ((''['' @ w @ '']'') @ r)"
    using r(2) by (intro value_then_container) simp_all
  with w(1) r(1) show ?thesis by simp
next
  assume "elements_then stack cs"
  then obtain es r where r: "cs = es @ CHR '']'' # r" "loose_elements (levels (CHR ''['' # stack)) es"
    "validate_loop ExpectCommaOrEnd stack (skipWs r)"
    by (auto simp: elements_then_def)
  have "value_then stack ((''['' @ es @ '']'') @ r)"
    using r by (intro value_then_container) (simp_all only: levels_open [OF depth, of "CHR ''[''"] array, simp_all)
  with r(1) show ?thesis by simp
qed

lemma loop_ConsE:
  assumes "validate_loop st stack (c # cs)"
  obtains st' stack' r where "validate_step st stack c cs = Some (st', stack', r)"
    "validate_loop st' stack' (skipWs r)" "length (skipWs r) \<le> length cs"
  using assms by (auto simp: validate_loop.simps(2) split: option.splits dest: validate_step_shorter)

definition derivable :: "string \<Rightarrow> string \<Rightarrow> bool" where
  "derivable stack s \<longleftrightarrow>
     (validate_loop ExpectValue stack s \<longrightarrow> value_then stack s) \<and>
     (validate_loop ExpectKeyOrEnd (CHR ''{'' # stack) s \<and> s \<noteq> [] \<and> hd s \<noteq> CHR ''}'' \<longrightarrow> members_then stack s) \<and>
     (validate_loop ExpectCommaOrEnd (CHR ''{'' # stack) s \<longrightarrow> object_end_then stack s) \<and>
     (validate_loop ExpectCommaOrEnd (CHR ''['' # stack) s \<longrightarrow> array_end_then stack s)"

lemma derive_value:
  assumes IH: "\<And>s' stack. length s' < length s \<Longrightarrow> derivable stack s'" and "validate_loop ExpectValue stack s"
  shows "value_then stack s"
proof -
  obtain c cs where s: "s = c # cs" using assms(2) by (cases s) auto
  from assms(2) s obtain st' stack' r where step: "validate_step ExpectValue stack c cs = Some (st', stack', r)"
    and loop: "validate_loop st' stack' (skipWs r)" and len: "length (skipWs r) \<le> length cs"
    by (auto elim: loop_ConsE)
  from step show ?thesis
  proof (cases rule: accepted_value_step)
    case (word k)
    moreover have "k \<noteq> []" using loose_value_opens [OF word(1) [of 0]] by (auto simp: opens_def)
    ultimately show ?thesis using value_then_container [of stack k r] loop s by simp
  next
    case object
    have d: "derivable stack (skipWs cs)" using IH [of "skipWs cs" stack] len object(4) s by simp
    show ?thesis
    proof (cases "skipWs cs \<noteq> [] \<and> hd (skipWs cs) = CHR ''}''")
      case True
      then obtain r' where "skipWs cs = CHR ''}'' # r'" by (cases "skipWs cs") auto
      with loop object True show ?thesis
        unfolding s object(1) by (intro object_then) (auto simp: accept_close)
    next
      case False
      with loop object have l: "validate_loop ExpectKeyOrEnd (CHR ''{'' # stack) (skipWs cs)" by auto
      then have "skipWs cs \<noteq> []" by auto
      with False l d have "members_then stack (skipWs cs)" by (simp add: derivable_def)
      then show ?thesis unfolding s object(1) using object(2) by (intro object_then) auto
    qed
  next
    case array
    obtain w where w: "cs = w @ skipWs cs" "white w" using skipWs_split by blast
    show ?thesis
    proof (cases "skipWs cs \<noteq> [] \<and> hd (skipWs cs) = CHR '']''")
      case True
      then obtain r' where "skipWs cs = CHR '']'' # r'" by (cases "skipWs cs") auto
      with loop array True show ?thesis
        unfolding s array(1) by (intro array_then) (auto simp: accept_close)
    next
      case False
      with loop array have l: "validate_loop ExpectValue (CHR ''['' # stack) (skipWs cs)" by auto
      have "value_then (CHR ''['' # stack) (skipWs cs)"
        using IH [of "skipWs cs" "CHR ''['' # stack"] l len array(4) s by (simp add: derivable_def)
      moreover have "array_end_then stack r'"
        if "length r' < length (skipWs cs)" "validate_loop ExpectCommaOrEnd (CHR ''['' # stack) r'" for r'
        using IH [of r' stack] that len array(4) s by (simp add: derivable_def)
      ultimately have "elements_then stack (w @ skipWs cs)" using w(2) by (intro elements_then_value)
      then show ?thesis unfolding s array(1) using array(2) w(1) by (intro array_then) auto
    qed
  qed
qed

lemma derive_members:
  assumes IH: "\<And>s' stack. length s' < length s \<Longrightarrow> derivable stack s'"
    and "validate_loop ExpectKeyOrEnd (CHR ''{'' # stack) s" "hd s \<noteq> CHR ''}''"
  shows "members_then stack s"
proof -
  let ?st = "CHR ''{'' # stack"
  obtain c cs where s: "s = c # cs" using assms(2) by (cases s) auto
  with assms(2,3) obtain r where key: "c = quote" "accept_string ExpectColon ?st cs = Some (ExpectColon, ?st, r)"
    and loop: "validate_loop ExpectColon ?st (skipWs r)"
    by (auto simp: validate_loop.simps(2) validate_step_def expect_key_def accept_string_def Let_def
        split: option.splits if_splits)
  obtain k where k: "loose_string k" "s = k @ r" using accepted_string [OF key(2)] key(1) s by auto
  obtain w2 where w2: "r = w2 @ skipWs r" "white w2" using skipWs_split by blast
  obtain y where y: "skipWs r = CHR '':'' # y" and val: "validate_loop ExpectValue ?st (skipWs y)"
    using loop by (cases "skipWs r") (auto simp: validate_loop.simps(2) validate_step_def split: if_splits)
  obtain w3 where w3: "y = w3 @ skipWs y" "white w3" using skipWs_split by blast
  have len: "length (skipWs y) < length s"
    using skipWs_length [of y] skipWs_length [of r] y k(2) by simp
  have "value_then ?st (skipWs y)" using IH [OF len] val by (simp add: derivable_def)
  moreover have "object_end_then stack r'"
    if "length r' < length (skipWs y)" "validate_loop ExpectCommaOrEnd ?st r'" for r'
    using IH [of r' stack] that len by (simp add: derivable_def)
  ultimately have "members_then stack (k @ w2 @ '':'' @ w3 @ skipWs y)"
    using k(1) w2(2) w3(2) by (intro members_then_value)
  moreover have "s = k @ w2 @ '':'' @ w3 @ skipWs y" using k(2) w2(1) w3(1) y by simp
  ultimately show ?thesis by simp
qed

lemma derive_object_end:
  assumes IH: "\<And>s' stack. length s' < length s \<Longrightarrow> derivable stack s'"
    and "validate_loop ExpectCommaOrEnd (CHR ''{'' # stack) s"
  shows "object_end_then stack s"
proof -
  obtain c cs where s: "s = c # cs" using assms(2) by (cases s) auto
  from assms(2) s obtain st' stack' r where
    step: "validate_step ExpectCommaOrEnd (CHR ''{'' # stack) c cs = Some (st', stack', r)"
    and loop: "validate_loop st' stack' (skipWs r)"
    by (auto elim: loop_ConsE)
  from step show ?thesis
  proof (cases rule: accepted_comma_step)
    case comma
    obtain w where w: "cs = w @ skipWs cs" "white w" using skipWs_split by blast
    have "members_then stack (skipWs cs)"
      using IH [of "skipWs cs" stack] skipWs_length [of cs] loop comma s by (simp add: derivable_def)
    then obtain ms r' where "skipWs cs = ms @ CHR ''}'' # r'" "loose_members (levels (CHR ''{'' # stack)) ms"
      "validate_loop ExpectCommaOrEnd stack (skipWs r')"
      by (auto simp: members_then_def)
    with w have "cs = (w @ ms) @ CHR ''}'' # r' \<and> loose_members (levels (CHR ''{'' # stack)) (w @ ms) \<and>
        validate_loop ExpectCommaOrEnd stack (skipWs r')"
      using members_white by auto
    then have "members_then stack cs" unfolding members_then_def by blast
    with comma s show ?thesis by (simp add: object_end_then_def)
  qed (use loop s in \<open>auto simp: object_end_then_def\<close>)
qed

lemma derive_array_end:
  assumes IH: "\<And>s' stack. length s' < length s \<Longrightarrow> derivable stack s'"
    and "validate_loop ExpectCommaOrEnd (CHR ''['' # stack) s"
  shows "array_end_then stack s"
proof -
  obtain c cs where s: "s = c # cs" using assms(2) by (cases s) auto
  from assms(2) s obtain st' stack' r where
    step: "validate_step ExpectCommaOrEnd (CHR ''['' # stack) c cs = Some (st', stack', r)"
    and loop: "validate_loop st' stack' (skipWs r)"
    by (auto elim: loop_ConsE)
  from step show ?thesis
  proof (cases rule: accepted_comma_step)
    case comma
    obtain w where w: "cs = w @ skipWs cs" "white w" using skipWs_split by blast
    have len: "length (skipWs cs) < length s" using skipWs_length [of cs] s by simp
    have "value_then (CHR ''['' # stack) (skipWs cs)"
      using IH [OF len] loop comma by (simp add: derivable_def)
    moreover have "array_end_then stack r'"
      if "length r' < length (skipWs cs)" "validate_loop ExpectCommaOrEnd (CHR ''['' # stack) r'" for r'
      using IH [of r' stack] that len by (simp add: derivable_def)
    ultimately have "elements_then stack (w @ skipWs cs)" using w(2) by (intro elements_then_value)
    with comma s w(1) show ?thesis by (simp add: array_end_then_def)
  qed (use loop s in \<open>auto simp: array_end_then_def\<close>)
qed

lemma all_derivable: "derivable stack s"
proof (induction s arbitrary: stack rule: measure_induct_rule [of length])
  case (less s)
  show ?case
    unfolding derivable_def
    using derive_value [OF less] derive_members [OF less] derive_object_end [OF less] derive_array_end [OF less]
    by blast
qed

text \<open>At the top there is no bracket to be closed, but a comma may follow.\<close>

lemma top_elements:
  "validate_loop ExpectValue [] s \<Longrightarrow> loose_elements max_recursion_depth s"
proof (induction s rule: measure_induct_rule [of length])
  case (less s)
  have then_value: "value_then [] s"
    using all_derivable [of "[]" s] less.prems by (simp add: derivable_def)
  obtain v w r where s: "s = v @ w @ r" "loose_value max_recursion_depth v" "white w"
    "validate_loop ExpectCommaOrEnd [] r" "length r < length s"
    using then_value by (auto simp: value_then_def)
  show ?case
  proof (cases r)
    case Nil
    then show ?thesis using element [of "[]" loose_string loose_number _ v w] s by simp
  next
    case (Cons c cs)
    with s(4) obtain st' stack' r' where step: "validate_step ExpectCommaOrEnd [] c cs = Some (st', stack', r')"
      and loop: "validate_loop st' stack' (skipWs r')"
      by (auto elim: loop_ConsE)
    from step have c: "c = CHR '',''" and l: "validate_loop ExpectValue [] (skipWs cs)"
      using loop by (auto elim!: accepted_comma_step)
    obtain w' where w': "cs = w' @ skipWs cs" "white w'" using skipWs_split by blast
    have "loose_elements max_recursion_depth (skipWs cs)"
      using less.IH [OF _ l] skipWs_length [of cs] s(5) Cons by simp
    then have "loose_elements max_recursion_depth cs" using elements_white w' by metis
    then show ?thesis using more_elements [of "[]" loose_string loose_number _ v w cs] s c Cons by simp
  qed
qed

section \<open>Properties\<close>

lemma validate_iff: "validate_json json \<longleftrightarrow> loose_elements max_recursion_depth json"
proof
  assume "validate_json json"
  then have "validate_loop ExpectValue [] (skipWs json)" by (simp add: validate_json_def split: if_splits)
  then have "loose_elements max_recursion_depth (skipWs json)" by (rule top_elements)
  moreover obtain w where "json = w @ skipWs json" "white w" using skipWs_split by blast
  ultimately show "loose_elements max_recursion_depth json" using elements_white by metis
next
  assume es: "loose_elements max_recursion_depth json"
  have "skipWs json \<noteq> []" using loose_elements_opens [OF es, of "[]"] by (auto simp: opens_def)
  moreover have "validate_loop ExpectValue [] (skipWs json)"
    using accepts(3) [OF es, of "[]" "[]"] by simp
  ultimately show "validate_json json" by (auto simp: validate_json_def)
qed

text \<open>
  C16: \<open>JsonReader::validate\<close> against the grammar of JSON (RFC 8259). It refuses no document: a text
  that is one JSON value nested at most 32 deep, with white space around it, is accepted.
  And what it accepts has the structure of JSON, though not its words: it is a list of
  values with commas between them that the rules of JSON for objects, arrays and literals
  derive, nested at most 32 deep, where only the strings and numbers are looser than those of JSON (any
  character in a string and behind a backslash, any run of the characters of numbers and of zero bytes
  behind the first one as a number) and where a comma may follow the value at the
  top. Every such text is accepted, so these are all the ways in which the validation is not strict.
\<close>

theorem validate_recognises:
  "(strict_document max_recursion_depth json \<longrightarrow> validate_json json)
    \<and> (validate_json json \<longleftrightarrow> loose_elements max_recursion_depth json)"
  using strict_document_loose validate_iff by blast

theorem validate_recognises_witness:
  "validate_json ('' {'' @ [quote, CHR ''a'', quote] @ '': [-0.5e+3, null]}'') \<and> \<not> validate_json ''[1,]''"
proof -
  have w: "white []" "white '' ''" by (simp_all add: white_def)
  have d: "decimal ''0''" "decimal ''5''" "decimal ''3''" by (simp_all add: decimal_def)
  then have e: "\<exists>x sg ds. ''e+3'' = x @ sg @ ds \<and> x \<in> {''e'', ''E''} \<and> sg \<in> {[], ''+'', ''-''} \<and> decimal ds"
    by (intro exI [of _ "''e''"] exI [of _ "''+''"] exI [of _ "''3''"]) simp
  have "strict_number ''-0.5e+3''"
    unfolding strict_number_def
    by (rule exI [of _ "''-''"], rule exI [of _ "''0''"], rule exI [of _ "''.5''"], rule exI [of _ "''e+3''"]) (use d e in simp)
  then have "elements_of strict_string strict_number 30 ([] @ ''-0.5e+3'' @ [] @ '','' @ ('' '' @ ''null'' @ []))"
    using w by (intro more_elements element) (simp_all add: number_value literal_value)
  then have "strict_value (Suc 30) (''['' @ ''-0.5e+3, null'' @ '']'')"
    by (intro array) simp
  moreover have "strict_string [quote, CHR ''a'', quote]"
    unfolding strict_string_def by (intro exI [of _ "''a''"]) simp
  ultimately have "members_of strict_string strict_number 31 ([] @ [quote, CHR ''a'', quote] @ [] @ '':'' @ '' '' @ ''[-0.5e+3, null]'' @ [])"
    using w by (intro member) simp_all
  then have "strict_value (Suc 31) (''{'' @ ([quote, CHR ''a'', quote] @ '': [-0.5e+3, null]'') @ ''}'')"
    by (intro object) simp
  then have "strict_document max_recursion_depth ('' {'' @ [quote, CHR ''a'', quote] @ '': [-0.5e+3, null]}'')"
    unfolding strict_document_def max_recursion_depth_def using w
    by (intro exI [of _ "'' ''"] exI [of _ "''{'' @ ([quote, CHR ''a'', quote] @ '': [-0.5e+3, null]'') @ ''}''"] exI [of _ "[]"]) simp
  moreover have "\<not> validate_json ''[1,]''" by code_simp
  ultimately show ?thesis using validate_recognises by blast
qed

text \<open>Two documents in one, and a zero byte and two points in a number.\<close>

theorem validate_too_generous:
  "validate_json ''{},[1]''" "validate_json ''[1.2.3]''" "validate_json [CHR ''1'', CHR 0x00]"
  by (simp_all add: validate_json_def validate_loop.simps(2) validate_step_def expect_value_def
      open_container_def expect_comma_def close_container_def skipWs_def is_ws_def is_digit_def
      number_char_def max_recursion_depth_def)

end
