(* ===== verification/Json_Reader.thy ===== *)
theory Json_Reader
  imports Json_Validator
begin

text \<open>
  The pull parser of \<open>src/ebus/utils/json_reader.cpp\<close>. The position of the reader is the text
  behind it, \<open>jr_rest\<close>; the text between two positions is what the longer of the two has in
  front. A view without data (\<open>nullptr\<close>) is \<open>None\<close>. The texts fed in pieces and their
  buffers are not modelled: \<open>jr_ended\<close> tells whether the text is complete.
\<close>

section \<open>State\<close>

datatype Token =
    T_end | T_object_start | T_object_end | T_array_start | T_array_end | T_key | T_string
  | T_number | T_boolean | T_null | T_error | T_need_more_data

record json_reader =
  jr_json :: string
  jr_rest :: string
  jr_value :: string
  jr_ended :: bool
  jr_need_more_data :: bool
  jr_rawvalue_start :: string
  jr_rawvalue_in_progress :: bool
  jr_skip_in_string :: bool
  jr_skip_depth :: nat

definition skipWhitespace :: "json_reader \<Rightarrow> json_reader" where
  "skipWhitespace r = r\<lparr>jr_rest := skipWs (jr_rest r)\<rparr>"

text \<open>The reader of a complete text.\<close>

definition JsonReader :: "string \<Rightarrow> json_reader" where
  "JsonReader json =
     skipWhitespace \<lparr>jr_json = json, jr_rest = json, jr_value = [], jr_ended = True,
       jr_need_more_data = False, jr_rawvalue_start = [], jr_rawvalue_in_progress = False,
       jr_skip_in_string = False, jr_skip_depth = 1\<rparr>"

definition jr_reset :: "json_reader \<Rightarrow> json_reader" where
  "jr_reset r =
     skipWhitespace (r\<lparr>jr_rest := jr_json r, jr_value := [], jr_need_more_data := False,
       jr_rawvalue_start := jr_json r, jr_rawvalue_in_progress := False, jr_skip_in_string := False,
       jr_skip_depth := 1\<rparr>)"

section \<open>Tokens\<close>

text \<open>
  The loop of \<open>readString\<close> behind the opening quote: the text behind the closing quote. The
  escape \<open>\u\<close> takes four more characters, whatever they are.
\<close>

fun read_body :: "string \<Rightarrow> string option" where
  "read_body [] = None"
| "read_body (c # cs) =
     (if c = backslash then
        (case cs of
           [] \<Rightarrow> None
         | d # ds \<Rightarrow>
             if d = CHR ''u'' then (if length cs < 5 then None else read_body (drop 5 cs))
             else read_body ds)
      else if c = quote then Some cs
      else read_body cs)"

definition text_between :: "string \<Rightarrow> string \<Rightarrow> string" where
  "text_between s s' = take (length s - length s') s"

definition need_more :: "json_reader \<Rightarrow> Token \<times> json_reader" where
  "need_more r = (T_need_more_data, r\<lparr>jr_need_more_data := True\<rparr>)"

definition bracket :: "Token \<Rightarrow> json_reader \<Rightarrow> Token \<times> json_reader" where
  "bracket t r = (t, r\<lparr>jr_rest := tl (jr_rest r)\<rparr>)"

definition next_string :: "json_reader \<Rightarrow> Token \<times> json_reader" where
  "next_string r =
     (let s = tl (jr_rest r) in
      case read_body s of
        None \<Rightarrow> if jr_ended r then (T_error, r\<lparr>jr_value := []\<rparr>) else need_more (r\<lparr>jr_value := []\<rparr>)
      | Some s' \<Rightarrow>
          (let r1 = r\<lparr>jr_value := butlast (text_between s s'), jr_rest := s'\<rparr>;
               s'' = skipWs s'
           in if s'' \<noteq> [] \<and> hd s'' = CHR '':'' then (T_key, r1\<lparr>jr_rest := s''\<rparr>) else (T_string, r1)))"

definition next_literal :: "string \<Rightarrow> Token \<Rightarrow> json_reader \<Rightarrow> Token \<times> json_reader" where
  "next_literal lit t r =
     (let s = jr_rest r; n = length lit in
      if n \<le> length s \<and> take n s = lit then (t, r\<lparr>jr_value := lit, jr_rest := drop n s\<rparr>)
      else if \<not> jr_ended r \<and> n > length s then need_more r
      else (T_error, r))"

definition numeric_char :: "char \<Rightarrow> bool" where
  "numeric_char c \<longleftrightarrow> is_digit c \<or> c \<in> set ''.eE+-''"

definition next_number :: "json_reader \<Rightarrow> Token \<times> json_reader" where
  "next_number r =
     (let s = jr_rest r; s' = dropWhile numeric_char (if hd s = CHR ''-'' then tl s else s) in
      if \<not> jr_ended r \<and> s' = [] then need_more r
      else (T_number, r\<lparr>jr_value := text_between s s', jr_rest := s'\<rparr>))"

text \<open>The part of \<open>next\<close> behind the separators.\<close>

definition next_value :: "json_reader \<Rightarrow> Token \<times> json_reader" where
  "next_value r =
     (let c = hd (jr_rest r) in
      if c = CHR ''{'' then bracket T_object_start r
      else if c = CHR ''}'' then bracket T_object_end r
      else if c = CHR ''['' then bracket T_array_start r
      else if c = CHR '']'' then bracket T_array_end r
      else if c = quote then next_string r
      else if c = CHR ''t'' then next_literal ''true'' T_boolean r
      else if c = CHR ''f'' then next_literal ''false'' T_boolean r
      else if c = CHR ''n'' then next_literal ''null'' T_null r
      else if is_digit c \<or> c = CHR ''-'' then next_number r
      else (T_error, r))"

definition jr_next :: "json_reader \<Rightarrow> Token \<times> json_reader" where
  "jr_next r0 =
     (let r1 = skipWhitespace r0 in
      if jr_rest r1 = [] then (if jr_ended r1 then (T_end, r1) else need_more r1)
      else
        (let r2 = r1\<lparr>jr_need_more_data := False\<rparr>; c = hd (jr_rest r2) in
         if c = CHR '':'' \<or> c = CHR '','' then
           (let r3 = skipWhitespace (r2\<lparr>jr_rest := tl (jr_rest r2)\<rparr>) in
            if jr_rest r3 = [] then (if jr_ended r3 then (T_error, r3) else need_more r3)
            else next_value r3)
         else next_value r2))"

section \<open>Skipping\<close>

text \<open>
  The loop of \<open>skipToClosing\<close>: where it stops, with the depth and whether inside a string; the
  flag tells that it stopped at an escape at the very end of the text.
\<close>

fun skip_loop :: "bool \<Rightarrow> nat \<Rightarrow> string \<Rightarrow> bool \<times> nat \<times> string \<times> bool" where
  "skip_loop in_string depth [] = (in_string, depth, [], False)"
| "skip_loop in_string depth (c # cs) =
     (if depth = 0 then (in_string, depth, c # cs, False)
      else if in_string then
        (if c = backslash then
           (if cs = [] then (in_string, depth, c # cs, True) else skip_loop True depth (tl cs))
         else if c = quote then skip_loop False depth cs
         else skip_loop True depth cs)
      else if c = quote then skip_loop True depth cs
      else if c = CHR ''{'' \<or> c = CHR ''['' then skip_loop False (depth + 1) cs
      else if c = CHR ''}'' \<or> c = CHR '']'' then skip_loop False (depth - 1) cs
      else skip_loop False depth cs)"

definition skipToClosing :: "json_reader \<Rightarrow> json_reader" where
  "skipToClosing r =
     (let (in_string, depth, s, at_escape) = skip_loop (jr_skip_in_string r) (jr_skip_depth r) (jr_rest r) in
      if at_escape then
        (if \<not> jr_ended r
         then r\<lparr>jr_rest := s, jr_need_more_data := True, jr_skip_in_string := True, jr_skip_depth := depth\<rparr>
         else r\<lparr>jr_rest := []\<rparr>)
      else if depth > 0
      then r\<lparr>jr_rest := s, jr_need_more_data := True, jr_skip_in_string := in_string, jr_skip_depth := depth\<rparr>
      else r\<lparr>jr_rest := s, jr_skip_in_string := False, jr_skip_depth := 1, jr_need_more_data := False\<rparr>)"

definition skipComposite :: "Token \<Rightarrow> json_reader \<Rightarrow> json_reader" where
  "skipComposite t r = (if t = T_object_start \<or> t = T_array_start then skipToClosing r else r)"

definition skipValue :: "json_reader \<Rightarrow> json_reader" where
  "skipValue r =
     (let (t, r') = jr_next r in
      if t = T_need_more_data then r'
      else if t = T_object_start \<or> t = T_array_start then skipToClosing r' else r')"

definition rawValue :: "json_reader \<Rightarrow> string \<times> json_reader" where
  "rawValue r =
     (if jr_rawvalue_in_progress r then
        (let r1 = skipToClosing r in
         if jr_need_more_data r1 then ([], r1)
         else (text_between (jr_rawvalue_start r1) (jr_rest r1), r1\<lparr>jr_rawvalue_in_progress := False\<rparr>))
      else
        (let r1 = skipWhitespace r;
             r2 = (if jr_rest r1 \<noteq> [] \<and> (hd (jr_rest r1) = CHR '':'' \<or> hd (jr_rest r1) = CHR '','')
                   then skipWhitespace (r1\<lparr>jr_rest := tl (jr_rest r1)\<rparr>) else r1);
             (t, r3) = jr_next r2
         in if t = T_need_more_data then ([], r3)
            else
              (let r4 = (if t = T_object_start \<or> t = T_array_start then skipToClosing r3 else r3) in
               if (t = T_object_start \<or> t = T_array_start) \<and> jr_need_more_data r4
               then ([], r4\<lparr>jr_rawvalue_start := jr_rest r2, jr_rawvalue_in_progress := True\<rparr>)
               else if t = T_end \<or> t = T_error then ([], r4)
               else (text_between (jr_rest r2) (jr_rest r4), r4))))"

section \<open>Searching\<close>

lemma read_body_length: "read_body s = Some s' \<Longrightarrow> length s' < length s"
proof (induction s rule: read_body.induct)
  case (2 c cs)
  show ?case
  proof (cases cs)
    case Nil
    with "2.prems" show ?thesis by (auto split: if_splits)
  next
    case (Cons d ds)
    with 2 show ?thesis by (auto split: if_splits)
  qed
qed simp

text \<open>Every token but those that stop a search takes at least one character.\<close>

definition stops :: "Token \<Rightarrow> bool" where
  "stops t \<longleftrightarrow> t \<in> {T_end, T_error, T_need_more_data}"

lemma skipWs_less: "length s < n \<Longrightarrow> length (skipWs s) < Suc n"
  using skipWs_length [of s] by simp

lemma next_value_shorter:
  assumes "next_value r = (t, r')" "\<not> stops t" "jr_rest r \<noteq> []"
  shows "length (jr_rest r') < length (jr_rest r)"
proof -
  obtain c cs where s: "jr_rest r = c # cs" using assms(3) by (cases "jr_rest r") auto
  have "length (dropWhile numeric_char cs) \<le> length cs" by (rule length_dropWhile_le)
  then show ?thesis
    using assms(1,2) s read_body_length [of cs]
    by (auto simp: next_value_def bracket_def next_string_def next_literal_def next_number_def need_more_def
        stops_def numeric_char_def Let_def split: if_splits option.splits intro: skipWs_less)
qed

lemma jr_next_shorter:
  assumes "jr_next r = (t, r')" "\<not> stops t"
  shows "length (jr_rest r') < length (jr_rest r)"
proof -
  let ?s = "skipWs (jr_rest r)"
  have le: "length ?s \<le> length (jr_rest r)" "length (skipWs (tl ?s)) \<le> length (tl ?s)"
    by (rule skipWs_length)+
  have "?s \<noteq> []" using assms by (auto simp: jr_next_def skipWhitespace_def need_more_def stops_def Let_def split: if_splits)
  then consider "next_value (r\<lparr>jr_rest := ?s, jr_need_more_data := False\<rparr>) = (t, r')"
    | "skipWs (tl ?s) \<noteq> []" "next_value (r\<lparr>jr_need_more_data := False, jr_rest := skipWs (tl ?s)\<rparr>) = (t, r')"
    using assms by (auto simp: jr_next_def skipWhitespace_def need_more_def stops_def Let_def split: if_splits)
  then show ?thesis
  proof cases
    case 1
    then show ?thesis using next_value_shorter [OF 1 assms(2)] \<open>?s \<noteq> []\<close> le by simp
  next
    case 2
    then show ?thesis using next_value_shorter [OF 2(2) assms(2)] le by simp
  qed
qed

text \<open>\<open>findKey\<close>, with the number of containers that were opened on the way.\<close>

function find_key_loop :: "string \<Rightarrow> nat \<Rightarrow> json_reader \<Rightarrow> bool \<times> json_reader" where
  "find_key_loop target depth r =
     (let (t, r') = jr_next r in
      if stops t then (False, r')
      else if t = T_object_start \<or> t = T_array_start then find_key_loop target (depth + 1) r'
      else if t = T_object_end \<or> t = T_array_end
      then (if depth = 0 then (False, r') else find_key_loop target (depth - 1) r')
      else if t = T_key \<and> depth = 0 \<and> jr_value r' = target then (True, r')
      else find_key_loop target depth r')"
  by pat_completeness auto
termination
  by (relation "measure (\<lambda>(_, _, r). length (jr_rest r))") (auto dest: jr_next_shorter [OF sym])

declare find_key_loop.simps [simp del]

definition findKey :: "string \<Rightarrow> json_reader \<Rightarrow> bool \<times> json_reader" where
  "findKey target r = find_key_loop target 0 r"

text \<open>\<open>parseIndex\<close>: decimal digits and nothing else, within \<open>size_t\<close>.\<close>

definition parseIndex :: "string \<Rightarrow> nat option" where
  "parseIndex s =
     (let n = foldl (\<lambda>n c. 10 * n + (of_char c - 48)) 0 s in
      if s \<noteq> [] \<and> list_all is_digit s \<and> n < 2 ^ 64 then Some n else None)"

text \<open>The segments of a path, between the points.\<close>

fun path_segments :: "string \<Rightarrow> string list" where
  "path_segments [] = [[]]"
| "path_segments (c # cs) =
     (if c = CHR ''.'' then [] # path_segments cs
      else (case path_segments cs of [] \<Rightarrow> [[c]] | seg # segs \<Rightarrow> (c # seg) # segs))"

definition container :: "Token \<Rightarrow> bool" where
  "container t \<longleftrightarrow> t = T_object_start \<or> t = T_array_start"

text \<open>The token of one segment within a container; \<open>T_error\<close> where the code returns it.\<close>

definition get_segment :: "Token \<Rightarrow> string \<Rightarrow> json_reader \<Rightarrow> Token \<times> json_reader" where
  "get_segment kind segment r =
     (if kind = T_object_start then
        (let (found, r1) = findKey segment r in
         if \<not> found then (T_error, r1)
         else (let (t, r2) = jr_next r1 in (if t = T_need_more_data then T_error else t, r2)))
      else
        (case parseIndex segment of
           None \<Rightarrow> (T_error, r)
         | Some index \<Rightarrow>
             (let (t, r2) = jr_next ((skipValue ^^ index) r) in
              (if t = T_array_end \<or> stops t then T_error else t, r2))))"

fun get_path :: "Token \<Rightarrow> string list \<Rightarrow> json_reader \<Rightarrow> Token \<times> json_reader" where
  "get_path kind [] r = (T_error, r)"
| "get_path kind (segment # segments) r =
     (let (t, r') = get_segment kind segment r in
      if segments = [] then (t, r')
      else if \<not> container t then (T_error, r')
      else get_path t segments r')"

definition jr_get :: "string \<Rightarrow> json_reader \<Rightarrow> Token \<times> json_reader" where
  "jr_get path r =
     (let (t, r1) = jr_next (jr_reset r) in
      if \<not> container t then (T_error, r1) else get_path t (path_segments path) r1)"

definition endOfInput :: "json_reader \<Rightarrow> json_reader" where
  "endOfInput r = r\<lparr>jr_ended := True, jr_need_more_data := jr_rawvalue_in_progress r\<rparr>"

definition asBool :: "json_reader \<Rightarrow> bool" where
  "asBool r \<longleftrightarrow> jr_value r = ''true''"

end
