(* ===== verification/Json_Lookup.thy ===== *)
theory Json_Lookup
  imports Json_Grammar Json_Reader
begin

text \<open>
  Searching in a document: in the text of an object the reader finds the value of a key as a
  map from keys to values would. The reader works on any text; the documents are those of
  the grammar, without the escape \<open>\u\<close> (which it reads differently than \<open>validate\<close>) and
  without zero bytes.
\<close>

section \<open>Documents\<close>

fun no_unicode :: "string \<Rightarrow> bool" where
  "no_unicode (c # d # s) \<longleftrightarrow> \<not> (c = backslash \<and> d = CHR ''u'') \<and> no_unicode (d # s)"
| "no_unicode _ \<longleftrightarrow> True"

definition plain_text :: "string \<Rightarrow> bool" where
  "plain_text s \<longleftrightarrow> no_unicode s \<and> CHR 0x00 \<notin> set s"

lemma no_unicode_append: "no_unicode (a @ b) \<Longrightarrow> no_unicode a \<and> no_unicode b"
proof (induction a)
  case (Cons c a)
  then show ?case by (cases a; cases b) auto
qed simp

lemma plain_append: "plain_text (a @ b) \<Longrightarrow> plain_text a \<and> plain_text b"
  using no_unicode_append [of a b] by (auto simp: plain_text_def)

lemma plain_Cons: "plain_text (c # b) \<Longrightarrow> plain_text b"
  using plain_append [of "[c]" b] by simp

text \<open>The members of an object with their keys and values, in their order.\<close>

inductive member_list :: "nat \<Rightarrow> (string \<times> string) list \<Rightarrow> string \<Rightarrow> bool" where
  last_member: "white w1 \<Longrightarrow> string_body k \<Longrightarrow> white w2 \<Longrightarrow> white w3 \<Longrightarrow> loose_value n v \<Longrightarrow> white w4 \<Longrightarrow>
    member_list n [(k, v)] (w1 @ [quote] @ k @ [quote] @ w2 @ '':'' @ w3 @ v @ w4)"
| one_more: "white w1 \<Longrightarrow> string_body k \<Longrightarrow> white w2 \<Longrightarrow> white w3 \<Longrightarrow> loose_value n v \<Longrightarrow> white w4 \<Longrightarrow>
    member_list n kvs ms \<Longrightarrow>
    member_list n ((k, v) # kvs) (w1 @ [quote] @ k @ [quote] @ w2 @ '':'' @ w3 @ v @ w4 @ '','' @ ms)"

text \<open>The token a value begins with.\<close>

definition token_of :: "string \<Rightarrow> Token" where
  "token_of v =
     (let c = hd v in
      if c = CHR ''{'' then T_object_start
      else if c = CHR ''['' then T_array_start
      else if c = quote then T_string
      else if c = CHR ''t'' \<or> c = CHR ''f'' then T_boolean
      else if c = CHR ''n'' then T_null
      else T_number)"

section \<open>One token\<close>

text \<open>In front of a token there are white space and at most one separator.\<close>

definition lead :: "string \<Rightarrow> string \<Rightarrow> bool" where
  "lead s x \<longleftrightarrow>
     (\<exists>w0 sep w. s = w0 @ sep @ w @ x \<and> white w0 \<and> white w \<and> (sep = [] \<or> sep = '':'' \<or> sep = '',''))"

definition token_start :: "char \<Rightarrow> bool" where
  "token_start c \<longleftrightarrow> \<not> is_ws c \<and> c \<noteq> CHR '':'' \<and> c \<noteq> CHR '',''"

definition goes_on :: "json_reader \<Rightarrow> Token \<Rightarrow> string \<Rightarrow> bool" where
  "goes_on r t s \<longleftrightarrow> (\<exists>r'. jr_next r = (t, r') \<and> jr_ended r' \<and> jr_rest r' = s)"

lemma next_lead:
  assumes "lead (jr_rest r) x" "skipWs x = c # cs" "token_start c" "jr_ended r"
  shows "\<exists>r'. jr_next r = next_value r' \<and> jr_rest r' = c # cs \<and> jr_ended r'"
proof -
  obtain w0 sep w where l: "jr_rest r = w0 @ sep @ w @ x" "white w0" "white w"
    "sep = [] \<or> sep = '':'' \<or> sep = '',''"
    using assms(1) by (auto simp: lead_def)
  have x: "skipWs (w @ x) = c # cs" using assms(2) l(3) by simp
  from l(4) show ?thesis
  proof (elim disjE)
    assume "sep = []"
    then have "jr_next r = next_value (r\<lparr>jr_rest := c # cs, jr_need_more_data := False\<rparr>)"
      using l x assms(2,3) by (simp add: jr_next_def skipWhitespace_def Let_def token_start_def)
    then show ?thesis using assms(4) by force
  next
    assume "sep = '':''"
    then have "jr_next r = next_value (r\<lparr>jr_need_more_data := False, jr_rest := c # cs\<rparr>)"
      using l x assms(2,3) by (simp add: jr_next_def skipWhitespace_def Let_def)
    then show ?thesis using assms(4) by force
  next
    assume "sep = '',''"
    then have "jr_next r = next_value (r\<lparr>jr_need_more_data := False, jr_rest := c # cs\<rparr>)"
      using l x assms(2,3) by (simp add: jr_next_def skipWhitespace_def Let_def)
    then show ?thesis using assms(4) by force
  qed
qed

lemma next_bracket:
  assumes "lead (jr_rest r) x" "skipWs x = c # cs" "jr_ended r"
    and "(c, t) \<in> {(CHR ''{'', T_object_start), (CHR ''}'', T_object_end), (CHR ''['', T_array_start), (CHR '']'', T_array_end)}"
  shows "goes_on r t cs"
proof -
  have "token_start c" using assms(4) by (auto simp: token_start_def)
  from next_lead [OF assms(1,2) this assms(3)] show ?thesis
    using assms(4) by (auto simp: goes_on_def next_value_def bracket_def)
qed

lemma read_body_plain:
  "string_body b \<Longrightarrow> no_unicode b \<Longrightarrow> read_body (b @ quote # x) = Some x"
proof (induction b rule: string_body.induct)
  case (2 c cs)
  show ?case
  proof (cases "c = backslash")
    case True
    with "2.prems" obtain d ds where cs: "cs = d # ds" "string_body ds" by (auto split: list.splits)
    moreover have "no_unicode ds" using no_unicode_append [of "[c, d]" ds] "2.prems"(2) cs by simp
    ultimately show ?thesis using 2 True by auto
  next
    case False
    moreover have "no_unicode cs" using no_unicode_append [of "[c]" cs] "2.prems"(2) by simp
    ultimately show ?thesis using 2 by (auto split: if_splits)
  qed
qed simp

lemma next_string_token:
  assumes "lead (jr_rest r) x" "skipWs x = quote # b @ quote # s" "jr_ended r" "string_body b" "no_unicode b"
  shows "skipWs s \<noteq> [] \<and> hd (skipWs s) = CHR '':'' \<Longrightarrow>
      \<exists>r'. jr_next r = (T_key, r') \<and> jr_value r' = b \<and> jr_ended r' \<and> jr_rest r' = skipWs s"
    and "\<not> (skipWs s \<noteq> [] \<and> hd (skipWs s) = CHR '':'') \<Longrightarrow> goes_on r T_string s"
proof -
  have "token_start quote" by (simp add: token_start_def)
  from next_lead [OF assms(1,2) this assms(3)] obtain r' where
    r': "jr_next r = next_value r'" "jr_rest r' = quote # b @ quote # s" "jr_ended r'"
    by blast
  have "butlast (text_between (b @ quote # s) s) = b" by (simp add: text_between_def)
  with r' read_body_plain [OF assms(4,5)]
  show "skipWs s \<noteq> [] \<and> hd (skipWs s) = CHR '':'' \<Longrightarrow>
      \<exists>r'. jr_next r = (T_key, r') \<and> jr_value r' = b \<and> jr_ended r' \<and> jr_rest r' = skipWs s"
    and "\<not> (skipWs s \<noteq> [] \<and> hd (skipWs s) = CHR '':'') \<Longrightarrow> goes_on r T_string s"
    by (simp_all add: next_value_def next_string_def Let_def goes_on_def)
qed

lemma next_number_token:
  assumes "lead (jr_rest r) (v @ rest)" "loose_number v" "CHR 0x00 \<notin> set v" "ends_value rest" "jr_ended r"
  shows "goes_on r T_number rest"
proof -
  obtain c cs where v: "v = c # cs" "c = CHR ''-'' \<or> is_digit c" "list_all number_char cs"
    using assms(2) by (auto simp: loose_number_code neq_Nil_conv)
  have c: "token_start c" "skipWs (v @ rest) = c # cs @ rest"
    using v(1,2) digit_other(1) [of c] by (auto simp: token_start_def is_ws_def is_digit_def)
  obtain r' where r': "jr_next r = next_value r'" "jr_rest r' = c # cs @ rest" "jr_ended r'"
    using next_lead [OF assms(1) c(2,1) assms(5)] by blast
  have "\<forall>d\<in>set cs. numeric_char d"
    using v(1,3) assms(3) by (auto simp: list_all_iff number_char_def numeric_char_def)
  then have "dropWhile numeric_char (cs @ rest) = dropWhile numeric_char rest" by simp
  moreover have "numeric_char e \<Longrightarrow> number_char e" for e by (auto simp: number_char_def numeric_char_def)
  ultimately have d: "dropWhile numeric_char (cs @ rest) = rest"
    using assms(4) by (cases rest) (auto simp: ends_value_def)
  have "next_value r' = next_number r'"
    using v(2) r'(2) by (elim disjE) (simp_all add: next_value_def digit_other)
  moreover have "next_number r' = (T_number, r'\<lparr>jr_value := text_between (jr_rest r') rest, jr_rest := rest\<rparr>)"
    using v(2) r' d by (auto simp: next_number_def Let_def numeric_char_def)
  ultimately show ?thesis using r' by (simp add: goes_on_def)
qed

lemma next_literal_token:
  assumes "lead (jr_rest r) (v @ rest)" "v \<in> {''true'', ''false'', ''null''}" "jr_ended r"
  shows "goes_on r (token_of v) rest"
proof -
  obtain c cs where v: "v = c # cs" "token_start c"
    using assms(2) by (auto simp: token_start_def is_ws_def)
  have "skipWs (v @ rest) = c # cs @ rest" using v by (simp add: token_start_def)
  from next_lead [OF assms(1) this v(2) assms(3)] obtain r' where
    r': "jr_next r = next_value r'" "jr_rest r' = v @ rest" "jr_ended r'"
    using v(1) by auto
  have "next_value r' = (token_of v, r'\<lparr>jr_value := v, jr_rest := rest\<rparr>)"
    using assms(2) r'(2,3) by (elim insertE emptyE) (simp_all add: next_value_def next_literal_def token_of_def)
  with r' show ?thesis by (simp add: goes_on_def)
qed

text \<open>What follows a value: the end of a number, and not the mark of a key.\<close>

definition may_follow :: "string \<Rightarrow> bool" where
  "may_follow s \<longleftrightarrow> ends_value s \<and> \<not> (skipWs s \<noteq> [] \<and> hd (skipWs s) = CHR '':'')"

lemma follows_closing: "white w \<Longrightarrow> closing t \<Longrightarrow> may_follow (w @ t)"
  by (auto simp: may_follow_def ends_value_white closing_not_white) (auto simp: closing_def)

lemma first_token:
  assumes "loose_value n v" "lead (jr_rest r) (v @ rest)" "plain_text v" "may_follow rest" "jr_ended r"
  shows "fst (jr_next r) = token_of v"
  using assms(1)
proof (cases rule: value_of.cases)
  case string_value
  then obtain b where b: "v = quote # b @ [quote]" "string_body b" by (auto simp: loose_string_def)
  have "no_unicode b"
    using assms(3) no_unicode_append [of "[quote]" "b @ [quote]"] no_unicode_append [of b] b(1)
    by (simp add: plain_text_def)
  then have "goes_on r T_string rest"
    using next_string_token(2) [OF assms(2) _ assms(5) b(2), of rest] b(1) assms(4) by (simp add: may_follow_def)
  then show ?thesis using b(1) by (auto simp: goes_on_def token_of_def)
next
  case number_value
  then have "goes_on r T_number rest"
    using assms by (intro next_number_token) (auto simp: plain_text_def may_follow_def)
  moreover obtain c cs where "v = c # cs" "c = CHR ''-'' \<or> is_digit c"
    using number_value by (auto simp: loose_number_code neq_Nil_conv)
  then have "token_of v = T_number" by (elim disjE) (simp_all add: token_of_def digit_other)
  ultimately show ?thesis by (auto simp: goes_on_def)
next
  case literal_value
  then show ?thesis using next_literal_token [OF assms(2) _ assms(5)] by (auto simp: goes_on_def)
qed (use assms(2,5) next_bracket [of r "v @ rest" "CHR ''{''" _ T_object_start]
       next_bracket [of r "v @ rest" "CHR ''[''" _ T_array_start] in \<open>auto simp: goes_on_def token_of_def\<close>)

section \<open>Skipping a value in a search\<close>

definition skips :: "string \<Rightarrow> nat \<Rightarrow> json_reader \<Rightarrow> string \<Rightarrow> bool" where
  "skips target d r s \<longleftrightarrow>
     (\<exists>r'. jr_ended r' \<and> jr_rest r' = s \<and> find_key_loop target d r = find_key_loop target d r')"

lemma skips_word:
  assumes "goes_on r t s" "t = T_string \<or> t = T_number \<or> t = T_boolean \<or> t = T_null"
  shows "skips target d r s"
proof -
  obtain r' where "jr_next r = (t, r')" "jr_ended r'" "jr_rest r' = s" using assms(1) by (auto simp: goes_on_def)
  then show ?thesis
    using assms(2) unfolding skips_def by (subst find_key_loop.simps) (auto simp: stops_def)
qed

lemma find_open:
  assumes "goes_on r t s" "container t"
  obtains r' where "jr_ended r'" "jr_rest r' = s"
    "find_key_loop target d r = find_key_loop target (Suc d) r'"
proof -
  obtain r' where "jr_next r = (t, r')" "jr_ended r'" "jr_rest r' = s" using assms(1) by (auto simp: goes_on_def)
  then show thesis
    using assms(2) by (intro that [of r']) (auto simp: find_key_loop.simps [of target d r] stops_def container_def)
qed

lemma find_close:
  assumes "goes_on r t s" "t = T_object_end \<or> t = T_array_end"
  obtains r' where "jr_ended r'" "jr_rest r' = s"
    "find_key_loop target (Suc d) r = find_key_loop target d r'"
proof -
  obtain r' where "jr_next r = (t, r')" "jr_ended r'" "jr_rest r' = s" using assms(1) by (auto simp: goes_on_def)
  then show thesis
    using assms(2) by (intro that [of r']) (auto simp: find_key_loop.simps [of target "Suc d" r] stops_def)
qed

text \<open>A container whose content is skipped is skipped.\<close>

lemma skips_container:
  assumes "lead (jr_rest r) (c # body @ c' # rest)" "jr_ended r"
    and "(c, c') = (CHR ''{'', CHR ''}'') \<or> (c, c') = (CHR ''['', CHR '']'')"
    and "\<And>r. jr_ended r \<Longrightarrow> jr_rest r = body @ c' # rest \<Longrightarrow>
      \<exists>w. white w \<and> skips target (Suc d) r (w @ c' # rest)"
  shows "skips target d r rest"
proof -
  let ?t = "if c = CHR ''{'' then T_object_start else T_array_start"
  let ?t' = "if c = CHR ''{'' then T_object_end else T_array_end"
  have "goes_on r ?t (body @ c' # rest)"
    using assms(1-3) by (intro next_bracket [of _ _ c]) auto
  then obtain r1 where r1: "jr_ended r1" "jr_rest r1 = body @ c' # rest"
    "find_key_loop target d r = find_key_loop target (Suc d) r1"
    by (rule find_open [of _ _ _ target d]) (auto simp: container_def)
  obtain w r2 where r2: "white w" "jr_ended r2" "jr_rest r2 = w @ c' # rest"
    "find_key_loop target (Suc d) r1 = find_key_loop target (Suc d) r2"
    using assms(4) [OF r1(1,2)] by (auto simp: skips_def)
  have "lead (jr_rest r2) (c' # rest)" using r2(1,3) unfolding lead_def by (intro exI [of _ w] exI [of _ "[]"]) simp
  then have "goes_on r2 ?t' rest"
    using assms(3) r2(2) by (intro next_bracket [of _ _ c']) auto
  then obtain r3 where "jr_ended r3" "jr_rest r3 = rest"
    "find_key_loop target (Suc d) r2 = find_key_loop target d r3"
    by (rule find_close [of _ _ _ target d]) auto
  with r1 r2 show ?thesis unfolding skips_def by auto
qed

lemma lead_white: "lead s (w @ x) \<Longrightarrow> white w \<Longrightarrow> lead s x"
  unfolding lead_def by (metis append.assoc white_append)

lemma lead_here: "white w \<Longrightarrow> lead (w @ x) x"
  unfolding lead_def by (intro exI [of _ w] exI [of _ "[]"]) simp

lemma leadI:
  "white w0 \<Longrightarrow> white w \<Longrightarrow> sep = [] \<or> sep = '':'' \<or> sep = '','' \<Longrightarrow> lead (w0 @ sep @ w @ x) x"
  unfolding lead_def by blast

lemma lead_colon: "white w \<Longrightarrow> lead (CHR '':'' # w @ x) x"
  using leadI [of "[]" w "'':''" x] by simp

lemma lead_comma: "white w \<Longrightarrow> lead (w @ CHR '','' # x) x"
  using leadI [of w "[]" "'',''" x] by simp

lemma plain_string: "plain_text (quote # b @ [quote]) \<Longrightarrow> no_unicode b"
  using no_unicode_append [of "[quote]" "b @ [quote]"] no_unicode_append [of b "[quote]"]
  by (simp add: plain_text_def)

lemma next_key:
  assumes "lead (jr_rest r) (w1 @ (quote # b @ [quote]) @ w2 @ '':'' @ w3 @ x)" "jr_ended r"
    and "white w1" "string_body b" "no_unicode b" "white w2" "white w3"
  obtains r' where "jr_next r = (T_key, r')" "jr_value r' = b" "jr_ended r'" "lead (jr_rest r') x"
proof -
  let ?s = "w2 @ CHR '':'' # w3 @ x"
  have l: "lead (jr_rest r) (quote # b @ quote # ?s)" using lead_white [OF assms(1,3)] by simp
  have "\<exists>r'. jr_next r = (T_key, r') \<and> jr_value r' = b \<and> jr_ended r' \<and> jr_rest r' = skipWs ?s"
    using next_string_token(1) [OF l _ assms(2,4,5), of ?s] assms(6) by simp
  then obtain r' where r': "jr_next r = (T_key, r')" "jr_value r' = b" "jr_ended r'" "jr_rest r' = skipWs ?s"
    by blast
  moreover have "lead (skipWs ?s) x" using lead_colon assms(6,7) by simp
  ultimately show thesis by (intro that) auto
qed

lemma skips_key:
  assumes "jr_next r = (T_key, r')" "0 < d \<or> jr_value r' \<noteq> target"
  shows "find_key_loop target d r = find_key_loop target d r'"
  using assms by (subst find_key_loop.simps) (auto simp: stops_def)

lemma skips_trans:
  assumes "skips target d r s" "\<And>r1. jr_ended r1 \<Longrightarrow> jr_rest r1 = s \<Longrightarrow> skips target d r1 s'"
  shows "skips target d r s'"
  using assms unfolding skips_def by metis

lemma skips_member:
  assumes "lead (jr_rest r) (w1 @ k @ w2 @ '':'' @ w3 @ x)" "jr_ended r" "white w1" "loose_string k" "plain_text k"
    "white w2" "white w3"
    and x: "\<And>r1. jr_ended r1 \<Longrightarrow> lead (jr_rest r1) x \<Longrightarrow> skips target (Suc d) r1 s"
  shows "skips target (Suc d) r s"
proof -
  obtain b where b: "k = quote # b @ [quote]" "string_body b" using assms(4) by (auto simp: loose_string_def)
  with assms(5) have nu: "no_unicode b" by (simp add: plain_string)
  obtain r1 where r1: "jr_next r = (T_key, r1)" "jr_ended r1" "lead (jr_rest r1) x"
    by (rule next_key [OF assms(1) [unfolded b(1)] assms(2,3) b(2) nu assms(6,7)])
  have "find_key_loop target (Suc d) r = find_key_loop target (Suc d) r1" using r1(1) by (rule skips_key) simp
  with x [OF r1(2,3)] show ?thesis by (simp add: skips_def)
qed

lemma skips_value:
  "loose_value n v \<Longrightarrow> plain_text v \<Longrightarrow> lead (jr_rest r) (v @ rest) \<Longrightarrow> may_follow rest \<Longrightarrow> jr_ended r \<Longrightarrow>
     skips target d r rest"
  "loose_members n ms \<Longrightarrow> plain_text ms \<Longrightarrow> lead (jr_rest r') (ms @ t) \<Longrightarrow> closing t \<Longrightarrow> jr_ended r' \<Longrightarrow>
     \<exists>w. white w \<and> skips target (Suc d') r' (w @ t)"
  "loose_elements n es \<Longrightarrow> plain_text es \<Longrightarrow> lead (jr_rest r'') (es @ t') \<Longrightarrow> closing t' \<Longrightarrow> jr_ended r'' \<Longrightarrow>
     \<exists>w. white w \<and> skips target (Suc d'') r'' (w @ t')"
proof (induction arbitrary: r rest d and r' t d' and r'' t' d''
    rule: loose_induct)
  case (string_value s n)
  then obtain b where b: "s = quote # b @ [quote]" "string_body b" by (auto simp: loose_string_def)
  with string_value.prems have "goes_on r T_string rest"
    using next_string_token(2) [OF _ _ _ b(2) plain_string, of r "s @ rest" rest] by (simp add: may_follow_def)
  then show ?case by (rule skips_word) simp
next
  case (number_value s n)
  then have "goes_on r T_number rest" by (intro next_number_token) (auto simp: plain_text_def may_follow_def)
  then show ?case by (rule skips_word) simp
next
  case (literal_value s n)
  then have "goes_on r (token_of s) rest" by (intro next_literal_token) auto
  then show ?case using literal_value.hyps by (auto intro: skips_word simp: token_of_def)
next
  case (empty_object w n)
  then show ?case
    by (intro skips_container [of r "CHR ''{''" w "CHR ''}''" rest])
      (auto simp: skips_def)
next
  case (object n ms)
  have "plain_text ms" using object.prems(1) plain_append [of ms "''}''"] plain_Cons by force
  with object show ?case
    by (intro skips_container [of r "CHR ''{''" ms "CHR ''}''" rest])
      (auto intro!: object.IH lead_here [of "[]", simplified])
next
  case (empty_array w n)
  then show ?case
    by (intro skips_container [of r "CHR ''[''" w "CHR '']''" rest])
      (auto simp: skips_def)
next
  case (array n es)
  have "plain_text es" using array.prems(1) plain_append [of es "'']''"] plain_Cons by force
  with array show ?case
    by (intro skips_container [of r "CHR ''[''" es "CHR '']''" rest])
      (auto intro!: array.IH lead_here [of "[]", simplified])
next
  case (member w1 k w2 w3 n v w4)
  then have pl: "plain_text k" "plain_text v" by (auto dest!: plain_append plain_Cons)
  have "skips target (Suc d') r' (w4 @ t)"
  proof (rule skips_member)
    show "lead (jr_rest r') (w1 @ k @ w2 @ '':'' @ w3 @ v @ w4 @ t)" using member.prems(2) by simp
    show "skips target (Suc d') r1 (w4 @ t)" if "jr_ended r1" "lead (jr_rest r1) (v @ w4 @ t)" for r1
      using member.IH [OF pl(2) that(2) _ that(1)] member by (simp add: follows_closing)
  qed (use member pl in simp_all)
  with member.hyps show ?case by blast
next
  case (more_members w1 k w2 w3 n v w4 ms)
  then have pl: "plain_text k" "plain_text v" "plain_text ms" by (auto dest!: plain_append plain_Cons)
  have "skips target (Suc d') r' (w4 @ CHR '','' # ms @ t)"
  proof (rule skips_member)
    show "lead (jr_rest r') (w1 @ k @ w2 @ '':'' @ w3 @ v @ w4 @ CHR '','' # ms @ t)"
      using more_members.prems(2) by simp
    show "skips target (Suc d') r1 (w4 @ CHR '','' # ms @ t)"
      if "jr_ended r1" "lead (jr_rest r1) (v @ w4 @ CHR '','' # ms @ t)" for r1
      using more_members.IH(1) [OF pl(2) that(2) _ that(1)] more_members by (simp add: follows_closing)
  qed (use more_members pl in simp_all)
  then obtain r1 where r1: "jr_ended r1" "jr_rest r1 = w4 @ CHR '','' # ms @ t"
    "find_key_loop target (Suc d') r' = find_key_loop target (Suc d') r1"
    by (auto simp: skips_def)
  have "lead (jr_rest r1) (ms @ t)" using r1(2) more_members.hyps by (simp add: lead_comma)
  from more_members.IH(2) [OF pl(3) this more_members.prems(3) r1(1)] r1(3) show ?case
    by (simp add: skips_def)
next
  case (element w1 n v w2)
  then have pl: "plain_text v" by (auto dest!: plain_append)
  have "lead (jr_rest r'') (v @ w2 @ t')" using lead_white [of _ w1] element by simp
  from element.IH [OF pl this] element show ?case by (auto simp: follows_closing)
next
  case (more_elements w1 n v w2 es)
  then have pl: "plain_text v" "plain_text es" by (auto dest!: plain_append plain_Cons)
  have "lead (jr_rest r'') (v @ w2 @ CHR '','' # es @ t')" using lead_white [of _ w1] more_elements by simp
  then have "skips target (Suc d'') r'' (w2 @ CHR '','' # es @ t')"
    using more_elements.IH(1) [OF pl(1)] more_elements by (simp add: follows_closing)
  then obtain r1 where r1: "jr_ended r1" "jr_rest r1 = w2 @ CHR '','' # es @ t'"
    "find_key_loop target (Suc d'') r'' = find_key_loop target (Suc d'') r1"
    by (auto simp: skips_def)
  have "lead (jr_rest r1) (es @ t')" using r1(2) more_elements.hyps by (simp add: lead_comma)
  from more_elements.IH(2) [OF pl(2) this more_elements.prems(3) r1(1)] r1(3) show ?case
    by (simp add: skips_def)
qed

section \<open>Finding a member\<close>

definition found_as :: "nat \<Rightarrow> string option \<Rightarrow> bool \<times> json_reader \<Rightarrow> bool" where
  "found_as n value res =
     (case value of
        None \<Rightarrow> \<not> fst res
      | Some v \<Rightarrow> fst res \<and> jr_ended (snd res) \<and> loose_value n v \<and> plain_text v \<and>
          (\<exists>rest. lead (jr_rest (snd res)) (v @ rest) \<and> may_follow rest))"

text \<open>One member: its value is found, or the search goes on behind it.\<close>

lemma find_at_member:
  assumes "lead (jr_rest r) (w1 @ (quote # k @ [quote]) @ w2 @ '':'' @ w3 @ v @ rest)" "jr_ended r"
    and "white w1" "string_body k" "no_unicode k" "white w2" "white w3" "loose_value n v" "plain_text v" "may_follow rest"
  shows "if k = target then found_as n (Some v) (find_key_loop target 0 r) else skips target 0 r rest"
proof -
  obtain r1 where r1: "jr_next r = (T_key, r1)" "jr_value r1 = k" "jr_ended r1" "lead (jr_rest r1) (v @ rest)"
    by (rule next_key [OF assms(1-7)])
  show ?thesis
  proof (cases "k = target")
    case True
    then have "find_key_loop target 0 r = (True, r1)"
      using r1 by (subst find_key_loop.simps) (simp add: stops_def)
    with True r1 assms(8-10) show ?thesis by (auto simp: found_as_def)
  next
    case False
    then have "find_key_loop target 0 r = find_key_loop target 0 r1" using r1 by (intro skips_key) auto
    with False skips_value(1) [OF assms(8,9) r1(4) assms(10) r1(3)] show ?thesis by (simp add: skips_def)
  qed
qed

lemma find_end:
  assumes "lead (jr_rest r) (CHR ''}'' # t)" "jr_ended r"
  shows "\<not> fst (find_key_loop target 0 r)"
proof -
  have "goes_on r T_object_end t" using assms by (intro next_bracket [of _ _ "CHR ''}''"]) auto
  then show ?thesis by (subst find_key_loop.simps) (auto simp: goes_on_def stops_def)
qed

lemma find_member:
  "member_list n kvs ms \<Longrightarrow> plain_text ms \<Longrightarrow> lead (jr_rest r) (ms @ CHR ''}'' # t) \<Longrightarrow> jr_ended r \<Longrightarrow>
     found_as n (map_of kvs target) (find_key_loop target 0 r)"
proof (induction arbitrary: r rule: member_list.induct)
  case (last_member w1 k w2 w3 n v w4)
  then have "plain_text k" and pl: "plain_text v" by (auto dest!: plain_append plain_Cons)
  then have nu: "no_unicode k" by (simp add: plain_text_def)
  have l: "lead (jr_rest r) (w1 @ (quote # k @ [quote]) @ w2 @ '':'' @ w3 @ v @ (w4 @ CHR ''}'' # t))"
    using last_member.prems(2) by simp
  have f: "may_follow (w4 @ CHR ''}'' # t)" using last_member.hyps by (intro follows_closing) auto
  note step = find_at_member [OF l last_member.prems(3) last_member.hyps(1,2) nu last_member.hyps(3-5) pl f,
      of target]
  show ?case
  proof (cases "k = target")
    case True
    with step show ?thesis by simp
  next
    case False
    with step obtain r1 where r1: "jr_ended r1" "jr_rest r1 = w4 @ CHR ''}'' # t"
      "find_key_loop target 0 r = find_key_loop target 0 r1"
      by (auto simp: skips_def)
    then have "\<not> fst (find_key_loop target 0 r1)"
      using last_member.hyps by (intro find_end [of _ t]) (simp_all add: lead_here)
    with False r1(3) show ?thesis by (simp add: found_as_def)
  qed
next
  case (one_more w1 k w2 w3 n v w4 kvs ms)
  then have "plain_text k" and pl: "plain_text v" "plain_text ms" by (auto dest!: plain_append plain_Cons)
  then have nu: "no_unicode k" by (simp add: plain_text_def)
  have l: "lead (jr_rest r) (w1 @ (quote # k @ [quote]) @ w2 @ '':'' @ w3 @ v @ (w4 @ CHR '','' # ms @ CHR ''}'' # t))"
    using one_more.prems(2) by simp
  have f: "may_follow (w4 @ CHR '','' # ms @ CHR ''}'' # t)" using one_more.hyps by (intro follows_closing) auto
  note step = find_at_member [OF l one_more.prems(3) one_more.hyps(1,2) nu one_more.hyps(3-5) pl(1) f,
      of target]
  show ?case
  proof (cases "k = target")
    case True
    with step show ?thesis by simp
  next
    case False
    with step obtain r1 where r1: "jr_ended r1" "jr_rest r1 = w4 @ CHR '','' # ms @ CHR ''}'' # t"
      "find_key_loop target 0 r = find_key_loop target 0 r1"
      by (auto simp: skips_def)
    then have "lead (jr_rest r1) (ms @ CHR ''}'' # t)" using one_more.hyps by (simp add: lead_comma)
    with one_more.IH [OF pl(2) _ r1(1)] False r1(3) show ?thesis by auto
  qed
qed

section \<open>Properties\<close>

lemma path_without_points: "CHR ''.'' \<notin> set path \<Longrightarrow> path_segments path = [path]"
  by (induction path) auto

lemma members_of_list: "member_list n kvs ms \<Longrightarrow> loose_members n ms"
proof (induction rule: member_list.induct)
  case (last_member w1 k w2 w3 n v w4)
  then show ?case using member [of w1 loose_string "quote # k @ [quote]" w2 w3 loose_number n v w4] by (simp add: loose_string_quote)
next
  case (one_more w1 k w2 w3 n v w4 kvs ms)
  then show ?case using more_members [of w1 loose_string "quote # k @ [quote]" w2 w3 loose_number n v w4 ms] by (simp add: loose_string_quote)
qed

text \<open>
  C18: \<open>JsonReader::get\<close> looks a key up. In the text of an object, with any white space and
  any nesting of its values, \<open>get\<close> with a key returns the kind of the value of the first member
  with that key, and \<open>error\<close> when there is none: as a map from keys to values. Keys of
  objects inside the values are passed over. The text has no escape \<open>\u\<close> and no zero
  byte.
\<close>

theorem get_finds_member:
  assumes "member_list n kvs ms" "json = w @ ''{'' @ ms @ ''}'' @ rest" "white w" "plain_text ms" "CHR ''.'' \<notin> set path"
  shows "fst (jr_get path (JsonReader json)) =
    (case map_of kvs path of None \<Rightarrow> T_error | Some v \<Rightarrow> token_of v)"
proof -
  let ?r = "jr_reset (JsonReader json)"
  have "jr_rest ?r = ''{'' @ ms @ ''}'' @ rest" "jr_ended ?r"
    using assms(2,3) by (simp_all add: jr_reset_def JsonReader_def skipWhitespace_def)
  then have "goes_on ?r T_object_start (ms @ CHR ''}'' # rest)"
    using lead_here [of "[]"] by (intro next_bracket [of _ "jr_rest ?r" "CHR ''{''"]) auto
  then obtain r1 where r1: "jr_next ?r = (T_object_start, r1)" "jr_ended r1" "jr_rest r1 = ms @ CHR ''}'' # rest"
    by (auto simp: goes_on_def)
  have f: "found_as n (map_of kvs path) (find_key_loop path 0 r1)"
    using assms(1,4) r1 lead_here [of "[]" "jr_rest r1"] by (intro find_member) auto
  have g: "jr_get path (JsonReader json) = get_segment T_object_start path r1"
    using r1(1) assms(5) by (simp add: jr_get_def container_def path_without_points split: prod.splits)
  show ?thesis
  proof (cases "map_of kvs path")
    case None
    with f g show ?thesis by (auto simp: found_as_def get_segment_def findKey_def split: prod.splits)
  next
    case (Some v)
    with f obtain r2 rest' where "find_key_loop path 0 r1 = (True, r2)" and r2: "jr_ended r2" "loose_value n v"
      "plain_text v" "lead (jr_rest r2) (v @ rest')" "may_follow rest'"
      by (cases "find_key_loop path 0 r1") (auto simp: found_as_def)
    moreover have "fst (jr_next r2) = token_of v" using r2 by (intro first_token)
    moreover have "token_of v \<noteq> T_need_more_data" by (simp add: token_of_def Let_def)
    ultimately show ?thesis
      using Some g by (auto simp: get_segment_def findKey_def split: prod.splits)
  qed
qed

theorem get_finds_member_witness:
  "fst (jr_get ''b'' (JsonReader (''{'' @ [quote, CHR ''a'', quote] @ '':1, '' @
     [quote, CHR ''b'', quote] @ '':true}''))) = T_boolean"
proof -
  let ?ms = "[quote, CHR ''a'', quote] @ '':1, '' @ [quote, CHR ''b'', quote] @ '':true''"
  have "white '' ''" by (simp add: white_def is_ws_def)
  then have "member_list 0 [(''b'', ''true'')] ('' '' @ [quote] @ ''b'' @ [quote] @ [] @ '':'' @ [] @ ''true'' @ [])"
    by (intro last_member) (simp_all add: literal_value)
  then have "member_list 0 [(''a'', ''1''), (''b'', ''true'')] ([] @ [quote] @ ''a'' @ [quote] @ [] @ '':'' @ [] @
      ''1'' @ [] @ '','' @ ('' '' @ [quote] @ ''b'' @ [quote] @ [] @ '':'' @ [] @ ''true'' @ []))"
    by (intro one_more) (simp_all add: number_value loose_number_code is_digit_def)
  then have "member_list 0 [(''a'', ''1''), (''b'', ''true'')] ?ms" by simp
  moreover have "plain_text ?ms" by (simp add: plain_text_def)
  ultimately show ?thesis
    using get_finds_member [of 0 "[(''a'', ''1''), (''b'', ''true'')]" ?ms _ "[]" "[]" "''b''", OF _ refl]
    by (simp add: token_of_def)
qed

text \<open>
  The escape \<open>\u\<close> takes four characters along even when the string ends before: a text that
  \<open>validate\<close> accepts is then read differently, and the member behind it is not found.
\<close>

theorem unicode_escape_hides_member:
  "let json = ''{'' @ [quote, CHR ''a'', quote, CHR '':'', quote, backslash, CHR ''u'', CHR ''1'', quote, CHR '','',
     quote, CHR ''b'', quote, CHR '':'', CHR ''2'', CHR ''}'']
   in validate_json json \<and> fst (jr_get ''b'' (JsonReader json)) = T_error"
  by code_simp

text \<open>
  The search for an element does not stop at the end of its array: the third element of an
  array with one element is the element behind that array.
\<close>

theorem index_leaves_array:
  "fst (jr_get ''0.2'' (JsonReader ''[[1],2]'')) = T_number"
proof -
  have "parseIndex ''0'' = Some 0" "parseIndex ''2'' = Some (Suc (Suc 0))"
    by (simp_all add: parseIndex_def is_digit_def)
  then show ?thesis
    by (simp add: jr_get_def JsonReader_def jr_reset_def skipWhitespace_def skipWs_def is_ws_def jr_next_def
        next_value_def bracket_def next_number_def numeric_char_def is_digit_def container_def
        get_segment_def skipValue_def stops_def Let_def)
qed

end
