(* ===== verification/Spec2Isabelle.thy ===== *)
theory Spec2Isabelle
  imports Small_Byte_Vector Containers Active_Exchange Reactive_Exchange Handler_Safety Scheduling Poll_Manager Bridge_Session Bridge_Sections Reactor_Events Typed_Names Json_Lookup
begin

text \<open>
  A verification development for the eBUS library: the protocol stack that listens to,
  arbitrates for and talks on an eBUS, and the scheduler that queues messages for it.

  \<^bold>\<open>The program.\<close> The physical layer turns the line into \<open>BusEvent\<close>s (a byte, with the marks
  that a bus request was written or a start bit was disturbed). \<open>BusHandler::onBusEvent\<close>
  passes each event first to \<open>Request\<close>, the arbitration machine with its lock counter, and
  then to \<open>Handler\<close>, the protocol machine with fifteen states. The handler receives
  telegrams of others (passive), answers telegrams addressed to it (reactive) and sends
  its own (active); it reports telegrams and errors through callbacks and writes at most
  one byte per event. \<open>Scheduler\<close> keeps a priority queue of messages, hands the first one
  that is due to the handler, turns the callbacks into events, and repeats failed
  attempts. \<open>PollManager\<close> repeats commands at intervals, \<open>DeviceManager\<close> keeps what is known of
  the devices on the bus, \<open>DeviceScanner\<close> asks them to identify themselves. \<open>ClientManager\<close> is a
  bridge: network clients see the traffic, and one at a time may send in a session of its
  own. \<open>Reactor\<close> is the loop that drives scheduler, polls and scans, and hands telegrams, errors and bus
  bytes to the callbacks of the user; the threads reach it through bounded queues.
  \<open>Telegram\<close>, \<open>Sequence\<close> and the checksum are the data the handler works on;
  \<open>BusMonitor\<close> collects metrics.

  \<^bold>\<open>The theories\<close>, in the order of the code they model (files under \<open>src/\<close>):
  \<^item> \<open>Ebus_Prelude\<close>: types of machine integers, generic lemmas. \<open>Ebus_Types\<close>: the enumerations
    of \<open>include/ebus/types.hpp\<close> with \<open>core/types.cpp\<close>, symbols and addresses of
    \<open>include/ebus/address.hpp\<close>, limits of \<open>detail/protocol_limits.hpp\<close>.
  \<^item> \<open>Protocol_Math\<close> (\<open>include/ebus/protocol_math.hpp\<close>): the checksum and its algebra.
    \<open>Small_Byte_Vector\<close> and \<open>Byte_Sequence\<close> (\<open>include/ebus/sequence.hpp\<close>): the vector with an
    inline buffer, an allocator that may fail and, where it does not, a refinement to lists; escaping in place
    (locales \<open>byte_vector\<close>, \<open>allocator\<close>). \<open>Telegram\<close> (\<open>core/telegram.hpp\<close>): construction and parsing of telegrams.
  \<^item> \<open>Containers\<close> (\<open>utils/circular_buffer.hpp\<close>, \<open>include/ebus/static_vector.hpp\<close>): locale
    \<open>history_buffer\<close> and its interpretation by the ring. \<open>Bus_Monitor\<close> (\<open>core/bus_monitor.cpp\<close>,
    \<open>utils/timing_stats.hpp\<close>, \<open>include/ebus/metrics.hpp\<close>).
  \<^item> \<open>Arbitration\<close> (\<open>core/request.cpp\<close>); \<open>Protocol_Handler\<close> (\<open>core/handler.cpp\<close>), one definition
    per state function and helper; \<open>Bus_Handler\<close> (\<open>core/bus_handler.cpp\<close>), the composition.
  \<^item> \<open>Handler_Telemetry\<close>: locale \<open>handler_frame\<close>, the state transformations every operation of
    the handler commutes with, interpreted for erasing the monitor and for prepending
    earlier outputs. \<open>Handler_Reception\<close>: locale \<open>receiver\<close>, the reception of one part of a
    telegram byte by byte, interpreted for the three receiving states. \<open>Exchanges\<close>,
    \<open>Active_Exchange\<close>, \<open>Reactive_Exchange\<close>: whole exchanges as a listener, a sender and an
    addressed participant see them. \<open>Handler_Safety\<close>: what holds at every step.
  \<^item> \<open>Heap_Queue\<close>: the heap algorithms of the standard library, locales \<open>heap_order\<close> and
    \<open>priority_queue\<close>. \<open>Scheduler\<close> (\<open>app/scheduler.cpp\<close>) with its step relation and invariant, and
    interpretations of both locales on its queue. \<open>Scheduling\<close>: its properties.
  \<^item> \<open>Poll_Manager\<close> (\<open>app/poll_manager.cpp\<close>), with the same locales interpreted on its heap.
    \<open>Device_Manager\<close> (\<open>models/device.cpp\<close>, \<open>app/device_manager.cpp\<close>): the inventory of devices and its
    refinement to a map from addresses. \<open>Device_Scanner\<close> (\<open>app/device_scanner.cpp\<close>).
  \<^item> \<open>Bridge_Client\<close> (\<open>app/client.cpp\<close>, \<open>app/enhanced_protocol.hpp\<close>): the clients of the bridge and their
    two-byte codes. \<open>Client_Manager\<close> (\<open>app/client_manager.cpp\<close>): slots, sessions, forwarding and the
    socket thread, with the step relation \<open>bridge_step\<close> and the locale \<open>bridge_property\<close>, what makes a
    property hold throughout a run, interpreted for the invariant and for a session without
    a sender. \<open>Bridge_Session\<close>: the bridge on top of the bus handler; locale \<open>sender\<close>, what the
    manager relies on in a client, interpreted for both kinds of clients that may send. \<open>Bridge_Sections\<close>: the
    sections of the bridge under its mutex as steps of their own, so that those of the bus thread, of the
    socket thread and of the users interleave; the calls are shown to be runs of them.
  \<^item> \<open>Platform_Queue\<close> (\<open>platform/posix/queue_posix.hpp\<close>): the queue between threads and its refinement to a
    bounded list; locale \<open>bounded_queue\<close>, what its users rely on. \<open>Reactor\<close> (\<open>app/reactor.cpp\<close>): the
    queues, the events and the iteration of the loop. \<open>Reactor_Loop\<close>: the step relation of the reactor and
    its environment, locale \<open>queue_property\<close> for what holds of its queues in every run, interpreted for
    their consistency and for the state after \<open>stop\<close>. \<open>Reactor_Events\<close>: what happens to events, and
    the scheduler inside the reactor up to telemetry.
  \<^item> \<open>Single_Float\<close>: the numbers of type \<open>float\<close> as bit patterns, with a bound for the error of an
    operation. \<open>Typed_Data\<close> (\<open>models/data_types.cpp\<close>): the table of data types, \<open>decode\<close> and \<open>encode\<close>.
    \<open>Typed_Codec\<close>: their round trips. \<open>Typed_Names\<close>: locale \<open>sorted_keys\<close>, the binary search
    of the standard library in a sorted table, interpreted on the names of the types.
  \<^item> \<open>Json_Validator\<close> and \<open>Json_Reader\<close> (\<open>utils/json_reader.cpp\<close>): the validator of configurations and the pull
    parser. \<open>Json_Grammar\<close>: the grammar of JSON, the looser one of the accepted texts, and the proof that the
    validator accepts all of the first and exactly the second.
    \<open>Json_Lookup\<close>: the search by key as the lookup in a map.

  \<^bold>\<open>The model.\<close> Classes are records, the methods are functions on them; \<open>Request\<close> and
  \<open>Handler\<close> share one extensible record, so that the callbacks between them are ordinary
  calls. Callbacks to the outside, bus writes and events are lists of outputs. Bytes and
  counters are words of their width, sizes are naturals, points in time are integers. A
  clock is a function from the number of the reading to the value read. Bytes that lie
  behind the end of a buffer are a function \<open>past_end\<close>: a read out of bounds returns
  whatever is there, and \<open>reads_in_bounds\<close> shows that the handler does not depend on it.
  The reactive callback of the user, the allocator, and what the operating system reports of
  sockets are parameters of the model. The clients of the bridge are shared objects and
  live in a store; a call that never returns has the value \<open>None\<close>.
  Loops are structural recursion or have a measure, no fuel is used; the one loop that only
  the clock can end, in \<open>PollManager::processDueItems\<close>, is a partial function with the value
  \<open>None\<close> for not returning, and is shown to return. A conversion the C++ standard leaves undefined is
  \<open>None\<close> too.

  \<^bold>\<open>What is shown.\<close> The wire format: escaping is reversible and never produces a SYN inside a
  telegram, the checksum detects single bytes and odd numbers of bits, parsing inverts
  sending. Reception: any traffic of well-formed exchanges is reported exactly, whatever
  the telemetry does. Sending and answering: the bytes written are the ones the protocol
  prescribes, each after the echo of the one before, and a wrong echo ends the sending. The composition of a sender, an addressed participant and a
  listener on one bus agree on every exchange. Arbitration has one winner, the lock
  counter is bounded and runs down. The transition matrix is never violated. The
  scheduler keeps its queue, starts the right item, bounds the attempts, and delivers a
  queued message to the bus and its result back. Due polls that the busy check does not hold back are passed on once
  each and in order as long as no single item has been removed, the inventory of devices is a function of the
  telegrams seen, a full scan asks every address at most once and in ascending order, and leaves out none that
  it has no reason to. A message of the user comes back to the callback as one telegram, the queue of events is
  worked off in order, the queues stay within their bounds in every interleaving. The bytes of a bridge client reach its queue and the bus in order,
  all others are sent every byte, what an enhanced client gets
  can be read back as long as its ring has room, slots and the owner of a session stay consistent in every
  interleaving of the sections under the mutex. Typed
  values: bytes survive decoding and encoding for every type, integers survive encoding and
  decoding but for the replacement value, types are found by name. The validator accepts every JSON document
  nested at most 32 deep, and beyond these exactly what a looser grammar derives, and the reader finds the members of an object. Several theorems document behaviour the
  code should not have: after a SYN instead of an answer, after a start bit, for a refused
  master part, for a failed allocation, for a full queue, for many attempts, for a removed
  poll item, for failed and for complete devices under scan, for a manufacturer's name, and in
  the bridge for a full queue, for two threads in one session, and for a client that
  waits for the bus or hears an answer; in the reactor for a stop, for a lost signal, for a timeout, and for a telegram of
  others that arrives while a message waits; in the typed data for negative numbers and numbers too large; in the JSON
  reader for escapes, indices and several documents in one.

  \<^bold>\<open>Not modelled.\<close> Mutexes, threads and memory order: every operation is atomic, except
  in \<open>Bridge_Sections\<close> and where a theorem names the parts between two locks. Floating
  point: the utilisation of the bus and what depends on it (the typed data are modelled with
  their single-precision arithmetic). Output as JSON or text, JSON fed in pieces. The checks of the configuration.
  The platform layer (UART, sockets, threads, simulation) but for its queue, the
  controller, which creates and connects the parts, and the command line tools.
\<close>

section \<open>One exchange seen by all its participants\<close>

text \<open>
  C1: A master-slave exchange between three handlers on one bus: the one that sends, the one that
  is addressed and one that only listens are fed the same bytes. All three report the same
  master and slave part, exactly once. The bytes on the bus are those that the two talking
  handlers wrote themselves: the sender's first byte (its address, put on the bus by the
  arbitration), its request, the answer of the addressed handler, the sender's
  acknowledgement and the SYN that releases the bus. The listener writes nothing.
\<close>

theorem exchange_between_three:
  assumes a: "free a" "outputs a = []" and m: "m = source_address a # msg" "master_part_ok m"
      "typeOf (m ! 1) = master_slave"
    and b: "idle b" "has_bus b" "protocol_callback b" "outputs b = []"
      "m ! 1 \<noteq> source_address b" "m ! 1 = target_address b" "answers b m r" and r: "slave_part_ok r"
    and c: "idle c" "protocol_callback c" "outputs c = []" "m ! 1 \<noteq> source_address c" "m ! 1 \<noteq> target_address c"
    and e: "plain e1" "ev_byte e1 = syn" "ev_bus_request e2" "\<not> ev_start_bit e2" "ev_byte e2 = syn"
    and evs: "map ev_byte evs = exchange_wire m r" "\<forall>ev \<in> set evs. plain ev"
  defines "A \<equiv> outputs (feed (e1 # e2 # evs) (snd (sendActiveMessage msg a)))"
    and "B \<equiv> outputs (feed evs b)" and "C \<equiv> outputs (feed evs c)"
  shows "reports A = [(m, r)] \<and> reports B = [(m, r)] \<and> reports C = [(m, r)]
    \<and> writes C = [] \<and> (\<exists>request. writes A = request @ [ack, syn] \<and>
        map ev_byte evs @ [syn] = source_address a # request @ writes B @ [ack, syn])"
proof -
  have ne: "stuff (framed m) = source_address a # drop 1 (stuff (framed m))"
    using master_wire(1) [OF m(2)] by (simp add: m(1))
  have A: "A = [RequestWon] @ active_outputs True m r @ [BusWrite syn]"
    using message_exchanged [of a msg r e1 e2 evs] a m r e evs by (simp add: A_def)
  have B: "B = BusWrite ack # map BusWrite (stuff (framed r)) @ [reactive_report m r]"
    using answered_exchange [of b m r evs] b m r evs by (simp add: B_def)
  have "agree (feed evs (forget c)) ((forget c)\<lparr>outputs := outputs c @ [observed_report m r]\<rparr>)"
    using exchange_observed [of "forget c" m r evs] c m r evs by (simp add: idle_def)
  then have C: "C = [observed_report m r]"
    using c unfolding C_def forget_outputs [of evs c, symmetric] by (auto elim!: agreeE simp: step_fields_def)
  show ?thesis
    using ne evs(1) m(3)
    by (simp add: A B C active_outputs_def reactive_report_def observed_report_def telegram_info_def Let_def
        exchange_wire_def)
qed

theorem exchange_between_three_witness:
  "(let a = (sample_handler 0x31)\<lparr>lock_counter := 0\<rparr>; msg = [0x08, 0xb5, 0x09, 0x01, 0xaa]; r = [0x01, 0xa9];
        b = (sample_handler 0x03)\<lparr>reactive_callback := Some (\<lambda>_ _. seq_of [0x01, 0xa9] False)\<rparr>;
        m = [0x31, 0x08, 0xb5, 0x09, 0x01, 0xaa]; wire = map event (exchange_wire m r) in
    reports (outputs (feed (event syn # (event syn)\<lparr>ev_bus_request := True\<rparr> # wire) (snd (sendActiveMessage msg a)))) = [(m, r)]
    \<and> reports (outputs (feed wire b)) = [(m, r)] \<and> reports (outputs (feed wire (sample_handler 0x71))) = [(m, r)])"
proof -
  let ?a = "(sample_handler 0x31)\<lparr>lock_counter := 0\<rparr>" and ?m = "[0x31, 0x08, 0xb5, 0x09, 0x01, 0xaa]"
    and ?b = "(sample_handler 0x03)\<lparr>reactive_callback := Some (\<lambda>_ _. seq_of [0x01, 0xa9] False)\<rparr>"
    and ?c = "sample_handler 0x71"
  have k: "isMaster 0x31" "isMaster 0x03" "isMaster 0x71" "slaveOf 0x03 = 0x08" "slaveOf 0x71 \<noteq> 0x08"
      "master_part_ok ?m" "slave_part_ok [0x01, 0xa9]" "typeOf (?m ! 1) = master_slave"
    by code_simp+
  have a: "free ?a" "outputs ?a = []" "?m = source_address ?a # [0x08, 0xb5, 0x09, 0x01, 0xaa]"
    using k(1) sample_listening by (simp_all add: free_def listening_def idle_def)
  have b: "idle ?b" "has_bus ?b" "protocol_callback ?b" "outputs ?b = []" "?m ! 1 \<noteq> source_address ?b"
      "?m ! 1 = target_address ?b" "answers ?b ?m [0x01, 0xa9]"
    using k sample_listening by (simp_all add: listening_def idle_def answers_def)
  have c: "idle ?c" "protocol_callback ?c" "outputs ?c = []" "?m ! 1 \<noteq> source_address ?c" "?m ! 1 \<noteq> target_address ?c"
    using k sample_listening by (simp_all add: listening_def)
  have e: "plain (event syn)" "ev_byte (event syn) = syn" "ev_bus_request ((event syn)\<lparr>ev_bus_request := True\<rparr>)"
    "\<not> ev_start_bit ((event syn)\<lparr>ev_bus_request := True\<rparr>)" "ev_byte ((event syn)\<lparr>ev_bus_request := True\<rparr>) = syn"
    by (simp_all add: event_def plain_def)
  show ?thesis
    using exchange_between_three [OF a k(6,8) b k(7) c e event_map(1,2)] by (simp add: Let_def del: feed_simps)
qed

end
